(* ===== verification/Prelude.thy ===== *)
theory Prelude
  imports Main
begin

text \<open>
  Shared foundation of the development: the two ways a Rust operation can fail to return
  (a panic, or undefined behaviour), the sequencing of fallible steps, the machine-integer
  operations of a 64-bit target under the two build profiles, and the collections of rules
  the component theories add to.
\<close>

named_theorems ok_simps \<open>successful execution of an operation in a well-formed state\<close>
named_theorems frame_simps \<open>parts of the state an operation leaves alone\<close>

subsection \<open>Failures\<close>

text \<open>
  \<open>AllocError\<close> of \<open>src/mirrored/mod.rs\<close>. It is declared here because a panic can carry it.
\<close>

datatype alloc_error = Oom | Other

text \<open>
  A panic is an orderly, documented failure (an \<open>assert!\<close>, an \<open>unwrap\<close>, an arithmetic
  overflow in a debug build); undefined behaviour is what unsafe code must never reach
  (reading memory that holds no value, leaving the mapping, freeing what is not owned).
\<close>

datatype panic =
    AssertFailed
  | DebugAssertFailed
  | ArithmeticOverflow
  | DivideByZero
  | IndexOutOfBounds
  | CalledUnwrapOnNone
  | CalledUnwrapOnErr alloc_error
  | ExpectFailed
  | AllocationFailed alloc_error
  | PlatformCallFailed
  | ClosurePanicked

datatype undefined_behaviour =
    UninitRead
  | OutOfBounds
  | MirrorAlias
  | InvalidFree

datatype fault = Panic panic | UB undefined_behaviour

abbreviation panic :: "panic \<Rightarrow> fault + 'a" where
  "panic p \<equiv> Inl (Panic p)"

abbreviation undef :: "undefined_behaviour \<Rightarrow> fault + 'a" where
  "undef u \<equiv> Inl (UB u)"

text \<open>The panics that report that memory could not be obtained.\<close>

fun memory_panic :: "panic \<Rightarrow> bool" where
  "memory_panic (AllocationFailed _) = True"
| "memory_panic (CalledUnwrapOnErr _) = True"
| "memory_panic _ = False"

text \<open>
  How an operation that calls back into the caller's code ends: it returns, or that code panics
  and the stack unwinds through it. The deque stays reachable after an unwinding, so its state
  then is part of the result.
\<close>

datatype completion = Returned | Unwinding

text \<open>Sequencing: the rest of the computation runs when the first part returned.\<close>

definition bindE :: "'e + 'a \<Rightarrow> ('a \<Rightarrow> 'e + 'b) \<Rightarrow> 'e + 'b" where
  "bindE m f = (case m of Inl e \<Rightarrow> Inl e | Inr x \<Rightarrow> f x)"

lemma bindE_simps [simp, code]:
  "bindE (Inl e) f = Inl e"
  "bindE (Inr x) f = f x"
  by (simp_all add: bindE_def)

lemma bindE_eq_Inr: "bindE m f = Inr y \<longleftrightarrow> (\<exists>x. m = Inr x \<and> f x = Inr y)"
  by (cases m) auto

lemma bindE_assoc: "bindE (bindE m f) g = bindE m (\<lambda>x. bindE (f x) g)"
  by (cases m) auto

lemma bindE_cong [fundef_cong]:
  "m = m' \<Longrightarrow> (\<And>x. m' = Inr x \<Longrightarrow> f x = f' x) \<Longrightarrow> bindE m f = bindE m' f'"
  by (cases m') auto

text \<open>\<open>assert!\<close> and \<open>debug_assert!\<close>; the condition of the latter is evaluated in debug builds only.\<close>

definition assert_that :: "bool \<Rightarrow> fault + unit" where
  "assert_that b = (if b then Inr () else panic AssertFailed)"

definition debug_assert :: "bool \<Rightarrow> bool \<Rightarrow> fault + unit" where
  "debug_assert dbg b = (if dbg \<and> \<not> b then panic DebugAssertFailed else Inr ())"

definition debug_assert_m :: "bool \<Rightarrow> fault + bool \<Rightarrow> fault + unit" where
  "debug_assert_m dbg m =
     (if dbg then bindE m (\<lambda>b. if b then Inr () else panic DebugAssertFailed) else Inr ())"

lemma assert_that_ok [simp]: "b \<Longrightarrow> assert_that b = Inr ()"
  by (simp add: assert_that_def)

lemma assert_that_fail [simp]: "\<not> b \<Longrightarrow> assert_that b = panic AssertFailed"
  by (simp add: assert_that_def)

lemma debug_assert_ok [simp]: "b \<Longrightarrow> debug_assert dbg b = Inr ()"
  by (simp add: debug_assert_def)

lemma debug_assert_m_ok [simp]: "m = Inr True \<Longrightarrow> debug_assert_m dbg m = Inr ()"
  by (simp add: debug_assert_m_def)

lemma debug_assert_release [simp]:
  "debug_assert False b = Inr ()"
  "debug_assert_m False m = Inr ()"
  by (simp_all add: debug_assert_def debug_assert_m_def)

subsection \<open>Machine integers\<close>

text \<open>
  \<open>usize\<close> values are naturals below \<open>2 ^ 64\<close>, \<open>isize\<close> values integers in
  \<open>[- 2 ^ 63, 2 ^ 63)\<close>. In a debug build (\<open>dbg\<close>) an operation whose exact result does not
  fit panics; in a release build it wraps.
\<close>

definition usize_bound :: nat where
  "usize_bound = 18446744073709551616"

definition isize_bound :: nat where
  "isize_bound = 9223372036854775808"

lemma usize_isize_bound: "usize_bound = 2 * isize_bound"
  by (simp add: usize_bound_def isize_bound_def)

lemma usize_bound_pos [simp]: "0 < usize_bound" "0 < isize_bound" "Suc 0 < isize_bound"
    "Suc 0 < usize_bound"
  by (simp_all add: usize_bound_def isize_bound_def)

definition usize_max :: nat where
  "usize_max = usize_bound - 1"

definition isize_max :: nat where
  "isize_max = isize_bound - 1"

definition usize_add :: "bool \<Rightarrow> nat \<Rightarrow> nat \<Rightarrow> fault + nat" where
  "usize_add dbg a b =
     (if a + b < usize_bound then Inr (a + b)
      else if dbg then panic ArithmeticOverflow
      else Inr ((a + b) mod usize_bound))"

definition usize_sub :: "bool \<Rightarrow> nat \<Rightarrow> nat \<Rightarrow> fault + nat" where
  "usize_sub dbg a b =
     (if b \<le> a then Inr (a - b)
      else if dbg then panic ArithmeticOverflow
      else Inr ((a + usize_bound - b mod usize_bound) mod usize_bound))"

definition usize_mul :: "bool \<Rightarrow> nat \<Rightarrow> nat \<Rightarrow> fault + nat" where
  "usize_mul dbg a b =
     (if a * b < usize_bound then Inr (a * b)
      else if dbg then panic ArithmeticOverflow
      else Inr ((a * b) mod usize_bound))"

definition usize_div :: "nat \<Rightarrow> nat \<Rightarrow> fault + nat" where
  "usize_div a b = (if b = 0 then panic DivideByZero else Inr (a div b))"

definition checked_add :: "nat \<Rightarrow> nat \<Rightarrow> nat option" where
  "checked_add a b = (if a + b < usize_bound then Some (a + b) else None)"

definition saturating_add :: "nat \<Rightarrow> nat \<Rightarrow> nat" where
  "saturating_add a b = min (a + b) usize_max"

definition saturating_mul :: "nat \<Rightarrow> nat \<Rightarrow> nat" where
  "saturating_mul a b = min (a * b) usize_max"

definition wrapping_sub :: "nat \<Rightarrow> nat \<Rightarrow> nat" where
  "wrapping_sub a b = (a + usize_bound - b mod usize_bound) mod usize_bound"

definition wrapping_add :: "nat \<Rightarrow> nat \<Rightarrow> nat" where
  "wrapping_add a b = (a + b) mod usize_bound"

text \<open>The casts \<open>as isize\<close> and \<open>as usize\<close>: the same 64 bits read the other way.\<close>

definition to_isize :: "nat \<Rightarrow> int" where
  "to_isize a = (if a < isize_bound then int a else int a - int usize_bound)"

definition of_isize :: "int \<Rightarrow> nat" where
  "of_isize x = nat (x mod int usize_bound)"

definition isize_fits :: "int \<Rightarrow> bool" where
  "isize_fits x \<longleftrightarrow> - int isize_bound \<le> x \<and> x < int isize_bound"

definition isize_wrap :: "int \<Rightarrow> int" where
  "isize_wrap x = (x + int isize_bound) mod int usize_bound - int isize_bound"

definition isize_arith :: "bool \<Rightarrow> int \<Rightarrow> fault + int" where
  "isize_arith dbg x =
     (if isize_fits x then Inr x
      else if dbg then panic ArithmeticOverflow
      else Inr (isize_wrap x))"

lemma usize_arith_ok [simp]:
  "a + b < usize_bound \<Longrightarrow> usize_add dbg a b = Inr (a + b)"
  "b \<le> a \<Longrightarrow> usize_sub dbg a b = Inr (a - b)"
  "a * b < usize_bound \<Longrightarrow> usize_mul dbg a b = Inr (a * b)"
  "b \<noteq> 0 \<Longrightarrow> usize_div a b = Inr (a div b)"
  by (simp_all add: usize_add_def usize_sub_def usize_mul_def usize_div_def)

lemma to_isize_small [simp]: "a < isize_bound \<Longrightarrow> to_isize a = int a"
  by (simp add: to_isize_def)

lemma of_isize_nonneg [simp]: "0 \<le> x \<Longrightarrow> x < int usize_bound \<Longrightarrow> of_isize x = nat x"
  by (simp add: of_isize_def)

lemma of_to_isize: "a < usize_bound \<Longrightarrow> of_isize (to_isize a) = a"
  by (auto simp: of_isize_def to_isize_def usize_bound_def mod_diff_right_eq)

lemma isize_arith_ok [simp]: "isize_fits x \<Longrightarrow> isize_arith dbg x = Inr x"
  by (simp add: isize_arith_def)

lemma wrapping_sub_le: "b \<le> a \<Longrightarrow> a < usize_bound \<Longrightarrow> wrapping_sub a b = a - b"
  by (simp add: wrapping_sub_def mod_if)

lemma wrapping_sub_0_1: "wrapping_sub 0 (Suc 0) = usize_max"
  by (simp add: wrapping_sub_def usize_max_def usize_bound_def)

lemma isize_wrap_fits [simp]: "isize_fits x \<Longrightarrow> isize_wrap x = x"
  by (simp add: isize_wrap_def isize_fits_def usize_isize_bound)

end
