(* ===== verification/Platform.thy ===== *)
theory Platform
  imports Prelude
begin

text \<open>
  The interface \<open>src/mirrored/mod.rs\<close> selects by target: the allocation granularity and the
  two functions that map and unmap a mirrored region. The theories \<open>Linux\<close>, \<open>Sysv\<close>,
  \<open>Winapi\<close> and \<open>Macos\<close> model the four implementations; everything above them uses the
  record \<open>platform\<close> and, in proofs, the contract \<open>mirrored_platform\<close>.
\<close>

record 'os platform =
  gran :: nat
  allocate_mirrored :: "nat \<Rightarrow> 'os \<Rightarrow> fault + ((alloc_error + nat) \<times> 'os)"
  deallocate_mirrored :: "nat \<Rightarrow> nat \<Rightarrow> 'os \<Rightarrow> fault + 'os"

text \<open>
  The contract. \<open>os_ok\<close> is an invariant of the operating-system state and \<open>owned\<close> the set of
  mirrored regions \<open>(address, bytes)\<close> this process has obtained and not given back.
  A successful allocation returns a fresh, granularity-aligned region at an address other than
  null in the lower half of the address space; a failed one changes nothing; an owned region can
  be given back with the size it was obtained with.
\<close>

locale mirrored_platform =
  fixes pf :: "'os platform"
    and os_ok :: "'os \<Rightarrow> bool"
    and owned :: "'os \<Rightarrow> (nat \<times> nat) set"
  assumes gran_pos: "0 < gran pf"
    and allocate_total:
      "os_ok os \<Longrightarrow> 0 < n \<Longrightarrow> 2 * gran pf dvd n \<Longrightarrow> n < usize_bound \<Longrightarrow>
       \<exists>r os'. allocate_mirrored pf n os = Inr (r, os') \<and> os_ok os'"
    and allocate_Err:
      "os_ok os \<Longrightarrow> 0 < n \<Longrightarrow> 2 * gran pf dvd n \<Longrightarrow> n < usize_bound \<Longrightarrow>
       allocate_mirrored pf n os = Inr (Inl e, os') \<Longrightarrow> owned os' = owned os"
    and allocate_Ok:
      "os_ok os \<Longrightarrow> 0 < n \<Longrightarrow> 2 * gran pf dvd n \<Longrightarrow> n < usize_bound \<Longrightarrow>
       allocate_mirrored pf n os = Inr (Inr p, os') \<Longrightarrow>
       owned os' = insert (p, n) (owned os) \<and> 0 < p \<and> gran pf dvd p \<and>
       p + n < isize_bound \<and>
       (\<forall>(q, m) \<in> owned os. p + n \<le> q \<or> q + m \<le> p)"
    and deallocate_ok:
      "os_ok os \<Longrightarrow> (p, n) \<in> owned os \<Longrightarrow>
       \<exists>os'. deallocate_mirrored pf p n os = Inr os' \<and> os_ok os' \<and>
             owned os' = owned os - {(p, n)}"
begin

lemma allocate_cases:
  assumes "os_ok os" "0 < n" "2 * gran pf dvd n" "n < usize_bound"
  obtains (Err) e os' where "allocate_mirrored pf n os = Inr (Inl e, os')"
      "os_ok os'" "owned os' = owned os"
  | (Ok) p os' where "allocate_mirrored pf n os = Inr (Inr p, os')"
      "os_ok os'" "owned os' = insert (p, n) (owned os)" "0 < p" "gran pf dvd p"
      "p + n < isize_bound"
      "\<forall>(q, m) \<in> owned os. p + n \<le> q \<or> q + m \<le> p"
proof -
  obtain r os' where r: "allocate_mirrored pf n os = Inr (r, os')" "os_ok os'"
    using allocate_total[OF assms] by blast
  show thesis
  proof (cases r)
    case (Inl e)
    with r allocate_Err[OF assms] Err show ?thesis by auto
  next
    case (Inr p)
    with r(1) have eq: "allocate_mirrored pf n os = Inr (Inr p, os')" by simp
    show ?thesis using allocate_Ok[OF assms eq] r(2) Ok[OF eq] by blast
  qed
qed

lemma allocate_page:
  assumes "os_ok os" "0 < n" "2 * gran pf dvd n" "n < usize_bound"
    and "allocate_mirrored pf n os = Inr (Inr p, os')"
  shows "gran pf \<le> p"
  using allocate_Ok[OF assms] by (auto dest: dvd_imp_le)

lemma allocate_fresh:
  assumes "os_ok os" "0 < n" "2 * gran pf dvd n" "n < usize_bound"
    and "allocate_mirrored pf n os = Inr (Inr p, os')"
  shows "(p, n) \<notin> owned os"
  using allocate_Ok[OF assms] assms(2) by fastforce

end

end
