(* ===== verification/Mirroring.thy ===== *)
theory Mirroring
  imports Platform
begin

text \<open>
  What the four allocators of \<open>src/mirrored\<close> have in common. The state \<open>'k\<close> of the operating
  system is observed through the address space \<open>vm\<close>: a virtual address is mapped to a byte
  of a memory object, or not mapped. A region is mirrored when its two halves are mapped to the
  same bytes. An allocator that maps fresh mirrored regions and unmaps exactly them gives a
  platform in the sense of \<open>mirrored_platform\<close> once the regions it has handed out are recorded.
\<close>

type_synonym addr_space = "nat \<Rightarrow> (nat \<times> nat) option"

definition unmapped :: "addr_space \<Rightarrow> nat \<Rightarrow> nat \<Rightarrow> bool" where
  "unmapped m p n \<longleftrightarrow> (\<forall>a. p \<le> a \<and> a < p + n \<longrightarrow> m a = None)"

definition same_outside :: "addr_space \<Rightarrow> addr_space \<Rightarrow> nat \<Rightarrow> nat \<Rightarrow> bool" where
  "same_outside m m' p n \<longleftrightarrow> (\<forall>a. \<not> (p \<le> a \<and> a < p + n) \<longrightarrow> m' a = m a)"

text \<open>The bytes in \<open>[p, p + n div 2)\<close> are mirrored into \<open>[p + n div 2, p + n)\<close>.\<close>

definition mirrored_at :: "addr_space \<Rightarrow> nat \<Rightarrow> nat \<Rightarrow> bool" where
  "mirrored_at m p n \<longleftrightarrow>
     (\<exists>f. \<forall>i < n div 2. m (p + i) = Some (f, i) \<and> m (p + n div 2 + i) = Some (f, i))"

definition region_ok :: "nat \<Rightarrow> nat \<Rightarrow> nat \<Rightarrow> bool" where
  "region_ok g p n \<longleftrightarrow> 0 < p \<and> 0 < n \<and> g dvd p \<and> 2 * g dvd n \<and> p + n < isize_bound"

definition disjoint_regions :: "nat \<times> nat \<Rightarrow> nat \<times> nat \<Rightarrow> bool" where
  "disjoint_regions r q \<longleftrightarrow> fst r + snd r \<le> fst q \<or> fst q + snd q \<le> fst r"

text \<open>The platform: the allocator with the regions it has handed out and not taken back.\<close>

definition track ::
    "nat \<Rightarrow> (nat \<Rightarrow> 'k \<Rightarrow> fault + ((alloc_error + nat) \<times> 'k)) \<Rightarrow>
     (nat \<Rightarrow> nat \<Rightarrow> 'k \<Rightarrow> fault + 'k) \<Rightarrow> ('k \<times> (nat \<times> nat) set) platform" where
  "track g alloc dealloc =
     \<lparr>gran = g,
      allocate_mirrored = (\<lambda>n (k, R). bindE (alloc n k) (\<lambda>(r, k).
        case r of Inl e \<Rightarrow> Inr (Inl e, (k, R)) | Inr p \<Rightarrow> Inr (Inr p, (k, insert (p, n) R)))),
      deallocate_mirrored = (\<lambda>p n (k, R). bindE (dealloc p n k) (\<lambda>k. Inr (k, R - {(p, n)})))\<rparr>"

lemma gran_track [simp]: "gran (track g alloc dealloc) = g"
  by (simp add: track_def)

text \<open>
  \<open>live k p n\<close>: the region of \<open>n\<close> bytes at \<open>p\<close> is mirrored and the system will take it back from
  \<open>dealloc\<close>. Where the system keeps a table of the mappings (System V, Windows) it says more than
  that the region is mirrored.
\<close>

locale mirroring_allocator =
  fixes g :: nat
    and alloc :: "nat \<Rightarrow> 'k \<Rightarrow> fault + ((alloc_error + nat) \<times> 'k)"
    and dealloc :: "nat \<Rightarrow> nat \<Rightarrow> 'k \<Rightarrow> fault + 'k"
    and kernel_ok :: "'k \<Rightarrow> bool"
    and vm :: "'k \<Rightarrow> addr_space"
    and live :: "'k \<Rightarrow> nat \<Rightarrow> nat \<Rightarrow> bool"
  assumes g_pos: "0 < g"
    and live_mirrored: "live k p n \<Longrightarrow> mirrored_at (vm k) p n"
    and alloc_total: "kernel_ok k \<Longrightarrow> 0 < n \<Longrightarrow> 2 * g dvd n \<Longrightarrow> n < usize_bound \<Longrightarrow>
      \<exists>r k'. alloc n k = Inr (r, k') \<and> kernel_ok k'"
    and alloc_Err: "kernel_ok k \<Longrightarrow> 0 < n \<Longrightarrow> 2 * g dvd n \<Longrightarrow> n < usize_bound \<Longrightarrow> alloc n k = Inr (Inl e, k') \<Longrightarrow>
      live k q m \<Longrightarrow> region_ok g q m \<Longrightarrow> live k' q m"
    and alloc_Ok: "kernel_ok k \<Longrightarrow> 0 < n \<Longrightarrow> 2 * g dvd n \<Longrightarrow> n < usize_bound \<Longrightarrow> alloc n k = Inr (Inr p, k') \<Longrightarrow>
      region_ok g p n \<and> unmapped (vm k) p n \<and> live k' p n \<and>
      (\<forall>q m. live k q m \<longrightarrow> region_ok g q m \<longrightarrow> live k' q m)"
    and dealloc_ok: "kernel_ok k \<Longrightarrow> region_ok g p n \<Longrightarrow> live k p n \<Longrightarrow>
      \<exists>k'. dealloc p n k = Inr k' \<and> kernel_ok k' \<and> unmapped (vm k') p n \<and>
           (\<forall>q m. live k q m \<longrightarrow> region_ok g q m \<longrightarrow> disjoint_regions (q, m) (p, n) \<longrightarrow> live k' q m)"
begin

text \<open>The invariant: every region handed out is still live, and no two overlap.\<close>

definition tracked_ok :: "'k \<times> (nat \<times> nat) set \<Rightarrow> bool" where
  "tracked_ok s \<longleftrightarrow> kernel_ok (fst s) \<and>
     (\<forall>(p, n) \<in> snd s. region_ok g p n \<and> live (fst s) p n) \<and>
     (\<forall>r \<in> snd s. \<forall>q \<in> snd s. r \<noteq> q \<longrightarrow> disjoint_regions r q)"

end

lemma mirrored_at_mapped:
  assumes "mirrored_at m p n" "even n" "p \<le> a" "a < p + n"
  shows "m a \<noteq> None"
proof (cases "a < p + n div 2")
  case True
  then have "a = p + (a - p)" "a - p < n div 2" using assms by auto
  then show ?thesis using assms(1) unfolding mirrored_at_def by (metis option.distinct(1))
next
  case False
  then have "a = p + n div 2 + (a - p - n div 2)" "a - p - n div 2 < n div 2"
    using assms by (auto elim: evenE)
  then show ?thesis using assms(1) unfolding mirrored_at_def by (metis option.distinct(1))
qed

lemma mirrored_at_cong:
  assumes "mirrored_at m p n" "\<And>a. p \<le> a \<Longrightarrow> a < p + n \<Longrightarrow> m' a = m a"
  shows "mirrored_at m' p n"
proof -
  obtain f where f: "\<And>i. i < n div 2 \<Longrightarrow> m (p + i) = Some (f, i) \<and> m (p + n div 2 + i) = Some (f, i)"
    using assms(1) unfolding mirrored_at_def by blast
  have "m' (p + i) = Some (f, i) \<and> m' (p + n div 2 + i) = Some (f, i)" if "i < n div 2" for i
    using f[OF that] assms(2)[of "p + i"] assms(2)[of "p + n div 2 + i"] that by simp
  then show ?thesis unfolding mirrored_at_def by blast
qed

lemma mirrored_at_keep:
  "mirrored_at m p n \<Longrightarrow> \<forall>a x. m a = Some x \<longrightarrow> m' a = Some x \<Longrightarrow> mirrored_at m' p n"
  unfolding mirrored_at_def by blast

lemma region_even: "region_ok g p n \<Longrightarrow> even n"
  by (auto simp: region_ok_def elim: dvdE)

text \<open>A fresh region cannot overlap one that is mapped.\<close>

lemma fresh_disjoint:
  assumes "unmapped m p n" "0 < n" "mirrored_at m q k" "even k" "0 < k"
  shows "disjoint_regions (p, n) (q, k)"
proof (rule ccontr)
  assume "\<not> disjoint_regions (p, n) (q, k)"
  then have "q < p + n" "p < q + k" by (simp_all add: disjoint_regions_def)
  then have "p \<le> max p q" "max p q < p + n" "q \<le> max p q" "max p q < q + k" using assms by auto
  then show False using mirrored_at_mapped[OF assms(3,4)] assms(1) unfolding unmapped_def by blast
qed

context mirroring_allocator
begin

lemma tracked_alloc_Err:
  assumes t: "tracked_ok (k, R)" and n: "0 < n" "2 * g dvd n" "n < usize_bound" and a: "alloc n k = Inr (Inl e, k')"
  shows "tracked_ok (k', R)"
proof -
  have kk: "kernel_ok k" and R: "\<And>p m. (p, m) \<in> R \<Longrightarrow> region_ok g p m \<and> live k p m"
    using t by (auto simp: tracked_ok_def)
  have "kernel_ok k'" using alloc_total[OF kk n] a by auto
  moreover have "live k' p m" if "(p, m) \<in> R" for p m
    using R[OF that] alloc_Err[OF kk n a] by blast
  ultimately show ?thesis using t R by (auto simp: tracked_ok_def)
qed

lemma tracked_alloc_Ok:
  assumes t: "tracked_ok (k, R)" and n: "0 < n" "2 * g dvd n" "n < usize_bound" and a: "alloc n k = Inr (Inr p, k')"
  shows "tracked_ok (k', insert (p, n) R)" "\<And>r. r \<in> R \<Longrightarrow> disjoint_regions (p, n) r"
    "region_ok g p n"
proof -
  have kk: "kernel_ok k" and R: "\<And>p m. (p, m) \<in> R \<Longrightarrow> region_ok g p m \<and> live k p m"
    using t by (auto simp: tracked_ok_def)
  note al = alloc_Ok[OF kk n a]
  show "region_ok g p n" using al by simp
  have "kernel_ok k'" using alloc_total[OF kk n] a by auto
  moreover have m: "live k' q m" if "(q, m) \<in> R" for q m
    using R[OF that] al by blast
  moreover show d: "disjoint_regions (p, n) r" if "r \<in> R" for r
  proof (cases r)
    case (Pair q m)
    with that R have "region_ok g q m" "mirrored_at (vm k) q m" using live_mirrored by blast+
    then show ?thesis using Pair al n(1) fresh_disjoint[of "vm k" p n q m] region_even
      by (auto simp: region_ok_def)
  qed
  moreover have "disjoint_regions r (p, n)" if "r \<in> R" for r
    using d[OF that] by (auto simp: disjoint_regions_def)
  ultimately show "tracked_ok (k', insert (p, n) R)"
    using t R al unfolding tracked_ok_def by auto
qed

lemma tracked_dealloc:
  assumes t: "tracked_ok (k, R)" and r: "(p, n) \<in> R"
  obtains k' where "dealloc p n k = Inr k'" "tracked_ok (k', R - {(p, n)})" "unmapped (vm k') p n"
proof -
  have kk: "kernel_ok k" and R: "\<And>p m. (p, m) \<in> R \<Longrightarrow> region_ok g p m \<and> live k p m"
    and D: "\<And>r q. r \<in> R \<Longrightarrow> q \<in> R \<Longrightarrow> r \<noteq> q \<Longrightarrow> disjoint_regions r q"
    using t by (auto simp: tracked_ok_def)
  obtain k' where k': "dealloc p n k = Inr k'" "kernel_ok k'" "unmapped (vm k') p n"
    "\<And>q m. live k q m \<Longrightarrow> region_ok g q m \<Longrightarrow> disjoint_regions (q, m) (p, n) \<Longrightarrow> live k' q m"
    using dealloc_ok[OF kk] R[OF r] by blast
  have "live k' q m" if q: "(q, m) \<in> R" "(q, m) \<noteq> (p, n)" for q m
    using k'(4) R[OF q(1)] D[OF q(1) r q(2)] by blast
  then have "tracked_ok (k', R - {(p, n)})" using t R k'(2) by (auto simp: tracked_ok_def)
  then show ?thesis using that k' by blast
qed

end

text \<open>
  A platform that meets the contract from any good state of the system in which nothing has been
  handed out yet.
\<close>

definition provides_platform :: "('k \<times> (nat \<times> nat) set) platform \<Rightarrow> ('k \<Rightarrow> bool) \<Rightarrow> bool" where
  "provides_platform pf kernel_ok \<longleftrightarrow>
     (\<exists>os_ok. mirrored_platform pf os_ok snd \<and> (\<forall>k. kernel_ok k \<longrightarrow> os_ok (k, {})))"

sublocale mirroring_allocator \<subseteq> tracked: mirrored_platform "track g alloc dealloc" tracked_ok snd
proof unfold_locales
  show "0 < gran (track g alloc dealloc)" using g_pos by simp
next
  fix os n assume s: "tracked_ok os" "0 < n" "2 * gran (track g alloc dealloc) dvd n" "n < usize_bound"
  obtain k R where os: "os = (k, R)" by (cases os)
  have n: "0 < n" "2 * g dvd n" "n < usize_bound" using s by simp_all
  have "kernel_ok k" using s os by (simp add: tracked_ok_def)
  then obtain r k' where r: "alloc n k = Inr (r, k')" using alloc_total[OF _ n] by blast
  have t: "tracked_ok (k, R)" using s os by simp
  show "\<exists>r os'. allocate_mirrored (track g alloc dealloc) n os = Inr (r, os') \<and> tracked_ok os'"
    using r tracked_alloc_Err[OF t n] tracked_alloc_Ok(1)[OF t n] os
    by (cases r) (auto simp: track_def)
next
  fix os n e os'
  assume "allocate_mirrored (track g alloc dealloc) n os = Inr (Inl e, os')"
  then show "snd os' = snd os"
    by (cases os; cases "alloc n (fst os)") (auto simp: track_def split: sum.splits)
next
  fix os n p os'
  assume s: "tracked_ok os" "0 < n" "2 * gran (track g alloc dealloc) dvd n" "n < usize_bound"
    and a: "allocate_mirrored (track g alloc dealloc) n os = Inr (Inr p, os')"
  obtain k R where os: "os = (k, R)" by (cases os)
  with a obtain k' where k': "alloc n k = Inr (Inr p, k')" "os' = (k', insert (p, n) R)"
    by (cases "alloc n k") (auto simp: track_def split: sum.splits)
  have t: "tracked_ok (k, R)" and n: "0 < n" "2 * g dvd n" "n < usize_bound" using s os by simp_all
  have d: "\<forall>(q, m) \<in> R. p + n \<le> q \<or> q + m \<le> p"
  proof (intro ballI, clarify)
    fix q m assume "(q, m) \<in> R" "\<not> q + m \<le> p"
    then show "p + n \<le> q" using tracked_alloc_Ok(2)[OF t n k'(1), of "(q, m)"]
      by (simp add: disjoint_regions_def)
  qed
  show "snd os' = insert (p, n) (snd os) \<and> 0 < p \<and> gran (track g alloc dealloc) dvd p \<and>
       p + n < isize_bound \<and> (\<forall>(q, m) \<in> snd os. p + n \<le> q \<or> q + m \<le> p)"
    using tracked_alloc_Ok(3)[OF t n k'(1)] d os k'(2) by (simp add: region_ok_def)
next
  fix os p n assume s: "tracked_ok os" "(p, n) \<in> snd os"
  obtain k R where os: "os = (k, R)" by (cases os)
  have t: "tracked_ok (k, R)" "(p, n) \<in> R" using s os by simp_all
  show "\<exists>os'. deallocate_mirrored (track g alloc dealloc) p n os = Inr os' \<and> tracked_ok os' \<and>
      snd os' = snd os - {(p, n)}"
    by (rule tracked_dealloc[OF t]) (simp add: os track_def)
qed

context mirroring_allocator
begin

lemma track_provides: "provides_platform (track g alloc dealloc) kernel_ok"
  unfolding provides_platform_def
  by (intro exI[of _ tracked_ok] conjI tracked.mirrored_platform_axioms) (simp add: tracked_ok_def)

end

end
