(* ===== verification/Linux.thy ===== *)
theory Linux
  imports Mirroring
begin

text \<open>
  \<open>src/mirrored/linux.rs\<close>. The system calls are a parameter: a record of functions on a state
  \<open>'k\<close>, each returning what the C function returns with the next state. The locale
  \<open>linux_kernel\<close> states the documented behaviour the code relies on, through two observations
  of the state: the address space \<open>vm\<close> and the table \<open>fds\<close> of open descriptors with the file
  each refers to. \<open>print_error\<close> only writes a message and is left out.
\<close>

record 'k linux_sys =
  page_size :: nat
  ENOSYS :: int
  memfd_create :: "'k \<Rightarrow> int \<times> 'k"
  errno :: "'k \<Rightarrow> int"
  mkstemp :: "'k \<Rightarrow> int \<times> 'k"
  unlink :: "'k \<Rightarrow> 'k"
  ftruncate :: "int \<Rightarrow> nat \<Rightarrow> 'k \<Rightarrow> int \<times> 'k"
  mmap :: "nat \<Rightarrow> nat \<Rightarrow> bool \<Rightarrow> int \<Rightarrow> 'k \<Rightarrow> nat \<times> 'k"
  munmap :: "nat \<Rightarrow> nat \<Rightarrow> 'k \<Rightarrow> int \<times> 'k"
  close_fd :: "int \<Rightarrow> 'k \<Rightarrow> int \<times> 'k"

text \<open>\<open>MAP_FAILED\<close> is \<open>(void * ) -1\<close>; the third argument of \<open>mmap\<close> is \<open>MAP_FIXED\<close>.\<close>

definition MAP_FAILED :: nat where
  "MAP_FAILED = usize_max"

text \<open>The cast \<open>fd as c_int\<close>.\<close>

definition to_c_int :: "int \<Rightarrow> int" where
  "to_c_int x = (x + 2147483648) mod 4294967296 - 2147483648"

definition linux_allocation_granularity :: "'k linux_sys \<Rightarrow> nat" where
  "linux_allocation_granularity sys = page_size sys"

text \<open>An anonymous file, or an unlinked temporary one where the kernel has no \<open>memfd_create\<close>.\<close>

definition linux_temporary_file :: "'k linux_sys \<Rightarrow> 'k \<Rightarrow> int \<times> 'k" where
  "linux_temporary_file sys k =
     (let (fd, k) = memfd_create sys k in
      if fd = - 1 \<and> errno sys k = ENOSYS sys then
        let (fd, k) = mkstemp sys k in
        if fd \<noteq> - 1 then (fd, unlink sys k) else (fd, k)
      else (fd, k))"

definition linux_allocate_mirrored ::
    "'k linux_sys \<Rightarrow> nat \<Rightarrow> 'k \<Rightarrow> fault + ((alloc_error + nat) \<times> 'k)" where
  "linux_allocate_mirrored sys n k =
     (let half_size = n div 2 in
      bindE (assert_that (n \<noteq> 0)) (\<lambda>_.
      bindE (if linux_allocation_granularity sys = 0 then panic DivideByZero else Inr ()) (\<lambda>_.
      bindE (assert_that (half_size mod linux_allocation_granularity sys = 0)) (\<lambda>_.
      let (fd, k) = linux_temporary_file sys k in
      if fd = - 1 then Inr (Inl Other, k)
      else
        let fd = to_c_int fd; (r, k) = ftruncate sys fd half_size k in
        if r = - 1 then
          let (_, k) = close_fd sys fd k in Inr (Inl Oom, k)
        else
          let (p, k) = mmap sys 0 n False fd k in
          if p = MAP_FAILED then
            let (_, k) = close_fd sys fd k in Inr (Inl Oom, k)
          else
            let (p2, k) = mmap sys (p + half_size) half_size True fd k in
            if p2 = MAP_FAILED then
              let (_, k) = munmap sys p n k; (_, k) = close_fd sys fd k in Inr (Inl Other, k)
            else
              let (_, k) = close_fd sys fd k in Inr (Inr p, k)))))"

definition linux_deallocate_mirrored ::
    "'k linux_sys \<Rightarrow> nat \<Rightarrow> nat \<Rightarrow> 'k \<Rightarrow> fault + 'k" where
  "linux_deallocate_mirrored sys p n k =
     bindE (assert_that (p \<noteq> 0)) (\<lambda>_.
     bindE (assert_that (n \<noteq> 0)) (\<lambda>_.
     bindE (if linux_allocation_granularity sys = 0 then panic DivideByZero else Inr ()) (\<lambda>_.
     bindE (assert_that (n mod linux_allocation_granularity sys = 0)) (\<lambda>_.
     let (_, k) = munmap sys p n k in Inr k))))"

definition linux_platform :: "'k linux_sys \<Rightarrow> ('k \<times> (nat \<times> nat) set) platform" where
  "linux_platform sys =
     track (linux_allocation_granularity sys) (linux_allocate_mirrored sys) (linux_deallocate_mirrored sys)"

text \<open>The address range \<open>[a, a + n)\<close> mapped to the start of the file \<open>f\<close>, or unmapped.\<close>

definition map_range :: "addr_space \<Rightarrow> nat \<Rightarrow> nat \<Rightarrow> nat \<Rightarrow> addr_space" where
  "map_range m a n f = (\<lambda>x. if a \<le> x \<and> x < a + n then Some (f, x - a) else m x)"

definition unmap_range :: "addr_space \<Rightarrow> nat \<Rightarrow> nat \<Rightarrow> addr_space" where
  "unmap_range m a n = (\<lambda>x. if a \<le> x \<and> x < a + n then None else m x)"

locale linux_kernel =
  fixes sys :: "'k linux_sys"
    and kernel_ok :: "'k \<Rightarrow> bool"
    and vm :: "'k \<Rightarrow> addr_space"
    and fds :: "'k \<Rightarrow> int \<Rightarrow> nat option"
  assumes page_pos: "0 < page_size sys"
    and memfd_create: "kernel_ok k \<Longrightarrow> memfd_create sys k = (fd, k') \<Longrightarrow>
      kernel_ok k' \<and> vm k' = vm k \<and>
      (fd = - 1 \<and> fds k' = fds k \<or>
       0 \<le> fd \<and> fd < 2147483648 \<and> fds k fd = None \<and> (\<exists>f. fds k' = (fds k)(fd \<mapsto> f)))"
    and mkstemp: "kernel_ok k \<Longrightarrow> mkstemp sys k = (fd, k') \<Longrightarrow>
      kernel_ok k' \<and> vm k' = vm k \<and>
      (fd = - 1 \<and> fds k' = fds k \<or>
       0 \<le> fd \<and> fd < 2147483648 \<and> fds k fd = None \<and> (\<exists>f. fds k' = (fds k)(fd \<mapsto> f)))"
    and unlink: "kernel_ok k \<Longrightarrow>
      kernel_ok (unlink sys k) \<and> vm (unlink sys k) = vm k \<and> fds (unlink sys k) = fds k"
    and ftruncate: "kernel_ok k \<Longrightarrow> ftruncate sys fd n k = (r, k') \<Longrightarrow>
      kernel_ok k' \<and> vm k' = vm k \<and> fds k' = fds k"
    and mmap_anywhere: "kernel_ok k \<Longrightarrow> fds k fd = Some f \<Longrightarrow> 0 < n \<Longrightarrow> page_size sys dvd n \<Longrightarrow>
      mmap sys 0 n False fd k = (p, k') \<Longrightarrow>
      kernel_ok k' \<and> fds k' = fds k \<and>
      (if p = MAP_FAILED then vm k' = vm k
       else 0 < p \<and> page_size sys dvd p \<and> p + n < isize_bound \<and>
            unmapped (vm k) p n \<and> vm k' = map_range (vm k) p n f)"
    and mmap_fixed: "kernel_ok k \<Longrightarrow> fds k fd = Some f \<Longrightarrow> 0 < n \<Longrightarrow> page_size sys dvd n \<Longrightarrow>
      0 < a \<Longrightarrow> page_size sys dvd a \<Longrightarrow> mmap sys a n True fd k = (p, k') \<Longrightarrow>
      kernel_ok k' \<and> fds k' = fds k \<and>
      (if p = MAP_FAILED then same_outside (vm k) (vm k') a n
       else p = a \<and> vm k' = map_range (vm k) a n f)"
    and munmap: "kernel_ok k \<Longrightarrow> 0 < n \<Longrightarrow> page_size sys dvd n \<Longrightarrow> page_size sys dvd a \<Longrightarrow>
      munmap sys a n k = (r, k') \<Longrightarrow>
      kernel_ok k' \<and> fds k' = fds k \<and> r = 0 \<and> vm k' = unmap_range (vm k) a n"
    and close_fd: "kernel_ok k \<Longrightarrow> fds k fd = Some f \<Longrightarrow> close_fd sys fd k = (r, k') \<Longrightarrow>
      kernel_ok k' \<and> vm k' = vm k \<and> fds k' = (fds k)(fd := None)"

lemma to_c_int_small [simp]: "0 \<le> x \<Longrightarrow> x < 2147483648 \<Longrightarrow> to_c_int x = x"
  by (simp add: to_c_int_def)

lemma mirrored_two_maps:
  assumes "even n"
  shows "mirrored_at (map_range (map_range m p n f) (p + n div 2) (n div 2) f) p n"
  unfolding mirrored_at_def map_range_def using assms by (intro exI[of _ f]) auto

lemma map_range_keeps:
  assumes "unmapped m p n" "p \<le> a" "a + k \<le> p + n" "m x = Some y"
  shows "map_range (map_range m p n f) a k f x = Some y"
proof -
  have "\<not> (p \<le> x \<and> x < p + n)" using assms(1,4) unfolding unmapped_def by auto
  then show ?thesis using assms(2-4) by (auto simp: map_range_def)
qed

lemma unmap_after_failed_fixed:
  assumes "unmapped m p n" "same_outside (map_range m p n f) m' a k" "p \<le> a" "a + k \<le> p + n"
  shows "unmap_range m' p n = m"
proof
  fix x show "unmap_range m' p n x = m x"
    using assms by (cases "p \<le> x \<and> x < p + n")
      (auto simp: unmap_range_def unmapped_def same_outside_def map_range_def)
qed

context linux_kernel
begin

lemma temporary_file:
  assumes "kernel_ok k" "linux_temporary_file sys k = (fd, k')"
  shows "kernel_ok k' \<and> vm k' = vm k \<and>
      (fd = - 1 \<and> fds k' = fds k \<or>
       0 \<le> fd \<and> fd < 2147483648 \<and> fds k fd = None \<and> (\<exists>f. fds k' = (fds k)(fd \<mapsto> f)))"
proof -
  obtain fd1 k1 where m: "memfd_create sys k = (fd1, k1)" by (cases "memfd_create sys k")
  note s1 = memfd_create[OF assms(1) m]
  show ?thesis
  proof (cases "fd1 = - 1 \<and> errno sys k1 = ENOSYS sys")
    case False
    then show ?thesis using s1 assms(2) m by (auto simp: linux_temporary_file_def)
  next
    case True
    obtain fd2 k2 where t: "mkstemp sys k1 = (fd2, k2)" by (cases "mkstemp sys k1")
    have "kernel_ok k1" using s1 by simp
    note s2 = mkstemp[OF this t]
    then have s3: "kernel_ok (unlink sys k2) \<and> vm (unlink sys k2) = vm k2 \<and> fds (unlink sys k2) = fds k2"
      using unlink by blast
    have "fds k1 = fds k" "vm k1 = vm k" using s1 True by auto
    then show ?thesis
      using s2 s3 assms(2) m t True
      by (cases "fd2 = - 1") (auto simp: linux_temporary_file_def)
  qed
qed

text \<open>
  The whole of \<open>allocate_mirrored\<close>: it never panics on a size the buffer asks for, it leaves no
  descriptor open on any path, and either maps a fresh mirrored region or leaves the address
  space exactly as it was.
\<close>

lemma allocate_mirrored_cases:
  assumes k: "kernel_ok k" and n: "0 < n" "2 * page_size sys dvd n"
  obtains (Err) e k' where "linux_allocate_mirrored sys n k = Inr (Inl e, k')" "kernel_ok k'"
      "vm k' = vm k" "fds k' = fds k"
  | (Ok) p k' where "linux_allocate_mirrored sys n k = Inr (Inr p, k')" "kernel_ok k'" "fds k' = fds k"
      "region_ok (page_size sys) p n" "unmapped (vm k) p n" "mirrored_at (vm k') p n"
      "\<forall>a x. vm k a = Some x \<longrightarrow> vm k' a = Some x" "same_outside (vm k) (vm k') p n"
proof -
  have even: "even n" and half: "page_size sys dvd n div 2" "0 < n div 2" and pn: "page_size sys dvd n"
    using n by (auto elim!: dvdE)
  have guards: "(n div 2) mod page_size sys = 0" "page_size sys \<noteq> 0" using half page_pos by auto
  obtain fd k1 where t: "linux_temporary_file sys k = (fd, k1)" by (cases "linux_temporary_file sys k")
  note s1 = temporary_file[OF k t]
  show ?thesis
  proof (cases "fd = - 1")
    case True
    then show ?thesis using Err[of Other k1] s1 t n guards
      by (simp add: linux_allocate_mirrored_def linux_allocation_granularity_def Let_def)
  next
    case False
    then have fd: "0 \<le> fd" "fd < 2147483648" "fds k fd = None" using s1 by auto
    obtain f where f: "fds k1 = (fds k)(fd \<mapsto> f)" using s1 False by auto
    have k1: "kernel_ok k1" "vm k1 = vm k" using s1 by auto
    have open_fd: "fds k1 fd = Some f" and closed: "(fds k1)(fd := None) = fds k"
      using f fd(3) by auto
    obtain r k2 where tr: "ftruncate sys fd (n div 2) k1 = (r, k2)" by (cases "ftruncate sys fd (n div 2) k1")
    note s2 = ftruncate[OF k1(1) tr]
    then have k2: "kernel_ok k2" "vm k2 = vm k" "fds k2 = fds k1" using k1 by auto
    obtain p k3 where mp: "mmap sys 0 n False fd k2 = (p, k3)" by (cases "mmap sys 0 n False fd k2")
    note s3 = mmap_anywhere[OF k2(1) _ n(1) pn mp, of f]
    note start = t tr fd(1,2) False n guards
    show ?thesis
    proof (cases "r = - 1")
      case True
      obtain r' k3' where c: "close_fd sys fd k2 = (r', k3')" by (cases "close_fd sys fd k2")
      have "kernel_ok k3' \<and> vm k3' = vm k \<and> fds k3' = fds k"
        using close_fd[OF k2(1) _ c, of f] k2 open_fd closed by simp
      then show ?thesis using Err[of Oom k3'] start True c
        by (simp add: linux_allocate_mirrored_def linux_allocation_granularity_def Let_def)
    next
      case r: False
      show ?thesis
      proof (cases "p = MAP_FAILED")
        case True
        obtain r' k4 where c: "close_fd sys fd k3 = (r', k4)" by (cases "close_fd sys fd k3")
        have "kernel_ok k3" "fds k3 = fds k1" "vm k3 = vm k" using s3 k2 open_fd True by auto
        then have "kernel_ok k4 \<and> vm k4 = vm k \<and> fds k4 = fds k"
          using close_fd[of k3 fd f r' k4] c open_fd closed by simp
        then show ?thesis using Err[of Oom k4] start r mp True c
          by (simp add: linux_allocate_mirrored_def linux_allocation_granularity_def Let_def)
      next
        case p: False
        then have s3': "kernel_ok k3" "fds k3 = fds k1" "0 < p" "page_size sys dvd p"
          "p + n < isize_bound" "unmapped (vm k) p n" "vm k3 = map_range (vm k) p n f"
          using s3 k2 open_fd by auto
        have a: "0 < p + n div 2" "page_size sys dvd p + n div 2" using s3'(3,4) half(1) by auto
        obtain p2 k4 where mp2: "mmap sys (p + n div 2) (n div 2) True fd k3 = (p2, k4)"
          by (cases "mmap sys (p + n div 2) (n div 2) True fd k3")
        have fd3: "fds k3 fd = Some f" using s3'(2) open_fd by simp
        note s4 = mmap_fixed[OF s3'(1) fd3 half(2,1) a mp2]
        have k4: "kernel_ok k4" "fds k4 = fds k1" using s4 s3'(2) by auto
        show ?thesis
        proof (cases "p2 = MAP_FAILED")
          case True
          obtain r5 k5 where u: "munmap sys p n k4 = (r5, k5)" by (cases "munmap sys p n k4")
          note s5 = munmap[OF k4(1) n(1) pn s3'(4) u]
          obtain r6 k6 where c: "close_fd sys fd k5 = (r6, k6)" by (cases "close_fd sys fd k5")
          have "same_outside (map_range (vm k) p n f) (vm k4) (p + n div 2) (n div 2)"
            using s4 True s3'(7) by simp
          then have "vm k5 = vm k"
            using s5 unmap_after_failed_fixed[OF s3'(6)] by auto
          then have "kernel_ok k6 \<and> vm k6 = vm k \<and> fds k6 = fds k"
            using close_fd[of k5 fd f r6 k6] s5 c k4(2) open_fd closed by simp
          then show ?thesis using Err[of Other k6] start r mp p mp2 True u c
            by (simp add: linux_allocate_mirrored_def linux_allocation_granularity_def Let_def)
        next
          case False
          obtain r5 k5 where c: "close_fd sys fd k4 = (r5, k5)" by (cases "close_fd sys fd k4")
          have k5: "kernel_ok k5 \<and> vm k5 = vm k4 \<and> fds k5 = fds k"
            using close_fd[of k4 fd f r5 k5] c k4 open_fd closed by simp
          have vm5: "vm k5 = map_range (map_range (vm k) p n f) (p + n div 2) (n div 2) f"
            using k5 s4 False s3'(7) by simp
          have run: "linux_allocate_mirrored sys n k = Inr (Inr p, k5)"
            using start r mp p mp2 False c
            by (simp add: linux_allocate_mirrored_def linux_allocation_granularity_def Let_def)
          show ?thesis
          proof (rule Ok[OF run])
            show "region_ok (page_size sys) p n" using s3' n by (simp add: region_ok_def)
            show "mirrored_at (vm k5) p n" unfolding vm5 by (rule mirrored_two_maps[OF even])
            show "\<forall>a x. vm k a = Some x \<longrightarrow> vm k5 a = Some x"
              unfolding vm5 using map_range_keeps[OF s3'(6), of "p + n div 2" "n div 2"] even by auto
            show "same_outside (vm k) (vm k5) p n"
              unfolding vm5 by (auto simp: same_outside_def map_range_def)
          qed (use k5 s3' in auto)
        qed
      qed
    qed
  qed
qed

lemma deallocate_mirrored_ok:
  assumes k: "kernel_ok k" and r: "region_ok (page_size sys) p n"
  obtains k' where "linux_deallocate_mirrored sys p n k = Inr k'" "kernel_ok k'" "fds k' = fds k"
    "vm k' = unmap_range (vm k) p n"
proof -
  have pn: "0 < n" "page_size sys dvd n" "page_size sys dvd p" "0 < p"
    using r by (auto simp: region_ok_def elim: dvdE)
  obtain q k' where u: "munmap sys p n k = (q, k')" by (cases "munmap sys p n k")
  note s = munmap[OF k pn(1-3) u]
  have "linux_deallocate_mirrored sys p n k = Inr k'"
    using u pn page_pos by (simp add: linux_deallocate_mirrored_def linux_allocation_granularity_def)
  then show ?thesis using that s by blast
qed

end

sublocale linux_kernel \<subseteq> mirroring_allocator "linux_allocation_granularity sys"
  "linux_allocate_mirrored sys" "linux_deallocate_mirrored sys" kernel_ok vm "\<lambda>k. mirrored_at (vm k)"
proof unfold_locales
  note g = linux_allocation_granularity_def[of sys]
  show "0 < linux_allocation_granularity sys" using page_pos by (simp add: g)
  fix k n
  assume k: "kernel_ok k" and n: "0 < n" "2 * linux_allocation_granularity sys dvd n" "n < usize_bound"
  note cases = allocate_mirrored_cases[OF k n(1) n(2)[unfolded g]]
  show "\<exists>r k'. linux_allocate_mirrored sys n k = Inr (r, k') \<and> kernel_ok k'"
    by (rule cases) auto
  show "mirrored_at (vm k') q m"
    if "linux_allocate_mirrored sys n k = Inr (Inl e, k')" "mirrored_at (vm k) q m" for e k' q m
    by (rule cases) (use that in auto)
  show "region_ok (linux_allocation_granularity sys) p n \<and> unmapped (vm k) p n \<and> mirrored_at (vm k') p n \<and>
      (\<forall>q m. mirrored_at (vm k) q m \<longrightarrow> region_ok (linux_allocation_granularity sys) q m \<longrightarrow> mirrored_at (vm k') q m)"
    if "linux_allocate_mirrored sys n k = Inr (Inr p, k')" for p k'
    by (rule cases) (use that mirrored_at_keep[where m = "vm k" and m' = "vm k'"] in \<open>auto simp: g\<close>)
next
  fix k p n assume k: "kernel_ok k" and r: "region_ok (linux_allocation_granularity sys) p n"
  obtain k' where k': "linux_deallocate_mirrored sys p n k = Inr k'" "kernel_ok k'" "vm k' = unmap_range (vm k) p n"
    by (rule deallocate_mirrored_ok[OF k, of p n]) (use r in \<open>simp_all add: linux_allocation_granularity_def\<close>)
  moreover have "unmapped (vm k') p n" by (simp add: k'(3) unmapped_def unmap_range_def)
  moreover have "mirrored_at (vm k') q m" if "mirrored_at (vm k) q m" "disjoint_regions (q, m) (p, n)" for q m
    using that by (auto simp: k'(3) unmap_range_def disjoint_regions_def intro!: mirrored_at_cong[of "vm k"])
  ultimately show "\<exists>k'. linux_deallocate_mirrored sys p n k = Inr k' \<and> kernel_ok k' \<and> unmapped (vm k') p n \<and>
      (\<forall>q m. mirrored_at (vm k) q m \<longrightarrow> region_ok (linux_allocation_granularity sys) q m \<longrightarrow>
             disjoint_regions (q, m) (p, n) \<longrightarrow> mirrored_at (vm k') q m)"
    by blast
qed

context linux_kernel
begin

lemma linux_provides: "provides_platform (linux_platform sys) kernel_ok"
  unfolding linux_platform_def by (rule track_provides)

end

end
