(* ===== verification/Memory.thy ===== *)
theory Memory
  imports Prelude
begin

text \<open>
  The memory behind a mirrored buffer, as the elements of a deque see it. The physical
  memory of a buffer is a list of byte-sized cells; virtual offset \<open>o\<close> from the start of the
  first region reaches physical cell \<open>o mod length mem\<close>, so that offsets \<open>o\<close> and
  \<open>o + length mem\<close> are the same cell (the platform theories derive this from the system
  calls). A value of type \<open>T\<close> occupies \<open>size_of::<T>()\<close> consecutive virtual cells: cell
  \<open>k\<close> of the value \<open>v\<close> is \<open>Frag v k\<close>, and a read is defined only where all the
  fragments of one value stand in order. This is what \<open>core::ptr::read\<close>, \<open>write\<close>
  and \<open>copy\<close> do, including for an element that straddles the seam between the regions.
\<close>

datatype 'a cell = Uninit | Frag 'a nat

definition vcell :: "'a cell list \<Rightarrow> nat \<Rightarrow> 'a cell" where
  "vcell mem off = mem ! (off mod length mem)"

definition read_cells :: "'a cell list \<Rightarrow> nat \<Rightarrow> nat \<Rightarrow> 'a cell list" where
  "read_cells mem off n = map (\<lambda>k. vcell mem (off + k)) [0..<n]"

fun write_cells :: "'a cell list \<Rightarrow> nat \<Rightarrow> 'a cell list \<Rightarrow> 'a cell list" where
  "write_cells mem off [] = mem"
| "write_cells mem off (c # cs) = write_cells (mem[off mod length mem := c]) (Suc off) cs"

definition enc :: "nat \<Rightarrow> 'a \<Rightarrow> 'a cell list" where
  "enc sz v = map (Frag v) [0..<sz]"

text \<open>A zero-sized type has one value \<open>z\<close>; reading it touches no memory.\<close>

definition decode :: "nat \<Rightarrow> 'a \<Rightarrow> 'a cell list \<Rightarrow> fault + 'a" where
  "decode sz z cs =
     (if sz = 0 then Inr z
      else case cs of
        Frag v k # _ \<Rightarrow> (if cs = enc sz v then Inr v else undef UninitRead)
      | _ \<Rightarrow> undef UninitRead)"

abbreviation slot :: "nat \<Rightarrow> 'a cell list \<Rightarrow> nat \<Rightarrow> 'a cell list" where
  "slot sz mem off \<equiv> read_cells mem off sz"

subsection \<open>Cells\<close>

lemma length_write_cells [simp]: "length (write_cells mem off cs) = length mem"
  by (induction mem off cs rule: write_cells.induct) auto

lemma length_read_cells [simp]: "length (read_cells mem off n) = n"
  by (simp add: read_cells_def)

lemma length_enc [simp]: "length (enc sz v) = sz"
  by (simp add: enc_def)

lemma vcell_mirror [simp]: "vcell mem (off + length mem) = vcell mem off"
  by (simp add: vcell_def)

lemma vcell_mirror' [simp]: "vcell mem (length mem + off) = vcell mem off"
  by (simp add: vcell_def)

lemma mod_window_neq:
  assumes "a < b" "b < a + (L::nat)"
  shows "a mod L \<noteq> b mod L"
proof
  assume "a mod L = b mod L"
  then have "L dvd b - a" using assms by (metis less_imp_le_nat mod_eq_dvd_iff_nat)
  then show False using assms by (auto dest: dvd_imp_le)
qed

lemma vcell_update:
  assumes "mem \<noteq> []"
  shows "vcell (mem[off mod length mem := c]) i =
         (if i mod length mem = off mod length mem then c else vcell mem i)"
  using assms by (simp add: vcell_def nth_list_update)

lemma vcell_write_behind:
  "mem \<noteq> [] \<Longrightarrow> i < off \<Longrightarrow> off + length cs \<le> i + length mem \<Longrightarrow>
   vcell (write_cells mem off cs) i = vcell mem i"
proof (induction mem off cs rule: write_cells.induct)
  case (2 mem off c cs)
  have "vcell (write_cells mem off (c # cs)) i = vcell (mem[off mod length mem := c]) i"
    using "2.IH" "2.prems" by (simp add: less_SucI)
  also have "\<dots> = vcell mem i"
    using "2.prems" mod_window_neq[of i off "length mem"] by (simp add: vcell_update)
  finally show ?case .
qed simp

lemma vcell_write_inside:
  "mem \<noteq> [] \<Longrightarrow> off \<le> i \<Longrightarrow> i < off + length cs \<Longrightarrow> length cs \<le> length mem \<Longrightarrow>
   vcell (write_cells mem off cs) i = cs ! (i - off)"
proof (induction mem off cs rule: write_cells.induct)
  case (2 mem off c cs)
  show ?case
  proof (cases "i = off")
    case True
    have "vcell (write_cells (mem[off mod length mem := c]) (Suc off) cs) off
          = vcell (mem[off mod length mem := c]) off"
      using "2.prems" by (intro vcell_write_behind) auto
    with True "2.prems" show ?thesis by (simp add: vcell_update)
  next
    case False
    with "2.prems" have "Suc off \<le> i" by simp
    with "2.IH" "2.prems" show ?thesis by (simp add: nth_Cons' Suc_diff_le)
  qed
qed simp

lemma vcell_write_ahead:
  assumes "mem \<noteq> []" "off + length cs \<le> i" "i < off + length mem"
  shows "vcell (write_cells mem off cs) i = vcell mem i"
proof (cases "i < off")
  case True
  then show ?thesis using assms by simp
next
  case False
  text \<open>One period further down the window, the cell lies behind the write.\<close>
  show ?thesis
  proof (cases "length mem \<le> i")
    case True
    then obtain j where i: "i = j + length mem" by (metis le_add_diff_inverse2)
    have "vcell (write_cells mem off cs) j = vcell mem j"
      using assms i by (intro vcell_write_behind) auto
    with i show ?thesis by (metis length_write_cells vcell_mirror)
  next
    case False
    have "vcell (write_cells mem (off + length mem) cs) i = vcell mem i"
      using assms False by (intro vcell_write_behind) auto
    moreover have "write_cells mem (off + length mem) cs = write_cells mem off cs" for mem :: "'a cell list"
      by (induction mem off cs rule: write_cells.induct) auto
    ultimately show ?thesis by simp
  qed
qed

text \<open>
  Inside any window of one period, a write changes exactly the cells it names. This is the
  fact every element access of the deque rests on.
\<close>

lemma vcell_write:
  assumes "mem \<noteq> []" "w \<le> off" "off + length cs \<le> w + length mem"
    and "w \<le> i" "i < w + length mem"
  shows "vcell (write_cells mem off cs) i =
         (if off \<le> i \<and> i < off + length cs then cs ! (i - off) else vcell mem i)"
  using assms vcell_write_behind[of mem i off cs] vcell_write_inside[of mem off i cs]
    vcell_write_ahead[of mem off cs i] by auto

subsection \<open>Slots\<close>

lemma decode_enc [simp]: "(sz = 0 \<Longrightarrow> v = z) \<Longrightarrow> decode sz z (enc sz v) = Inr v"
  by (cases sz) (auto simp: decode_def enc_def upt_conv_Cons simp del: upt_Suc)

lemma decode_Uninit [simp]: "0 < sz \<Longrightarrow> decode sz z (replicate sz Uninit) = undef UninitRead"
  by (cases sz) (auto simp: decode_def)

lemma enc_inject [simp]: "0 < sz \<Longrightarrow> enc sz v = enc sz w \<longleftrightarrow> v = w"
  by (cases sz) (auto simp: enc_def upt_conv_Cons simp del: upt_Suc)

lemma slot_mirror [simp]: "read_cells mem (off + length mem) n = read_cells mem off n"
proof -
  have "vcell mem (off + length mem + k) = vcell mem (off + k)" for k
    by (metis add.assoc add.commute vcell_mirror)
  then show ?thesis by (simp add: read_cells_def)
qed

lemma slot_0 [simp]: "read_cells mem off 0 = []"
  by (simp add: read_cells_def)

lemma take_drop_read_cells:
  "a + b \<le> n \<Longrightarrow> take b (drop a (read_cells mem off n)) = read_cells mem (off + a) b"
  by (rule nth_equalityI) (auto simp: read_cells_def add.assoc)

lemma slot_write_bounds:
  assumes "i < (N::nat)" "N * sz \<le> L"
  shows "i * sz + sz \<le> L"
proof -
  have "Suc i * sz \<le> N * sz" using assms by (intro mult_le_mono1) simp
  then show ?thesis using assms by simp
qed

lemma slot_write_slots:
  assumes N: "N * sz \<le> length mem" and j: "j + n \<le> N" and i: "i < N"
    and cs: "length cs = n * sz"
  shows "slot sz (write_cells mem (w + j * sz) cs) (w + i * sz) =
    (if j \<le> i \<and> i < j + n then take sz (drop ((i - j) * sz) cs) else slot sz mem (w + i * sz))"
proof (cases "sz = 0")
  case True
  then show ?thesis by simp
next
  case False
  have b: "i * sz + sz \<le> length mem" using slot_write_bounds[OF i N] .
  with False have mem: "mem \<noteq> []" by auto
  have jn: "(j + n) * sz \<le> length mem" using N j by (meson le_trans mult_le_mono1)
  have len: "w + j * sz + length cs \<le> w + length mem"
    using jn cs by (simp add: add_mult_distrib)
  have cell: "vcell (write_cells mem (w + j * sz) cs) (w + i * sz + k) =
     (if w + j * sz \<le> w + i * sz + k \<and> w + i * sz + k < w + j * sz + length cs
      then cs ! (w + i * sz + k - (w + j * sz)) else vcell mem (w + i * sz + k))" if "k < sz" for k
    using that b len mem by (intro vcell_write[where w = w]) auto
  have order: "j * sz \<le> i * sz + k \<and> i * sz + k < j * sz + n * sz \<longleftrightarrow> j \<le> i \<and> i < j + n"
    if "k < sz" for k
  proof -
    have "(i * sz + k) div sz = i" using that by simp
    then have "j \<le> i \<longleftrightarrow> j * sz \<le> i * sz + k"
      using False by (metis less_eq_div_iff_mult_less_eq neq0_conv)
    moreover have "i < j + n \<longleftrightarrow> i * sz + k < (j + n) * sz"
      using \<open>(i * sz + k) div sz = i\<close> False by (metis div_less_iff_less_mult neq0_conv)
    ultimately show ?thesis by (simp add: add_mult_distrib)
  qed
  show ?thesis
  proof (cases "j \<le> i \<and> i < j + n")
    case True
    then have sub: "(i - j) * sz + j * sz = i * sz" by (metis add_mult_distrib le_add_diff_inverse2)
    have "(i - j) * sz + sz \<le> n * sz"
      using True by (metis Suc_leI add.commute less_diff_conv2 mult_Suc mult_le_mono1)
    moreover have "i * sz + k - j * sz = (i - j) * sz + k" for k using sub by simp
    ultimately show ?thesis
      using True by (intro nth_equalityI) (auto simp: read_cells_def cell order cs)
  next
    case False
    then show ?thesis
      by (intro nth_equalityI) (auto simp: read_cells_def cell order cs)
  qed
qed

text \<open>One element written, and a run of elements copied, seen slot by slot.\<close>

lemma slot_write_one:
  assumes "N * sz \<le> length mem" "j < N" "i < N"
  shows "slot sz (write_cells mem (w + j * sz) (enc sz v)) (w + i * sz) =
    (if i = j then enc sz v else slot sz mem (w + i * sz))"
  using slot_write_slots[of N sz mem j 1 i "enc sz v" w] assms by (auto simp: le_Suc_eq)

lemma slot_copy:
  assumes "N * sz \<le> length mem" "d + n \<le> N" "i < N"
  shows "slot sz (write_cells mem (w + d * sz) (read_cells mem' (w' + s * sz) (n * sz))) (w + i * sz) =
    (if d \<le> i \<and> i < d + n then slot sz mem' (w' + (i - d + s) * sz) else slot sz mem (w + i * sz))"
proof -
  have "take sz (drop ((i - d) * sz) (read_cells mem' (w' + s * sz) (n * sz)))
        = slot sz mem' (w' + (i - d + s) * sz)" if "d \<le> i" "i < d + n"
  proof -
    have "(i - d) * sz + sz \<le> n * sz"
      using that by (metis Suc_leI add.commute less_diff_conv2 mult_Suc mult_le_mono1)
    then show ?thesis by (simp add: take_drop_read_cells add_mult_distrib algebra_simps)
  qed
  then show ?thesis using assms slot_write_slots[of N sz mem d n i] by auto
qed

lemma slot_uninit: "0 < L \<Longrightarrow> read_cells (replicate L Uninit) off n = replicate n Uninit"
  by (rule nth_equalityI) (auto simp: read_cells_def vcell_def)

end
