(* ===== verification/Buffer.thy ===== *)
theory Buffer
  imports Memory Platform
begin

text \<open>
  \<open>src/mirrored/buffer.rs\<close>: the mirrored memory buffer, and the pointer operations of
  \<open>core::ptr\<close> on its mapping. A configuration fixes what is constant in one build of the
  program: the platform, the profile (\<open>debug\<close>: debug assertions and overflow checks),
  and the size, alignment and drop behaviour of the element type \<open>T\<close>.
\<close>

record ('a, 'os) cfg =
  plat :: "'os platform"
  debug :: bool
  esize :: nat
  ealign :: nat
  needs_drop :: bool
  zval :: 'a

text \<open>What an operation can change beside its own arguments: the operating system's state, and
  the log of the values that have been dropped, oldest first.\<close>

record ('a, 'os) world =
  os :: 'os
  dropped :: "'a list"

text \<open>
  \<open>struct Buffer\<close>: \<open>ptr\<close> and \<open>len\<close> as in the source, and the physical cells of the region it
  owns (empty for a buffer that owns none).
\<close>

record 'a buffer =
  bptr :: nat
  blen :: nat
  cells :: "'a cell list"

abbreviation ag :: "('a, 'os) cfg \<Rightarrow> nat" where
  "ag c \<equiv> gran (plat c)"

subsection \<open>Operations\<close>

definition no_required_allocation_units :: "('a, 'os) cfg \<Rightarrow> nat \<Rightarrow> fault + nat" where
  "no_required_allocation_units c bytes =
     bindE (usize_add (debug c) bytes (ag c)) (\<lambda>t.
     bindE (usize_sub (debug c) t 1) (\<lambda>t.
     bindE (usize_div t (ag c)) (\<lambda>q.
     let r = max q 1 in
     bindE (if r mod 2 = 0 then Inr r else usize_add (debug c) r 1) (\<lambda>r.
     bindE (debug_assert_m (debug c)
       (bindE (usize_mul (debug c) r (ag c)) (\<lambda>m. Inr (bytes \<le> m)))) (\<lambda>_.
     bindE (debug_assert (debug c) (r mod 2 = 0)) (\<lambda>_.
     Inr r))))))"

definition buf_is_empty :: "'a buffer \<Rightarrow> bool" where
  "buf_is_empty b \<longleftrightarrow> blen b = 0"

definition empty_len :: "('a, 'os) cfg \<Rightarrow> nat" where
  "empty_len c = (if esize c = 0 then isize_max * 2 else 0)"

text \<open>\<open>NonNull::dangling()\<close> is the alignment of \<open>T\<close> as an address.\<close>

definition buffer_new :: "('a, 'os) cfg \<Rightarrow> 'a buffer" where
  "buffer_new c = \<lparr>bptr = ealign c, blen = empty_len c, cells = []\<rparr>"

text \<open>The cells are what the caller knows to be mapped at \<open>p\<close>.\<close>

definition buffer_from_raw_parts ::
    "('a, 'os) cfg \<Rightarrow> nat \<Rightarrow> nat \<Rightarrow> 'a cell list \<Rightarrow> fault + 'a buffer" where
  "buffer_from_raw_parts c p n mem =
     bindE (assert_that (n mod 2 = 0)) (\<lambda>_.
     bindE (assert_that (p \<noteq> 0)) (\<lambda>_.
     bindE (if esize c = 0 then debug_assert (debug c) (n = empty_len c) else Inr ()) (\<lambda>_.
     Inr \<lparr>bptr = p, blen = n, cells = mem\<rparr>)))"

definition size_in_bytes :: "('a, 'os) cfg \<Rightarrow> nat \<Rightarrow> fault + nat" where
  "size_in_bytes c n =
     bindE (usize_mul (debug c) n (esize c)) (\<lambda>bytes.
     bindE (no_required_allocation_units c bytes) (\<lambda>u.
     bindE (usize_mul (debug c) u (ag c)) (\<lambda>v.
     bindE (debug_assert (debug c) (bytes \<le> v)) (\<lambda>_.
     Inr v))))"

definition uninitialized ::
    "('a, 'os) cfg \<Rightarrow> nat \<Rightarrow> ('a, 'os) world \<Rightarrow>
     fault + ((alloc_error + 'a buffer) \<times> ('a, 'os) world)" where
  "uninitialized c n w =
     (if esize c = 0 then Inr (Inr \<lparr>bptr = ealign c, blen = empty_len c, cells = []\<rparr>, w)
      else
        bindE (assert_that (ealign c \<le> ag c)) (\<lambda>_.
        if n = 0 then Inr (Inr (buffer_new c), w)
        else
          bindE (assert_that (n mod 2 = 0)) (\<lambda>_.
          bindE (size_in_bytes c n) (\<lambda>alloc_size.
          bindE (debug_assert (debug c) (0 < alloc_size)) (\<lambda>_.
          bindE (debug_assert (debug c) (alloc_size mod 2 = 0)) (\<lambda>_.
          bindE (debug_assert (debug c) (alloc_size mod ag c = 0)) (\<lambda>_.
          bindE (debug_assert (debug c) (n * esize c \<le> alloc_size)) (\<lambda>_.
          bindE (allocate_mirrored (plat c) alloc_size (os w)) (\<lambda>(r, s).
          case r of
            Inl e \<Rightarrow> Inr (Inl e, w\<lparr>os := s\<rparr>)
          | Inr p \<Rightarrow>
              Inr (Inr \<lparr>bptr = p, blen = alloc_size div esize c,
                        cells = replicate (alloc_size div 2) Uninit\<rparr>, w\<lparr>os := s\<rparr>))))))))))"

definition buffer_drop ::
    "('a, 'os) cfg \<Rightarrow> 'a buffer \<Rightarrow> ('a, 'os) world \<Rightarrow> fault + ('a, 'os) world" where
  "buffer_drop c b w =
     (if esize c = 0 then
        bindE (debug_assert (debug c) (blen b = empty_len c)) (\<lambda>_. Inr w)
      else if buf_is_empty b then Inr w
      else
        bindE (size_in_bytes c (blen b)) (\<lambda>n.
        bindE (deallocate_mirrored (plat c) (bptr b) n (os w)) (\<lambda>s.
        Inr (w\<lparr>os := s\<rparr>))))"

subsection \<open>Pointer operations on the mapping\<close>

text \<open>The virtual range of \<open>n\<close> bytes at \<open>a\<close> lies in the two regions of \<open>b\<close>.\<close>

definition in_mapping :: "'a buffer \<Rightarrow> nat \<Rightarrow> nat \<Rightarrow> bool" where
  "in_mapping b a n \<longleftrightarrow> bptr b \<le> a \<and> a + n \<le> bptr b + 2 * length (cells b)"

definition bslot :: "('a, 'os) cfg \<Rightarrow> 'a buffer \<Rightarrow> nat \<Rightarrow> 'a cell list" where
  "bslot c b a = slot (esize c) (cells b) (a - bptr b)"

definition ptr_read :: "('a, 'os) cfg \<Rightarrow> 'a buffer \<Rightarrow> nat \<Rightarrow> fault + 'a" where
  "ptr_read c b a =
     (if esize c = 0 then Inr (zval c)
      else if in_mapping b a (esize c) then decode (esize c) (zval c) (bslot c b a)
      else undef OutOfBounds)"

definition ptr_write :: "('a, 'os) cfg \<Rightarrow> 'a buffer \<Rightarrow> nat \<Rightarrow> 'a \<Rightarrow> fault + 'a buffer" where
  "ptr_write c b a v =
     (if esize c = 0 then Inr b
      else if in_mapping b a (esize c)
      then Inr (b\<lparr>cells := write_cells (cells b) (a - bptr b) (enc (esize c) v)\<rparr>)
      else undef OutOfBounds)"

text \<open>
  \<open>ptr::copy\<close> inside one buffer. Source and destination may overlap as virtual ranges; a copy
  whose two ranges meet only through the mirror is not a defined use of it.
\<close>

definition ptr_copy :: "('a, 'os) cfg \<Rightarrow> 'a buffer \<Rightarrow> nat \<Rightarrow> nat \<Rightarrow> nat \<Rightarrow> fault + 'a buffer" where
  "ptr_copy c b src dst n =
     (let bytes = n * esize c in
      if bytes = 0 then Inr b
      else if \<not> (in_mapping b src bytes \<and> in_mapping b dst bytes) then undef OutOfBounds
      else if max src dst + bytes > min src dst + length (cells b) then undef MirrorAlias
      else Inr (b\<lparr>cells := write_cells (cells b) (dst - bptr b)
                              (read_cells (cells b) (src - bptr b) bytes)\<rparr>))"

text \<open>\<open>ptr::copy_nonoverlapping\<close> from a range of cells owned elsewhere, or from another buffer.\<close>

definition ptr_copy_from ::
    "('a, 'os) cfg \<Rightarrow> 'a cell list \<Rightarrow> 'a buffer \<Rightarrow> nat \<Rightarrow> fault + 'a buffer" where
  "ptr_copy_from c cs b dst =
     (if cs = [] then Inr b
      else if in_mapping b dst (length cs) \<and> length cs \<le> length (cells b)
      then Inr (b\<lparr>cells := write_cells (cells b) (dst - bptr b) cs\<rparr>)
      else undef OutOfBounds)"

definition ptr_copy_nonoverlapping ::
    "('a, 'os) cfg \<Rightarrow> 'a buffer \<Rightarrow> nat \<Rightarrow> 'a buffer \<Rightarrow> nat \<Rightarrow> nat \<Rightarrow> fault + 'a buffer" where
  "ptr_copy_nonoverlapping c from src b dst n =
     (let bytes = n * esize c in
      if bytes = 0 then Inr b
      else if in_mapping from src bytes
      then ptr_copy_from c (read_cells (cells from) (src - bptr from) bytes) b dst
      else undef OutOfBounds)"

definition buffer_get :: "('a, 'os) cfg \<Rightarrow> 'a buffer \<Rightarrow> nat \<Rightarrow> fault + 'a" where
  "buffer_get c b i =
     (if i < blen b then ptr_read c b (bptr b + i * esize c) else panic IndexOutOfBounds)"

text \<open>\<open>get_mut\<close>: the address of the \<open>i\<close>-th element.\<close>

definition buffer_get_mut :: "('a, 'os) cfg \<Rightarrow> 'a buffer \<Rightarrow> nat \<Rightarrow> fault + nat" where
  "buffer_get_mut c b i = (if i < blen b then Inr (bptr b + i * esize c) else panic IndexOutOfBounds)"

subsection \<open>Sizes\<close>

text \<open>The number of allocation units without the machine arithmetic: even, and at least two.\<close>

definition even_up :: "nat \<Rightarrow> nat" where
  "even_up r = (if r mod 2 = 0 then r else r + 1)"

definition alloc_units :: "nat \<Rightarrow> nat \<Rightarrow> nat" where
  "alloc_units g n = even_up (max ((n + g - 1) div g) 1)"

definition alloc_bytes :: "('a, 'os) cfg \<Rightarrow> nat \<Rightarrow> nat" where
  "alloc_bytes c n = alloc_units (ag c) n * ag c"

lemma even_up_even [simp]: "even (even_up r)"
  by (simp add: even_up_def) presburger

lemma even_up_bounds: "r \<le> even_up r" "even_up r \<le> Suc r"
  by (simp_all add: even_up_def)

lemma even_up_mono: "r \<le> s \<Longrightarrow> even_up r \<le> even_up s"
  unfolding even_up_def by presburger

lemma even_up_id [simp]: "even r \<Longrightarrow> even_up r = r"
  by (simp add: even_up_def even_iff_mod_2_eq_zero)

lemma units_quotient:
  assumes "0 < (g :: nat)"
  shows "n \<le> ((n + g - 1) div g) * g" "((n + g - 1) div g) * g \<le> n + g - 1"
proof -
  have "(n + g - 1) div g * g + (n + g - 1) mod g = n + g - 1" by simp
  moreover have "(n + g - 1) mod g < g" using assms by simp
  ultimately show "n \<le> ((n + g - 1) div g) * g" using assms by linarith
qed (rule div_times_less_eq_dividend)

lemma alloc_units_even [simp]: "even (alloc_units g n)"
  by (simp add: alloc_units_def)

lemma alloc_units_ge_2: "2 \<le> alloc_units g n"
proof -
  have "1 \<le> alloc_units g n"
    unfolding alloc_units_def by (rule order_trans[OF _ even_up_bounds(1)]) simp
  with alloc_units_even[of g n] show ?thesis by presburger
qed

lemma alloc_units_mono: "n \<le> m \<Longrightarrow> alloc_units g n \<le> alloc_units g m"
  unfolding alloc_units_def by (intro even_up_mono max.mono div_le_mono) auto

lemma alloc_units_enough:
  assumes "0 < g" shows "n \<le> alloc_units g n * g"
proof -
  have "(n + g - 1) div g \<le> alloc_units g n"
    unfolding alloc_units_def by (rule order_trans[OF _ even_up_bounds(1)]) simp
  then have "((n + g - 1) div g) * g \<le> alloc_units g n * g" by (rule mult_le_mono1)
  with units_quotient(1)[OF assms, of n] show ?thesis by linarith
qed

lemma alloc_units_exact: "0 < g \<Longrightarrow> even k \<Longrightarrow> 0 < k \<Longrightarrow> alloc_units g (k * g) = k"
proof -
  assume g: "0 < g" and k: "even k" "0 < k"
  have "(k * g + g - 1) div g = k"
    using g by (intro div_nat_eqI) (auto simp: algebra_simps)
  moreover have "1 < k" using k by presburger
  ultimately show ?thesis using k by (simp add: alloc_units_def max_def)
qed

lemma alloc_units_bound:
  assumes g: "0 < g" shows "alloc_units g n * g \<le> n + 2 * g"
proof (cases "(n + g - 1) div g \<le> 1")
  case True
  then have "alloc_units g n = 2" by (simp add: alloc_units_def max_def even_up_def)
  then show ?thesis by simp
next
  case False
  then have "alloc_units g n \<le> (n + g - 1) div g + 1"
    by (simp add: alloc_units_def max_def even_up_bounds)
  then have "alloc_units g n * g \<le> ((n + g - 1) div g + 1) * g" by (rule mult_le_mono1)
  then have "alloc_units g n * g \<le> ((n + g - 1) div g) * g + g" by simp
  with units_quotient(2)[OF g, of n] g show ?thesis by linarith
qed

lemma units_quotient_le:
  assumes "0 < (g :: nat)" shows "(n + g - 1) div g \<le> n"
proof -
  have "(n + g - 1) div g * 1 \<le> (n + g - 1) div g * g" using assms by (intro mult_le_mono2) simp
  have "n + g - 1 < (n + 1) * g" using assms by (cases g) auto
  then have "(n + g - 1) div g < n + 1" using assms by (simp add: div_less_iff_less_mult)
  then show ?thesis by simp
qed

lemma no_required_allocation_units_ok [ok_simps]:
  assumes g: "0 < ag c" and b: "n + 2 * ag c < usize_bound"
  shows "no_required_allocation_units c n = Inr (alloc_units (ag c) n)"
proof -
  define q where "q = max ((n + ag c - 1) div ag c) 1"
  have u: "alloc_units (ag c) n = even_up q" by (simp add: alloc_units_def q_def)
  have "q \<le> max n 1" using units_quotient_le[OF g, of n] by (auto simp: q_def max_def)
  then have q1: "q + 1 < usize_bound" using b g by (auto simp: max_def usize_bound_def split: if_splits)
  have up: "(if q mod 2 = 0 then Inr q else usize_add (debug c) q 1) = Inr (even_up q)"
    using q1 by (simp add: even_up_def)
  have m: "even_up q * ag c < usize_bound"
    using alloc_units_bound[OF g, of n] b by (simp add: u)
  have e: "n \<le> even_up q * ag c" using alloc_units_enough[OF g, of n] by (simp add: u)
  have "even_up q mod 2 = 0" using even_up_even[of q] by presburger
  then have rest: "bindE (debug_assert_m (debug c)
       (bindE (usize_mul (debug c) (even_up q) (ag c)) (\<lambda>m. Inr (n \<le> m)))) (\<lambda>_.
     bindE (debug_assert (debug c) (even_up q mod 2 = 0)) (\<lambda>_. Inr (even_up q))) = Inr (even_up q)"
    using m e by simp
  have "usize_add (debug c) n (ag c) = Inr (n + ag c)"
    "usize_sub (debug c) (n + ag c) 1 = Inr (n + ag c - 1)" using b g by simp_all
  then show ?thesis
    using g up rest unfolding no_required_allocation_units_def
    by (simp only: bindE_simps usize_arith_ok Let_def q_def[symmetric] u)
qed

lemma size_in_bytes_ok [ok_simps]:
  assumes "0 < ag c" "n * esize c + 2 * ag c < usize_bound"
  shows "size_in_bytes c n = Inr (alloc_bytes c (n * esize c))"
proof -
  have "alloc_units (ag c) (n * esize c) * ag c < usize_bound"
    using alloc_units_bound[OF assms(1), of "n * esize c"] assms(2) by linarith
  moreover have "n * esize c \<le> alloc_units (ag c) (n * esize c) * ag c"
    by (rule alloc_units_enough[OF assms(1)])
  ultimately show ?thesis
    using assms by (simp add: size_in_bytes_def alloc_bytes_def ok_simps)
qed

lemma alloc_bytes_facts:
  assumes "0 < ag c"
  shows "n \<le> alloc_bytes c n" "2 * ag c dvd alloc_bytes c n" "2 * ag c \<le> alloc_bytes c n"
    "alloc_bytes c n \<le> n + 2 * ag c"
proof -
  show "n \<le> alloc_bytes c n" "alloc_bytes c n \<le> n + 2 * ag c"
    using assms by (simp_all add: alloc_bytes_def alloc_units_enough alloc_units_bound)
  show "2 * ag c dvd alloc_bytes c n" "2 * ag c \<le> alloc_bytes c n"
    by (auto simp: alloc_bytes_def intro: mult_dvd_mono mult_le_mono1 alloc_units_ge_2)
qed

lemma alloc_bytes_mono: "n \<le> m \<Longrightarrow> alloc_bytes c n \<le> alloc_bytes c m"
  by (simp add: alloc_bytes_def alloc_units_mono)

lemma alloc_bytes_idem: "0 < ag c \<Longrightarrow> alloc_bytes c (alloc_bytes c n) = alloc_bytes c n"
  unfolding alloc_bytes_def using alloc_units_ge_2[of "ag c" n]
  by (subst alloc_units_exact) auto

text \<open>A length between the one requested and the one that fills the mapping has the same mapping.\<close>

lemma alloc_bytes_between:
  "0 < ag c \<Longrightarrow> n \<le> m \<Longrightarrow> m \<le> alloc_bytes c n \<Longrightarrow> alloc_bytes c m = alloc_bytes c n"
  using alloc_bytes_mono[of n m c] alloc_bytes_mono[of m "alloc_bytes c n" c]
  by (simp add: alloc_bytes_idem)

subsection \<open>Well-formed buffers\<close>

text \<open>
  What the element type and the platform must satisfy: Rust's layout rules (the alignment
  divides the size), alignments up to the granularity, and two elements that fit in the
  address space.
\<close>

definition cfg_ok :: "('a, 'os) cfg \<Rightarrow> bool" where
  "cfg_ok c \<longleftrightarrow> 0 < ag c \<and> 0 < ealign c \<and> ealign c dvd esize c \<and> ealign c dvd ag c \<and>
     2 * esize c + 4 * ag c < usize_bound"

lemma cfg_okD:
  assumes "cfg_ok c"
  shows "0 < ag c" "0 < ealign c" "ealign c dvd esize c" "ealign c dvd ag c" "ealign c \<le> ag c"
    "2 * esize c + 4 * ag c < usize_bound"
  using assms by (auto simp: cfg_ok_def dest: dvd_imp_le)

text \<open>
  A buffer owns either nothing (the length is zero, or \<open>T\<close> is zero-sized) or a whole mirrored
  region of \<open>2 * length (cells b)\<close> bytes, whose size the code can recompute from \<open>len\<close>.
\<close>

definition wf_buffer :: "('a, 'os) cfg \<Rightarrow> 'a buffer \<Rightarrow> bool" where
  "wf_buffer c b \<longleftrightarrow> 0 < bptr b \<and> ealign c dvd bptr b \<and>
     (if esize c = 0 then blen b = empty_len c \<and> cells b = [] \<and> bptr b \<le> ag c
      else if blen b = 0 then cells b = [] \<and> bptr b \<le> ag c
      else 2 \<le> blen b \<and> blen b = 2 * length (cells b) div esize c \<and>
           alloc_bytes c (2 * (blen b div 2) * esize c) = 2 * length (cells b) \<and>
           esize c \<le> bptr b \<and> ag c \<le> bptr b \<and>
           bptr b + 2 * length (cells b) < isize_bound)"

definition half_bytes :: "('a, 'os) cfg \<Rightarrow> 'a buffer \<Rightarrow> nat" where
  "half_bytes c b = (if esize c = 0 \<or> blen b = 0 then ag c else length (cells b))"

definition regions :: "('a, 'os) cfg \<Rightarrow> 'a buffer \<Rightarrow> (nat \<times> nat) set" where
  "regions c b = (if esize c = 0 \<or> blen b = 0 then {} else {(bptr b, 2 * length (cells b))})"

lemma alloc_bytes_0: "0 < ag c \<Longrightarrow> alloc_bytes c 0 = 2 * ag c"
  by (simp add: alloc_bytes_def alloc_units_def even_up_def max_def)

lemma size_in_bytes_region:
  assumes c: "cfg_ok c" and b: "wf_buffer c b"
  shows "size_in_bytes c (blen b) = Inr (2 * half_bytes c b)"
proof (cases "esize c = 0 \<or> blen b = 0")
  case True
  then have "blen b * esize c = 0" by auto
  then show ?thesis
    using True cfg_okD[OF c] alloc_bytes_0[of c] by (auto simp: size_in_bytes_ok half_bytes_def)
next
  case False
  let ?L = "length (cells b)"
  have w: "blen b = 2 * ?L div esize c" "alloc_bytes c (2 * (blen b div 2) * esize c) = 2 * ?L"
    "ag c \<le> bptr b" "bptr b + 2 * ?L < isize_bound"
    using b False by (auto simp: wf_buffer_def)
  have le: "blen b * esize c \<le> 2 * ?L" by (simp add: w(1))
  moreover have "0 < ?L" using w(1) b False by (auto simp: wf_buffer_def)
  ultimately have "blen b * esize c + 2 * ag c < usize_bound"
    using w(3,4) unfolding usize_isize_bound by (simp add: length_greater_0_conv[symmetric] del: length_greater_0_conv)
  moreover have "alloc_bytes c (blen b * esize c) = 2 * ?L"
  proof -
    have "2 * (blen b div 2) * esize c \<le> blen b * esize c" by (intro mult_le_mono1) simp
    then show ?thesis
      using alloc_bytes_between[OF cfg_okD(1)[OF c]] w(2) le by metis
  qed
  ultimately show ?thesis
    using False cfg_okD(1)[OF c] by (simp add: size_in_bytes_ok half_bytes_def)
qed

lemma half_bytes_facts:
  assumes c: "cfg_ok c" and b: "wf_buffer c b"
  shows "0 < half_bytes c b" "ealign c dvd half_bytes c b" "blen b div 2 < isize_bound"
    "(blen b div 2) * esize c \<le> half_bytes c b" "bptr b + 2 * half_bytes c b < usize_bound"
    "ag c dvd half_bytes c b"
    "0 < esize c \<Longrightarrow> 0 < blen b \<Longrightarrow>
       half_bytes c b = length (cells b) \<and> esize c \<le> bptr b \<and> 0 < length (cells b)"
    "blen b < usize_bound"
proof -
  note cd = cfg_okD[OF c]
  have "0 < half_bytes c b \<and> ealign c dvd half_bytes c b \<and> blen b div 2 < isize_bound \<and>
    (blen b div 2) * esize c \<le> half_bytes c b \<and> bptr b + 2 * half_bytes c b < usize_bound \<and>
    ag c dvd half_bytes c b \<and>
    (0 < esize c \<longrightarrow> 0 < blen b \<longrightarrow>
       half_bytes c b = length (cells b) \<and> esize c \<le> bptr b \<and> 0 < length (cells b)) \<and>
    blen b < usize_bound"
  proof (cases "esize c = 0 \<or> blen b = 0")
    case True
    then have h: "half_bytes c b = ag c" and p: "bptr b \<le> ag c" and
      len: "blen b = 0 \<or> blen b = isize_max * 2"
      using b by (auto simp: wf_buffer_def half_bytes_def empty_len_def split: if_splits)
    have "bptr b + 2 * ag c < usize_bound" using p cd(6) by linarith
    then show ?thesis using True h len cd b
      by (auto simp: isize_max_def usize_isize_bound)
  next
    case False
    let ?L = "length (cells b)"
    have w: "2 \<le> blen b" "blen b = 2 * ?L div esize c"
      "alloc_bytes c (2 * (blen b div 2) * esize c) = 2 * ?L"
      "esize c \<le> bptr b" "ag c \<le> bptr b" "bptr b + 2 * ?L < isize_bound" "0 < bptr b"
      using b False by (auto simp: wf_buffer_def)
    have h: "half_bytes c b = ?L" using False by (simp add: half_bytes_def)
    have dvd: "ag c dvd ?L"
    proof -
      have "2 * ag c dvd 2 * ?L" using alloc_bytes_facts(2)[OF cd(1)] w(3) by metis
      then show ?thesis by simp
    qed
    have pos: "0 < ?L" using alloc_bytes_facts(3)[OF cd(1), of "2 * (blen b div 2) * esize c"]
      cd(1) w(3) by linarith
    have le: "blen b * esize c \<le> 2 * ?L" by (simp add: w(2))
    have "2 * ((blen b div 2) * esize c) \<le> blen b * esize c"
      by (metis mult.assoc mult_le_mono1 mult.commute div_times_less_eq_dividend)
    with le have half: "(blen b div 2) * esize c \<le> ?L" by linarith
    have "blen b \<le> blen b * esize c" using False by simp
    with le w(6,7) have "blen b < isize_bound" by linarith
    then show ?thesis
      using h dvd pos half w False cd dvd_trans[OF cd(4) dvd] by (auto simp: usize_isize_bound)
  qed
  then show "0 < half_bytes c b" "ealign c dvd half_bytes c b" "blen b div 2 < isize_bound"
    "(blen b div 2) * esize c \<le> half_bytes c b" "bptr b + 2 * half_bytes c b < usize_bound"
    "ag c dvd half_bytes c b"
    "0 < esize c \<Longrightarrow> 0 < blen b \<Longrightarrow>
       half_bytes c b = length (cells b) \<and> esize c \<le> bptr b \<and> 0 < length (cells b)"
    "blen b < usize_bound"
    by auto
qed

lemma wf_buffer_new [intro]: "cfg_ok c \<Longrightarrow> wf_buffer c (buffer_new c)"
  using cfg_okD[of c] by (auto simp: wf_buffer_def buffer_new_def empty_len_def)

subsection \<open>A buffer seen from an address, slot by slot\<close>

lemma cells_update_frame [frame_simps, simp]:
  "length cs = length (cells b) \<Longrightarrow> wf_buffer c (b\<lparr>cells := cs\<rparr>) = wf_buffer c b"
  "length cs = length (cells b) \<Longrightarrow> half_bytes c (b\<lparr>cells := cs\<rparr>) = half_bytes c b"
  "length cs = length (cells b) \<Longrightarrow> regions c (b\<lparr>cells := cs\<rparr>) = regions c b"
  by (auto simp: wf_buffer_def half_bytes_def regions_def)

definition view :: "('a, 'os) cfg \<Rightarrow> 'a buffer \<Rightarrow> nat \<Rightarrow> 'a cell list list" where
  "view c b a = map (\<lambda>i. bslot c b (a + i * esize c)) [0..<blen b div 2]"

definition splice_at :: "'b list \<Rightarrow> nat \<Rightarrow> 'b list \<Rightarrow> 'b list" where
  "splice_at xs d ys = take d xs @ ys @ drop (d + length ys) xs"

definition head_ok :: "('a, 'os) cfg \<Rightarrow> 'a buffer \<Rightarrow> nat \<Rightarrow> bool" where
  "head_ok c b a \<longleftrightarrow> bptr b \<le> a \<and> a < bptr b + half_bytes c b \<and> ealign c dvd a"

lemma length_view [simp]: "length (view c b a) = blen b div 2"
  by (simp add: view_def)

lemma nth_view [simp]: "i < blen b div 2 \<Longrightarrow> view c b a ! i = bslot c b (a + i * esize c)"
  by (simp add: view_def)

lemma length_splice_at [simp]: "d + length ys \<le> length xs \<Longrightarrow> length (splice_at xs d ys) = length xs"
  by (simp add: splice_at_def)

lemma nth_splice_at:
  "d + length ys \<le> length xs \<Longrightarrow> i < length xs \<Longrightarrow>
   splice_at xs d ys ! i = (if d \<le> i \<and> i < d + length ys then ys ! (i - d) else xs ! i)"
  by (auto simp: splice_at_def nth_append min_def)

lemma head_ok_bptr: "cfg_ok c \<Longrightarrow> wf_buffer c b \<Longrightarrow> head_ok c b (bptr b)"
  using half_bytes_facts(1)[of c b] by (simp add: head_ok_def wf_buffer_def)

lemma window_in_mapping:
  assumes c: "cfg_ok c" and b: "wf_buffer c b" and a: "head_ok c b a"
    and n: "i + n \<le> blen b div 2" "0 < n * esize c"
  shows "in_mapping b (a + i * esize c) (n * esize c)"
    "(blen b div 2) * esize c \<le> length (cells b)" "cells b \<noteq> []"
    "a + i * esize c - bptr b = a - bptr b + i * esize c"
proof -
  have pos: "0 < esize c" "0 < blen b" using n by (auto intro: Nat.gr0I)
  note h = half_bytes_facts[OF c b]
  from h(7)[OF pos] have L: "half_bytes c b = length (cells b)" "cells b \<noteq> []" by auto
  have "(i + n) * esize c \<le> (blen b div 2) * esize c" using n(1) by (rule mult_le_mono1)
  then have "i * esize c + n * esize c \<le> length (cells b)" using h(4) L by (simp add: add_mult_distrib)
  then show "in_mapping b (a + i * esize c) (n * esize c)"
    using a L by (simp add: in_mapping_def head_ok_def)
  show "(blen b div 2) * esize c \<le> length (cells b)" "cells b \<noteq> []" using h(4) L by simp_all
  show "a + i * esize c - bptr b = a - bptr b + i * esize c" using a by (simp add: head_ok_def)
qed

lemma view_read:
  assumes "cfg_ok c" "wf_buffer c b" "head_ok c b a" "i < blen b div 2"
  shows "ptr_read c b (a + i * esize c) = decode (esize c) (zval c) (view c b a ! i)"
proof (cases "esize c = 0")
  case True
  then show ?thesis by (simp add: ptr_read_def decode_def)
next
  case False
  then show ?thesis
    using assms window_in_mapping(1)[OF assms(1-3), of i 1] by (simp add: ptr_read_def)
qed

lemma view_write:
  assumes "cfg_ok c" "wf_buffer c b" "head_ok c b a" "j < blen b div 2"
  obtains cs where "ptr_write c b (a + j * esize c) v = Inr (b\<lparr>cells := cs\<rparr>)"
    "length cs = length (cells b)"
    "view c (b\<lparr>cells := cs\<rparr>) a = (view c b a)[j := enc (esize c) v]"
proof (cases "esize c = 0")
  case True
  then have "ptr_write c b (a + j * esize c) v = Inr (b\<lparr>cells := cells b\<rparr>)"
    by (simp add: ptr_write_def)
  moreover have "view c (b\<lparr>cells := cells b\<rparr>) a = (view c b a)[j := enc (esize c) v]"
    using True assms(4) by (intro nth_equalityI) (auto simp: bslot_def enc_def nth_list_update)
  ultimately show ?thesis using that by blast
next
  case False
  then have j: "j + 1 \<le> blen b div 2" "0 < 1 * esize c" using assms(4) by auto
  note w = window_in_mapping[OF assms(1-3) j]
  let ?cs = "write_cells (cells b) (a - bptr b + j * esize c) (enc (esize c) v)"
  have "ptr_write c b (a + j * esize c) v = Inr (b\<lparr>cells := ?cs\<rparr>)"
    using w False by (simp add: ptr_write_def)
  moreover have "view c (b\<lparr>cells := ?cs\<rparr>) a = (view c b a)[j := enc (esize c) v]"
  proof (rule nth_equalityI)
    fix i assume "i < length (view c (b\<lparr>cells := ?cs\<rparr>) a)"
    then have i: "i < blen b div 2" by simp
    have "a + i * esize c - bptr b = a - bptr b + i * esize c"
      using assms(3) by (simp add: head_ok_def)
    then show "view c (b\<lparr>cells := ?cs\<rparr>) a ! i = (view c b a)[j := enc (esize c) v] ! i"
      using i slot_write_one[OF w(2) assms(4) i, of "a - bptr b" v]
      by (simp add: bslot_def nth_list_update)
  qed simp
  ultimately show ?thesis using that by simp
qed

lemma view_copy_cells:
  assumes c: "cfg_ok c" "wf_buffer c b" "head_ok c b a"
    and n: "d + n \<le> blen b div 2" "0 < n * esize c"
    and S: "length S = n" "\<And>i. i < n \<Longrightarrow> slot (esize c) mem' (w' + (i + s) * esize c) = S ! i"
  shows "view c (b\<lparr>cells := write_cells (cells b) (a + d * esize c - bptr b)
           (read_cells mem' (w' + s * esize c) (n * esize c))\<rparr>) a = splice_at (view c b a) d S"
    (is "view c (b\<lparr>cells := ?cs\<rparr>) a = _")
proof (rule nth_equalityI)
  note w = window_in_mapping[OF c n]
  fix i assume "i < length (view c (b\<lparr>cells := ?cs\<rparr>) a)"
  then have i: "i < blen b div 2" by simp
  have "a + i * esize c - bptr b = a - bptr b + i * esize c"
    using c(3) by (simp add: head_ok_def)
  then show "view c (b\<lparr>cells := ?cs\<rparr>) a ! i = splice_at (view c b a) d S ! i"
    using i slot_copy[OF w(2) n(1) i, of "a - bptr b" mem' w' s] S(1) S(2)[of "i - d"] n(1) w(4)
    by (auto simp: bslot_def nth_splice_at)
qed (use S n in simp)

lemma view_copy:
  assumes c: "cfg_ok c" "wf_buffer c b" "head_ok c b a"
    and sd: "s + n \<le> blen b div 2" "d + n \<le> blen b div 2"
  obtains cs where "ptr_copy c b (a + s * esize c) (a + d * esize c) n = Inr (b\<lparr>cells := cs\<rparr>)"
    "length cs = length (cells b)"
    "view c (b\<lparr>cells := cs\<rparr>) a = splice_at (view c b a) d (take n (drop s (view c b a)))"
proof (cases "n * esize c = 0")
  case True
  then have "ptr_copy c b (a + s * esize c) (a + d * esize c) n = Inr (b\<lparr>cells := cells b\<rparr>)"
    by (simp add: ptr_copy_def Let_def)
  moreover have "view c (b\<lparr>cells := cells b\<rparr>) a = splice_at (view c b a) d (take n (drop s (view c b a)))"
  proof (rule nth_equalityI)
    fix i assume "i < length (view c (b\<lparr>cells := cells b\<rparr>) a)"
    then show "view c (b\<lparr>cells := cells b\<rparr>) a ! i
        = splice_at (view c b a) d (take n (drop s (view c b a))) ! i"
      using True sd by (auto simp: nth_splice_at bslot_def)
  qed (use sd in auto)
  ultimately show ?thesis using that by blast
next
  case False
  then have n0: "0 < n * esize c" by simp
  note ws = window_in_mapping[OF c sd(1) n0] and wd = window_in_mapping[OF c sd(2) n0]
  let ?cs = "write_cells (cells b) (a + d * esize c - bptr b)
     (read_cells (cells b) (a - bptr b + s * esize c) (n * esize c))"
  have "max s d + n \<le> min s d + blen b div 2" using sd by auto
  then have "(max s d + n) * esize c \<le> (min s d + blen b div 2) * esize c" by (rule mult_le_mono1)
  then have "max (s * esize c) (d * esize c) + n * esize c \<le> min (s * esize c) (d * esize c) + length (cells b)"
    using ws(2) n0 by (auto simp: add_mult_distrib max_def min_def split: if_splits)
  then have window: "max (a + s * esize c) (a + d * esize c) + n * esize c
      \<le> min (a + s * esize c) (a + d * esize c) + length (cells b)" by auto
  have "ptr_copy c b (a + s * esize c) (a + d * esize c) n = Inr (b\<lparr>cells := ?cs\<rparr>)"
    using ws(1,4) wd(1) window n0 by (simp add: ptr_copy_def Let_def not_less)
  moreover have "view c (b\<lparr>cells := ?cs\<rparr>) a = splice_at (view c b a) d (take n (drop s (view c b a)))"
  proof (rule view_copy_cells[OF c sd(2) n0])
    fix i assume "i < n"
    then show "slot (esize c) (cells b) (a - bptr b + (i + s) * esize c)
        = take n (drop s (view c b a)) ! i"
      using sd c(3) by (simp add: bslot_def head_ok_def add.commute)
  qed (use sd in simp)
  ultimately show ?thesis using that by simp
qed

text \<open>A copy between two buffers leaves the copied slots at the front of the destination.\<close>

lemma view_copy_nonoverlapping:
  assumes c: "cfg_ok c" "wf_buffer c b" "head_ok c b a"
    and c': "wf_buffer c b'" "head_ok c b' a'"
    and n: "n \<le> blen b div 2" "n \<le> blen b' div 2"
  obtains cs where "ptr_copy_nonoverlapping c b a b' a' n = Inr (b'\<lparr>cells := cs\<rparr>)"
    "length cs = length (cells b')"
    "view c (b'\<lparr>cells := cs\<rparr>) a' = splice_at (view c b' a') 0 (take n (view c b a))"
proof (cases "n * esize c = 0")
  case True
  then have "ptr_copy_nonoverlapping c b a b' a' n = Inr (b'\<lparr>cells := cells b'\<rparr>)"
    by (simp add: ptr_copy_nonoverlapping_def Let_def)
  moreover have "view c (b'\<lparr>cells := cells b'\<rparr>) a' = splice_at (view c b' a') 0 (take n (view c b a))"
    using True n by (intro nth_equalityI) (auto simp: nth_splice_at bslot_def)
  ultimately show ?thesis using that by blast
next
  case False
  then have n0: "0 < n * esize c" by simp
  have n1: "0 + n \<le> blen b div 2" "0 + n \<le> blen b' div 2" using n by simp_all
  note ws = window_in_mapping[OF c n1(1) n0] and wd = window_in_mapping[OF c(1) c' n1(2) n0]
  have "n * esize c \<le> length (cells b')"
    using wd(2) n(2) by (meson le_trans mult_le_mono1)
  moreover have "read_cells (cells b) (a - bptr b) (n * esize c) \<noteq> []"
    using n0 by (metis length_0_conv length_read_cells not_less_zero)
  ultimately have "ptr_copy_nonoverlapping c b a b' a' n = Inr (b'\<lparr>cells :=
      write_cells (cells b') (a' - bptr b') (read_cells (cells b) (a - bptr b) (n * esize c))\<rparr>)"
    using ws(1) wd(1) n0 by (simp add: ptr_copy_nonoverlapping_def ptr_copy_from_def Let_def)
  moreover have "view c (b'\<lparr>cells := write_cells (cells b') (a' + 0 * esize c - bptr b')
      (read_cells (cells b) (a - bptr b + 0 * esize c) (n * esize c))\<rparr>) a'
      = splice_at (view c b' a') 0 (take n (view c b a))"
  proof (rule view_copy_cells[OF c(1) c' n1(2) n0])
    fix i assume "i < n"
    then show "slot (esize c) (cells b) (a - bptr b + (i + 0) * esize c) = take n (view c b a) ! i"
      using n c(3) by (simp add: bslot_def head_ok_def)
  qed (use n in simp)
  ultimately show ?thesis using that by simp
qed

text \<open>
  Moving the head by \<open>x\<close> elements, with or without a wrap by one region, moves the view: this is
  where the mirror makes the ring look like one slice.
\<close>

lemma bslot_mirror:
  assumes "bptr b \<le> a"
  shows "bslot c b (a + length (cells b)) = bslot c b a"
proof -
  have "a + length (cells b) - bptr b = a - bptr b + length (cells b)" using assms by simp
  then show ?thesis by (simp add: bslot_def)
qed

lemma view_shift:
  assumes "bptr b \<le> a" "bptr b \<le> a'"
    and "a' = a + x * esize c \<or> a' + length (cells b) = a + x * esize c \<or>
         a' = a + x * esize c + length (cells b)"
  shows "take (blen b div 2 - x) (view c b a') = drop x (view c b a)"
proof (rule nth_equalityI)
  fix i assume i: "i < length (take (blen b div 2 - x) (view c b a'))"
  have "bslot c b (a' + i * esize c) = bslot c b (a + (x + i) * esize c)"
    using assms(3)
  proof (elim disjE)
    assume "a' + length (cells b) = a + x * esize c"
    then have "a + (x + i) * esize c = a' + i * esize c + length (cells b)"
      by (simp add: add_mult_distrib)
    then show ?thesis using assms(2) by (simp add: bslot_mirror)
  next
    assume "a' = a + x * esize c + length (cells b)"
    then have "a' + i * esize c = a + (x + i) * esize c + length (cells b)"
      by (simp add: add_mult_distrib)
    then show ?thesis using assms(1) by (simp add: bslot_mirror)
  qed (simp add: add_mult_distrib algebra_simps)
  with i show "take (blen b div 2 - x) (view c b a') ! i = drop x (view c b a) ! i" by simp
qed simp

subsection \<open>Allocation and release, over any platform that keeps the contract\<close>

text \<open>
  The deque steps its head back by one element before it wraps it, so below a region there must be
  as much address space as one element takes. For an element that fits into a page this follows
  from the contract, as a region starts at a multiple of the page size that is not null. For larger
  ones it is a property of where the system puts regions, and no system promises it.
\<close>

definition head_room :: "('a, 'os) cfg \<Rightarrow> ('os \<Rightarrow> bool) \<Rightarrow> bool" where
  "head_room c os_ok \<longleftrightarrow>
     (\<forall>s n p s'. os_ok s \<longrightarrow> 0 < n \<longrightarrow> 2 * ag c dvd n \<longrightarrow> n < usize_bound \<longrightarrow> esize c \<le> n div 2 \<longrightarrow>
        allocate_mirrored (plat c) n s = Inr (Inr p, s') \<longrightarrow> esize c \<le> p)"

lemma head_room_page:
  assumes "mirrored_platform (plat c) os_ok owned" "esize c \<le> ag c"
  shows "head_room c os_ok"
  using mirrored_platform.allocate_page[OF assms(1)] assms(2) unfolding head_room_def by (meson le_trans)

lemma blen_of_request:
  assumes c: "cfg_ok c" and n: "even n" "0 < n" "0 < esize c"
  defines "A \<equiv> alloc_bytes c (n * esize c)"
  shows "n \<le> A div esize c" "2 \<le> A div esize c"
    "alloc_bytes c (2 * (A div esize c div 2) * esize c) = A"
proof -
  note g = cfg_okD(1)[OF c]
  have "n * esize c \<le> A" unfolding A_def by (rule alloc_bytes_facts(1)[OF g])
  then show n1: "n \<le> A div esize c" using n(3) by (simp add: less_eq_div_iff_mult_less_eq)
  from n(1,2) have "2 \<le> n" by presburger
  with n1 show "2 \<le> A div esize c" by linarith
  have "m \<le> k \<Longrightarrow> even m \<Longrightarrow> m \<le> 2 * (k div 2)" for m k :: nat by presburger
  then have "n \<le> 2 * (A div esize c div 2)" using n1 n(1) by blast
  then have lo: "n * esize c \<le> 2 * (A div esize c div 2) * esize c" by (rule mult_le_mono1)
  have "2 * (A div esize c div 2) * esize c \<le> A div esize c * esize c" by (intro mult_le_mono1) simp
  also have "\<dots> \<le> A" by simp
  finally show "alloc_bytes c (2 * (A div esize c div 2) * esize c) = A"
    using alloc_bytes_between[OF g lo] unfolding A_def by simp
qed

context mirrored_platform
begin

lemma uninitialized_cases:
  assumes c: "cfg_ok c" "plat c = pf" "head_room c os_ok" and n: "even n" "n * esize c + 2 * ag c < usize_bound"
    and w: "os_ok (os w)"
  obtains (Err) e s where "uninitialized c n w = Inr (Inl e, w\<lparr>os := s\<rparr>)" "os_ok s"
      "owned s = owned (os w)" "0 < esize c" "0 < n"
      "allocate_mirrored pf (alloc_bytes c (n * esize c)) (os w) = Inr (Inl e, s)"
  | (Ok) b s where "uninitialized c n w = Inr (Inr b, w\<lparr>os := s\<rparr>)" "os_ok s" "wf_buffer c b"
      "owned s = owned (os w) \<union> regions c b" "regions c b \<inter> owned (os w) = {}"
      "0 < esize c \<Longrightarrow> n \<le> blen b" "set (cells b) \<subseteq> {Uninit}"
proof (cases "esize c = 0 \<or> n = 0")
  case True
  note cd = cfg_okD[OF c(1)]
  have "uninitialized c n w = Inr (Inr (buffer_new c), w\<lparr>os := os w\<rparr>)"
    using True cd by (auto simp: uninitialized_def buffer_new_def)
  moreover have "regions c (buffer_new c) = {}" by (simp add: regions_def buffer_new_def empty_len_def)
  ultimately show ?thesis
    using Ok[of "buffer_new c" "os w"] w wf_buffer_new[OF c(1)] True
    by (auto simp: buffer_new_def)
next
  case False
  then have pos: "0 < esize c" "0 < n" by auto
  note cd = cfg_okD[OF c(1)] and req = blen_of_request[OF c(1) n(1) pos(2,1)]
  define A where "A = alloc_bytes c (n * esize c)"
  note A = alloc_bytes_facts[OF cd(1), of "n * esize c", folded A_def]
  have Ab: "A < usize_bound" using A n(2) by simp
  have A': "0 < A" "2 * gran pf dvd A" "A mod 2 = 0" "A mod ag c = 0" "n * esize c \<le> A"
    using A cd(1) c(2) by (auto elim: dvdE)
  have sz: "size_in_bytes c n = Inr A" unfolding A_def by (rule size_in_bytes_ok[OF cd(1) n(2)])
  have run: "uninitialized c n w = bindE (allocate_mirrored pf A (os w)) (\<lambda>(r, s).
      case r of Inl e \<Rightarrow> Inr (Inl e, w\<lparr>os := s\<rparr>)
      | Inr p \<Rightarrow> Inr (Inr \<lparr>bptr = p, blen = A div esize c,
                        cells = replicate (A div 2) Uninit\<rparr>, w\<lparr>os := s\<rparr>))"
    using False n(1) cd(5) A' c(2) by (simp add: uninitialized_def sz even_iff_mod_2_eq_zero)
  show ?thesis
  proof (cases rule: allocate_cases[OF w A'(1,2) Ab])
    case (1 e s)
    then show ?thesis using Err[of e s] run pos by (simp add: A_def)
  next
    case (2 p s)
    let ?b = "\<lparr>bptr = p, blen = A div esize c, cells = replicate (A div 2) Uninit\<rparr> :: 'a buffer"
    have "2 * (A div 2) = A" using A'(3) by presburger
    moreover have "ag c \<le> p" using 2(4,5) c(2) by (simp add: dvd_imp_le)
    moreover have "esize c \<le> p"
    proof -
      have "2 * esize c \<le> n * esize c" using n(1) pos by (intro mult_le_mono1) (auto elim: evenE)
      then have "esize c \<le> A div 2" using A'(5) by linarith
      then show ?thesis using c(3) 2(1) w A'(1,2) Ab unfolding head_room_def c(2) by blast
    qed
    moreover have "ealign c dvd p" using cd(4) 2(5) c(2) dvd_trans by metis
    ultimately have wf: "wf_buffer c ?b" and reg: "regions c ?b = {(p, A)}"
      using 2 pos req unfolding A_def[symmetric] by (auto simp: wf_buffer_def regions_def)
    have "(p, A) \<notin> owned (os w)" using allocate_fresh[OF w A'(1,2) Ab 2(1)] .
    then show ?thesis
      using Ok[of ?b s] run 2 wf reg req(1) unfolding A_def[symmetric]
      by (auto simp: set_replicate_conv_if)
  qed
qed

lemma buffer_drop_ok:
  assumes c: "cfg_ok c" "plat c = pf" and b: "wf_buffer c b"
    and w: "os_ok (os w)" "regions c b \<subseteq> owned (os w)"
  obtains s where "buffer_drop c b w = Inr (w\<lparr>os := s\<rparr>)" "os_ok s"
    "owned s = owned (os w) - regions c b"
proof (cases "esize c = 0 \<or> blen b = 0")
  case True
  then have "buffer_drop c b w = Inr (w\<lparr>os := os w\<rparr>)"
    using b by (auto simp: buffer_drop_def buf_is_empty_def wf_buffer_def)
  moreover have "regions c b = {}" using True by (simp add: regions_def)
  ultimately show ?thesis using that[of "os w"] w by simp
next
  case False
  then have r: "regions c b = {(bptr b, 2 * length (cells b))}" "half_bytes c b = length (cells b)"
    by (simp_all add: regions_def half_bytes_def)
  then have "(bptr b, 2 * length (cells b)) \<in> owned (os w)" using w(2) by simp
  from deallocate_ok[OF w(1) this]
  obtain s where "deallocate_mirrored pf (bptr b) (2 * length (cells b)) (os w) = Inr s"
      "os_ok s" "owned s = owned (os w) - {(bptr b, 2 * length (cells b))}" by blast
  then show ?thesis
    using that[of s] False c r size_in_bytes_region[OF c(1) b]
    by (simp add: buffer_drop_def buf_is_empty_def)
qed

end

end
