(* ===== verification/Deque.thy ===== *)
theory Deque
  imports Buffer
begin

text \<open>
  \<open>struct SliceDeque\<close> of \<open>src/lib.rs\<close>: construction, the slice it dereferences to, and the two
  primitives every other operation is made of, moving the head and moving the tail. The
  abstraction \<open>rep c d xs\<close> says that \<open>d\<close> is well formed and that its slice holds the list \<open>xs\<close>.
\<close>

text \<open>\<open>elems_\<close> is a raw slice, kept as its address and length.\<close>

record 'a deque =
  eptr :: nat
  elen :: nat
  buf :: "'a buffer"

subsection \<open>Helpers\<close>

definition in_bounds :: "bool \<Rightarrow> nat \<Rightarrow> nat \<Rightarrow> nat \<Rightarrow> nat \<Rightarrow> fault + bool" where
  "in_bounds dbg sz s_begin s_len p =
     bindE (usize_mul dbg sz s_len) (\<lambda>bytes.
     bindE (usize_add dbg s_begin bytes) (\<lambda>s_end.
     Inr (s_begin \<le> p \<and> p < s_end)))"

text \<open>\<open>ptr.offset(x)\<close> and \<open>ptr.add(n)\<close>, as addresses.\<close>

definition ptr_offset :: "('a, 'os) cfg \<Rightarrow> nat \<Rightarrow> int \<Rightarrow> nat" where
  "ptr_offset c p x = of_isize (int p + x * int (esize c))"

text \<open>Reading \<open>n\<close> consecutive elements, as dropping or iterating a slice does.\<close>

fun read_elems :: "('a, 'os) cfg \<Rightarrow> 'a buffer \<Rightarrow> nat \<Rightarrow> nat \<Rightarrow> fault + 'a list" where
  "read_elems c b a 0 = Inr []"
| "read_elems c b a (Suc n) =
     bindE (ptr_read c b a) (\<lambda>v.
     bindE (read_elems c b (a + esize c) n) (\<lambda>vs. Inr (v # vs)))"

text \<open>\<open>ptr::drop_in_place\<close> of a slice: every element is dropped, in order.\<close>

definition drop_in_place ::
    "('a, 'os) cfg \<Rightarrow> 'a buffer \<Rightarrow> nat \<Rightarrow> nat \<Rightarrow> ('a, 'os) world \<Rightarrow> fault + ('a, 'os) world" where
  "drop_in_place c b a n w =
     (if needs_drop c
      then bindE (read_elems c b a n) (\<lambda>vs. Inr (w\<lparr>dropped := dropped w @ vs\<rparr>))
      else Inr w)"

subsection \<open>Construction and observers\<close>

definition deque_new :: "('a, 'os) cfg \<Rightarrow> 'a deque" where
  "deque_new c = (let b = buffer_new c in \<lparr>eptr = bptr b, elen = 0, buf = b\<rparr>)"

text \<open>The deque takes over the buffer whose cells are \<open>mem\<close>, mapped at \<open>p\<close>.\<close>

definition from_raw_parts ::
    "('a, 'os) cfg \<Rightarrow> nat \<Rightarrow> nat \<Rightarrow> nat \<times> nat \<Rightarrow> 'a cell list \<Rightarrow> fault + 'a deque" where
  "from_raw_parts c p cap elems mem =
     (let (begin', n) = elems in
      bindE (debug_assert_m (debug c) (in_bounds (debug c) (esize c) p cap begin')) (\<lambda>_.
      bindE (debug_assert (debug c) (n < cap)) (\<lambda>_.
      bindE (usize_mul (debug c) cap 2) (\<lambda>m.
      bindE (buffer_from_raw_parts c p m mem) (\<lambda>b.
      Inr \<lparr>eptr = begin', elen = n, buf = b\<rparr>)))))"

definition with_capacity ::
    "('a, 'os) cfg \<Rightarrow> nat \<Rightarrow> ('a, 'os) world \<Rightarrow> fault + ('a deque \<times> ('a, 'os) world)" where
  "with_capacity c n w =
     bindE (usize_mul (debug c) 2 n) (\<lambda>m.
     bindE (uninitialized c m w) (\<lambda>(r, w).
     case r of
       Inl e \<Rightarrow> panic (AllocationFailed e)
     | Inr b \<Rightarrow> Inr (\<lparr>eptr = bptr b, elen = 0, buf = b\<rparr>, w)))"

definition capacity :: "'a deque \<Rightarrow> nat" where
  "capacity d = blen (buf d) div 2"

definition deque_len :: "('a, 'os) cfg \<Rightarrow> 'a deque \<Rightarrow> fault + nat" where
  "deque_len c d = bindE (debug_assert (debug c) (elen d \<le> capacity d)) (\<lambda>_. Inr (elen d))"

definition is_full :: "('a, 'os) cfg \<Rightarrow> 'a deque \<Rightarrow> fault + bool" where
  "is_full c d = bindE (deque_len c d) (\<lambda>n. Inr (n = capacity d))"

definition as_slice :: "'a deque \<Rightarrow> nat \<times> nat" where
  "as_slice d = (eptr d, elen d)"

definition as_slices :: "'a deque \<Rightarrow> (nat \<times> nat) \<times> (nat \<times> nat)" where
  "as_slices d = (as_slice d, (usize_max, 0))"

definition tail_head_slice :: "('a, 'os) cfg \<Rightarrow> 'a deque \<Rightarrow> fault + (nat \<times> nat)" where
  "tail_head_slice c d =
     bindE (deque_len c d) (\<lambda>n.
     let p = ptr_offset c (eptr d) (int n) in
     bindE (usize_sub (debug c) (capacity d) n) (\<lambda>m. Inr (p, m)))"

text \<open>The slice methods \<open>get\<close>, \<open>get_mut\<close> and indexing, and reading the whole slice.\<close>

definition slice_get :: "('a, 'os) cfg \<Rightarrow> 'a deque \<Rightarrow> nat \<Rightarrow> fault + 'a option" where
  "slice_get c d i =
     (if i < elen d
      then bindE (ptr_read c (buf d) (eptr d + i * esize c)) (\<lambda>v. Inr (Some v))
      else Inr None)"

definition slice_get_mut :: "('a, 'os) cfg \<Rightarrow> 'a deque \<Rightarrow> nat \<Rightarrow> nat option" where
  "slice_get_mut c d i = (if i < elen d then Some (eptr d + i * esize c) else None)"

definition slice_index :: "('a, 'os) cfg \<Rightarrow> 'a deque \<Rightarrow> nat \<Rightarrow> fault + 'a" where
  "slice_index c d i =
     (if i < elen d then ptr_read c (buf d) (eptr d + i * esize c) else panic IndexOutOfBounds)"

definition slice_elems :: "('a, 'os) cfg \<Rightarrow> 'a deque \<Rightarrow> fault + 'a list" where
  "slice_elems c d = read_elems c (buf d) (eptr d) (elen d)"

definition deque_front :: "('a, 'os) cfg \<Rightarrow> 'a deque \<Rightarrow> fault + 'a option" where
  "deque_front c d = slice_get c d 0"

definition deque_back :: "('a, 'os) cfg \<Rightarrow> 'a deque \<Rightarrow> fault + 'a option" where
  "deque_back c d = bindE (deque_len c d) (\<lambda>n. slice_get c d (wrapping_sub n 1))"

text \<open>\<open>front_mut\<close> and \<open>back_mut\<close> give the place the caller may assign to.\<close>

definition front_mut :: "('a, 'os) cfg \<Rightarrow> 'a deque \<Rightarrow> nat option" where
  "front_mut c d = slice_get_mut c d 0"

definition back_mut :: "('a, 'os) cfg \<Rightarrow> 'a deque \<Rightarrow> fault + nat option" where
  "back_mut c d = bindE (deque_len c d) (\<lambda>n. Inr (slice_get_mut c d (wrapping_sub n 1)))"

subsection \<open>Moving the head and the tail\<close>

definition move_head_unchecked :: "('a, 'os) cfg \<Rightarrow> 'a deque \<Rightarrow> int \<Rightarrow> fault + 'a deque" where
  "move_head_unchecked c d x =
     (let cap = capacity d; dbg = debug c in
      bindE (deque_len c d) (\<lambda>len.
      bindE (debug_assert_m dbg (bindE (usize_sub dbg cap len) (\<lambda>free.
               bindE (isize_arith dbg (- to_isize free)) (\<lambda>lo. Inr (lo \<le> x))))) (\<lambda>_.
      bindE (debug_assert dbg (x \<le> to_isize len)) (\<lambda>_.
      let new_begin = ptr_offset c (eptr d) x; first = bptr (buf d) in
      bindE (size_in_bytes c (blen (buf d))) (\<lambda>bytes.
      let region = bytes div 2 in
      bindE (debug_assert_m dbg (bindE (usize_mul dbg cap (esize c)) (\<lambda>m. Inr (m \<le> region)))) (\<lambda>_.
      bindE (usize_add dbg first region) (\<lambda>second.
      bindE
        (if new_begin < first then usize_add dbg new_begin region
         else if second \<le> new_begin then
           bindE (debug_assert_m dbg (bindE (usize_add dbg second region) (\<lambda>e. Inr (new_begin < e)))) (\<lambda>_.
           usize_sub dbg new_begin region)
         else Inr new_begin) (\<lambda>new_begin.
      bindE (debug_assert dbg (first \<le> new_begin)) (\<lambda>_.
      bindE (debug_assert dbg (new_begin < second)) (\<lambda>_.
      bindE (debug_assert_m dbg (in_bounds dbg 1 first region new_begin)) (\<lambda>_.
      bindE (isize_arith dbg (to_isize len - x)) (\<lambda>new_len.
      bindE (debug_assert dbg (0 \<le> new_len)) (\<lambda>_.
      bindE (debug_assert dbg (new_len \<le> to_isize cap)) (\<lambda>_.
      Inr (d\<lparr>eptr := new_begin, elen := of_isize new_len\<rparr>)))))))))))))))"

definition move_head :: "('a, 'os) cfg \<Rightarrow> 'a deque \<Rightarrow> int \<Rightarrow> fault + 'a deque" where
  "move_head c d x =
     bindE (deque_len c d) (\<lambda>len.
     bindE (usize_sub (debug c) (capacity d) len) (\<lambda>free.
     bindE (isize_arith (debug c) (- to_isize free)) (\<lambda>lo.
     bindE (assert_that (lo \<le> x \<and> x \<le> to_isize len)) (\<lambda>_.
     move_head_unchecked c d x))))"

definition move_tail_unchecked :: "('a, 'os) cfg \<Rightarrow> 'a deque \<Rightarrow> int \<Rightarrow> fault + 'a deque" where
  "move_tail_unchecked c d x =
     (let cap = capacity d; dbg = debug c in
      bindE (deque_len c d) (\<lambda>len.
      bindE (debug_assert_m dbg (bindE (isize_arith dbg (- to_isize len)) (\<lambda>lo. Inr (lo \<le> x)))) (\<lambda>_.
      bindE (debug_assert_m dbg (bindE (usize_sub dbg cap len) (\<lambda>free. Inr (x \<le> to_isize free)))) (\<lambda>_.
      bindE (isize_arith dbg (to_isize len + x)) (\<lambda>new_len.
      bindE (debug_assert dbg (0 \<le> new_len)) (\<lambda>_.
      bindE (debug_assert dbg (new_len \<le> to_isize cap)) (\<lambda>_.
      Inr (d\<lparr>elen := of_isize new_len\<rparr>))))))))"

definition move_tail :: "('a, 'os) cfg \<Rightarrow> 'a deque \<Rightarrow> int \<Rightarrow> fault + 'a deque" where
  "move_tail c d x =
     bindE (deque_len c d) (\<lambda>len.
     bindE (isize_arith (debug c) (- to_isize len)) (\<lambda>lo.
     bindE (usize_sub (debug c) (capacity d) len) (\<lambda>free.
     bindE (assert_that (lo \<le> x \<and> x \<le> to_isize free)) (\<lambda>_.
     move_tail_unchecked c d x))))"

text \<open>Dropping a deque: its elements, then (field by field) its buffer.\<close>

definition deque_drop ::
    "('a, 'os) cfg \<Rightarrow> 'a deque \<Rightarrow> ('a, 'os) world \<Rightarrow> fault + ('a, 'os) world" where
  "deque_drop c d w =
     bindE (drop_in_place c (buf d) (eptr d) (elen d) w) (\<lambda>w.
     buffer_drop c (buf d) w)"

subsection \<open>The abstraction\<close>

definition wf_deque :: "('a, 'os) cfg \<Rightarrow> 'a deque \<Rightarrow> bool" where
  "wf_deque c d \<longleftrightarrow> cfg_ok c \<and> wf_buffer c (buf d) \<and> head_ok c (buf d) (eptr d) \<and> elen d \<le> capacity d"

text \<open>The slots of the window that starts at the head, one per element of the capacity.\<close>

definition dview :: "('a, 'os) cfg \<Rightarrow> 'a deque \<Rightarrow> 'a cell list list" where
  "dview c d = view c (buf d) (eptr d)"

text \<open>A value a slot can hold: of a zero-sized type there is only one.\<close>

definition val_ok :: "('a, 'os) cfg \<Rightarrow> 'a \<Rightarrow> bool" where
  "val_ok c v \<longleftrightarrow> (esize c = 0 \<longrightarrow> v = zval c)"

definition rep :: "('a, 'os) cfg \<Rightarrow> 'a deque \<Rightarrow> 'a list \<Rightarrow> bool" where
  "rep c d xs \<longleftrightarrow> wf_deque c d \<and> take (elen d) (dview c d) = map (enc (esize c)) xs \<and>
     list_all (val_ok c) xs"

lemma wf_dequeD:
  assumes "wf_deque c d"
  shows "cfg_ok c" "wf_buffer c (buf d)" "head_ok c (buf d) (eptr d)" "elen d \<le> capacity d"
    "capacity d < isize_bound" "elen d < isize_bound" "0 < ag c"
  using assms half_bytes_facts(3)[of c "buf d"] cfg_okD[of c]
  by (auto simp: wf_deque_def capacity_def)

lemma dview_elen [simp]: "dview c (d\<lparr>elen := n\<rparr>) = dview c d"
  by (simp add: dview_def)

lemma capacity_frame [simp]:
  "capacity (d\<lparr>elen := n\<rparr>) = capacity d"
  "capacity (d\<lparr>eptr := p\<rparr>) = capacity d"
  "capacity (d\<lparr>buf := (buf d)\<lparr>cells := cs\<rparr>\<rparr>) = capacity d"
  by (simp_all add: capacity_def)

lemma length_dview [simp]: "length (dview c d) = capacity d"
  by (simp add: dview_def capacity_def)

lemma rep_wf: "rep c d xs \<Longrightarrow> wf_deque c d"
  by (simp add: rep_def)

lemma rep_len:
  assumes "rep c d xs" shows "elen d = length xs"
proof -
  have "length (take (elen d) (dview c d)) = length xs" using assms by (simp add: rep_def)
  then show ?thesis using wf_dequeD(4)[OF rep_wf[OF assms]] by simp
qed

lemma rep_len_le: "rep c d xs \<Longrightarrow> length xs \<le> capacity d"
  using wf_dequeD(4)[OF rep_wf, of c d xs] rep_len[of c d xs] by simp

lemma rep_slot:
  assumes "rep c d xs" "i < length xs"
  shows "dview c d ! i = enc (esize c) (xs ! i)"
  using assms rep_len[OF assms(1)] unfolding rep_def by (metis nth_map nth_take)

lemma repI:
  assumes "wf_deque c d" "elen d = length xs"
    and "\<And>i. i < length xs \<Longrightarrow> dview c d ! i = enc (esize c) (xs ! i)"
    and "\<And>x. x \<in> set xs \<Longrightarrow> val_ok c x"
  shows "rep c d xs"
proof -
  have "length xs \<le> capacity d" using wf_dequeD(4)[OF assms(1)] assms(2) by simp
  then have "take (elen d) (dview c d) = map (enc (esize c)) xs"
    using assms(2,3) by (intro nth_equalityI) auto
  then show ?thesis using assms(1,4) by (simp add: rep_def list_all_iff)
qed

lemma deque_len_ok [ok_simps]: "elen d \<le> capacity d \<Longrightarrow> deque_len c d = Inr (elen d)"
  by (simp add: deque_len_def)

lemma wf_deque_len [simp]: "wf_deque c d \<Longrightarrow> deque_len c d = Inr (elen d)"
  by (simp add: deque_len_ok wf_deque_def)

lemma wf_is_full [simp]: "wf_deque c d \<Longrightarrow> is_full c d = Inr (elen d = capacity d)"
  by (simp add: is_full_def)

lemma val_ok_decode: "val_ok c v \<Longrightarrow> decode (esize c) (zval c) (enc (esize c) v) = Inr v"
  by (rule decode_enc) (simp add: val_ok_def)

lemma rep_val_ok: "rep c d xs \<Longrightarrow> x \<in> set xs \<Longrightarrow> val_ok c x"
  by (simp add: rep_def list_all_iff)

subsection \<open>Reading\<close>

lemma rep_read [ok_simps]:
  assumes "rep c d xs" "i < length xs"
  shows "ptr_read c (buf d) (eptr d + i * esize c) = Inr (xs ! i)"
proof -
  note w = wf_dequeD[OF rep_wf[OF assms(1)]]
  have "i < blen (buf d) div 2" using assms(2) rep_len_le[OF assms(1)] by (simp add: capacity_def)
  then have "ptr_read c (buf d) (eptr d + i * esize c)
      = decode (esize c) (zval c) (dview c d ! i)"
    using view_read[OF w(1-3)] by (simp add: dview_def)
  also have "\<dots> = Inr (xs ! i)"
    using rep_slot[OF assms] val_ok_decode[OF rep_val_ok[OF assms(1)], of "xs ! i"] assms(2) by simp
  finally show ?thesis .
qed

lemma read_elems_rep:
  assumes "rep c d xs" "i + n \<le> length xs"
  shows "read_elems c (buf d) (eptr d + i * esize c) n = Inr (take n (drop i xs))"
  using assms(2)
proof (induction n arbitrary: i)
  case (Suc n)
  have "read_elems c (buf d) (eptr d + i * esize c + esize c) n = Inr (take n (drop (Suc i) xs))"
    using Suc.IH[of "Suc i"] Suc.prems by (simp add: ac_simps)
  moreover have "take (Suc n) (drop i xs) = xs ! i # take n (drop (Suc i) xs)"
    using Suc.prems by (simp add: Cons_nth_drop_Suc[symmetric])
  ultimately show ?case using Suc.prems rep_read[OF assms(1), of i] by simp
qed simp

lemma slice_elems_rep [ok_simps]: "rep c d xs \<Longrightarrow> slice_elems c d = Inr xs"
  using read_elems_rep[of c d xs 0 "length xs"] rep_len[of c d xs] by (simp add: slice_elems_def)

lemma slice_get_rep [ok_simps]:
  "rep c d xs \<Longrightarrow> slice_get c d i = Inr (if i < length xs then Some (xs ! i) else None)"
  by (simp add: slice_get_def rep_read rep_len)

lemma slice_index_rep [ok_simps]:
  "rep c d xs \<Longrightarrow> slice_index c d i = (if i < length xs then Inr (xs ! i) else panic IndexOutOfBounds)"
  by (simp add: slice_index_def rep_read rep_len)

lemma slice_index_uninit:
  assumes "wf_deque c d" "i < elen d" "0 < esize c" "dview c d ! i = replicate (esize c) Uninit"
  shows "slice_index c d i = undef UninitRead"
proof -
  note w = wf_dequeD[OF assms(1)]
  have i: "i < blen (buf d) div 2" using assms(2) w(4) by (simp add: capacity_def)
  then have "view c (buf d) (eptr d) ! i = replicate (esize c) Uninit" using assms(4) by (simp add: dview_def)
  then show ?thesis using assms(2,3) view_read[OF w(1-3) i] by (simp add: slice_index_def)
qed

lemma rep_functional: "rep c d xs \<Longrightarrow> rep c d ys \<Longrightarrow> xs = ys"
  using slice_elems_rep[of c d xs] slice_elems_rep[of c d ys] by simp

text \<open>\<open>front\<close> and \<open>back\<close>; the index \<open>len.wrapping_sub(1)\<close> of an empty deque is out of bounds.\<close>

lemma deque_front_rep: "rep c d xs \<Longrightarrow> deque_front c d = Inr (if xs = [] then None else Some (hd xs))"
  by (cases xs) (auto simp: deque_front_def slice_get_rep)

lemma deque_back_rep:
  assumes "rep c d xs"
  shows "deque_back c d = Inr (if xs = [] then None else Some (last xs))"
proof (cases "xs = []")
  case True
  then show ?thesis
    using rep_wf[OF assms] rep_len[OF assms] by (simp add: deque_back_def slice_get_rep[OF assms])
next
  case False
  have "length xs < usize_bound" using wf_dequeD(6)[OF rep_wf[OF assms]] rep_len[OF assms]
    by (simp add: usize_isize_bound)
  then have "wrapping_sub (length xs) 1 = length xs - 1"
    using False by (intro wrapping_sub_le) (auto simp: Suc_le_eq)
  then show ?thesis
    using False rep_wf[OF assms] rep_len[OF assms]
    by (simp add: deque_back_def slice_get_rep[OF assms] last_conv_nth Suc_le_eq)
qed

subsection \<open>Moving\<close>

lemma isize_small [simp]:
  "n < isize_bound \<Longrightarrow> isize_arith dbg (- int n) = Inr (- int n)"
  "m < isize_bound \<Longrightarrow> n < isize_bound \<Longrightarrow> isize_arith dbg (int m - int n) = Inr (int m - int n)"
  by (auto simp: isize_fits_def)

lemma move_head_core:
  assumes d: "wf_deque c d"
    and x: "- int (capacity d - elen d) \<le> x" "x \<le> int (elen d)"
    and q: "ptr_offset c (eptr d) x = q" "bptr (buf d) \<le> q + half_bytes c (buf d)"
      "q < bptr (buf d) + 2 * half_bytes c (buf d)"
  defines "p \<equiv> (if q < bptr (buf d) then q + half_bytes c (buf d)
                else if bptr (buf d) + half_bytes c (buf d) \<le> q then q - half_bytes c (buf d) else q)"
  shows "move_head_unchecked c d x = Inr (d\<lparr>eptr := p, elen := nat (int (elen d) - x)\<rparr>)"
    "bptr (buf d) \<le> p" "p < bptr (buf d) + half_bytes c (buf d)"
proof -
  note w = wf_dequeD[OF d]
  define H where "H = half_bytes c (buf d)"
  define B where "B = bptr (buf d)"
  note h = half_bytes_facts[OF w(1,2), folded H_def B_def]
  have cap: "capacity d * esize c \<le> H" using h(4) by (simp add: capacity_def)
  have bound: "B + H + H < usize_bound" "capacity d * esize c < usize_bound"
    using h(5) cap by linarith+
  show lo: "bptr (buf d) \<le> p" and hi: "p < bptr (buf d) + half_bytes c (buf d)"
    using q(2,3) h(1) unfolding p_def H_def B_def by (auto split: if_splits)
  have len: "0 \<le> int (elen d) - x" "int (elen d) - x \<le> int (capacity d)"
    using x w(4) by linarith+
  then have len': "isize_fits (int (elen d) - x)" "int (elen d) - x < int usize_bound"
    using w(5) by (auto simp: isize_fits_def usize_isize_bound)
  have free: "capacity d - elen d < isize_bound" using w(5) by linarith
  have inb: "in_bounds (debug c) (Suc 0) B H p = Inr True"
    using lo hi bound unfolding in_bounds_def H_def[symmetric] B_def[symmetric] by simp
  have BH: "B + H < usize_bound" using bound(1) by linarith
  have B: "B \<le> p" "p < B + H" using lo hi by (simp_all add: H_def B_def)
  note run = size_in_bytes_region[OF w(1,2), folded H_def] inb B len len' w(4-6) x free cap bound d BH q(2,3)
  consider "q < B" "p = q + H" | "\<not> q < B" "B + H \<le> q" "p = q - H" | "\<not> q < B" "\<not> B + H \<le> q" "p = q"
    unfolding p_def H_def B_def by (auto split: if_splits)
  then show "move_head_unchecked c d x = Inr (d\<lparr>eptr := p, elen := nat (int (elen d) - x)\<rparr>)"
  proof cases
    case 1
    then show ?thesis using run unfolding move_head_unchecked_def q(1) Let_def
      by (simp add: H_def[symmetric] B_def[symmetric])
  next
    case 2
    then show ?thesis using run unfolding move_head_unchecked_def q(1) Let_def
      by (simp add: H_def[symmetric] B_def[symmetric])
  next
    case 3
    then show ?thesis using run unfolding move_head_unchecked_def q(1) Let_def
      by (simp add: H_def[symmetric] B_def[symmetric])
  qed
qed

lemma move_head_forward:
  assumes d: "wf_deque c d" and n: "n \<le> elen d"
  obtains p where "move_head_unchecked c d (int n) = Inr (d\<lparr>eptr := p, elen := elen d - n\<rparr>)"
    "wf_deque c (d\<lparr>eptr := p, elen := elen d - n\<rparr>)"
    "take (capacity d - n) (view c (buf d) p) = drop n (dview c d)"
proof -
  note w = wf_dequeD[OF d]
  let ?b = "buf d"
  note h = half_bytes_facts[OF w(1,2)]
  let ?q = "eptr d + n * esize c"
  have "n * esize c \<le> capacity d * esize c" using n w(4) by (intro mult_le_mono1) simp
  moreover have "capacity d * esize c \<le> half_bytes c ?b" using h(4) by (simp only: capacity_def)
  ultimately have le: "n * esize c \<le> half_bytes c ?b" by (rule le_trans)
  have a: "bptr ?b \<le> eptr d" "eptr d < bptr ?b + half_bytes c ?b" "ealign c dvd eptr d"
    using w(3) by (auto simp: head_ok_def)
  have q: "?q < bptr ?b + 2 * half_bytes c ?b" "bptr ?b \<le> ?q" using a le by linarith+
  have off: "ptr_offset c (eptr d) (int n) = ?q"
    using q h(5) by (simp add: ptr_offset_def of_isize_def flip: of_nat_mult of_nat_add of_nat_mod)
  define p where "p = (if ?q < bptr ?b then ?q + half_bytes c ?b
                else if bptr ?b + half_bytes c ?b \<le> ?q then ?q - half_bytes c ?b else ?q)"
  have m: "move_head_unchecked c d (int n) = Inr (d\<lparr>eptr := p, elen := nat (int (elen d) - int n)\<rparr>)"
    "bptr ?b \<le> p" "p < bptr ?b + half_bytes c ?b"
    using move_head_core[OF d _ _ off] n q unfolding p_def by auto
  have "ealign c dvd ?q" using a(3) cfg_okD(3)[OF w(1)] by simp
  then have "ealign c dvd p" using h(2) q(2) unfolding p_def by (auto intro: dvd_diff_nat)
  then have "head_ok c ?b p" using m(2,3) by (simp add: head_ok_def)
  then have wf: "wf_deque c (d\<lparr>eptr := p, elen := elen d - n\<rparr>)"
    using d n by (auto simp: wf_deque_def capacity_def)
  have "p = ?q \<or> p + length (cells ?b) = ?q \<or> p = ?q + length (cells ?b)"
  proof (cases "0 < esize c \<and> 0 < blen ?b")
    case True
    then show ?thesis using h(7) q unfolding p_def by auto
  next
    case False
    then have "n * esize c = 0" using n w(4) by (auto simp: capacity_def)
    then show ?thesis using a(1,2) unfolding p_def by auto
  qed
  from view_shift[OF a(1) m(2) this]
  show ?thesis using that[of p] m(1) wf n by (simp add: dview_def capacity_def of_nat_diff)
qed

text \<open>
  Backwards. Below the first byte of the region there is room for one element of address space, which
  is what the callers need: they step back one element at a time.
\<close>

lemma one_slot_below:
  assumes d: "wf_deque c d" and n: "0 < capacity d"
  shows "1 * esize c \<le> eptr d"
proof (cases "esize c = 0")
  case False
  note w = wf_dequeD[OF d]
  have "0 < blen (buf d)" using n by (auto simp: capacity_def intro: Nat.gr0I)
  then show ?thesis using half_bytes_facts(7)[OF w(1,2)] False w(3) by (auto simp: head_ok_def)
qed simp

lemma move_head_backward:
  assumes d: "wf_deque c d" and n: "n \<le> capacity d - elen d" and low: "n * esize c \<le> eptr d"
  obtains p where "move_head_unchecked c d (- int n) = Inr (d\<lparr>eptr := p, elen := elen d + n\<rparr>)"
    "wf_deque c (d\<lparr>eptr := p, elen := elen d + n\<rparr>)"
    "drop n (view c (buf d) p) = take (capacity d - n) (dview c d)"
proof -
  note w = wf_dequeD[OF d]
  let ?b = "buf d"
  note h = half_bytes_facts[OF w(1,2)]
  have "n * esize c \<le> capacity d * esize c" using n w(4) by (intro mult_le_mono1) simp
  moreover have "capacity d * esize c \<le> half_bytes c ?b" using h(4) by (simp only: capacity_def)
  ultimately have le: "n * esize c \<le> half_bytes c ?b" by (rule le_trans)
  have a: "bptr ?b \<le> eptr d" "eptr d < bptr ?b + half_bytes c ?b" "ealign c dvd eptr d"
    using w(3) by (auto simp: head_ok_def)
  define q where "q = eptr d - n * esize c"
  have q: "q < bptr ?b + 2 * half_bytes c ?b" "bptr ?b \<le> q + half_bytes c ?b" "q \<le> eptr d"
    using a le low unfolding q_def by linarith+
  have "int (eptr d) + - int n * int (esize c) = int q"
    using low unfolding q_def by (simp add: of_nat_diff)
  moreover have "q < usize_bound" using q(3) a(2) h(5) by linarith
  ultimately have off: "ptr_offset c (eptr d) (- int n) = q"
    by (simp add: ptr_offset_def of_isize_def)
  define p where "p = (if q < bptr ?b then q + half_bytes c ?b
                else if bptr ?b + half_bytes c ?b \<le> q then q - half_bytes c ?b else q)"
  have m: "move_head_unchecked c d (- int n) = Inr (d\<lparr>eptr := p, elen := nat (int (elen d) - - int n)\<rparr>)"
    "bptr ?b \<le> p" "p < bptr ?b + half_bytes c ?b"
    using move_head_core[OF d _ _ off] n q w(4) unfolding p_def by auto
  have "ealign c dvd q" using a(3) cfg_okD(3)[OF w(1)] unfolding q_def by (simp add: dvd_diff_nat)
  then have "ealign c dvd p" using h(2) unfolding p_def by (auto intro: dvd_diff_nat)
  then have "head_ok c ?b p" using m(2,3) by (simp add: head_ok_def)
  then have wf: "wf_deque c (d\<lparr>eptr := p, elen := elen d + n\<rparr>)"
    using d n w(4) by (auto simp: wf_deque_def capacity_def)
  have "eptr d = p + n * esize c \<or> eptr d + length (cells ?b) = p + n * esize c \<or>
        eptr d = p + n * esize c + length (cells ?b)"
  proof (cases "0 < esize c \<and> 0 < blen ?b")
    case True
    then show ?thesis using h(7) q(3) a(2) low unfolding p_def q_def by auto
  next
    case False
    then have "n * esize c = 0" using n w(4) by (auto simp: capacity_def)
    then show ?thesis using a(1,2) unfolding p_def q_def by auto
  qed
  from view_shift[OF m(2) a(1) this]
  show ?thesis using that[of p] m(1) wf by (simp add: dview_def capacity_def nat_add_distrib)
qed

lemma move_tail_ok:
  assumes d: "wf_deque c d" and x: "- int (elen d) \<le> x" "x \<le> int (capacity d - elen d)"
  shows "move_tail_unchecked c d x = Inr (d\<lparr>elen := nat (int (elen d) + x)\<rparr>)"
    "wf_deque c (d\<lparr>elen := nat (int (elen d) + x)\<rparr>)"
    "move_tail c d x = Inr (d\<lparr>elen := nat (int (elen d) + x)\<rparr>)"
proof -
  note w = wf_dequeD[OF d]
  have len: "0 \<le> int (elen d) + x" "int (elen d) + x \<le> int (capacity d)" using x w(4) by linarith+
  then have len': "isize_fits (int (elen d) + x)" "int (elen d) + x < int usize_bound"
    using w(5) by (auto simp: isize_fits_def usize_isize_bound)
  have free: "capacity d - elen d < isize_bound" using w(5) by linarith
  show m: "move_tail_unchecked c d x = Inr (d\<lparr>elen := nat (int (elen d) + x)\<rparr>)"
    using d w(4-6) x len len' free by (simp add: move_tail_unchecked_def Let_def)
  show "wf_deque c (d\<lparr>elen := nat (int (elen d) + x)\<rparr>)"
    using d len by (auto simp: wf_deque_def capacity_def)
  show "move_tail c d x = Inr (d\<lparr>elen := nat (int (elen d) + x)\<rparr>)"
    using d w(4-6) x free m by (simp add: move_tail_def)
qed

subsection \<open>The primitives on the represented list\<close>

lemma rep_view:
  assumes "wf_deque c d" "elen d = length xs" "take (length xs) (dview c d) = map (enc (esize c)) xs"
    "list_all (val_ok c) xs"
  shows "rep c d xs"
  using assms by (simp add: rep_def)

lemma rep_take_view: "rep c d xs \<Longrightarrow> take (length xs) (dview c d) = map (enc (esize c)) xs"
  by (metis rep_def rep_len)

lemma rep_vals: "rep c d xs \<Longrightarrow> list_all (val_ok c) xs"
  by (simp add: rep_def)

lemma list_all_take_drop:
  "list_all P xs \<Longrightarrow> list_all P (take n xs)" "list_all P xs \<Longrightarrow> list_all P (drop n xs)"
  by (auto simp: list_all_iff dest: in_set_takeD in_set_dropD)

lemma rep_drop_head:
  assumes r: "rep c d xs" and n: "n \<le> length xs"
  obtains p where "move_head_unchecked c d (int n) = Inr (d\<lparr>eptr := p, elen := length xs - n\<rparr>)"
    "rep c (d\<lparr>eptr := p, elen := length xs - n\<rparr>) (drop n xs)"
proof -
  have len: "elen d = length xs" by (rule rep_len[OF r])
  with n have n': "n \<le> elen d" by simp
  obtain p where m: "move_head_unchecked c d (int n) = Inr (d\<lparr>eptr := p, elen := elen d - n\<rparr>)"
    and wf: "wf_deque c (d\<lparr>eptr := p, elen := elen d - n\<rparr>)"
    and v: "take (capacity d - n) (view c (buf d) p) = drop n (dview c d)"
    using move_head_forward[OF rep_wf[OF r] n'] .
  have "take (length xs - n) (view c (buf d) p) = take (length xs - n) (take (capacity d - n) (view c (buf d) p))"
    using rep_len_le[OF r] by (simp add: min_def)
  also have "\<dots> = drop n (take (length xs) (dview c d))" by (simp add: v drop_take)
  also have "\<dots> = map (enc (esize c)) (drop n xs)" by (simp add: rep_take_view[OF r] drop_map)
  finally have "rep c (d\<lparr>eptr := p, elen := length xs - n\<rparr>) (drop n xs)"
    using wf rep_vals[OF r] by (intro rep_view) (auto simp: len dview_def list_all_take_drop)
  then show ?thesis using that m len by simp
qed

lemma rep_drop_tail:
  assumes r: "rep c d xs" and n: "n \<le> length xs"
  shows "move_tail_unchecked c d (- int n) = Inr (d\<lparr>elen := length xs - n\<rparr>)"
    "move_tail c d (- int n) = Inr (d\<lparr>elen := length xs - n\<rparr>)"
    "rep c (d\<lparr>elen := length xs - n\<rparr>) (take (length xs - n) xs)"
proof -
  have len: "elen d = length xs" by (rule rep_len[OF r])
  have x: "- int (elen d) \<le> - int n" "- int n \<le> int (capacity d - elen d)" using n len by simp_all
  have eq: "nat (int (elen d) + - int n) = length xs - n" using n len by simp
  note m = move_tail_ok[OF rep_wf[OF r] x, unfolded eq]
  from m show "move_tail_unchecked c d (- int n) = Inr (d\<lparr>elen := length xs - n\<rparr>)"
    "move_tail c d (- int n) = Inr (d\<lparr>elen := length xs - n\<rparr>)" by simp_all
  have "take (length xs - n) (take (length xs) (dview c d)) = take (length xs - n) (dview c d)"
    by (simp add: min_def)
  then have "take (length xs - n) (dview c d) = map (enc (esize c)) (take (length xs - n) xs)"
    unfolding rep_take_view[OF r] by (simp add: take_map)
  then show "rep c (d\<lparr>elen := length xs - n\<rparr>) (take (length xs - n) xs)"
    using m(2) rep_vals[OF r] by (intro rep_view) (simp_all add: list_all_take_drop min_absorb2)
qed

lemma wf_update_buf:
  "wf_deque c d \<Longrightarrow> length cs = length (cells (buf d)) \<Longrightarrow> wf_deque c (d\<lparr>buf := (buf d)\<lparr>cells := cs\<rparr>\<rparr>)"
  by (simp add: wf_deque_def head_ok_def capacity_def)

text \<open>Writing inside the window of the capacity, whether the slot is occupied or not.\<close>

lemma dview_write:
  assumes d: "wf_deque c d" and j: "j < capacity d"
  obtains cs where "ptr_write c (buf d) (eptr d + j * esize c) v = Inr ((buf d)\<lparr>cells := cs\<rparr>)"
    "wf_deque c (d\<lparr>buf := (buf d)\<lparr>cells := cs\<rparr>\<rparr>)"
    "dview c (d\<lparr>buf := (buf d)\<lparr>cells := cs\<rparr>\<rparr>) = (dview c d)[j := enc (esize c) v]"
    "regions c ((buf d)\<lparr>cells := cs\<rparr>) = regions c (buf d)"
proof -
  note w = wf_dequeD[OF d]
  have j': "j < blen (buf d) div 2" using j by (simp add: capacity_def)
  obtain cs where cs: "ptr_write c (buf d) (eptr d + j * esize c) v = Inr ((buf d)\<lparr>cells := cs\<rparr>)"
    "length cs = length (cells (buf d))"
    "view c ((buf d)\<lparr>cells := cs\<rparr>) (eptr d) = (view c (buf d) (eptr d))[j := enc (esize c) v]"
    using view_write[OF w(1-3) j'] .
  show ?thesis using that[OF cs(1)] cs(2,3) wf_update_buf[OF d cs(2)] by (simp add: dview_def)
qed

text \<open>Moving a run of slots inside the window.\<close>

lemma dview_copy:
  assumes d: "wf_deque c d" and sd: "s + n \<le> capacity d" "t + n \<le> capacity d"
  obtains cs where
    "ptr_copy c (buf d) (eptr d + s * esize c) (eptr d + t * esize c) n = Inr ((buf d)\<lparr>cells := cs\<rparr>)"
    "wf_deque c (d\<lparr>buf := (buf d)\<lparr>cells := cs\<rparr>\<rparr>)"
    "dview c (d\<lparr>buf := (buf d)\<lparr>cells := cs\<rparr>\<rparr>) = splice_at (dview c d) t (take n (drop s (dview c d)))"
    "regions c ((buf d)\<lparr>cells := cs\<rparr>) = regions c (buf d)"
proof -
  note w = wf_dequeD[OF d]
  have sd': "s + n \<le> blen (buf d) div 2" "t + n \<le> blen (buf d) div 2" using sd by (simp_all add: capacity_def)
  obtain cs where cs: "ptr_copy c (buf d) (eptr d + s * esize c) (eptr d + t * esize c) n = Inr ((buf d)\<lparr>cells := cs\<rparr>)"
    "length cs = length (cells (buf d))"
    "view c ((buf d)\<lparr>cells := cs\<rparr>) (eptr d)
       = splice_at (view c (buf d) (eptr d)) t (take n (drop s (view c (buf d) (eptr d))))"
    using view_copy[OF w(1-3) sd'] .
  show ?thesis using that[OF cs(1)] cs(2,3) wf_update_buf[OF d cs(2)] by (simp add: dview_def)
qed

end
