(* ===== verification/Reserve.thy ===== *)
theory Reserve
  imports Deque
begin

text \<open>
  Changing the capacity (\<open>src/lib.rs\<close>: \<open>try_reserve\<close>, \<open>reserve\<close>, \<open>reserve_capacity\<close>,
  \<open>reserve_exact\<close>, \<open>grow_policy\<close>, \<open>shrink_to_fit\<close>). The locale \<open>deque_env\<close> is the environment a
  deque runs in: a configuration over a platform that keeps its contract.
\<close>

definition reserve_capacity ::
    "('a, 'os) cfg \<Rightarrow> 'a deque \<Rightarrow> nat \<Rightarrow> ('a, 'os) world \<Rightarrow>
     fault + ((alloc_error + unit) \<times> 'a deque \<times> ('a, 'os) world)" where
  "reserve_capacity c d new_capacity w =
     (if new_capacity \<le> capacity d then Inr (Inr (), d, w)
      else
        bindE (usize_mul (debug c) 2 new_capacity) (\<lambda>m.
        bindE (uninitialized c m w) (\<lambda>(r, w).
        case r of
          Inl e \<Rightarrow> Inr (Inl e, d, w)
        | Inr new_buffer \<Rightarrow>
            bindE (debug_assert (debug c) (m \<le> blen new_buffer)) (\<lambda>_.
            bindE (deque_len c d) (\<lambda>len.
            bindE (ptr_copy_nonoverlapping c (buf d) (eptr d) new_buffer (bptr new_buffer) len) (\<lambda>new_buffer.
            let old_buffer = buf d;
                d = \<lparr>eptr = bptr new_buffer, elen = len, buf = new_buffer\<rparr> in
            bindE (buffer_drop c old_buffer w) (\<lambda>w.
            Inr (Inr (), d, w))))))))"

definition grow_policy :: "('a, 'os) cfg \<Rightarrow> 'a deque \<Rightarrow> nat \<Rightarrow> fault + nat" where
  "grow_policy c d additional =
     (let cur_cap = capacity d in
      bindE (deque_len c d) (\<lambda>old_len.
      case checked_add old_len additional of
        None \<Rightarrow> panic ExpectFailed
      | Some req_cap \<Rightarrow>
          Inr (if cur_cap < req_cap
               then let dbl_cap = saturating_mul cur_cap 2 in max req_cap dbl_cap
               else req_cap)))"

definition try_reserve ::
    "('a, 'os) cfg \<Rightarrow> 'a deque \<Rightarrow> nat \<Rightarrow> ('a, 'os) world \<Rightarrow>
     fault + ((alloc_error + unit) \<times> 'a deque \<times> ('a, 'os) world)" where
  "try_reserve c d additional w =
     bindE (deque_len c d) (\<lambda>old_len.
     bindE (grow_policy c d additional) (\<lambda>new_cap.
     bindE (reserve_capacity c d new_cap w) (\<lambda>(r, d, w).
     case r of
       Inl e \<Rightarrow> Inr (Inl e, d, w)
     | Inr _ \<Rightarrow>
         bindE (debug_assert_m (debug c)
           (bindE (usize_add (debug c) old_len additional) (\<lambda>n. Inr (n \<le> capacity d)))) (\<lambda>_.
         Inr (Inr (), d, w)))))"

definition reserve ::
    "('a, 'os) cfg \<Rightarrow> 'a deque \<Rightarrow> nat \<Rightarrow> ('a, 'os) world \<Rightarrow>
     fault + ('a deque \<times> ('a, 'os) world)" where
  "reserve c d additional w =
     bindE (try_reserve c d additional w) (\<lambda>(r, d, w).
     case r of Inl e \<Rightarrow> panic (CalledUnwrapOnErr e) | Inr _ \<Rightarrow> Inr (d, w))"

definition reserve_exact ::
    "('a, 'os) cfg \<Rightarrow> 'a deque \<Rightarrow> nat \<Rightarrow> ('a, 'os) world \<Rightarrow>
     fault + ('a deque \<times> ('a, 'os) world)" where
  "reserve_exact c d additional w =
     bindE (deque_len c d) (\<lambda>old_len.
     case checked_add old_len additional of
       None \<Rightarrow> panic ExpectFailed
     | Some new_cap \<Rightarrow>
         bindE (reserve_capacity c d new_cap w) (\<lambda>(r, d, w).
         case r of
           Inl e \<Rightarrow> panic (CalledUnwrapOnErr e)
         | Inr _ \<Rightarrow>
             bindE (debug_assert_m (debug c)
               (bindE (usize_add (debug c) old_len additional) (\<lambda>n. Inr (n \<le> capacity d)))) (\<lambda>_.
             Inr (d, w))))"

text \<open>
  \<open>shrink_to_fit\<close>: the smaller deque and \<open>self\<close> are swapped, and the one left in the local
  variable is dropped at the end of the function, elements included.
\<close>

definition shrink_to_fit ::
    "('a, 'os) cfg \<Rightarrow> 'a deque \<Rightarrow> ('a, 'os) world \<Rightarrow>
     fault + ('a deque \<times> ('a, 'os) world)" where
  "shrink_to_fit c d w =
     (if elen d = 0 then Inr (d, w)
      else
        bindE (deque_len c d) (\<lambda>len.
        bindE (with_capacity c len w) (\<lambda>(new_sdeq, w).
        if capacity new_sdeq < capacity d then
          bindE (ptr_copy_nonoverlapping c (buf d) (eptr d) (buf new_sdeq) (eptr new_sdeq) len) (\<lambda>b.
          let new_sdeq = \<lparr>eptr = bptr b, elen = len, buf = b\<rparr> in
          bindE (deque_drop c d w) (\<lambda>w. Inr (new_sdeq, w)))
        else
          bindE (deque_drop c new_sdeq w) (\<lambda>w. Inr (d, w)))))"

subsection \<open>The environment\<close>

locale deque_env =
  fixes c :: "('a, 'os) cfg"
    and os_ok :: "'os \<Rightarrow> bool"
    and owned :: "'os \<Rightarrow> (nat \<times> nat) set"
  assumes platform: "mirrored_platform (plat c) os_ok owned"
    and cfg: "cfg_ok c"
    and below: "head_room c os_ok"

sublocale deque_env \<subseteq> mirrored_platform "plat c" os_ok owned
  by (rule platform)

text \<open>Elements no larger than a page need nothing beyond the contract.\<close>

lemma deque_env_page:
  assumes "mirrored_platform (plat c) os_ok owned" "cfg_ok c" "esize c \<le> ag c"
  shows "deque_env c os_ok owned"
  using assms head_room_page[OF assms(1,3)] by (intro deque_env.intro)

text \<open>
  \<open>holds c os_ok owned d w xs\<close>: in the world \<open>w\<close> the deque \<open>d\<close> owns its region and represents
  \<open>xs\<close>. \<open>others\<close> is what the process owns beside the deque; no operation may touch it.
\<close>

definition holds ::
    "('a, 'os) cfg \<Rightarrow> ('os \<Rightarrow> bool) \<Rightarrow> ('os \<Rightarrow> (nat \<times> nat) set) \<Rightarrow>
     'a deque \<Rightarrow> ('a, 'os) world \<Rightarrow> 'a list \<Rightarrow> bool" where
  "holds c os_ok owned d w xs \<longleftrightarrow> rep c d xs \<and> os_ok (os w) \<and> regions c (buf d) \<subseteq> owned (os w)"

definition others ::
    "('a, 'os) cfg \<Rightarrow> ('os \<Rightarrow> (nat \<times> nat) set) \<Rightarrow> 'a deque \<Rightarrow> ('a, 'os) world \<Rightarrow> (nat \<times> nat) set" where
  "others c owned d w = owned (os w) - regions c (buf d)"

text \<open>A capacity the code can ask for without overflowing the address space.\<close>

definition fits :: "('a, 'os) cfg \<Rightarrow> nat \<Rightarrow> bool" where
  "fits c n \<longleftrightarrow> 2 * n * esize c + 2 * ag c < usize_bound \<and> 2 * n < usize_bound"

lemma holds_rep: "holds c os_ok owned d w xs \<Longrightarrow> rep c d xs"
  by (simp add: holds_def)

lemma holds_wf: "holds c os_ok owned d w xs \<Longrightarrow> wf_deque c d"
  by (auto simp: holds_def intro: rep_wf)

lemma fits_mono: "fits c n \<Longrightarrow> m \<le> n \<Longrightarrow> fits c m"
  unfolding fits_def mult.assoc using mult_le_mono1[of m n "esize c"] by linarith

lemma regions_Int_empty: "regions c b \<inter> A = {} \<Longrightarrow> A - regions c b = A"
  by blast

text \<open>Copying the elements of a deque to the front of a buffer that is large enough.\<close>

lemma rep_copy_to:
  assumes r: "rep c d xs" and b: "wf_buffer c b" "length xs \<le> blen b div 2"
  obtains cs where "ptr_copy_nonoverlapping c (buf d) (eptr d) b (bptr b) (length xs) = Inr (b\<lparr>cells := cs\<rparr>)"
    "rep c \<lparr>eptr = bptr b, elen = length xs, buf = b\<lparr>cells := cs\<rparr>\<rparr> xs"
    "regions c (b\<lparr>cells := cs\<rparr>) = regions c b"
    "\<And>i. length xs \<le> i \<Longrightarrow> i < blen b div 2 \<Longrightarrow>
       dview c \<lparr>eptr = bptr b, elen = length xs, buf = b\<lparr>cells := cs\<rparr>\<rparr> ! i = view c b (bptr b) ! i"
proof -
  note w = wf_dequeD[OF rep_wf[OF r]]
  have n: "length xs \<le> blen (buf d) div 2" using rep_len_le[OF r] by (simp add: capacity_def)
  obtain cs where cs: "ptr_copy_nonoverlapping c (buf d) (eptr d) b (bptr b) (length xs) = Inr (b\<lparr>cells := cs\<rparr>)"
    "length cs = length (cells b)"
    "view c (b\<lparr>cells := cs\<rparr>) (bptr b) = splice_at (view c b (bptr b)) 0 (take (length xs) (view c (buf d) (eptr d)))"
    using view_copy_nonoverlapping[OF w(1-3) b(1) head_ok_bptr[OF w(1) b(1)] n b(2)] .
  let ?d = "\<lparr>eptr = bptr b, elen = length xs, buf = b\<lparr>cells := cs\<rparr>\<rparr>"
  have "head_ok c (b\<lparr>cells := cs\<rparr>) (bptr b)"
    using head_ok_bptr[OF w(1), of "b\<lparr>cells := cs\<rparr>"] cs(2) b(1) by simp
  then have wf: "wf_deque c ?d" using w(1) b cs(2) by (simp add: wf_deque_def capacity_def)
  have "take (length xs) (dview c ?d) = take (length xs) (dview c d)"
    using cs(3) n by (simp add: dview_def splice_at_def)
  then have "rep c ?d xs" using wf rep_take_view[OF r] rep_vals[OF r] by (intro rep_view) simp_all
  moreover have "dview c ?d ! i = view c b (bptr b) ! i" if "length xs \<le> i" "i < blen b div 2" for i
    using cs(3) n b(2) that by (simp add: dview_def nth_splice_at)
  ultimately show ?thesis using that cs(1,2) by simp
qed

text \<open>A buffer that was never written holds no value anywhere.\<close>

lemma view_uninit:
  assumes "wf_buffer c b" "set (cells b) \<subseteq> {Uninit}" "i < blen b div 2" "0 < esize c" "cfg_ok c"
  shows "view c b (bptr b) ! i = replicate (esize c) Uninit"
proof -
  have ne: "cells b \<noteq> []" using half_bytes_facts(7)[OF assms(5,1,4)] assms(3) by auto
  have "vcell (cells b) j = Uninit" for j
  proof -
    have "cells b ! (j mod length (cells b)) \<in> set (cells b)" using ne by simp
    then show ?thesis using assms(2) unfolding vcell_def by blast
  qed
  then show ?thesis using assms(3) by (auto simp: bslot_def read_cells_def map_replicate_trivial intro: replicate_eqI)
qed

context deque_env
begin

lemma reserve_capacity_cases:
  assumes h: "holds c os_ok owned d w xs" and n: "fits c n"
  obtains (Err) e s where "reserve_capacity c d n w = Inr (Inl e, d, w\<lparr>os := s\<rparr>)"
      "holds c os_ok owned d (w\<lparr>os := s\<rparr>) xs" "owned s = owned (os w)" "capacity d < n"
      "allocate_mirrored (plat c) (alloc_bytes c (2 * n * esize c)) (os w) = Inr (Inl e, s)"
  | (Ok) d' s where "reserve_capacity c d n w = Inr (Inr (), d', w\<lparr>os := s\<rparr>)"
      "holds c os_ok owned d' (w\<lparr>os := s\<rparr>) xs"
      "others c owned d' (w\<lparr>os := s\<rparr>) = others c owned d w"
      "0 < esize c \<Longrightarrow> n \<le> capacity d'" "capacity d \<le> capacity d'"
      "\<And>i. 0 < esize c \<Longrightarrow> capacity d < n \<Longrightarrow> length xs \<le> i \<Longrightarrow> i < capacity d' \<Longrightarrow>
         dview c d' ! i = replicate (esize c) Uninit"
proof (cases "n \<le> capacity d")
  case True
  then show ?thesis using Ok[of d "os w"] h by (simp add: reserve_capacity_def)
next
  case False
  have r: "rep c d xs" and w: "os_ok (os w)" "regions c (buf d) \<subseteq> owned (os w)"
    using h by (auto simp: holds_def)
  note wd = wf_dequeD[OF rep_wf[OF r]]
  have f: "even (2 * n)" "2 * n * esize c + 2 * ag c < usize_bound" "2 * n < usize_bound"
    using n by (auto simp: fits_def)
  show ?thesis
  proof (cases rule: uninitialized_cases[OF cfg refl below f(1,2) w(1)])
    case (1 e s)
    then show ?thesis using Err[of e s] False f(3) r w by (simp add: reserve_capacity_def holds_def)
  next
    case (2 b s)
    have zst: "blen b = empty_len c \<and> blen (buf d) = empty_len c" if "esize c = 0"
      using that 2(3) wd(2) by (simp add: wf_buffer_def)
    have cap: "capacity d \<le> blen b div 2" and capn: "0 < esize c \<Longrightarrow> n \<le> blen b div 2"
      using 2(6) False zst by (cases "esize c = 0"; simp add: capacity_def)+
    have "esize c = 0 \<Longrightarrow> n \<le> isize_max" 
      using f(3) by (simp add: usize_isize_bound isize_max_def)
    then have blen: "2 * n \<le> blen b" using zst 2(6) by (cases "esize c = 0") (auto simp: empty_len_def)
    have le: "length xs \<le> blen b div 2" using rep_len_le[OF r] cap by simp
    obtain cs where cs: "ptr_copy_nonoverlapping c (buf d) (eptr d) b (bptr b) (length xs) = Inr (b\<lparr>cells := cs\<rparr>)"
      "rep c \<lparr>eptr = bptr b, elen = length xs, buf = b\<lparr>cells := cs\<rparr>\<rparr> xs"
      "regions c (b\<lparr>cells := cs\<rparr>) = regions c b"
      "\<And>i. length xs \<le> i \<Longrightarrow> i < blen b div 2 \<Longrightarrow>
         dview c \<lparr>eptr = bptr b, elen = length xs, buf = b\<lparr>cells := cs\<rparr>\<rparr> ! i = view c b (bptr b) ! i"
      by (rule rep_copy_to[OF r 2(3) le]) blast
    let ?d = "\<lparr>eptr = bptr b, elen = length xs, buf = b\<lparr>cells := cs\<rparr>\<rparr>"
    have "os_ok (os (w\<lparr>os := s\<rparr>))" "regions c (buf d) \<subseteq> owned (os (w\<lparr>os := s\<rparr>))" using 2(2,4) w(2) by auto
    from buffer_drop_ok[OF cfg refl wd(2) this] obtain s' where
      s': "buffer_drop c (buf d) (w\<lparr>os := s\<rparr>) = Inr (w\<lparr>os := s'\<rparr>)" "os_ok s'"
        "owned s' = owned s - regions c (buf d)" by auto
    have run: "reserve_capacity c d n w = Inr (Inr (), ?d, w\<lparr>os := s'\<rparr>)"
      using False f(3) 2(1) blen cs(1) s'(1) rep_wf[OF r] rep_len[OF r]
      by (simp add: reserve_capacity_def)
    have own: "owned s' = (owned (os w) - regions c (buf d)) \<union> regions c b"
      using s'(3) 2(4,5) w(2) by blast
    show ?thesis
    proof (rule Ok[OF run])
      show "dview c ?d ! i = replicate (esize c) Uninit"
        if "0 < esize c" "length xs \<le> i" "i < capacity ?d" for i
        using cs(4)[of i] view_uninit[OF 2(3,7), of i] that cfg by (simp add: capacity_def)
    qed (use cs(2,3) s'(2) own capn cap 2(5) w(2) in \<open>auto simp: holds_def others_def capacity_def\<close>)
  qed
qed

lemma grow_policy_ok:
  assumes "rep c d xs" "length xs + k < usize_bound"
  shows "grow_policy c d k = Inr (if length xs + k \<le> capacity d then length xs + k
           else max (length xs + k) (min (2 * capacity d) usize_max))"
  using assms rep_wf[OF assms(1)] rep_len[OF assms(1)]
  by (auto simp: grow_policy_def checked_add_def saturating_mul_def Let_def mult.commute)

text \<open>
  \<open>try_reserve\<close>: either the platform is out of memory and nothing has changed, or there is room
  for \<open>k\<close> more elements; the elements are the same either way.
\<close>

lemma try_reserve_cases:
  assumes h: "holds c os_ok owned d w xs" and k: "length xs + k < usize_bound"
    and n: "capacity d < length xs + k \<longrightarrow> fits c (max (length xs + k) (2 * capacity d))"
    and z: "esize c = 0 \<longrightarrow> length xs + k \<le> isize_max"
  obtains (Err) e s where "try_reserve c d k w = Inr (Inl e, d, w\<lparr>os := s\<rparr>)"
      "holds c os_ok owned d (w\<lparr>os := s\<rparr>) xs" "owned s = owned (os w)"
      "capacity d < length xs + k"
  | (Ok) d' s where "try_reserve c d k w = Inr (Inr (), d', w\<lparr>os := s\<rparr>)"
      "holds c os_ok owned d' (w\<lparr>os := s\<rparr>) xs"
      "others c owned d' (w\<lparr>os := s\<rparr>) = others c owned d w"
      "length xs + k \<le> capacity d'" "capacity d \<le> capacity d'"
      "0 < esize c \<Longrightarrow> capacity d < length xs + k \<Longrightarrow> 2 * capacity d \<le> capacity d'"
proof -
  have r: "rep c d xs" by (rule holds_rep[OF h])
  define m where "m = (if length xs + k \<le> capacity d then length xs + k
           else max (length xs + k) (min (2 * capacity d) usize_max))"
  have gp: "grow_policy c d k = Inr m" unfolding m_def by (rule grow_policy_ok[OF r k])
  have len: "deque_len c d = Inr (length xs)" using rep_wf[OF r] rep_len[OF r] by simp
  have le: "length xs + k \<le> m" by (simp add: m_def)
  show ?thesis
  proof (cases "m \<le> capacity d")
    case True
    then show ?thesis using Ok[of d "os w"] h gp len le k
      by (simp add: try_reserve_def reserve_capacity_def)
  next
    case False
    with le have c1: "capacity d < length xs + k" by (auto simp: m_def split: if_splits)
    then have f: "fits c m" using n fits_mono[of c _ m] by (auto simp: m_def)
    show ?thesis
    proof (cases rule: reserve_capacity_cases[OF h f])
      case (1 e s)
      then show ?thesis using Err[of e s] c1 gp len by (simp add: try_reserve_def)
    next
      case (2 d' s)
      have cap: "length xs + k \<le> capacity d'"
      proof (cases "esize c = 0")
        case True
        then have "capacity d' = isize_max"
          using holds_wf[OF 2(2)] by (simp add: wf_deque_def wf_buffer_def capacity_def empty_len_def)
        then show ?thesis using z True by simp
      next
        case False
        then show ?thesis using 2(4) le by simp
      qed
      have "2 * capacity d \<le> m"
        using c1 half_bytes_facts(8)[OF wf_dequeD(1,2)[OF rep_wf[OF r]]]
        by (simp add: m_def capacity_def usize_max_def)
      then have "0 < esize c \<Longrightarrow> 2 * capacity d \<le> capacity d'" using 2(4) by linarith
      then show ?thesis using Ok[of d' s] 2 gp len k cap by (simp add: try_reserve_def)
    qed
  qed
qed

text \<open>Doubling a full deque never overflows: the region it has already fits.\<close>

lemma fits_double:
  assumes d: "wf_deque c d" and e: "elen d = capacity d" "capacity d \<noteq> isize_max"
  shows "fits c (max (capacity d + 1) (2 * capacity d))"
proof (cases "capacity d = 0")
  case True
  then show ?thesis using cfg_okD(6)[OF cfg] by (simp add: fits_def usize_bound_def)
next
  case False
  note w = wf_dequeD[OF d]
  have nz: "0 < esize c" using w(2) e(2)
    by (cases "esize c = 0") (auto simp: wf_buffer_def capacity_def empty_len_def)
  have bl: "0 < blen (buf d)" using False by (auto simp: capacity_def intro: Nat.gr0I)
  have L: "2 * ((blen (buf d) div 2) * esize c) \<le> 2 * length (cells (buf d))"
    using half_bytes_facts(4,7)[OF w(1,2)] nz bl by auto
  have wb: "bptr (buf d) + 2 * length (cells (buf d)) < isize_bound" "ag c \<le> bptr (buf d)"
    using w(2) nz bl by (auto simp: wf_buffer_def)
  have m: "max (capacity d + 1) (2 * capacity d) = 2 * capacity d" using False by simp
  have "2 * (2 * capacity d) * esize c + 2 * ag c < usize_bound"
    using L wb w(7) unfolding usize_isize_bound capacity_def mult.assoc by linarith
  moreover have "2 * (2 * capacity d) \<le> 2 * (2 * capacity d) * esize c" using nz by simp
  ultimately show ?thesis unfolding fits_def m by linarith
qed

end

end
