(* ===== verification/Queue_Interface.thy ===== *)
theory Queue_Interface
  imports Prelude
begin

text \<open>
  What a client of a double-ended queue relies on. The operations of the library that only push
  elements one after the other (\<open>clone\<close>, \<open>From\<close>, \<open>resize\<close>, \<open>extend\<close>) are such clients, and so is
  the code that uses the crate. A push either panics because memory ran out or appends; a pop
  returns the end element. The frame \<open>fr\<close> stands for everything an operation leaves alone.
\<close>

text \<open>\<open>for v in vs { q.push(v) }\<close>\<close>

fun push_all :: "('v \<Rightarrow> 'd \<Rightarrow> 'w \<Rightarrow> fault + ('d \<times> 'w)) \<Rightarrow> 'v list \<Rightarrow> 'd \<Rightarrow> 'w \<Rightarrow> fault + ('d \<times> 'w)" where
  "push_all push [] d w = Inr (d, w)"
| "push_all push (v # vs) d w = bindE (push v d w) (\<lambda>(d, w). push_all push vs d w)"

text \<open>\<open>while let Some(v) = q.pop() \<dots>\<close>, at most \<open>n\<close> times.\<close>

fun pop_n :: "('d \<Rightarrow> fault + ('v option \<times> 'd)) \<Rightarrow> nat \<Rightarrow> 'd \<Rightarrow> fault + ('v list \<times> 'd)" where
  "pop_n pop 0 d = Inr ([], d)"
| "pop_n pop (Suc n) d =
     bindE (pop d) (\<lambda>(r, d).
     case r of
       None \<Rightarrow> Inr ([], d)
     | Some v \<Rightarrow> bindE (pop_n pop n d) (\<lambda>(vs, d). Inr (v # vs, d)))"

definition push_outcome :: "fault + ('d \<times> 'w) \<Rightarrow> ('d \<Rightarrow> 'w \<Rightarrow> bool) \<Rightarrow> bool" where
  "push_outcome m P \<longleftrightarrow>
     (\<exists>e. m = panic (AllocationFailed e)) \<or> (\<exists>d w. m = Inr (d, w) \<and> P d w)"

lemma push_outcome_bind:
  assumes "push_outcome m P" "\<And>d w. P d w \<Longrightarrow> push_outcome (f (d, w)) Q"
  shows "push_outcome (bindE m f) Q"
  using assms unfolding push_outcome_def by fastforce

lemma push_outcome_mono: "push_outcome m P \<Longrightarrow> (\<And>d w. P d w \<Longrightarrow> Q d w) \<Longrightarrow> push_outcome m Q"
  by (auto simp: push_outcome_def)

lemma push_outcome_Inr [simp]: "push_outcome (Inr (d, w)) P = P d w"
  by (simp add: push_outcome_def)

locale double_ended =
  fixes state :: "'f \<Rightarrow> 'd \<Rightarrow> 'w \<Rightarrow> 'v list \<Rightarrow> bool"
    and ok :: "'v \<Rightarrow> bool"
    and bound :: nat
    and push_f push_b :: "'v \<Rightarrow> 'd \<Rightarrow> 'w \<Rightarrow> fault + ('d \<times> 'w)"
    and pop_f pop_b :: "'d \<Rightarrow> fault + ('v option \<times> 'd)"
  assumes push_f: "state fr d w xs \<Longrightarrow> ok v \<Longrightarrow> length xs < bound \<Longrightarrow>
      push_outcome (push_f v d w) (\<lambda>d' w'. state fr d' w' (v # xs))"
    and push_b: "state fr d w xs \<Longrightarrow> ok v \<Longrightarrow> length xs < bound \<Longrightarrow>
      push_outcome (push_b v d w) (\<lambda>d' w'. state fr d' w' (xs @ [v]))"
    and pop_f: "state fr d w xs \<Longrightarrow>
      \<exists>d'. pop_f d = Inr (if xs = [] then None else Some (hd xs), d') \<and> state fr d' w (tl xs)"
    and pop_b: "state fr d w xs \<Longrightarrow>
      \<exists>d'. pop_b d = Inr (if xs = [] then None else Some (last xs), d') \<and> state fr d' w (butlast xs)"
begin

lemma push_all_back:
  assumes "state fr d w xs" "list_all ok vs" "length xs + length vs \<le> bound"
  shows "push_outcome (push_all push_b vs d w) (\<lambda>d' w'. state fr d' w' (xs @ vs))"
  using assms
proof (induction vs arbitrary: d w xs)
  case (Cons v vs)
  have "push_outcome (push_b v d w) (\<lambda>d' w'. state fr d' w' (xs @ [v]))"
    using Cons.prems by (intro push_b) auto
  moreover have "push_outcome (push_all push_b vs d' w') (\<lambda>d'' w''. state fr d'' w'' (xs @ v # vs))"
    if "state fr d' w' (xs @ [v])" for d' w'
    using Cons.IH[OF that] Cons.prems by simp
  ultimately show ?case by (auto elim!: push_outcome_bind)
qed simp

lemma push_all_front:
  assumes "state fr d w xs" "list_all ok vs" "length xs + length vs \<le> bound"
  shows "push_outcome (push_all push_f vs d w) (\<lambda>d' w'. state fr d' w' (rev vs @ xs))"
  using assms
proof (induction vs arbitrary: d w xs)
  case (Cons v vs)
  have "push_outcome (push_f v d w) (\<lambda>d' w'. state fr d' w' (v # xs))"
    using Cons.prems by (intro push_f) auto
  moreover have "push_outcome (push_all push_f vs d' w') (\<lambda>d'' w''. state fr d'' w'' (rev (v # vs) @ xs))"
    if "state fr d' w' (v # xs)" for d' w'
    using Cons.IH[OF that] Cons.prems by simp
  ultimately show ?case by (auto elim!: push_outcome_bind)
qed simp

lemma pop_n_front:
  assumes "state fr d w xs"
  shows "\<exists>d'. pop_n pop_f n d = Inr (take n xs, d') \<and> state fr d' w (drop n xs)"
  using assms
proof (induction n arbitrary: d xs)
  case (Suc n)
  obtain d1 where d1: "pop_f d = Inr (if xs = [] then None else Some (hd xs), d1)" "state fr d1 w (tl xs)"
    using pop_f[OF Suc.prems] by blast
  then show ?case using Suc.IH[OF d1(2)] by (cases xs) auto
qed auto

lemma pop_n_back:
  assumes "state fr d w xs"
  shows "\<exists>d'. pop_n pop_b n d = Inr (take n (rev xs), d') \<and> state fr d' w (rev (drop n (rev xs)))"
  using assms
proof (induction n arbitrary: d xs)
  case (Suc n)
  obtain d1 where d1: "pop_b d = Inr (if xs = [] then None else Some (last xs), d1)" "state fr d1 w (butlast xs)"
    using pop_b[OF Suc.prems] by blast
  then show ?case using Suc.IH[OF d1(2)] by (cases xs rule: rev_cases) auto
qed auto

text \<open>First in, first out; last in, first out.\<close>

lemma fifo:
  assumes "state fr d w []" "list_all ok vs" "length vs \<le> bound"
  shows "push_outcome (push_all push_b vs d w)
    (\<lambda>d1 w1. \<exists>d2. pop_n pop_f (length vs) d1 = Inr (vs, d2) \<and> state fr d2 w1 [])"
  by (rule push_outcome_mono[OF push_all_back[OF assms(1,2)]])
    (use assms(3) pop_n_front[where n = "length vs"] in fastforce)+

lemma lifo:
  assumes "state fr d w []" "list_all ok vs" "length vs \<le> bound"
  shows "push_outcome (push_all push_b vs d w)
    (\<lambda>d1 w1. \<exists>d2. pop_n pop_b (length vs) d1 = Inr (rev vs, d2) \<and> state fr d2 w1 [])"
  by (rule push_outcome_mono[OF push_all_back[OF assms(1,2)]])
    (use assms(3) pop_n_back[where n = "length vs"] in fastforce)+

end

end
