(* ===== verification/Ends.thy ===== *)
theory Ends
  imports Reserve Queue_Interface
begin

text \<open>
  Both ends of the queue (\<open>src/lib.rs\<close>: \<open>try_push_front\<close>, \<open>push_front\<close>, \<open>try_push_back\<close>,
  \<open>push_back\<close>, \<open>pop_front\<close>, \<open>pop_back\<close>), refined to cons, snoc, \<open>tl\<close> and \<open>butlast\<close> on
  the represented list, and the interface \<open>double_ended\<close> a client of the queue relies on.
\<close>

subsection \<open>Operations\<close>

text \<open>The guard of every insertion: \<open>if is_full() { try_reserve(1) }\<close>.\<close>

definition try_reserve_if_full ::
    "('a, 'os) cfg \<Rightarrow> 'a deque \<Rightarrow> ('a, 'os) world \<Rightarrow>
     fault + ((alloc_error + unit) \<times> 'a deque \<times> ('a, 'os) world)" where
  "try_reserve_if_full c d w =
     bindE (is_full c d) (\<lambda>full.
     if full then try_reserve c d 1 w else Inr (Inr (), d, w))"

definition try_push_front ::
    "('a, 'os) cfg \<Rightarrow> 'a \<Rightarrow> 'a deque \<Rightarrow> ('a, 'os) world \<Rightarrow>
     fault + (('a \<times> alloc_error + unit) \<times> 'a deque \<times> ('a, 'os) world)" where
  "try_push_front c v d w =
     bindE (try_reserve_if_full c d w) (\<lambda>(r, d, w).
     case r of
       Inl e \<Rightarrow> Inr (Inl (v, e), d, w)
     | Inr _ \<Rightarrow>
         bindE (move_head_unchecked c d (- 1)) (\<lambda>d.
         case slice_get_mut c d 0 of
           None \<Rightarrow> panic CalledUnwrapOnNone
         | Some p \<Rightarrow>
             bindE (ptr_write c (buf d) p v) (\<lambda>b. Inr (Inr (), d\<lparr>buf := b\<rparr>, w))))"

definition push_front ::
    "('a, 'os) cfg \<Rightarrow> 'a \<Rightarrow> 'a deque \<Rightarrow> ('a, 'os) world \<Rightarrow>
     fault + ('a deque \<times> ('a, 'os) world)" where
  "push_front c v d w =
     bindE (try_push_front c v d w) (\<lambda>(r, d, w).
     case r of Inl (_, e) \<Rightarrow> panic (AllocationFailed e) | Inr _ \<Rightarrow> Inr (d, w))"

definition try_push_back ::
    "('a, 'os) cfg \<Rightarrow> 'a \<Rightarrow> 'a deque \<Rightarrow> ('a, 'os) world \<Rightarrow>
     fault + (('a \<times> alloc_error + unit) \<times> 'a deque \<times> ('a, 'os) world)" where
  "try_push_back c v d w =
     bindE (try_reserve_if_full c d w) (\<lambda>(r, d, w).
     case r of
       Inl e \<Rightarrow> Inr (Inl (v, e), d, w)
     | Inr _ \<Rightarrow>
         bindE (move_tail_unchecked c d 1) (\<lambda>d.
         bindE (deque_len c d) (\<lambda>len.
         bindE (usize_sub (debug c) len 1) (\<lambda>i.
         case slice_get_mut c d i of
           None \<Rightarrow> panic CalledUnwrapOnNone
         | Some p \<Rightarrow>
             bindE (ptr_write c (buf d) p v) (\<lambda>b. Inr (Inr (), d\<lparr>buf := b\<rparr>, w))))))"

definition push_back ::
    "('a, 'os) cfg \<Rightarrow> 'a \<Rightarrow> 'a deque \<Rightarrow> ('a, 'os) world \<Rightarrow>
     fault + ('a deque \<times> ('a, 'os) world)" where
  "push_back c v d w =
     bindE (try_push_back c v d w) (\<lambda>(r, d, w).
     case r of Inl (_, e) \<Rightarrow> panic (AllocationFailed e) | Inr _ \<Rightarrow> Inr (d, w))"

definition pop_front :: "('a, 'os) cfg \<Rightarrow> 'a deque \<Rightarrow> fault + ('a option \<times> 'a deque)" where
  "pop_front c d =
     (case slice_get_mut c d 0 of
        None \<Rightarrow> Inr (None, d)
      | Some p \<Rightarrow>
          bindE (ptr_read c (buf d) p) (\<lambda>v.
          bindE (move_head_unchecked c d 1) (\<lambda>d.
          Inr (Some v, d))))"

definition pop_back :: "('a, 'os) cfg \<Rightarrow> 'a deque \<Rightarrow> fault + ('a option \<times> 'a deque)" where
  "pop_back c d =
     bindE (deque_len c d) (\<lambda>len.
     case slice_get_mut c d (wrapping_sub len 1) of
       None \<Rightarrow> Inr (None, d)
     | Some p \<Rightarrow>
         bindE (ptr_read c (buf d) p) (\<lambda>v.
         bindE (move_tail_unchecked c d (- 1)) (\<lambda>d.
         Inr (Some v, d))))"

subsection \<open>The steps that follow the reservation\<close>

lemma rep_extend_back:
  assumes r: "rep c d xs" and n: "length xs < capacity d" and v: "val_ok c v"
  obtains cs where "move_tail_unchecked c d 1 = Inr (d\<lparr>elen := Suc (length xs)\<rparr>)"
    "ptr_write c (buf d) (eptr d + length xs * esize c) v = Inr ((buf d)\<lparr>cells := cs\<rparr>)"
    "rep c (d\<lparr>elen := Suc (length xs), buf := (buf d)\<lparr>cells := cs\<rparr>\<rparr>) (xs @ [v])"
    "regions c ((buf d)\<lparr>cells := cs\<rparr>) = regions c (buf d)"
proof -
  have len: "elen d = length xs" by (rule rep_len[OF r])
  have x: "- int (elen d) \<le> 1" "1 \<le> int (capacity d - elen d)" using n len by simp_all
  have eq: "nat (int (elen d) + 1) = Suc (length xs)" using len by simp
  note m = move_tail_ok[OF rep_wf[OF r] x, unfolded eq]
  let ?d = "d\<lparr>elen := Suc (length xs)\<rparr>"
  have j: "length xs < capacity ?d" using n by simp
  obtain cs where cs: "ptr_write c (buf ?d) (eptr ?d + length xs * esize c) v = Inr ((buf ?d)\<lparr>cells := cs\<rparr>)"
    "wf_deque c (?d\<lparr>buf := (buf ?d)\<lparr>cells := cs\<rparr>\<rparr>)"
    "dview c (?d\<lparr>buf := (buf ?d)\<lparr>cells := cs\<rparr>\<rparr>) = (dview c ?d)[length xs := enc (esize c) v]"
    "regions c ((buf ?d)\<lparr>cells := cs\<rparr>) = regions c (buf ?d)"
    using dview_write[OF m(2) j] .
  have "take (Suc (length xs)) ((dview c d)[length xs := enc (esize c) v])
      = map (enc (esize c)) (xs @ [v])"
    using rep_take_view[OF r] n by (simp add: take_Suc_conv_app_nth)
  then have "rep c (?d\<lparr>buf := (buf ?d)\<lparr>cells := cs\<rparr>\<rparr>) (xs @ [v])"
    using cs(2,3) rep_vals[OF r] v by (intro rep_view) simp_all
  then show ?thesis using that[OF m(1), of cs] cs(1,4) by simp
qed

lemma rep_extend_front:
  assumes r: "rep c d xs" and n: "length xs < capacity d" and v: "val_ok c v"
  obtains p cs where "move_head_unchecked c d (- 1) = Inr (d\<lparr>eptr := p, elen := Suc (length xs)\<rparr>)"
    "ptr_write c (buf d) p v = Inr ((buf d)\<lparr>cells := cs\<rparr>)"
    "rep c (d\<lparr>eptr := p, elen := Suc (length xs), buf := (buf d)\<lparr>cells := cs\<rparr>\<rparr>) (v # xs)"
    "regions c ((buf d)\<lparr>cells := cs\<rparr>) = regions c (buf d)"
proof -
  have len: "elen d = length xs" by (rule rep_len[OF r])
  have 1: "1 \<le> capacity d - elen d" using n len by simp
  obtain p where m: "move_head_unchecked c d (- int 1) = Inr (d\<lparr>eptr := p, elen := elen d + 1\<rparr>)"
    "wf_deque c (d\<lparr>eptr := p, elen := elen d + 1\<rparr>)"
    "drop 1 (view c (buf d) p) = take (capacity d - 1) (dview c d)"
    by (rule move_head_backward[OF rep_wf[OF r] 1 one_slot_below[OF rep_wf[OF r]]]) (use n in auto)
  let ?d = "d\<lparr>eptr := p, elen := Suc (length xs)\<rparr>"
  have wf: "wf_deque c ?d" using m(2) len by simp
  have j: "0 < capacity ?d" using n by simp
  obtain cs where cs: "ptr_write c (buf ?d) (eptr ?d + 0 * esize c) v = Inr ((buf ?d)\<lparr>cells := cs\<rparr>)"
    "wf_deque c (?d\<lparr>buf := (buf ?d)\<lparr>cells := cs\<rparr>\<rparr>)"
    "dview c (?d\<lparr>buf := (buf ?d)\<lparr>cells := cs\<rparr>\<rparr>) = (dview c ?d)[0 := enc (esize c) v]"
    "regions c ((buf ?d)\<lparr>cells := cs\<rparr>) = regions c (buf ?d)"
    using dview_write[OF wf j] .
  have "dview c ?d \<noteq> []" using n by (metis length_dview length_0_conv not_less_zero j)
  then obtain s V where V: "dview c ?d = s # V" by (cases "dview c ?d") auto
  then have "V = take (capacity d - 1) (dview c d)" using m(3) by (simp add: dview_def)
  moreover have "length xs \<le> capacity d - 1" using n by simp
  ultimately have "take (length xs) V = map (enc (esize c)) xs"
    using rep_take_view[OF r] by (simp add: min_absorb1)
  then have "rep c (?d\<lparr>buf := (buf ?d)\<lparr>cells := cs\<rparr>\<rparr>) (v # xs)"
    using cs(2,3) V rep_vals[OF r] v by (intro rep_view) simp_all
  then show ?thesis using that[of p cs] m(1) cs(1,4) len by simp
qed

lemma pop_front_rep:
  assumes r: "rep c d xs"
  shows "xs = [] \<Longrightarrow> pop_front c d = Inr (None, d)"
    "xs \<noteq> [] \<Longrightarrow> \<exists>p. pop_front c d = Inr (Some (hd xs), d\<lparr>eptr := p, elen := length xs - 1\<rparr>) \<and>
       rep c (d\<lparr>eptr := p, elen := length xs - 1\<rparr>) (tl xs)"
proof -
  note len = rep_len[OF r]
  show "xs = [] \<Longrightarrow> pop_front c d = Inr (None, d)"
    by (simp add: pop_front_def slice_get_mut_def len)
  assume xs: "xs \<noteq> []"
  then have 1: "1 \<le> length xs" by (simp add: Suc_le_eq)
  obtain p where m: "move_head_unchecked c d (int 1) = Inr (d\<lparr>eptr := p, elen := length xs - 1\<rparr>)"
    "rep c (d\<lparr>eptr := p, elen := length xs - 1\<rparr>) (drop 1 xs)"
    using rep_drop_head[OF r 1] .
  have "ptr_read c (buf d) (eptr d + 0 * esize c) = Inr (hd xs)"
    using rep_read[OF r, of 0] xs by (simp add: hd_conv_nth)
  then show "\<exists>p. pop_front c d = Inr (Some (hd xs), d\<lparr>eptr := p, elen := length xs - 1\<rparr>) \<and>
       rep c (d\<lparr>eptr := p, elen := length xs - 1\<rparr>) (tl xs)"
    using m xs by (intro exI[of _ p]) (simp add: pop_front_def slice_get_mut_def len drop_Suc)
qed

lemma pop_back_rep:
  assumes r: "rep c d xs"
  shows "xs = [] \<Longrightarrow> pop_back c d = Inr (None, d)"
    "xs \<noteq> [] \<Longrightarrow> pop_back c d = Inr (Some (last xs), d\<lparr>elen := length xs - 1\<rparr>) \<and>
       rep c (d\<lparr>elen := length xs - 1\<rparr>) (butlast xs)"
proof -
  note len = rep_len[OF r]
  show "xs = [] \<Longrightarrow> pop_back c d = Inr (None, d)"
    using rep_wf[OF r] by (simp add: pop_back_def slice_get_mut_def len)
  assume xs: "xs \<noteq> []"
  then have 1: "1 \<le> length xs" by (simp add: Suc_le_eq)
  note m = rep_drop_tail[OF r 1]
  have "length xs < usize_bound" using wf_dequeD(6)[OF rep_wf[OF r]] len
    by (simp add: usize_isize_bound)
  then have ws: "wrapping_sub (length xs) (Suc 0) = length xs - 1"
    using 1 wrapping_sub_le[of 1 "length xs"] by simp
  have "ptr_read c (buf d) (eptr d + (length xs - 1) * esize c) = Inr (last xs)"
    using rep_read[OF r, of "length xs - 1"] xs by (simp add: last_conv_nth)
  then show "pop_back c d = Inr (Some (last xs), d\<lparr>elen := length xs - 1\<rparr>) \<and>
       rep c (d\<lparr>elen := length xs - 1\<rparr>) (butlast xs)"
    using m rep_wf[OF r] xs ws
    by (simp add: pop_back_def slice_get_mut_def len butlast_conv_take)
qed

subsection \<open>In an environment\<close>

context deque_env
begin

lemma isize_max_not_cap:
  assumes "wf_deque c d" "elen d < isize_max" "elen d = capacity d"
  shows "capacity d \<noteq> isize_max"
  using assms by simp

lemma try_reserve_if_full_cases:
  assumes h: "holds c os_ok owned d w xs" and n: "length xs < isize_max"
  obtains (Err) e s where "try_reserve_if_full c d w = Inr (Inl e, d, w\<lparr>os := s\<rparr>)"
      "holds c os_ok owned d (w\<lparr>os := s\<rparr>) xs" "owned s = owned (os w)" "length xs = capacity d"
  | (Ok) d' s where "try_reserve_if_full c d w = Inr (Inr (), d', w\<lparr>os := s\<rparr>)"
      "holds c os_ok owned d' (w\<lparr>os := s\<rparr>) xs"
      "others c owned d' (w\<lparr>os := s\<rparr>) = others c owned d w" "length xs < capacity d'"
      "capacity d \<le> capacity d'"
proof -
  note wf = holds_wf[OF h] and len = rep_len[OF holds_rep[OF h]] and le = rep_len_le[OF holds_rep[OF h]]
  show ?thesis
  proof (cases "length xs = capacity d")
    case False
    then show ?thesis using Ok[of d "os w"] h wf len le by (simp add: try_reserve_if_full_def)
  next
    case True
    have k: "length xs + 1 < usize_bound" "esize c = 0 \<longrightarrow> length xs + 1 \<le> isize_max"
      using n by (simp_all add: isize_max_def usize_isize_bound)
    have f: "capacity d < length xs + 1 \<longrightarrow> fits c (max (length xs + 1) (2 * capacity d))"
      using fits_double[OF wf] True len n by simp
    have full: "is_full c d = Inr True" using wf len True by simp
    show ?thesis
    proof (cases rule: try_reserve_cases[OF h k(1) f k(2)])
      case (1 e s)
      then show ?thesis using Err[of e s] full True by (simp add: try_reserve_if_full_def)
    next
      case (2 d' s)
      then show ?thesis using Ok[of d' s] full True by (simp add: try_reserve_if_full_def)
    qed
  qed
qed

text \<open>
  \<open>try_push_back\<close> and \<open>try_push_front\<close>: on failure the value comes back and the deque is as it was.
\<close>

lemma try_push_back_cases:
  assumes h: "holds c os_ok owned d w xs" and n: "length xs < isize_max" and v: "val_ok c v"
  obtains (Err) e s where "try_push_back c v d w = Inr (Inl (v, e), d, w\<lparr>os := s\<rparr>)"
      "holds c os_ok owned d (w\<lparr>os := s\<rparr>) xs" "owned s = owned (os w)" "length xs = capacity d"
  | (Ok) d' s where "try_push_back c v d w = Inr (Inr (), d', w\<lparr>os := s\<rparr>)"
      "holds c os_ok owned d' (w\<lparr>os := s\<rparr>) (xs @ [v])"
      "others c owned d' (w\<lparr>os := s\<rparr>) = others c owned d w" "capacity d \<le> capacity d'"
proof (cases rule: try_reserve_if_full_cases[OF h n])
  case (1 e s)
  then show ?thesis using Err[of e s] by (simp add: try_push_back_def)
next
  case (2 d' s)
  obtain cs where cs: "move_tail_unchecked c d' 1 = Inr (d'\<lparr>elen := Suc (length xs)\<rparr>)"
    "ptr_write c (buf d') (eptr d' + length xs * esize c) v = Inr ((buf d')\<lparr>cells := cs\<rparr>)"
    "rep c (d'\<lparr>elen := Suc (length xs), buf := (buf d')\<lparr>cells := cs\<rparr>\<rparr>) (xs @ [v])"
    "regions c ((buf d')\<lparr>cells := cs\<rparr>) = regions c (buf d')"
    using rep_extend_back[OF holds_rep[OF 2(2)] 2(4) v] .
  have "deque_len c (d'\<lparr>elen := Suc (length xs)\<rparr>) = Inr (Suc (length xs))"
    using 2(4) by (simp add: deque_len_ok)
  then have "try_push_back c v d w
      = Inr (Inr (), d'\<lparr>elen := Suc (length xs), buf := (buf d')\<lparr>cells := cs\<rparr>\<rparr>, w\<lparr>os := s\<rparr>)"
    using 2(1) cs(1,2) by (simp add: try_push_back_def slice_get_mut_def)
  then show ?thesis using Ok 2(2,3,5) cs(3,4) by (simp add: holds_def others_def capacity_def)
qed

lemma try_push_front_cases:
  assumes h: "holds c os_ok owned d w xs" and n: "length xs < isize_max" and v: "val_ok c v"
  obtains (Err) e s where "try_push_front c v d w = Inr (Inl (v, e), d, w\<lparr>os := s\<rparr>)"
      "holds c os_ok owned d (w\<lparr>os := s\<rparr>) xs" "owned s = owned (os w)" "length xs = capacity d"
  | (Ok) d' s where "try_push_front c v d w = Inr (Inr (), d', w\<lparr>os := s\<rparr>)"
      "holds c os_ok owned d' (w\<lparr>os := s\<rparr>) (v # xs)"
      "others c owned d' (w\<lparr>os := s\<rparr>) = others c owned d w" "capacity d \<le> capacity d'"
proof (cases rule: try_reserve_if_full_cases[OF h n])
  case (1 e s)
  then show ?thesis using Err[of e s] by (simp add: try_push_front_def)
next
  case (2 d' s)
  obtain p cs where cs: "move_head_unchecked c d' (- 1) = Inr (d'\<lparr>eptr := p, elen := Suc (length xs)\<rparr>)"
    "ptr_write c (buf d') p v = Inr ((buf d')\<lparr>cells := cs\<rparr>)"
    "rep c (d'\<lparr>eptr := p, elen := Suc (length xs), buf := (buf d')\<lparr>cells := cs\<rparr>\<rparr>) (v # xs)"
    "regions c ((buf d')\<lparr>cells := cs\<rparr>) = regions c (buf d')"
    using rep_extend_front[OF holds_rep[OF 2(2)] 2(4) v] .
  have "try_push_front c v d w
      = Inr (Inr (), d'\<lparr>eptr := p, elen := Suc (length xs), buf := (buf d')\<lparr>cells := cs\<rparr>\<rparr>, w\<lparr>os := s\<rparr>)"
    using 2(1) cs(1,2) by (simp add: try_push_front_def slice_get_mut_def)
  then show ?thesis using Ok 2(2,3,5) cs(3,4) by (simp add: holds_def others_def capacity_def)
qed

end

subsection \<open>The queue interface\<close>

text \<open>
  The frame of a deque in its environment: what else the process owns, and the drop log.
\<close>

definition queue_state ::
    "('a, 'os) cfg \<Rightarrow> ('os \<Rightarrow> bool) \<Rightarrow> ('os \<Rightarrow> (nat \<times> nat) set) \<Rightarrow>
     (nat \<times> nat) set \<times> 'a list \<Rightarrow> 'a deque \<Rightarrow> ('a, 'os) world \<Rightarrow> 'a list \<Rightarrow> bool" where
  "queue_state c os_ok owned fr d w xs \<longleftrightarrow>
     holds c os_ok owned d w xs \<and> others c owned d w = fst fr \<and> dropped w = snd fr"

lemma holds_queue_state:
  "holds c os_ok owned d w xs \<Longrightarrow> queue_state c os_ok owned (others c owned d w, dropped w) d w xs"
  by (simp add: queue_state_def)

lemma queue_state_holds: "queue_state c os_ok owned fr d w xs \<Longrightarrow> holds c os_ok owned d w xs"
  by (simp add: queue_state_def)

lemma others_same_region:
  "holds c os_ok owned d (w\<lparr>os := s\<rparr>) xs \<Longrightarrow> owned s = owned (os w) \<Longrightarrow>
   others c owned d (w\<lparr>os := s\<rparr>) = others c owned d w"
  by (simp add: others_def)

context deque_env
begin

lemma push_back_outcome:
  assumes q: "queue_state c os_ok owned fr d w xs" and v: "val_ok c v" and n: "length xs < isize_max"
  shows "push_outcome (push_back c v d w) (\<lambda>d' w'. queue_state c os_ok owned fr d' w' (xs @ [v]))"
proof (cases rule: try_push_back_cases[OF queue_state_holds[OF q] n v])
  case (1 e s)
  then show ?thesis by (simp add: push_outcome_def push_back_def)
next
  case (2 d' s)
  then show ?thesis using q by (simp add: push_back_def queue_state_def)
qed

lemma push_front_outcome:
  assumes q: "queue_state c os_ok owned fr d w xs" and v: "val_ok c v" and n: "length xs < isize_max"
  shows "push_outcome (push_front c v d w) (\<lambda>d' w'. queue_state c os_ok owned fr d' w' (v # xs))"
proof (cases rule: try_push_front_cases[OF queue_state_holds[OF q] n v])
  case (1 e s)
  then show ?thesis by (simp add: push_outcome_def push_front_def)
next
  case (2 d' s)
  then show ?thesis using q by (simp add: push_front_def queue_state_def)
qed

lemma pop_front_state:
  assumes q: "queue_state c os_ok owned fr d w xs"
  shows "\<exists>d'. pop_front c d = Inr (if xs = [] then None else Some (hd xs), d') \<and>
              queue_state c os_ok owned fr d' w (tl xs)"
proof (cases "xs = []")
  case True
  then show ?thesis using q pop_front_rep(1)[of c d xs] by (simp add: queue_state_def holds_def)
next
  case False
  have r: "rep c d xs" using q by (simp add: queue_state_def holds_def)
  obtain p where "pop_front c d = Inr (Some (hd xs), d\<lparr>eptr := p, elen := length xs - 1\<rparr>)"
    "rep c (d\<lparr>eptr := p, elen := length xs - 1\<rparr>) (tl xs)" using pop_front_rep(2)[OF r False] by blast
  then show ?thesis using q False by (simp add: queue_state_def holds_def others_def)
qed

lemma pop_back_state:
  assumes q: "queue_state c os_ok owned fr d w xs"
  shows "\<exists>d'. pop_back c d = Inr (if xs = [] then None else Some (last xs), d') \<and>
              queue_state c os_ok owned fr d' w (butlast xs)"
proof (cases "xs = []")
  case True
  then show ?thesis using q pop_back_rep(1)[of c d xs] by (simp add: queue_state_def holds_def)
next
  case False
  have r: "rep c d xs" using q by (simp add: queue_state_def holds_def)
  then show ?thesis using pop_back_rep(2)[OF r False] q False
    by (simp add: queue_state_def holds_def others_def)
qed

end

sublocale deque_env \<subseteq> ends: double_ended
  "queue_state c os_ok owned" "val_ok c" isize_max "push_front c" "push_back c" "pop_front c" "pop_back c"
  by (unfold_locales; (rule push_front_outcome push_back_outcome pop_front_state pop_back_state; assumption))

context deque_env
begin

lemma queue_order_back:
  assumes "queue_state c os_ok owned fr d w []" "list_all (val_ok c) vs" "length vs \<le> isize_max"
  shows "push_outcome (push_all (push_back c) vs d w) (\<lambda>d1 w1.
      \<exists>d2. pop_n (pop_front c) (length vs) d1 = Inr (vs, d2) \<and> queue_state c os_ok owned fr d2 w1 [])"
    "push_outcome (push_all (push_back c) vs d w) (\<lambda>d1 w1.
      \<exists>d2. pop_n (pop_back c) (length vs) d1 = Inr (rev vs, d2) \<and> queue_state c os_ok owned fr d2 w1 [])"
  using assms by (rule ends.fifo ends.lifo)+

end

end
