(* ===== verification/Edit.thy ===== *)
theory Edit
  imports Ends "HOL-Library.Multiset"
begin

text \<open>
  The operations of \<open>src/lib.rs\<close> that change a deque in the middle or shorten it: \<open>truncate\<close> and
  its variants, \<open>clear\<close>, \<open>swap_remove_back\<close>, \<open>swap_remove_front\<close>, \<open>insert\<close>, \<open>remove\<close>,
  \<open>split_off\<close>, \<open>append\<close>, \<open>steal_from_slice\<close> and \<open>remove_item\<close>. Each is refined to a function on
  the represented list, and the values it drops are recorded in the world.
\<close>

subsection \<open>Shortening\<close>

definition truncate_back ::
    "('a, 'os) cfg \<Rightarrow> nat \<Rightarrow> 'a deque \<Rightarrow> ('a, 'os) world \<Rightarrow> fault + ('a deque \<times> ('a, 'os) world)" where
  "truncate_back c n d w =
     bindE (deque_len c d) (\<lambda>len.
     if len \<le> n then Inr (d, w)
     else
       bindE (usize_sub (debug c) len n) (\<lambda>diff.
       let s = ptr_offset c (eptr d) (int n) in
       bindE (isize_arith (debug c) (- to_isize diff)) (\<lambda>x.
       bindE (move_tail c d x) (\<lambda>d.
       bindE (drop_in_place c (buf d) s diff w) (\<lambda>w.
       bindE (debug_assert_m (debug c) (bindE (deque_len c d) (\<lambda>len. Inr (len = n)))) (\<lambda>_.
       Inr (d, w)))))))"

definition truncate ::
    "('a, 'os) cfg \<Rightarrow> nat \<Rightarrow> 'a deque \<Rightarrow> ('a, 'os) world \<Rightarrow> fault + ('a deque \<times> ('a, 'os) world)" where
  "truncate c n d w = truncate_back c n d w"

definition truncate_front ::
    "('a, 'os) cfg \<Rightarrow> nat \<Rightarrow> 'a deque \<Rightarrow> ('a, 'os) world \<Rightarrow> fault + ('a deque \<times> ('a, 'os) world)" where
  "truncate_front c n d w =
     bindE (deque_len c d) (\<lambda>len.
     if len \<le> n then Inr (d, w)
     else
       bindE (usize_sub (debug c) len n) (\<lambda>diff.
       let s = eptr d in
       bindE (move_head c d (to_isize diff)) (\<lambda>d.
       bindE (drop_in_place c (buf d) s diff w) (\<lambda>w.
       bindE (debug_assert_m (debug c) (bindE (deque_len c d) (\<lambda>len. Inr (len = n)))) (\<lambda>_.
       Inr (d, w))))))"

definition clear ::
    "('a, 'os) cfg \<Rightarrow> 'a deque \<Rightarrow> ('a, 'os) world \<Rightarrow> fault + ('a deque \<times> ('a, 'os) world)" where
  "clear c d w = truncate c 0 d w"

subsection \<open>Swapping and removing\<close>

text \<open>\<open>mem::swap\<close> of two places, and \<open>swap\<close> of the slice the deque dereferences to.\<close>

definition mem_swap :: "('a, 'os) cfg \<Rightarrow> nat \<Rightarrow> nat \<Rightarrow> 'a buffer \<Rightarrow> fault + 'a buffer" where
  "mem_swap c p q b =
     bindE (ptr_read c b p) (\<lambda>x.
     bindE (ptr_read c b q) (\<lambda>y.
     bindE (ptr_write c b p y) (\<lambda>b.
     ptr_write c b q x)))"

definition slice_swap :: "('a, 'os) cfg \<Rightarrow> nat \<Rightarrow> nat \<Rightarrow> 'a deque \<Rightarrow> fault + 'a deque" where
  "slice_swap c i j d =
     (if i < elen d \<and> j < elen d
      then bindE (mem_swap c (eptr d + i * esize c) (eptr d + j * esize c) (buf d)) (\<lambda>b.
           Inr (d\<lparr>buf := b\<rparr>))
      else panic IndexOutOfBounds)"

definition swap_remove_back ::
    "('a, 'os) cfg \<Rightarrow> nat \<Rightarrow> 'a deque \<Rightarrow> fault + ('a option \<times> 'a deque)" where
  "swap_remove_back c index d =
     bindE (deque_len c d) (\<lambda>len.
     if elen d = 0 then Inr (None, d)
     else
       bindE (usize_sub (debug c) len 1) (\<lambda>l.
       bindE (slice_swap c index l d) (\<lambda>d.
       pop_back c d)))"

definition swap_remove_front ::
    "('a, 'os) cfg \<Rightarrow> nat \<Rightarrow> 'a deque \<Rightarrow> fault + ('a option \<times> 'a deque)" where
  "swap_remove_front c index d =
     (if elen d = 0 then Inr (None, d)
      else bindE (slice_swap c index 0 d) (\<lambda>d. pop_front c d))"

text \<open>
  \<open>insert\<close> after its reservation: the elements on one side of \<open>index\<close> are moved, and the place for
  the new element is returned. \<open>len\<close> is the length before.
\<close>

definition open_gap :: "('a, 'os) cfg \<Rightarrow> nat \<Rightarrow> nat \<Rightarrow> 'a deque \<Rightarrow> fault + (nat \<times> 'a deque)" where
  "open_gap c index len d =
     bindE (deque_len c d) (\<lambda>cur.
     if cur div 2 < index then
       let p = ptr_offset c (eptr d) (int index) in
       bindE (usize_sub (debug c) len index) (\<lambda>n.
       bindE (ptr_copy c (buf d) p (ptr_offset c p 1) n) (\<lambda>b.
       bindE (move_tail_unchecked c (d\<lparr>buf := b\<rparr>) 1) (\<lambda>d.
       Inr (p, d))))
     else
       bindE (move_head_unchecked c d (- 1)) (\<lambda>d.
       let p = ptr_offset c (eptr d) (int index) in
       bindE (ptr_copy c (buf d) p (ptr_offset c p (- 1)) index) (\<lambda>b.
       Inr (p, d\<lparr>buf := b\<rparr>))))"

definition deque_insert ::
    "('a, 'os) cfg \<Rightarrow> nat \<Rightarrow> 'a \<Rightarrow> 'a deque \<Rightarrow> ('a, 'os) world \<Rightarrow>
     fault + ('a deque \<times> ('a, 'os) world)" where
  "deque_insert c index element d w =
     bindE (deque_len c d) (\<lambda>len.
     bindE (assert_that (index \<le> len)) (\<lambda>_.
     bindE (is_full c d) (\<lambda>full.
     bindE (if full then reserve c d 1 w else Inr (d, w)) (\<lambda>(d, w).
     bindE (open_gap c index len d) (\<lambda>(p, d).
     bindE (ptr_write c (buf d) p element) (\<lambda>b.
     Inr (d\<lparr>buf := b\<rparr>, w)))))))"

definition remove :: "('a, 'os) cfg \<Rightarrow> nat \<Rightarrow> 'a deque \<Rightarrow> fault + ('a \<times> 'a deque)" where
  "remove c index d =
     bindE (deque_len c d) (\<lambda>len.
     bindE (assert_that (index < len)) (\<lambda>_.
     let ptr = ptr_offset c (eptr d) (int index) in
     bindE (ptr_read c (buf d) ptr) (\<lambda>ret.
     bindE
       (if len div 2 < index then
          bindE (usize_sub (debug c) (len - index) 1) (\<lambda>n.
          bindE (ptr_copy c (buf d) (ptr_offset c ptr 1) ptr n) (\<lambda>b.
          move_tail_unchecked c (d\<lparr>buf := b\<rparr>) (- 1)))
        else
          let ptr = eptr d in
          bindE (ptr_copy c (buf d) ptr (ptr_offset c ptr 1) index) (\<lambda>b.
          move_head_unchecked c (d\<lparr>buf := b\<rparr>) 1)) (\<lambda>d.
     Inr (ret, d)))))"

text \<open>\<open>eq\<close> is the \<open>PartialEq\<close> of the element type; \<open>position\<close> is that of the slice's iterator.\<close>

fun position :: "('a \<Rightarrow> bool) \<Rightarrow> 'a list \<Rightarrow> nat option" where
  "position P [] = None"
| "position P (x # xs) = (if P x then Some 0 else map_option Suc (position P xs))"

definition remove_item ::
    "('a, 'os) cfg \<Rightarrow> ('a \<Rightarrow> 'a \<Rightarrow> bool) \<Rightarrow> 'a \<Rightarrow> 'a deque \<Rightarrow> fault + ('a option \<times> 'a deque)" where
  "remove_item c eq item d =
     bindE (slice_elems c d) (\<lambda>vs.
     case position (\<lambda>x. eq x item) vs of
       None \<Rightarrow> Inr (None, d)
     | Some pos \<Rightarrow> bindE (remove c pos d) (\<lambda>(v, d). Inr (Some v, d)))"

subsection \<open>Splitting and appending\<close>

definition split_off ::
    "('a, 'os) cfg \<Rightarrow> nat \<Rightarrow> 'a deque \<Rightarrow> ('a, 'os) world \<Rightarrow>
     fault + ('a deque \<times> 'a deque \<times> ('a, 'os) world)" where
  "split_off c at d w =
     bindE (deque_len c d) (\<lambda>len.
     bindE (assert_that (at \<le> len)) (\<lambda>_.
     bindE (usize_sub (debug c) len at) (\<lambda>other_len.
     bindE (with_capacity c other_len w) (\<lambda>(other, w).
     bindE (isize_arith (debug c) (- to_isize other_len)) (\<lambda>x.
     bindE (move_tail_unchecked c d x) (\<lambda>d.
     bindE (move_tail_unchecked c other (to_isize other_len)) (\<lambda>other.
     bindE (deque_len c other) (\<lambda>n.
     bindE (ptr_copy_nonoverlapping c (buf d) (ptr_offset c (eptr d) (int at)) (buf other) (eptr other) n) (\<lambda>b.
     Inr (d, other\<lparr>buf := b\<rparr>, w))))))))))"

text \<open>The bytes of a slice of \<open>n\<close> elements at \<open>p\<close>.\<close>

definition slice_cells :: "('a, 'os) cfg \<Rightarrow> 'a buffer \<Rightarrow> nat \<Rightarrow> nat \<Rightarrow> fault + 'a cell list" where
  "slice_cells c b p n =
     (if n * esize c = 0 then Inr []
      else if in_mapping b p (n * esize c) then Inr (read_cells (cells b) (p - bptr b) (n * esize c))
      else undef OutOfBounds)"

text \<open>The slice to append is given by its bytes and its length.\<close>

definition append_elements ::
    "('a, 'os) cfg \<Rightarrow> 'a cell list \<times> nat \<Rightarrow> 'a deque \<Rightarrow> ('a, 'os) world \<Rightarrow>
     fault + ('a deque \<times> ('a, 'os) world)" where
  "append_elements c other d w =
     (let (bytes, count) = other in
      bindE (reserve c d count w) (\<lambda>(d, w).
      bindE (deque_len c d) (\<lambda>len.
      bindE (ptr_copy_from c bytes (buf d) (ptr_offset c (eptr d) (int len))) (\<lambda>b.
      bindE (move_tail_unchecked c (d\<lparr>buf := b\<rparr>) (to_isize count)) (\<lambda>d.
      Inr (d, w))))))"

definition append ::
    "('a, 'os) cfg \<Rightarrow> 'a deque \<Rightarrow> 'a deque \<Rightarrow> ('a, 'os) world \<Rightarrow>
     fault + ('a deque \<times> 'a deque \<times> ('a, 'os) world)" where
  "append c d other w =
     bindE (slice_cells c (buf other) (eptr other) (elen other)) (\<lambda>bytes.
     bindE (append_elements c (bytes, elen other) d w) (\<lambda>(d, w).
     Inr (d, other\<lparr>eptr := bptr (buf other), elen := 0\<rparr>, w)))"

definition steal_from_slice ::
    "('a, 'os) cfg \<Rightarrow> 'a cell list \<times> nat \<Rightarrow> ('a, 'os) world \<Rightarrow>
     fault + ('a deque \<times> ('a, 'os) world)" where
  "steal_from_slice c s w = append_elements c s (deque_new c) w"

subsection \<open>One region, new contents\<close>

text \<open>
  \<open>evolves c d d' ys\<close>: \<open>d'\<close> is \<open>d\<close> after changes inside its own region, and holds \<open>ys\<close>. This is what
  every operation that does not allocate establishes.
\<close>

definition evolves :: "('a, 'os) cfg \<Rightarrow> 'a deque \<Rightarrow> 'a deque \<Rightarrow> 'a list \<Rightarrow> bool" where
  "evolves c d d' ys \<longleftrightarrow> rep c d' ys \<and> regions c (buf d') = regions c (buf d) \<and> capacity d' = capacity d"

definition drop_vals :: "('a, 'os) cfg \<Rightarrow> 'a list \<Rightarrow> ('a, 'os) world \<Rightarrow> ('a, 'os) world" where
  "drop_vals c vs w = w\<lparr>dropped := dropped w @ (if needs_drop c then vs else [])\<rparr>"

lemma os_drop_vals [simp]: "os (drop_vals c vs w) = os w"
  by (simp add: drop_vals_def)

lemma drop_vals_append [simp]: "drop_vals c ys (drop_vals c xs w) = drop_vals c (xs @ ys) w"
  by (simp add: drop_vals_def)

lemma drop_vals_Nil [simp]: "drop_vals c [] w = w"
  by (simp add: drop_vals_def)

lemma evolves_rep: "evolves c d d' ys \<Longrightarrow> rep c d' ys"
  by (simp add: evolves_def)

lemma evolves_trans: "evolves c d d' xs \<Longrightarrow> evolves c d' d'' ys \<Longrightarrow> evolves c d d'' ys"
  by (simp add: evolves_def)

lemma evolves_refl: "rep c d xs \<Longrightarrow> evolves c d d xs"
  by (simp add: evolves_def)

lemma holds_evolves:
  assumes "holds c os_ok owned d w xs" "evolves c d d' ys" "os w' = os w"
  shows "holds c os_ok owned d' w' ys" "others c owned d' w' = others c owned d w"
  using assms by (auto simp: holds_def evolves_def others_def)

lemma queue_state_evolves:
  assumes "queue_state c os_ok owned fr d w xs" "evolves c d d' ys"
  shows "queue_state c os_ok owned fr d' w ys"
  using assms holds_evolves[OF queue_state_holds[OF assms(1)] assms(2) refl]
  by (simp add: queue_state_def)

text \<open>Addresses of slots stay below \<open>2 ^ 64\<close>, so pointer arithmetic on them is exact.\<close>

lemma slot_addr_bound:
  assumes "wf_deque c d" "n \<le> capacity d"
  shows "eptr d + n * esize c < usize_bound"
proof -
  note w = wf_dequeD[OF assms(1)]
  have "n * esize c \<le> capacity d * esize c" using assms(2) by (rule mult_le_mono1)
  also have "\<dots> \<le> half_bytes c (buf d)" using half_bytes_facts(4)[OF w(1,2)] by (simp add: capacity_def)
  finally show ?thesis using half_bytes_facts(5)[OF w(1,2)] w(3) by (simp add: head_ok_def)
qed

lemma of_isize_int: "n < usize_bound \<Longrightarrow> of_isize (int n) = n"
  by (simp add: of_isize_def)

lemma ptr_offset_nat: "a + n * esize c < usize_bound \<Longrightarrow> ptr_offset c a (int n) = a + n * esize c"
  by (simp add: ptr_offset_def of_isize_def flip: of_nat_mult of_nat_add of_nat_mod)

lemma ptr_offset_slot [simp]:
  "wf_deque c d \<Longrightarrow> n \<le> capacity d \<Longrightarrow> ptr_offset c (eptr d) (int n) = eptr d + n * esize c"
  by (rule ptr_offset_nat) (rule slot_addr_bound)

lemma ptr_offset_next:
  assumes "wf_deque c d" "Suc n \<le> capacity d"
  shows "ptr_offset c (eptr d + n * esize c) 1 = eptr d + Suc n * esize c"
  using ptr_offset_nat[of "eptr d + n * esize c" 1 c] slot_addr_bound[OF assms] by (simp add: ac_simps)

lemma ptr_offset_prev:
  assumes "wf_deque c d" "n \<le> capacity d" "0 < n"
  shows "ptr_offset c (eptr d + n * esize c) (- 1) = eptr d + (n - 1) * esize c"
proof -
  have eq: "n * esize c = (n - 1) * esize c + esize c" using assms(3) by (cases n) auto
  have "int (eptr d + n * esize c) + - 1 * int (esize c) = int (eptr d + (n - 1) * esize c)"
    unfolding eq by simp
  moreover have "eptr d + (n - 1) * esize c < usize_bound"
    using slot_addr_bound[OF assms(1,2)] eq by linarith
  ultimately show ?thesis unfolding ptr_offset_def by (simp only: of_isize_int)
qed

lemma drop_in_place_rep:
  assumes "rep c d xs" "i + n \<le> length xs"
  shows "drop_in_place c (buf d) (eptr d + i * esize c) n w = Inr (drop_vals c (take n (drop i xs)) w)"
  using read_elems_rep[OF assms] by (simp add: drop_in_place_def drop_vals_def)

lemma rep_vals_ok: "rep c d xs \<Longrightarrow> i < length xs \<Longrightarrow> val_ok c (xs ! i)"
  by (simp add: rep_val_ok)

text \<open>Overwriting one element, swapping two, and moving a run of them.\<close>

lemma rep_write:
  assumes r: "rep c d xs" and i: "i < length xs" and v: "val_ok c v"
  obtains cs where "ptr_write c (buf d) (eptr d + i * esize c) v = Inr ((buf d)\<lparr>cells := cs\<rparr>)"
    "evolves c d (d\<lparr>buf := (buf d)\<lparr>cells := cs\<rparr>\<rparr>) (xs[i := v])"
proof -
  have j: "i < capacity d" using i rep_len_le[OF r] by simp
  obtain cs where cs: "ptr_write c (buf d) (eptr d + i * esize c) v = Inr ((buf d)\<lparr>cells := cs\<rparr>)"
    "wf_deque c (d\<lparr>buf := (buf d)\<lparr>cells := cs\<rparr>\<rparr>)"
    "dview c (d\<lparr>buf := (buf d)\<lparr>cells := cs\<rparr>\<rparr>) = (dview c d)[i := enc (esize c) v]"
    "regions c ((buf d)\<lparr>cells := cs\<rparr>) = regions c (buf d)"
    using dview_write[OF rep_wf[OF r] j] .
  have "rep c (d\<lparr>buf := (buf d)\<lparr>cells := cs\<rparr>\<rparr>) (xs[i := v])"
  proof (rule repI[OF cs(2)])
    fix k assume "k < length (xs[i := v])"
    then show "dview c (d\<lparr>buf := (buf d)\<lparr>cells := cs\<rparr>\<rparr>) ! k = enc (esize c) (xs[i := v] ! k)"
      using rep_slot[OF r] j i by (cases "k = i") (simp_all add: cs(3))
  next
    fix x assume "x \<in> set (xs[i := v])"
    then show "val_ok c x" using v rep_val_ok[OF r] set_update_subset_insert[of xs i v] by auto
  qed (simp add: rep_len[OF r])
  then show ?thesis using that[OF cs(1)] cs(4) by (simp add: evolves_def)
qed

definition swap_nth :: "nat \<Rightarrow> nat \<Rightarrow> 'b list \<Rightarrow> 'b list" where
  "swap_nth i j xs = xs[i := xs ! j, j := xs ! i]"

lemma length_swap_nth [simp]: "length (swap_nth i j xs) = length xs"
  by (simp add: swap_nth_def)

lemma mset_swap_nth [simp]: "i < length xs \<Longrightarrow> j < length xs \<Longrightarrow> mset (swap_nth i j xs) = mset xs"
  by (simp add: swap_nth_def mset_swap)

lemma mem_swap_rep:
  assumes r: "rep c d xs" and ij: "i < length xs" "j < length xs"
  obtains cs where
    "mem_swap c (eptr d + i * esize c) (eptr d + j * esize c) (buf d) = Inr ((buf d)\<lparr>cells := cs\<rparr>)"
    "evolves c d (d\<lparr>buf := (buf d)\<lparr>cells := cs\<rparr>\<rparr>) (swap_nth i j xs)"
proof -
  obtain cs where cs: "ptr_write c (buf d) (eptr d + i * esize c) (xs ! j) = Inr ((buf d)\<lparr>cells := cs\<rparr>)"
    "evolves c d (d\<lparr>buf := (buf d)\<lparr>cells := cs\<rparr>\<rparr>) (xs[i := xs ! j])"
    using rep_write[OF r ij(1) rep_vals_ok[OF r ij(2)]] .
  let ?d = "d\<lparr>buf := (buf d)\<lparr>cells := cs\<rparr>\<rparr>"
  have j: "j < length (xs[i := xs ! j])" using ij by simp
  obtain cs' where cs': "ptr_write c (buf ?d) (eptr ?d + j * esize c) (xs ! i) = Inr ((buf ?d)\<lparr>cells := cs'\<rparr>)"
    "evolves c ?d (?d\<lparr>buf := (buf ?d)\<lparr>cells := cs'\<rparr>\<rparr>) (xs[i := xs ! j, j := xs ! i])"
    using rep_write[OF evolves_rep[OF cs(2)] j rep_vals_ok[OF r ij(1)]] .
  show ?thesis
    using that[of cs'] evolves_trans[OF cs(2) cs'(2)] cs(1) cs'(1) ij rep_read[OF r]
    by (simp add: mem_swap_def swap_nth_def)
qed

lemma slice_swap_rep:
  assumes r: "rep c d xs" and ij: "i < length xs" "j < length xs"
  obtains d' where "slice_swap c i j d = Inr d'" "evolves c d d' (swap_nth i j xs)"
proof -
  obtain cs where
    "mem_swap c (eptr d + i * esize c) (eptr d + j * esize c) (buf d) = Inr ((buf d)\<lparr>cells := cs\<rparr>)"
    "evolves c d (d\<lparr>buf := (buf d)\<lparr>cells := cs\<rparr>\<rparr>) (swap_nth i j xs)" using mem_swap_rep[OF assms] .
  then show ?thesis using that ij rep_len[OF r] by (simp add: slice_swap_def)
qed

lemma slice_swap_panics:
  "rep c d xs \<Longrightarrow> \<not> (i < length xs \<and> j < length xs) \<Longrightarrow> slice_swap c i j d = panic IndexOutOfBounds"
  using rep_len[of c d xs] by (simp only: slice_swap_def if_False)

lemma rep_copy:
  assumes r: "rep c d xs" and st: "s + n \<le> length xs" "t + n \<le> length xs"
  obtains cs where
    "ptr_copy c (buf d) (eptr d + s * esize c) (eptr d + t * esize c) n = Inr ((buf d)\<lparr>cells := cs\<rparr>)"
    "evolves c d (d\<lparr>buf := (buf d)\<lparr>cells := cs\<rparr>\<rparr>) (splice_at xs t (take n (drop s xs)))"
proof -
  have cap: "s + n \<le> capacity d" "t + n \<le> capacity d" using st rep_len_le[OF r] by simp_all
  obtain cs where cs:
    "ptr_copy c (buf d) (eptr d + s * esize c) (eptr d + t * esize c) n = Inr ((buf d)\<lparr>cells := cs\<rparr>)"
    "wf_deque c (d\<lparr>buf := (buf d)\<lparr>cells := cs\<rparr>\<rparr>)"
    "dview c (d\<lparr>buf := (buf d)\<lparr>cells := cs\<rparr>\<rparr>) = splice_at (dview c d) t (take n (drop s (dview c d)))"
    "regions c ((buf d)\<lparr>cells := cs\<rparr>) = regions c (buf d)"
    using dview_copy[OF rep_wf[OF r] cap] .
  have "rep c (d\<lparr>buf := (buf d)\<lparr>cells := cs\<rparr>\<rparr>) (splice_at xs t (take n (drop s xs)))"
  proof (rule repI[OF cs(2)])
    fix k assume k: "k < length (splice_at xs t (take n (drop s xs)))"
    then have kx: "k < length xs" using st by simp
    show "dview c (d\<lparr>buf := (buf d)\<lparr>cells := cs\<rparr>\<rparr>) ! k
        = enc (esize c) (splice_at xs t (take n (drop s xs)) ! k)"
    proof (cases "t \<le> k \<and> k < t + n")
      case True
      then have "k - t < n" "s + (k - t) < length xs" using st by auto
      then show ?thesis
        using True st cap kx rep_slot[OF r, of "s + (k - t)"] rep_len_le[OF r] by (simp add: cs(3) nth_splice_at)
    next
      case False
      then show ?thesis
        using st cap kx rep_slot[OF r kx] rep_len_le[OF r] by (auto simp: cs(3) nth_splice_at)
    qed
  next
    fix x assume "x \<in> set (splice_at xs t (take n (drop s xs)))"
    then have "x \<in> set xs" by (auto simp: splice_at_def dest: in_set_takeD in_set_dropD)
    then show "val_ok c x" by (rule rep_val_ok[OF r])
  qed (use st in \<open>simp add: rep_len[OF r]\<close>)
  then show ?thesis using that[OF cs(1)] cs(4) by (simp add: evolves_def)
qed

subsection \<open>The operations on the represented list\<close>

lemma move_head_checked:
  assumes d: "wf_deque c d" and x: "- int (capacity d - elen d) \<le> x" "x \<le> int (elen d)"
  shows "move_head c d x = move_head_unchecked c d x"
proof -
  note w = wf_dequeD[OF d]
  have "capacity d - elen d < isize_bound" using w(5) by linarith
  then show ?thesis using d x w(4-6) by (simp add: move_head_def)
qed

lemma evolves_drop_head:
  assumes r: "rep c d xs" and n: "n \<le> length xs"
  obtains d' where "move_head_unchecked c d (int n) = Inr d'" "move_head c d (int n) = Inr d'"
    "buf d' = buf d" "elen d' = length xs - n" "evolves c d d' (drop n xs)"
proof -
  obtain p where p: "move_head_unchecked c d (int n) = Inr (d\<lparr>eptr := p, elen := length xs - n\<rparr>)"
    "rep c (d\<lparr>eptr := p, elen := length xs - n\<rparr>) (drop n xs)" using rep_drop_head[OF r n] .
  have "move_head c d (int n) = move_head_unchecked c d (int n)"
    using n rep_len[OF r] by (intro move_head_checked rep_wf[OF r]) simp_all
  then show ?thesis using that p by (simp add: evolves_def)
qed

lemma evolves_drop_tail:
  assumes r: "rep c d xs" and n: "n \<le> length xs"
  shows "evolves c d (d\<lparr>elen := length xs - n\<rparr>) (take (length xs - n) xs)"
  using rep_drop_tail(3)[OF r n] by (simp add: evolves_def)

lemma truncate_back_rep:
  assumes r: "rep c d xs"
  obtains d' where "truncate_back c n d w = Inr (d', drop_vals c (drop n xs) w)"
    "evolves c d d' (take n xs)"
proof (cases "length xs \<le> n")
  case True
  then show ?thesis using that[of d] rep_wf[OF r] rep_len[OF r] evolves_refl[OF r]
    by (simp add: truncate_back_def)
next
  case False
  note wf = rep_wf[OF r] and len = rep_len[OF r]
  define k where "k = length xs - n"
  have k: "k \<le> length xs" "length xs - k = n" "n \<le> capacity d" "k < isize_bound"
    using False rep_len_le[OF r] wf_dequeD(6)[OF wf] len by (auto simp: k_def)
  note mt = rep_drop_tail(2,3)[OF r k(1)]
  have dr: "drop_in_place c (buf d) (eptr d + n * esize c) k w = Inr (drop_vals c (drop n xs) w)"
    using drop_in_place_rep[OF r, of n k] k False by (simp add: k_def)
  have "rep c (d\<lparr>elen := n\<rparr>) (take n xs)" using mt(2) k(2) by simp
  then have "deque_len c (d\<lparr>elen := n\<rparr>) = Inr n" using rep_wf by fastforce
  then have "truncate_back c n d w = Inr (d\<lparr>elen := n\<rparr>, drop_vals c (drop n xs) w)"
    using False wf len k mt(1) dr by (simp add: truncate_back_def Let_def k_def[symmetric])
  then show ?thesis using that evolves_drop_tail[OF r k(1)] k(2) by simp
qed

lemma truncate_front_rep:
  assumes r: "rep c d xs"
  obtains d' where "truncate_front c n d w = Inr (d', drop_vals c (take (length xs - n) xs) w)"
    "evolves c d d' (drop (length xs - n) xs)"
proof (cases "length xs \<le> n")
  case True
  then show ?thesis using that[of d] rep_wf[OF r] rep_len[OF r] evolves_refl[OF r]
    by (simp add: truncate_front_def)
next
  case False
  note wf = rep_wf[OF r] and len = rep_len[OF r]
  define k where "k = length xs - n"
  have k: "k \<le> length xs" "length xs - k = n" "k < isize_bound"
    using False wf_dequeD(6)[OF wf] len by (auto simp: k_def)
  obtain d' where d': "move_head c d (int k) = Inr d'" "buf d' = buf d" "elen d' = length xs - k"
    "evolves c d d' (drop k xs)" using evolves_drop_head[OF r k(1)] by metis
  have dr: "drop_in_place c (buf d') (eptr d) k w = Inr (drop_vals c (take k xs) w)"
    using drop_in_place_rep[OF r, of 0 k] k(1) by (simp add: d'(2))
  have "deque_len c d' = Inr n" using rep_wf[OF evolves_rep[OF d'(4)]] d'(3) k(2) by simp
  then have "truncate_front c n d w = Inr (d', drop_vals c (take k xs) w)"
    using False wf len k d'(1) dr by (simp add: truncate_front_def Let_def k_def[symmetric])
  then show ?thesis using that d'(4) by (simp add: k_def)
qed

lemma clear_rep:
  assumes r: "rep c d xs"
  obtains d' where "clear c d w = Inr (d', drop_vals c xs w)" "evolves c d d' []"
  using truncate_back_rep[OF r, of 0 w] by (auto simp: clear_def truncate_def)

lemma swap_remove_back_rep:
  assumes r: "rep c d xs" and i: "i < length xs"
  obtains d' where "swap_remove_back c i d = Inr (Some (xs ! i), d')"
    "evolves c d d' (butlast (xs[i := last xs]))"
proof -
  have ne: "xs \<noteq> []" and l: "length xs - 1 < length xs" using i by auto
  obtain d1 where d1: "slice_swap c i (length xs - 1) d = Inr d1"
    "evolves c d d1 (swap_nth i (length xs - 1) xs)" using slice_swap_rep[OF r i l] .
  let ?ys = "swap_nth i (length xs - 1) xs"
  have ys: "?ys \<noteq> []" "last ?ys = xs ! i" "butlast ?ys = butlast (xs[i := last xs])"
    using ne by (auto simp: swap_nth_def last_conv_nth butlast_list_update nth_list_update)
  have p: "pop_back c d1 = Inr (Some (xs ! i), d1\<lparr>elen := length xs - 1\<rparr>)"
    "rep c (d1\<lparr>elen := length xs - 1\<rparr>) (butlast (xs[i := last xs]))"
    using pop_back_rep(2)[OF evolves_rep[OF d1(2)] ys(1)] ys(2,3) by simp_all
  have "swap_remove_back c i d = Inr (Some (xs ! i), d1\<lparr>elen := length xs - 1\<rparr>)"
    using d1(1) p(1) rep_wf[OF r] rep_len[OF r] ne by (simp add: swap_remove_back_def Suc_leI)
  then show ?thesis using that d1(2) p(2) by (simp add: evolves_def)
qed

lemma swap_remove_front_rep:
  assumes r: "rep c d xs" and i: "i < length xs"
  obtains d' where "swap_remove_front c i d = Inr (Some (xs ! i), d')"
    "evolves c d d' (tl (xs[i := hd xs]))"
proof -
  have ne: "xs \<noteq> []" and l: "0 < length xs" using i by auto
  obtain d1 where d1: "slice_swap c i 0 d = Inr d1"
    "evolves c d d1 (swap_nth i 0 xs)" using slice_swap_rep[OF r i l] .
  let ?ys = "swap_nth i 0 xs"
  have ys: "?ys \<noteq> []" "hd ?ys = xs ! i" "tl ?ys = tl (xs[i := hd xs])"
    using ne i by (auto simp: swap_nth_def hd_conv_nth nth_list_update neq_Nil_conv split: nat.splits)
  obtain p where p: "pop_front c d1 = Inr (Some (xs ! i), d1\<lparr>eptr := p, elen := length xs - 1\<rparr>)"
    "rep c (d1\<lparr>eptr := p, elen := length xs - 1\<rparr>) (tl (xs[i := hd xs]))"
    using pop_front_rep(2)[OF evolves_rep[OF d1(2)] ys(1)] ys(2,3) by auto
  have "swap_remove_front c i d = Inr (Some (xs ! i), d1\<lparr>eptr := p, elen := length xs - 1\<rparr>)"
    using d1(1) p(1) rep_len[OF r] ne by (simp add: swap_remove_front_def)
  then show ?thesis using that d1(2) p(2) by (simp add: evolves_def)
qed

text \<open>\<open>remove\<close> closes the gap from the nearer end.\<close>

lemma splice_close_back:
  assumes "i < length xs"
  shows "take (length xs - 1) (splice_at xs i (take (length xs - i - 1) (drop (Suc i) xs)))
       = take i xs @ drop (Suc i) xs"
  using assms by (simp add: splice_at_def)

lemma splice_close_front:
  assumes "i < length xs"
  shows "drop 1 (splice_at xs 1 (take i xs)) = take i xs @ drop (Suc i) xs"
  using assms by (cases xs) (simp_all add: splice_at_def)

lemma remove_rep:
  assumes r: "rep c d xs" and i: "i < length xs"
  obtains d' where "remove c i d = Inr (xs ! i, d')" "evolves c d d' (take i xs @ drop (Suc i) xs)"
proof -
  note wf = rep_wf[OF r] and len = rep_len[OF r] and le = rep_len_le[OF r]
  have addr: "ptr_offset c (eptr d) (int i) = eptr d + i * esize c"
    "ptr_offset c (eptr d + i * esize c) 1 = eptr d + Suc i * esize c"
    using ptr_offset_slot[OF wf, of i] ptr_offset_next[OF wf, of i] i le by simp_all
  show ?thesis
  proof (cases "length xs div 2 < i")
    case True
    have st: "Suc i + (length xs - i - 1) \<le> length xs" "i + (length xs - i - 1) \<le> length xs" using i by simp_all
    obtain cs where cs:
      "ptr_copy c (buf d) (eptr d + Suc i * esize c) (eptr d + i * esize c) (length xs - i - 1)
         = Inr ((buf d)\<lparr>cells := cs\<rparr>)"
      "evolves c d (d\<lparr>buf := (buf d)\<lparr>cells := cs\<rparr>\<rparr>)
         (splice_at xs i (take (length xs - i - 1) (drop (Suc i) xs)))"
      using rep_copy[OF r st] .
    let ?d = "d\<lparr>buf := (buf d)\<lparr>cells := cs\<rparr>\<rparr>"
    let ?ys = "splice_at xs i (take (length xs - i - 1) (drop (Suc i) xs))"
    have ly: "length ?ys = length xs" using st by simp
    have 1: "1 \<le> length ?ys" using i ly by linarith
    have "move_tail_unchecked c ?d (- 1) = Inr (?d\<lparr>elen := length xs - 1\<rparr>)"
      "rep c (?d\<lparr>elen := length xs - 1\<rparr>) (take i xs @ drop (Suc i) xs)"
      using rep_drop_tail(1,3)[OF evolves_rep[OF cs(2)] 1] ly splice_close_back[OF i] by simp_all
    moreover from this(1) have "remove c i d = Inr (xs ! i, ?d\<lparr>elen := length xs - 1\<rparr>)"
      using True i wf len addr rep_read[OF r i] cs(1) by (simp add: remove_def Let_def)
    ultimately show ?thesis using that cs(2) by (simp add: evolves_def)
  next
    case False
    have st: "0 + i \<le> length xs" "1 + i \<le> length xs" using i by simp_all
    obtain cs where cs:
      "ptr_copy c (buf d) (eptr d + 0 * esize c) (eptr d + 1 * esize c) i = Inr ((buf d)\<lparr>cells := cs\<rparr>)"
      "evolves c d (d\<lparr>buf := (buf d)\<lparr>cells := cs\<rparr>\<rparr>) (splice_at xs 1 (take i (drop 0 xs)))"
      using rep_copy[OF r st] .
    let ?d = "d\<lparr>buf := (buf d)\<lparr>cells := cs\<rparr>\<rparr>"
    let ?ys = "splice_at xs 1 (take i (drop 0 xs))"
    have 1: "1 \<le> length ?ys" using i by (simp add: splice_at_def)
    obtain d' where d': "move_head_unchecked c ?d (int 1) = Inr d'" "evolves c ?d d' (drop 1 ?ys)"
      using evolves_drop_head[OF evolves_rep[OF cs(2)] 1] by metis
    have a1: "ptr_offset c (eptr d) 1 = eptr d + esize c"
      using ptr_offset_next[OF wf, of 0] i le by simp
    have "remove c i d = Inr (xs ! i, d')"
      using False i wf len addr a1 rep_read[OF r i] cs(1) d'(1) by (simp add: remove_def Let_def)
    moreover have "evolves c d d' (take i xs @ drop (Suc i) xs)"
      using evolves_trans[OF cs(2) d'(2)] splice_close_front[OF i] by simp
    ultimately show ?thesis using that by simp
  qed
qed

subsection \<open>Inserting\<close>

text \<open>Towards the back: the run behind \<open>i\<close> moves one slot up, then the gap is filled.\<close>

lemma insert_back_rep:
  assumes r: "rep c d xs" and i: "i \<le> length xs" "length xs div 2 < i"
    and n: "length xs < capacity d" and v: "val_ok c v"
  obtains p d1 b where "open_gap c i (length xs) d = Inr (p, d1)" "ptr_write c (buf d1) p v = Inr b"
    "evolves c d (d1\<lparr>buf := b\<rparr>) (take i xs @ v # drop i xs)"
proof -
  note wf = rep_wf[OF r] and len = rep_len[OF r]
  let ?n = "length xs - i"
  have st: "i + ?n \<le> capacity d" "Suc i + ?n \<le> capacity d" using i n by simp_all
  obtain cs where cs:
    "ptr_copy c (buf d) (eptr d + i * esize c) (eptr d + Suc i * esize c) ?n = Inr ((buf d)\<lparr>cells := cs\<rparr>)"
    "wf_deque c (d\<lparr>buf := (buf d)\<lparr>cells := cs\<rparr>\<rparr>)"
    "dview c (d\<lparr>buf := (buf d)\<lparr>cells := cs\<rparr>\<rparr>) = splice_at (dview c d) (Suc i) (take ?n (drop i (dview c d)))"
    "regions c ((buf d)\<lparr>cells := cs\<rparr>) = regions c (buf d)"
    using dview_copy[OF wf st] .
  let ?d1 = "d\<lparr>buf := (buf d)\<lparr>cells := cs\<rparr>\<rparr>"
  have x: "- int (elen ?d1) \<le> 1" "1 \<le> int (capacity ?d1 - elen ?d1)" using n len by simp_all
  have eq: "nat (int (elen ?d1) + 1) = Suc (length xs)" using len by simp
  note m = move_tail_ok[OF cs(2) x, unfolded eq]
  let ?d2 = "?d1\<lparr>elen := Suc (length xs)\<rparr>"
  have j: "i < capacity ?d2" using i n by simp
  obtain cs' where cs': "ptr_write c (buf ?d2) (eptr ?d2 + i * esize c) v = Inr ((buf ?d2)\<lparr>cells := cs'\<rparr>)"
    "wf_deque c (?d2\<lparr>buf := (buf ?d2)\<lparr>cells := cs'\<rparr>\<rparr>)"
    "dview c (?d2\<lparr>buf := (buf ?d2)\<lparr>cells := cs'\<rparr>\<rparr>) = (dview c ?d2)[i := enc (esize c) v]"
    "regions c ((buf ?d2)\<lparr>cells := cs'\<rparr>) = regions c (buf ?d2)"
    using dview_write[OF m(2) j] .
  have gap: "open_gap c i (length xs) d = Inr (eptr d + i * esize c, ?d2)"
    using i n wf len cs(1) m(1) ptr_offset_slot[OF wf, of i] ptr_offset_next[OF wf, of i]
    by (simp add: open_gap_def Let_def)
  have "rep c (?d2\<lparr>buf := (buf ?d2)\<lparr>cells := cs'\<rparr>\<rparr>) (take i xs @ v # drop i xs)"
  proof (rule repI[OF cs'(2)])
    fix k assume "k < length (take i xs @ v # drop i xs)"
    then have k: "k \<le> length xs" using i by simp
    have V: "dview c (?d2\<lparr>buf := (buf ?d2)\<lparr>cells := cs'\<rparr>\<rparr>)
        = (splice_at (dview c d) (Suc i) (take ?n (drop i (dview c d))))[i := enc (esize c) v]"
      using cs'(3) cs(3) by simp
    consider "k < i" | "k = i" | "i < k" by linarith
    then show "dview c (?d2\<lparr>buf := (buf ?d2)\<lparr>cells := cs'\<rparr>\<rparr>) ! k
        = enc (esize c) ((take i xs @ v # drop i xs) ! k)"
    proof cases
      case 1
      then show ?thesis using V i n st rep_slot[OF r, of k] by (simp add: nth_splice_at nth_append)
    next
      case 2
      then show ?thesis using V i n st by (simp add: nth_append)
    next
      case 3
      then have "k - Suc i < ?n" "i + (k - Suc i) = k - 1" "k - 1 < length xs" "k < capacity d" using k n by auto
      moreover from this have "k - i = Suc (k - Suc i)" using 3 by simp
      ultimately show ?thesis using 3 V i n st k rep_slot[OF r, of "k - 1"]
        by (simp add: nth_splice_at nth_append)
    qed
  next
    fix x assume "x \<in> set (take i xs @ v # drop i xs)"
    then show "val_ok c x" using v rep_val_ok[OF r] by (auto dest: in_set_takeD in_set_dropD)
  qed (use i in simp)
  then have "evolves c d (?d2\<lparr>buf := (buf ?d2)\<lparr>cells := cs'\<rparr>\<rparr>) (take i xs @ v # drop i xs)"
    using cs(4) cs'(4) by (simp add: evolves_def capacity_def)
  then show ?thesis using that[OF gap] cs'(1) by simp
qed

text \<open>
  Towards the front: the head moves back by one, the slots \<open>[i, 2 i)\<close> of the new deque move one
  slot down, and slot \<open>i\<close> is filled. With \<open>s\<close> the slot that was before the head, this is the list
  of slots the code leaves.
\<close>

lemma insert_front_slots:
  assumes r: "rep c d xs" and i: "i \<le> length xs div 2" and n: "length xs < capacity d"
  obtains d0 p d1 b where "move_head_unchecked c d (- 1) = Inr d0" "buf d0 = buf d"
    "open_gap c i (length xs) d = Inr (p, d1)" "ptr_write c (buf d1) p v = Inr b"
    "wf_deque c (d1\<lparr>buf := b\<rparr>)" "elen d1 = Suc (length xs)" "capacity (d1\<lparr>buf := b\<rparr>) = capacity d"
    "regions c b = regions c (buf d)"
    "dview c (d1\<lparr>buf := b\<rparr>) = (let V = bslot c (buf d) (eptr d0) # take (capacity d - 1) (dview c d)
       in (splice_at V (i - 1) (take i (drop i V)))[i := enc (esize c) v])"
proof -
  note wf = rep_wf[OF r] and len = rep_len[OF r]
  have 1: "1 \<le> capacity d - elen d" using n len by simp
  obtain p where m: "move_head_unchecked c d (- int 1) = Inr (d\<lparr>eptr := p, elen := elen d + 1\<rparr>)"
    "wf_deque c (d\<lparr>eptr := p, elen := elen d + 1\<rparr>)"
    "drop 1 (view c (buf d) p) = take (capacity d - 1) (dview c d)"
    by (rule move_head_backward[OF wf 1 one_slot_below[OF wf]]) (use n in auto)
  let ?d0 = "d\<lparr>eptr := p, elen := Suc (length xs)\<rparr>"
  have wf0: "wf_deque c ?d0" using m(2) len by simp
  have V0: "dview c ?d0 = bslot c (buf d) p # take (capacity d - 1) (dview c d)" (is "_ = ?V")
  proof -
    have "view c (buf d) p \<noteq> []" using n by (metis capacity_def length_0_conv length_view not_less_zero)
    moreover have "view c (buf d) p ! 0 = bslot c (buf d) p"
      using n by (simp add: capacity_def)
    ultimately show ?thesis using m(3) by (cases "view c (buf d) p") (simp_all add: dview_def)
  qed
  have st: "i + i \<le> capacity ?d0" "i - 1 + i \<le> capacity ?d0" using i n by simp_all
  obtain cs where cs:
    "ptr_copy c (buf ?d0) (eptr ?d0 + i * esize c) (eptr ?d0 + (i - 1) * esize c) i = Inr ((buf ?d0)\<lparr>cells := cs\<rparr>)"
    "wf_deque c (?d0\<lparr>buf := (buf ?d0)\<lparr>cells := cs\<rparr>\<rparr>)"
    "dview c (?d0\<lparr>buf := (buf ?d0)\<lparr>cells := cs\<rparr>\<rparr>) = splice_at (dview c ?d0) (i - 1) (take i (drop i (dview c ?d0)))"
    "regions c ((buf ?d0)\<lparr>cells := cs\<rparr>) = regions c (buf ?d0)"
    using dview_copy[OF wf0 st] .
  let ?d1 = "?d0\<lparr>buf := (buf ?d0)\<lparr>cells := cs\<rparr>\<rparr>"
  have j: "i < capacity ?d1" using i n by (simp add: capacity_def)
  obtain cs' where cs': "ptr_write c (buf ?d1) (eptr ?d1 + i * esize c) v = Inr ((buf ?d1)\<lparr>cells := cs'\<rparr>)"
    "wf_deque c (?d1\<lparr>buf := (buf ?d1)\<lparr>cells := cs'\<rparr>\<rparr>)"
    "dview c (?d1\<lparr>buf := (buf ?d1)\<lparr>cells := cs'\<rparr>\<rparr>) = (dview c ?d1)[i := enc (esize c) v]"
    "regions c ((buf ?d1)\<lparr>cells := cs'\<rparr>) = regions c (buf ?d1)"
    using dview_write[OF cs(2) j] .
  have copy: "ptr_copy c (buf d) (p + i * esize c) (ptr_offset c (p + i * esize c) (- 1)) i
      = Inr ((buf d)\<lparr>cells := cs\<rparr>)"
  proof (cases "i = 0")
    case True
    then show ?thesis using cs(1) by (simp add: ptr_copy_def Let_def)
  next
    case False
    then show ?thesis using cs(1) ptr_offset_prev[OF wf0, of i] i n by simp
  qed
  have gap: "open_gap c i (length xs) d = Inr (p + i * esize c, ?d1)"
    using i n wf len m(1) copy ptr_offset_slot[OF wf0, of i] by (simp add: open_gap_def Let_def)
  show ?thesis
    using that[OF _ _ gap, of ?d0] m(1) cs' cs(3,4) len V0 by (simp add: Let_def capacity_def)
qed

lemma insert_front_rep:
  assumes r: "rep c d xs" and i: "i \<le> 1" "i \<le> length xs div 2"
    and n: "length xs < capacity d" and v: "val_ok c v"
  obtains p d1 b where "open_gap c i (length xs) d = Inr (p, d1)" "ptr_write c (buf d1) p v = Inr b"
    "evolves c d (d1\<lparr>buf := b\<rparr>) (take i xs @ v # drop i xs)"
proof -
  obtain d0 p d1 b where "move_head_unchecked c d (- 1) = Inr d0" "buf d0 = buf d" and s: "open_gap c i (length xs) d = Inr (p, d1)" "ptr_write c (buf d1) p v = Inr b"
    "wf_deque c (d1\<lparr>buf := b\<rparr>)" "elen d1 = Suc (length xs)" "capacity (d1\<lparr>buf := b\<rparr>) = capacity d"
    "regions c b = regions c (buf d)"
    "dview c (d1\<lparr>buf := b\<rparr>) = (let V = bslot c (buf d) (eptr d0) # take (capacity d - 1) (dview c d)
       in (splice_at V (i - 1) (take i (drop i V)))[i := enc (esize c) v])"
    using insert_front_slots[OF r i(2) n] .
  have tk: "take (length xs) (take (capacity d - 1) (dview c d)) = map (enc (esize c)) xs"
    using rep_take_view[OF r] n by (simp add: min_absorb1)
  have "take (Suc (length xs)) (dview c (d1\<lparr>buf := b\<rparr>)) = map (enc (esize c)) (take i xs @ v # drop i xs)"
  proof (cases "i = 0")
    case True
    then show ?thesis using s(7) tk by (simp add: splice_at_def)
  next
    case False
    then have i1: "i = 1" using i by simp
    obtain x ys where xs: "xs = x # ys" using i False by (cases xs) auto
    obtain s1 S where S: "take (capacity d - 1) (dview c d) = s1 # S"
      using tk xs by (cases "take (capacity d - 1) (dview c d)") auto
    then have "s1 = enc (esize c) x" "take (length ys) S = map (enc (esize c)) ys" using tk xs by auto
    then show ?thesis using s(7)[unfolded S] xs i1 by (simp add: splice_at_def)
  qed
  moreover have "list_all (val_ok c) (take i xs @ v # drop i xs)"
    using v rep_vals[OF r] by (simp add: list_all_take_drop)
  ultimately have "rep c (d1\<lparr>buf := b\<rparr>) (take i xs @ v # drop i xs)"
    using s(3,4) i by (intro rep_view) auto
  then show ?thesis using that[OF s(1,2)] s(5,6) by (simp add: evolves_def)
qed

text \<open>
  For \<open>2 \<le> i \<le> len div 2\<close> the slots \<open>[1, i)\<close> should have moved to \<open>[0, i - 1)\<close>; the code moves
  \<open>[i, 2 i)\<close>, so the first slot of the result is the one that was free before the head.
\<close>

lemma insert_front_wrong:
  assumes r: "rep c d xs" and i: "2 \<le> i" "i \<le> length xs div 2" and n: "length xs < capacity d"
  obtains d0 p d1 b where "move_head_unchecked c d (- 1) = Inr d0"
    "open_gap c i (length xs) d = Inr (p, d1)" "ptr_write c (buf d1) p v = Inr b"
    "wf_deque c (d1\<lparr>buf := b\<rparr>)" "elen d1 = Suc (length xs)"
    "dview c (d1\<lparr>buf := b\<rparr>) ! 0 = bslot c (buf d) (eptr d0)"
proof -
  obtain d0 p d1 b where h: "move_head_unchecked c d (- 1) = Inr d0" "buf d0 = buf d"
    and s: "open_gap c i (length xs) d = Inr (p, d1)" "ptr_write c (buf d1) p v = Inr b"
    "wf_deque c (d1\<lparr>buf := b\<rparr>)" "elen d1 = Suc (length xs)" "capacity (d1\<lparr>buf := b\<rparr>) = capacity d"
    "regions c b = regions c (buf d)"
    "dview c (d1\<lparr>buf := b\<rparr>) = (let V = bslot c (buf d) (eptr d0) # take (capacity d - 1) (dview c d)
       in (splice_at V (i - 1) (take i (drop i V)))[i := enc (esize c) v])"
    using insert_front_slots[OF r i(2) n] .
  have "dview c (d1\<lparr>buf := b\<rparr>) ! 0 = bslot c (buf d) (eptr d0)"
    using s(7) i n by (simp add: Let_def nth_splice_at min_absorb1)
  then show ?thesis using that h(1) s(1-4) by simp
qed

text \<open>A first slot that was never written.\<close>

lemma pop_front_uninit:
  assumes "wf_deque c d" "0 < elen d" "0 < esize c" "dview c d ! 0 = replicate (esize c) Uninit"
  shows "pop_front c d = undef UninitRead"
proof -
  note w = wf_dequeD[OF assms(1)]
  have "0 < blen (buf d) div 2" using w(4) assms(2) by (simp add: capacity_def)
  then have "ptr_read c (buf d) (eptr d) = undef UninitRead"
    using view_read[OF w(1-3), of 0] assms(3,4) by (simp add: dview_def)
  then show ?thesis using assms(2) by (simp add: pop_front_def slice_get_mut_def)
qed

lemma insert_no_growth:
  assumes "rep c d xs" "i \<le> length xs" "length xs < capacity d"
    and "open_gap c i (length xs) d = Inr (p, d1)" "ptr_write c (buf d1) p v = Inr b"
  shows "deque_insert c i v d w = Inr (d1\<lparr>buf := b\<rparr>, w)"
  using assms rep_wf[OF assms(1)] rep_len[OF assms(1)] by (simp add: deque_insert_def)

lemma insert_out_of_range:
  "rep c d xs \<Longrightarrow> length xs < i \<Longrightarrow> deque_insert c i v d w = panic AssertFailed"
  using rep_wf[of c d xs] rep_len[of c d xs] by (simp add: deque_insert_def)

lemma remove_out_of_range:
  "rep c d xs \<Longrightarrow> length xs \<le> i \<Longrightarrow> remove c i d = panic AssertFailed"
  using rep_wf[of c d xs] rep_len[of c d xs] by (simp add: remove_def)

text \<open>\<open>remove_item\<close> removes the first element the comparison accepts.\<close>

fun remove_first :: "('b \<Rightarrow> bool) \<Rightarrow> 'b list \<Rightarrow> 'b list" where
  "remove_first P [] = []"
| "remove_first P (x # xs) = (if P x then xs else x # remove_first P xs)"

lemma position_Some:
  "position P xs = Some i \<Longrightarrow> i < length xs \<and> List.find P xs = Some (xs ! i) \<and>
     remove_first P xs = take i xs @ drop (Suc i) xs"
  by (induction xs arbitrary: i) (auto split: if_splits)

lemma position_None: "position P xs = None \<Longrightarrow> List.find P xs = None \<and> remove_first P xs = xs"
  by (induction xs) (auto split: if_splits)

lemma remove_item_rep:
  assumes r: "rep c d xs"
  obtains d' where "remove_item c eq item d = Inr (List.find (\<lambda>x. eq x item) xs, d')"
    "evolves c d d' (remove_first (\<lambda>x. eq x item) xs)"
proof (cases "position (\<lambda>x. eq x item) xs")
  case None
  then show ?thesis using that[of d] r evolves_refl[OF r] position_None[OF None]
    by (simp add: remove_item_def slice_elems_rep)
next
  case (Some i)
  then have "i < length xs" using position_Some by blast
  then obtain d' where "remove c i d = Inr (xs ! i, d')" "evolves c d d' (take i xs @ drop (Suc i) xs)"
    using remove_rep[OF r] by blast
  then show ?thesis using that[of d'] r Some position_Some[OF Some]
    by (simp add: remove_item_def slice_elems_rep)
qed

end
