(* ===== verification/Lifecycle.thy ===== *)
theory Lifecycle
  imports Edit
begin

text \<open>
  Where a deque begins and ends (\<open>new\<close>, \<open>with_capacity\<close>, \<open>Drop\<close>), what \<open>reserve\<close> guarantees its
  callers, and \<open>shrink_to_fit\<close>, whose model shows that the elements it keeps are dropped.
\<close>

lemma rep_new: "cfg_ok c \<Longrightarrow> rep c (deque_new c) []"
  by (auto simp: rep_def wf_deque_def deque_new_def Let_def intro: head_ok_bptr)

lemma regions_new [simp]: "regions c (buf (deque_new c)) = {}"
  by (simp add: regions_def deque_new_def buffer_new_def empty_len_def Let_def)

lemma capacity_new: "capacity (deque_new c) = (if esize c = 0 then isize_max else 0)"
  by (simp add: capacity_def deque_new_def buffer_new_def empty_len_def Let_def)

context deque_env
begin

lemma new_holds: "os_ok (os w) \<Longrightarrow> holds c os_ok owned (deque_new c) w []"
  using rep_new[OF cfg] by (simp add: holds_def)

lemma others_new [simp]: "others c owned (deque_new c) w = owned (os w)"
  by (simp add: others_def)

lemma with_capacity_cases:
  assumes w: "os_ok (os w)" and n: "fits c n"
  obtains (Err) e where "with_capacity c n w = panic (AllocationFailed e)" "0 < esize c" "0 < n"
  | (Ok) d s where "with_capacity c n w = Inr (d, w\<lparr>os := s\<rparr>)"
      "holds c os_ok owned d (w\<lparr>os := s\<rparr>) []" "n \<le> capacity d" "eptr d = bptr (buf d)"
      "owned s = owned (os w) \<union> regions c (buf d)" "regions c (buf d) \<inter> owned (os w) = {}"
proof -
  have f: "even (2 * n)" "2 * n * esize c + 2 * ag c < usize_bound" "2 * n < usize_bound"
    using n by (auto simp: fits_def)
  show ?thesis
  proof (cases rule: uninitialized_cases[OF cfg refl below f(1,2) w])
    case (1 e s)
    then show ?thesis using Err[of e] f(3) by (simp add: with_capacity_def)
  next
    case (2 b s)
    let ?d = "\<lparr>eptr = bptr b, elen = 0, buf = b\<rparr>"
    have "rep c ?d []"
      using cfg 2(3) head_ok_bptr[OF cfg 2(3)] by (simp add: rep_def wf_deque_def)
    moreover have "n \<le> capacity ?d"
    proof (cases "esize c = 0")
      case True
      then have "blen b = isize_max * 2" using 2(3) by (simp add: wf_buffer_def empty_len_def)
      then show ?thesis using f(3) by (simp add: capacity_def isize_max_def usize_isize_bound)
    next
      case False
      then show ?thesis using 2(6) by (simp add: capacity_def)
    qed
    ultimately show ?thesis
      using Ok[of ?d s] 2 f(3) by (auto simp: with_capacity_def holds_def)
  qed
qed

text \<open>\<open>Drop\<close>: every element is dropped once, in order, and the region is given back.\<close>

lemma deque_drop_ok:
  assumes h: "holds c os_ok owned d w xs"
  obtains s where "deque_drop c d w = Inr ((drop_vals c xs w)\<lparr>os := s\<rparr>)" "os_ok s"
    "owned s = others c owned d w"
proof -
  have r: "rep c d xs" by (rule holds_rep[OF h])
  note wf = wf_dequeD[OF rep_wf[OF r]]
  have d: "drop_in_place c (buf d) (eptr d) (elen d) w = Inr (drop_vals c xs w)"
    using drop_in_place_rep[OF r, of 0 "length xs"] rep_len[OF r] by simp
  have w: "os_ok (os (drop_vals c xs w))" "regions c (buf d) \<subseteq> owned (os (drop_vals c xs w))"
    using h by (simp_all add: holds_def)
  from buffer_drop_ok[OF cfg refl wf(2) w] obtain s where
    "buffer_drop c (buf d) (drop_vals c xs w) = Inr ((drop_vals c xs w)\<lparr>os := s\<rparr>)" "os_ok s"
    "owned s = owned (os w) - regions c (buf d)" by auto
  then show ?thesis using that d by (simp add: deque_drop_def others_def)
qed

text \<open>\<open>reserve\<close>: \<open>try_reserve\<close> with the error turned into a panic.\<close>

lemma reserve_cases:
  assumes h: "holds c os_ok owned d w xs" and k: "length xs + k < usize_bound"
    and n: "capacity d < length xs + k \<longrightarrow> fits c (max (length xs + k) (2 * capacity d))"
    and z: "esize c = 0 \<longrightarrow> length xs + k \<le> isize_max"
  obtains (Err) e where "reserve c d k w = panic (CalledUnwrapOnErr e)" "capacity d < length xs + k"
  | (Ok) d' s where "reserve c d k w = Inr (d', w\<lparr>os := s\<rparr>)"
      "holds c os_ok owned d' (w\<lparr>os := s\<rparr>) xs"
      "others c owned d' (w\<lparr>os := s\<rparr>) = others c owned d w"
      "length xs + k \<le> capacity d'" "capacity d \<le> capacity d'"
      "0 < esize c \<Longrightarrow> capacity d < length xs + k \<Longrightarrow> 2 * capacity d \<le> capacity d'"
proof (cases rule: try_reserve_cases[OF h k n z])
  case (1 e s)
  then show ?thesis using Err[of e] by (simp add: reserve_def)
next
  case (2 d' s)
  then show ?thesis using Ok[of d' s] by (simp add: reserve_def)
qed

lemma reserve_exact_cases:
  assumes h: "holds c os_ok owned d w xs" and k: "length xs + k < usize_bound" and n: "fits c (length xs + k)"
  obtains (Err) e where "reserve_exact c d k w = panic (CalledUnwrapOnErr e)" "capacity d < length xs + k"
  | (Ok) d' s where "reserve_exact c d k w = Inr (d', w\<lparr>os := s\<rparr>)"
      "holds c os_ok owned d' (w\<lparr>os := s\<rparr>) xs"
      "others c owned d' (w\<lparr>os := s\<rparr>) = others c owned d w"
      "length xs + k \<le> capacity d'" "capacity d \<le> capacity d'"
proof -
  have r: "rep c d xs" by (rule holds_rep[OF h])
  have len: "deque_len c d = Inr (length xs)" using rep_wf[OF r] rep_len[OF r] by simp
  show ?thesis
  proof (cases rule: reserve_capacity_cases[OF h n])
    case (1 e s)
    then show ?thesis using Err[of e] len k by (simp add: reserve_exact_def checked_add_def)
  next
    case (2 d' s)
    have cap: "length xs + k \<le> capacity d'"
    proof (cases "esize c = 0")
      case True
      then have "capacity d' = isize_max"
        using holds_wf[OF 2(2)] by (simp add: wf_deque_def wf_buffer_def capacity_def empty_len_def)
      moreover have "2 * (length xs + k) < 2 * isize_bound" using n unfolding fits_def usize_isize_bound by simp
      then have "length xs + k < isize_bound" by simp
      then have "length xs + k \<le> isize_bound - 1" by arith
      ultimately show ?thesis by (simp add: isize_max_def)
    qed (use 2(4) in simp)
    then show ?thesis using Ok[of d' s] 2 len k by (simp add: reserve_exact_def checked_add_def)
  qed
qed

text \<open>
  \<open>shrink_to_fit\<close>. When a smaller buffer is obtained, the elements are copied into it and the old
  deque is dropped with its length unchanged: the elements of the result have all been dropped.
\<close>

lemma shrink_to_fit_cases:
  assumes h: "holds c os_ok owned d w xs" and xs: "xs \<noteq> []" and n: "fits c (length xs)"
  obtains (Err) e where "with_capacity c (length xs) w = panic (AllocationFailed e)"
      "shrink_to_fit c d w = panic (AllocationFailed e)"
  | (Same) d1 w1 s where "with_capacity c (length xs) w = Inr (d1, w1)" "\<not> capacity d1 < capacity d"
      "shrink_to_fit c d w = Inr (d, w\<lparr>os := s\<rparr>)"
      "holds c os_ok owned d (w\<lparr>os := s\<rparr>) xs" "owned s = owned (os w)"
  | (Shrunk) d1 w1 d' s where "with_capacity c (length xs) w = Inr (d1, w1)" "capacity d1 < capacity d"
      "shrink_to_fit c d w = Inr (d', (drop_vals c xs w)\<lparr>os := s\<rparr>)"
      "holds c os_ok owned d' ((drop_vals c xs w)\<lparr>os := s\<rparr>) xs" "capacity d' < capacity d"
      "others c owned d' ((drop_vals c xs w)\<lparr>os := s\<rparr>) = others c owned d w"
proof -
  have r: "rep c d xs" by (rule holds_rep[OF h])
  note wf = rep_wf[OF r] and len = rep_len[OF r]
  have w: "os_ok (os w)" "regions c (buf d) \<subseteq> owned (os w)" using h by (auto simp: holds_def)
  have ne: "elen d \<noteq> 0" using xs len by simp
  show ?thesis
  proof (cases rule: with_capacity_cases[OF w(1) n])
    case (1 e)
    then show ?thesis using Err[of e] wf len ne by (simp add: shrink_to_fit_def)
  next
    case (2 d1 s)
    have r1: "rep c d1 []" by (rule holds_rep[OF 2(2)])
    have h1: "holds c os_ok owned d (w\<lparr>os := s\<rparr>) xs"
      using h 2(2,5) by (auto simp: holds_def)
    show ?thesis
    proof (cases "capacity d1 < capacity d")
      case True
      have le: "length xs \<le> blen (buf d1) div 2" using 2(3) by (simp add: capacity_def)
      obtain cs where cs: "ptr_copy_nonoverlapping c (buf d) (eptr d) (buf d1) (bptr (buf d1)) (length xs)
            = Inr ((buf d1)\<lparr>cells := cs\<rparr>)"
        "rep c \<lparr>eptr = bptr (buf d1), elen = length xs, buf = (buf d1)\<lparr>cells := cs\<rparr>\<rparr> xs"
        "regions c ((buf d1)\<lparr>cells := cs\<rparr>) = regions c (buf d1)"
        by (rule rep_copy_to[OF r wf_dequeD(2)[OF rep_wf[OF r1]] le]) blast
      let ?d = "\<lparr>eptr = bptr (buf d1), elen = length xs, buf = (buf d1)\<lparr>cells := cs\<rparr>\<rparr>"
      obtain s' where s': "deque_drop c d (w\<lparr>os := s\<rparr>) = Inr ((drop_vals c xs (w\<lparr>os := s\<rparr>))\<lparr>os := s'\<rparr>)"
        "os_ok s'" "owned s' = others c owned d (w\<lparr>os := s\<rparr>)" using deque_drop_ok[OF h1] .
      have eq: "(drop_vals c xs (w\<lparr>os := s\<rparr>))\<lparr>os := s'\<rparr> = (drop_vals c xs w)\<lparr>os := s'\<rparr>"
        by (simp add: drop_vals_def)
      have run: "shrink_to_fit c d w = Inr (?d, (drop_vals c xs w)\<lparr>os := s'\<rparr>)"
        using 2(1) wf len ne True cs(1) 2(4) s'(1) eq by (simp add: shrink_to_fit_def Let_def)
      have own: "owned s' = (owned (os w) - regions c (buf d)) \<union> regions c (buf d1)"
        using s'(3) 2(5,6) w(2) by (auto simp: others_def)
      show ?thesis
        using Shrunk[OF 2(1) True run] cs(2,3) s'(2) own True 2(6) w(2)
        by (auto simp: holds_def others_def capacity_def)
    next
      case False
      obtain s' where s': "deque_drop c d1 (w\<lparr>os := s\<rparr>) = Inr (w\<lparr>os := s'\<rparr>)"
        "os_ok s'" "owned s' = others c owned d1 (w\<lparr>os := s\<rparr>)" using deque_drop_ok[OF 2(2)] by auto
      have "owned s' = owned (os w)" using s'(3) 2(5,6) by (auto simp: others_def)
      then show ?thesis
        using Same[OF 2(1) False, of s'] 2(1) wf len ne False s' h by (simp add: shrink_to_fit_def holds_def)
    qed
  qed
qed

end

end
