(* ===== verification/Linux_Instance.thy ===== *)
theory Linux_Instance
  imports Linux Lifecycle
begin

text \<open>
  A concrete kernel for the parameter of \<open>Linux\<close>: an address space with a break above which
  nothing is mapped, a table of descriptors, a file counter and an address limit past which
  \<open>mmap\<close> fails. It satisfies \<open>linux_kernel\<close>, so every assumption the allocator rests on can
  hold at once; over it, a small configuration in which the theorems can be run.
\<close>

record sim =
  sim_vm :: addr_space
  sim_fds :: "int \<Rightarrow> nat option"
  sim_next :: nat
  sim_brk :: nat
  sim_limit :: nat

definition sim_open :: "sim \<Rightarrow> int \<times> sim" where
  "sim_open k =
     (if sim_next k < 2147483648
      then (int (sim_next k), k\<lparr>sim_fds := (sim_fds k)(int (sim_next k) \<mapsto> sim_next k),
                               sim_next := Suc (sim_next k)\<rparr>)
      else (- 1, k))"

definition sim_mmap :: "nat \<Rightarrow> nat \<Rightarrow> bool \<Rightarrow> int \<Rightarrow> sim \<Rightarrow> nat \<times> sim" where
  "sim_mmap a n fixed fd k =
     (case sim_fds k fd of
        None \<Rightarrow> (MAP_FAILED, k)
      | Some f \<Rightarrow>
          (let p = (if fixed then a else sim_brk k) in
           if p + n < sim_limit k
           then (p, k\<lparr>sim_vm := map_range (sim_vm k) p n f, sim_brk := max (sim_brk k) (p + n)\<rparr>)
           else (MAP_FAILED, k)))"

definition sim_sys :: "nat \<Rightarrow> sim linux_sys" where
  "sim_sys g =
     \<lparr>page_size = g, ENOSYS = 38,
      memfd_create = sim_open, errno = (\<lambda>_. 0), mkstemp = sim_open, unlink = (\<lambda>k. k),
      ftruncate = (\<lambda>_ _ k. (0, k)), mmap = sim_mmap,
      munmap = (\<lambda>a n k. (0, k\<lparr>sim_vm := unmap_range (sim_vm k) a n\<rparr>)),
      close_fd = (\<lambda>fd k. (0, k\<lparr>sim_fds := (sim_fds k)(fd := None)\<rparr>))\<rparr>"

definition sim_ok :: "nat \<Rightarrow> sim \<Rightarrow> bool" where
  "sim_ok g k \<longleftrightarrow> 0 < sim_brk k \<and> g dvd sim_brk k \<and> sim_limit k \<le> isize_bound \<and>
     (\<forall>a. sim_brk k \<le> a \<longrightarrow> sim_vm k a = None) \<and>
     (\<forall>fd. int (sim_next k) \<le> fd \<longrightarrow> sim_fds k fd = None)"

definition sim_start :: "nat \<Rightarrow> nat \<Rightarrow> sim" where
  "sim_start g limit =
     \<lparr>sim_vm = (\<lambda>_. None), sim_fds = (\<lambda>_. None), sim_next = 0, sim_brk = g, sim_limit = limit\<rparr>"

lemma MAP_FAILED_large [simp]: "p < isize_bound \<Longrightarrow> p \<noteq> MAP_FAILED"
  by (simp add: MAP_FAILED_def usize_max_def usize_isize_bound)

lemma sim_open_ok:
  "sim_ok g k \<Longrightarrow> sim_open k = (fd, k') \<Longrightarrow>
    sim_ok g k' \<and> sim_vm k' = sim_vm k \<and>
    (fd = - 1 \<and> sim_fds k' = sim_fds k \<or>
     0 \<le> fd \<and> fd < 2147483648 \<and> sim_fds k fd = None \<and> (\<exists>f. sim_fds k' = (sim_fds k)(fd \<mapsto> f)))"
  by (auto simp: sim_open_def sim_ok_def split: if_splits)

lemma sim_linux_kernel:
  assumes "0 < g" shows "linux_kernel (sim_sys g) (sim_ok g) sim_vm sim_fds"
proof unfold_locales
  fix k fd f n p k'
  assume k: "sim_ok g k" "sim_fds k fd = Some f" "0 < n" "page_size (sim_sys g) dvd n"
    and m: "mmap (sim_sys g) 0 n False fd k = (p, k')"
  show "sim_ok g k' \<and> sim_fds k' = sim_fds k \<and>
      (if p = MAP_FAILED then sim_vm k' = sim_vm k
       else 0 < p \<and> page_size (sim_sys g) dvd p \<and> p + n < isize_bound \<and>
            unmapped (sim_vm k) p n \<and> sim_vm k' = map_range (sim_vm k) p n f)"
  proof (cases "sim_brk k + n < sim_limit k")
    case True
    have lim: "sim_limit k \<le> isize_bound" "g dvd sim_brk k" "0 < sim_brk k" "g dvd n"
      using k by (auto simp: sim_ok_def sim_sys_def)
    have p: "p = sim_brk k" and k': "k' = k\<lparr>sim_vm := map_range (sim_vm k) p n f, sim_brk := p + n\<rparr>"
      using m k(2) True by (auto simp: sim_sys_def sim_mmap_def Let_def max_def)
    have "g dvd p" using lim by (simp add: p max_def)
    moreover have "p \<noteq> MAP_FAILED" using True lim(1) by (intro MAP_FAILED_large) (simp add: p)
    moreover have "0 < p" "p + n < isize_bound" using lim True by (auto simp: p)
    moreover have "unmapped (sim_vm k) p n" using k(1) by (auto simp: p unmapped_def sim_ok_def)
    moreover have "sim_ok g k'"
      using k(1) lim \<open>g dvd p\<close> by (auto simp: k' sim_ok_def map_range_def p)
    ultimately show ?thesis by (simp add: k' sim_sys_def)
  next
    case False
    then have "p = MAP_FAILED" "k' = k"
      using m k(2) by (auto simp: sim_sys_def sim_mmap_def Let_def)
    then show ?thesis using k(1) by simp
  qed
next
  fix k fd f n a p k'
  assume k: "sim_ok g k" "sim_fds k fd = Some f" "0 < n" "page_size (sim_sys g) dvd n"
    "0 < a" "page_size (sim_sys g) dvd a" and m: "mmap (sim_sys g) a n True fd k = (p, k')"
  show "sim_ok g k' \<and> sim_fds k' = sim_fds k \<and>
      (if p = MAP_FAILED then same_outside (sim_vm k) (sim_vm k') a n
       else p = a \<and> sim_vm k' = map_range (sim_vm k) a n f)"
  proof (cases "a + n < sim_limit k")
    case True
    have "g dvd max (sim_brk k) (a + n)" using k by (auto simp: sim_ok_def sim_sys_def max_def)
    moreover have "a \<noteq> MAP_FAILED" using True k(1) by (intro MAP_FAILED_large) (auto simp: sim_ok_def)
    ultimately show ?thesis using m k True
      by (auto simp: sim_sys_def sim_mmap_def Let_def sim_ok_def map_range_def)
  next
    case False
    then have "p = MAP_FAILED" "k' = k"
      using m k(2) by (auto simp: sim_sys_def sim_mmap_def Let_def)
    then show ?thesis using k(1) by (simp add: same_outside_def)
  qed
next
  fix k fd k' assume "sim_ok g k"
  then have "sim_open k = (fd, k') \<Longrightarrow>
      sim_ok g k' \<and> sim_vm k' = sim_vm k \<and>
      (fd = - 1 \<and> sim_fds k' = sim_fds k \<or>
       0 \<le> fd \<and> fd < 2147483648 \<and> sim_fds k fd = None \<and> (\<exists>f. sim_fds k' = (sim_fds k)(fd \<mapsto> f)))"
    by (rule sim_open_ok)
  then show "memfd_create (sim_sys g) k = (fd, k') \<Longrightarrow>
      sim_ok g k' \<and> sim_vm k' = sim_vm k \<and>
      (fd = - 1 \<and> sim_fds k' = sim_fds k \<or>
       0 \<le> fd \<and> fd < 2147483648 \<and> sim_fds k fd = None \<and> (\<exists>f. sim_fds k' = (sim_fds k)(fd \<mapsto> f)))"
    "mkstemp (sim_sys g) k = (fd, k') \<Longrightarrow>
      sim_ok g k' \<and> sim_vm k' = sim_vm k \<and>
      (fd = - 1 \<and> sim_fds k' = sim_fds k \<or>
       0 \<le> fd \<and> fd < 2147483648 \<and> sim_fds k fd = None \<and> (\<exists>f. sim_fds k' = (sim_fds k)(fd \<mapsto> f)))"
    by (simp_all add: sim_sys_def)
qed (use assms in \<open>auto simp: sim_sys_def sim_ok_def unmap_range_def\<close>)

interpretation sim_kernel: linux_kernel "sim_sys 4" "sim_ok 4" sim_vm sim_fds
  by (rule sim_linux_kernel) simp

subsection \<open>A small configuration\<close>

text \<open>Elements of \<open>sz\<close> bytes on pages of four bytes, in a debug build.\<close>

definition small_cfg :: "bool \<Rightarrow> nat \<Rightarrow> (nat, sim \<times> (nat \<times> nat) set) cfg" where
  "small_cfg drops sz =
     \<lparr>plat = linux_platform (sim_sys 4), debug = True, esize = sz, ealign = 1,
      needs_drop = drops, zval = 0\<rparr>"

abbreviation sim_tracked :: "sim \<times> (nat \<times> nat) set \<Rightarrow> bool" where
  "sim_tracked \<equiv> sim_kernel.tracked_ok"

abbreviation sim_owned :: "sim \<times> (nat \<times> nat) set \<Rightarrow> (nat \<times> nat) set" where
  "sim_owned \<equiv> snd"

lemma small_cfg_sel [simp]:
  "esize (small_cfg b sz) = sz" "debug (small_cfg b sz) = True" "ealign (small_cfg b sz) = 1"
  "needs_drop (small_cfg b sz) = b" "zval (small_cfg b sz) = 0" "gran (plat (small_cfg b sz)) = 4"
  by (simp_all add: small_cfg_def linux_platform_def linux_allocation_granularity_def sim_sys_def)

lemma small_cfg_ok: "sz < 1000 \<Longrightarrow> cfg_ok (small_cfg b sz)"
  by (simp add: cfg_ok_def usize_bound_def)

lemma small_plat: "plat (small_cfg b sz) =
    track (linux_allocation_granularity (sim_sys 4)) (linux_allocate_mirrored (sim_sys 4))
      (linux_deallocate_mirrored (sim_sys 4))"
  by (simp add: small_cfg_def linux_platform_def)

lemma small_env: "sz \<le> 4 \<Longrightarrow> deque_env (small_cfg b sz) sim_tracked sim_owned"
  using sim_kernel.tracked.mirrored_platform_axioms small_cfg_ok[of sz b]
  by (intro deque_env_page) (simp_all add: small_plat linux_allocation_granularity_def sim_sys_def)

definition world_at :: "nat \<Rightarrow> (nat, sim \<times> (nat \<times> nat) set) world" where
  "world_at limit = \<lparr>os = (sim_start 4 limit, {}), dropped = []\<rparr>"

lemma sim_start_ok: "limit \<le> isize_bound \<Longrightarrow> sim_tracked (sim_start 4 limit, {})"
  by (simp add: sim_kernel.tracked_ok_def sim_ok_def sim_start_def)

text \<open>A deque of two one-byte elements that wraps over the seam, and the world that owns it.\<close>

definition wrapped_deque :: "nat deque" where
  "wrapped_deque =
     \<lparr>eptr = 11, elen = 2,
      buf = \<lparr>bptr = 8, blen = 8, cells = [Frag 20 0, Uninit, Uninit, Frag 10 0]\<rparr>\<rparr>"

definition wrapped_kernel :: "nat \<Rightarrow> sim" where
  "wrapped_kernel limit = (sim_start 4 limit)\<lparr>
     sim_vm := map_range (map_range (\<lambda>_. None) 8 8 0) 12 4 0, sim_brk := 16\<rparr>"

definition wrapped_world :: "nat \<Rightarrow> (nat, sim \<times> (nat \<times> nat) set) world" where
  "wrapped_world limit = \<lparr>os = (wrapped_kernel limit, {(8, 8)}), dropped = []\<rparr>"

lemma wrapped_rep: "rep (small_cfg b 1) wrapped_deque [10, 20]"
  using small_cfg_ok[of 1 b]
  by (simp add: rep_def wf_deque_def wrapped_deque_def wf_buffer_def head_ok_def half_bytes_def
      capacity_def dview_def view_def bslot_def read_cells_def vcell_def enc_def val_ok_def
      alloc_bytes_def alloc_units_def even_up_def isize_bound_def upt_conv_Cons)

lemma wrapped_tracked:
  assumes "limit \<le> isize_bound" shows "sim_tracked (wrapped_kernel limit, {(8, 8)})"
proof -
  have "mirrored_at (sim_vm (wrapped_kernel limit)) 8 8"
    using mirrored_two_maps[of 8 "\<lambda>_. None" 8 0] by (simp add: wrapped_kernel_def)
  moreover have "region_ok (linux_allocation_granularity (sim_sys 4)) 8 8"
    by (simp add: region_ok_def linux_allocation_granularity_def sim_sys_def isize_bound_def)
  moreover have "sim_ok 4 (wrapped_kernel limit)"
    using assms by (simp add: sim_ok_def wrapped_kernel_def sim_start_def map_range_def)
  ultimately show ?thesis by (simp add: sim_kernel.tracked_ok_def)
qed

lemma wrapped_holds:
  "limit \<le> isize_bound \<Longrightarrow>
   holds (small_cfg b 1) sim_tracked sim_owned wrapped_deque (wrapped_world limit) [10, 20]"
  using wrapped_rep[of b] wrapped_tracked[of limit]
  by (simp add: holds_def wrapped_world_def regions_def wrapped_deque_def)

subsection \<open>The configuration of the examples\<close>

abbreviation cfg1 :: "(nat, sim \<times> (nat \<times> nat) set) cfg" where
  "cfg1 \<equiv> small_cfg True 1"

abbreviation sim_holds ::
    "nat deque \<Rightarrow> (nat, sim \<times> (nat \<times> nat) set) world \<Rightarrow> nat list \<Rightarrow> bool" where
  "sim_holds \<equiv> holds cfg1 sim_tracked sim_owned"

abbreviation world1 :: "(nat, sim \<times> (nat \<times> nat) set) world" where
  "world1 \<equiv> wrapped_world 100"

interpretation small: deque_env "small_cfg True 1" sim_tracked sim_owned
  by (rule small_env) simp

lemma holds1: "sim_holds wrapped_deque world1 [10, 20]"
  by (rule wrapped_holds) (simp add: isize_bound_def)

lemma env1: "deque_env cfg1 sim_tracked sim_owned"
  by (rule small_env) simp

lemma val_ok1 [simp]: "0 < sz \<Longrightarrow> val_ok (small_cfg b sz) v"
  by (simp add: val_ok_def)

lemma wrapped_capacity [simp]: "capacity wrapped_deque = 4"
  by (simp add: capacity_def wrapped_deque_def)

text \<open>A deque of four elements that starts at its buffer and has four free, never written, slots.\<close>

definition quad_deque :: "nat deque" where
  "quad_deque =
     \<lparr>eptr = 16, elen = 4,
      buf = \<lparr>bptr = 16, blen = 16,
             cells = [Frag 1 0, Frag 2 0, Frag 3 0, Frag 4 0, Uninit, Uninit, Uninit, Uninit]\<rparr>\<rparr>"

definition quad_world :: "(nat, sim \<times> (nat \<times> nat) set) world" where
  "quad_world = \<lparr>os = ((sim_start 4 100)\<lparr>
     sim_vm := map_range (map_range (\<lambda>_. None) 16 16 0) 24 8 0, sim_brk := 32\<rparr>, {(16, 16)}), dropped = []\<rparr>"

lemma quad_rep: "rep (small_cfg b 1) quad_deque [1, 2, 3, 4]"
  using small_cfg_ok[of 1 b]
  by (simp add: rep_def wf_deque_def quad_deque_def wf_buffer_def head_ok_def half_bytes_def
      capacity_def dview_def view_def bslot_def read_cells_def vcell_def enc_def val_ok_def
      alloc_bytes_def alloc_units_def even_up_def isize_bound_def upt_conv_Cons)

lemma quad_holds: "holds (small_cfg b 1) sim_tracked sim_owned quad_deque quad_world [1, 2, 3, 4]"
proof -
  have "mirrored_at (map_range (map_range (\<lambda>_. None) 16 16 0) 24 8 0) 16 16"
    using mirrored_two_maps[of 16 "\<lambda>_. None" 16 0] by simp
  moreover have "region_ok (linux_allocation_granularity (sim_sys 4)) 16 16"
    by (simp add: region_ok_def linux_allocation_granularity_def sim_sys_def isize_bound_def)
  moreover have "sim_ok 4 ((sim_start 4 100)\<lparr>
     sim_vm := map_range (map_range (\<lambda>_. None) 16 16 0) 24 8 0, sim_brk := 32\<rparr>)"
    by (simp add: sim_ok_def sim_start_def map_range_def isize_bound_def)
  ultimately have "sim_tracked (os quad_world)" by (simp add: sim_kernel.tracked_ok_def quad_world_def)
  then show ?thesis
    using quad_rep[of b] by (simp add: holds_def quad_world_def regions_def quad_deque_def)
qed

lemma quad_capacity [simp]: "capacity quad_deque = 8"
  by (simp add: capacity_def quad_deque_def)

subsection \<open>Running the model\<close>

text \<open>The equations that evaluate an operation on a concrete state.\<close>

lemmas run_simps = assert_that_def debug_assert_def debug_assert_m_def usize_add_def usize_sub_def
  usize_mul_def usize_div_def usize_bound_def isize_bound_def usize_max_def isize_max_def Let_def

lemmas sim_simps = small_cfg_def linux_platform_def track_def linux_allocate_mirrored_def
  linux_deallocate_mirrored_def linux_allocation_granularity_def sim_sys_def linux_temporary_file_def
  sim_open_def sim_start_def to_c_int_def sim_mmap_def MAP_FAILED_def

text \<open>A request for four elements, in the world of the deque with a capacity of eight.\<close>

lemma quad_with_capacity:
  "\<exists>d1 w1. with_capacity cfg1 4 quad_world = Inr (d1, w1) \<and> capacity d1 = 4"
  by (simp add: with_capacity_def capacity_def uninitialized_def size_in_bytes_def
      no_required_allocation_units_def quad_world_def run_simps sim_simps)

text \<open>The head of the four-element deque steps back over the seam, to a slot never written.\<close>

lemma quad_step_back:
  "move_head_unchecked cfg1 quad_deque (- 1) = Inr (quad_deque\<lparr>eptr := 23, elen := 5\<rparr>)"
  "bslot cfg1 (buf quad_deque) 23 = [Uninit]"
proof -
  have len: "deque_len cfg1 quad_deque = Inr 4" by (simp add: deque_len_def quad_deque_def capacity_def)
  have sz: "size_in_bytes cfg1 (blen (buf quad_deque)) = Inr 16"
    by (simp add: size_in_bytes_def no_required_allocation_units_def quad_deque_def run_simps)
  have off: "ptr_offset cfg1 (eptr quad_deque) (- 1) = 15"
    by (simp add: ptr_offset_def quad_deque_def to_isize_def of_isize_def run_simps)
  show "move_head_unchecked cfg1 quad_deque (- 1) = Inr (quad_deque\<lparr>eptr := 23, elen := 5\<rparr>)"
    unfolding move_head_unchecked_def len sz off
    by (simp add: quad_deque_def capacity_def run_simps in_bounds_def isize_arith_def isize_fits_def
        to_isize_def of_isize_def)
  show "bslot cfg1 (buf quad_deque) 23 = [Uninit]"
    by (simp add: bslot_def quad_deque_def read_cells_def vcell_def)
qed

end
