(* ===== verification/Attachments.thy ===== *)
theory Attachments
  imports Linux
begin

text \<open>
  What the System V and the Windows allocator share: a system that keeps a table of the attached
  segments (the start address of each and its size) beside the address space, and undoes one
  attachment at a time. A region is set up when it is mirrored and both its halves stand in the
  table.
\<close>

type_synonym attachments = "nat \<Rightarrow> nat option"

text \<open>\<open>assert!(size % allocation_granularity() == 0)\<close>: the remainder panics for a divisor of zero.\<close>

definition assert_multiple :: "nat \<Rightarrow> nat \<Rightarrow> fault + unit" where
  "assert_multiple n g = (if g = 0 then panic DivideByZero else assert_that (n mod g = 0))"

lemma assert_multiple_ok [simp]: "0 < g \<Longrightarrow> g dvd n \<Longrightarrow> assert_multiple n g = Inr ()"
  by (simp add: assert_multiple_def)

lemma unmap_map_range: "unmapped m p n \<Longrightarrow> unmap_range (map_range m p n f) p n = m"
  by (rule ext) (auto simp: unmapped_def unmap_range_def map_range_def)

lemma unmapped_part: "unmapped m p n \<Longrightarrow> p \<le> a \<Longrightarrow> a + k \<le> p + n \<Longrightarrow> unmapped m a k"
  by (simp add: unmapped_def)

lemma same_outside_mapped:
  assumes "same_outside m m' p n" "unmapped m p n" "m a = Some x" shows "m' a = Some x"
proof -
  have "\<not> (p \<le> a \<and> a < p + n)" using assms(2,3) by (auto simp: unmapped_def)
  then show ?thesis using assms(1,3) by (simp add: same_outside_def)
qed

lemma unmap_same_outside: "same_outside m m' p n \<Longrightarrow> unmapped m p n \<Longrightarrow> unmap_range m' p n = m"
  by (rule ext) (auto simp: unmap_range_def unmapped_def same_outside_def)

lemma mirrored_two_halves:
  "mirrored_at (map_range (map_range m p (n div 2) f) (p + n div 2) (n div 2) f) p n"
  unfolding mirrored_at_def map_range_def by (intro exI[of _ f]) auto

lemma region_halves:
  assumes "region_ok g p n" shows "n div 2 + n div 2 = n" "0 < n div 2" "g dvd n div 2" "g dvd n"
  using assms by (auto simp: region_ok_def elim!: dvdE)

lemma request_halves:
  assumes "0 < (n::nat)" "2 * g dvd n" shows "n div 2 + n div 2 = n" "0 < n div 2" "g dvd n div 2" "g dvd n"
  using assms by (auto elim!: dvdE)

definition attached_at :: "addr_space \<Rightarrow> attachments \<Rightarrow> nat \<Rightarrow> nat \<Rightarrow> bool" where
  "attached_at m at p n \<longleftrightarrow> mirrored_at m p n \<and> at p = Some (n div 2) \<and> at (p + n div 2) = Some (n div 2)"

text \<open>Nothing that was mapped or attached has changed.\<close>

definition keeps :: "addr_space \<Rightarrow> attachments \<Rightarrow> addr_space \<Rightarrow> attachments \<Rightarrow> bool" where
  "keeps m at m' at' \<longleftrightarrow> (\<forall>a. m a \<noteq> None \<longrightarrow> m' a = m a \<and> at' a = at a)"

lemma keeps_refl [simp, intro]: "keeps m at m at"
  by (simp add: keeps_def)

lemma keeps_trans: "keeps m at m1 at1 \<Longrightarrow> keeps m1 at1 m2 at2 \<Longrightarrow> keeps m at m2 at2"
  by (simp add: keeps_def)

lemma keeps_detached: "unmapped m p n \<Longrightarrow> 0 < n \<Longrightarrow> keeps m at m (at(p := x))"
  by (auto simp: keeps_def unmapped_def)

lemma keeps_attached:
  assumes "keeps m at m' at'" "attached_at m at p n" "0 < n div 2"
  shows "attached_at m' at' p n"
proof -
  have mm: "mirrored_at m p n" using assms(2) by (simp add: attached_at_def)
  then have "m p \<noteq> None" "m (p + n div 2) \<noteq> None"
    using assms(3) unfolding mirrored_at_def by (metis add.right_neutral option.distinct(1))+
  moreover have "mirrored_at m' p n"
    using mm assms(1) by (auto simp: keeps_def intro: mirrored_at_keep)
  ultimately show ?thesis using assms(1,2) by (simp add: attached_at_def keeps_def)
qed

text \<open>Attaching one segment at both halves of a free region sets it up and touches nothing else.\<close>

lemma attach_both_halves:
  fixes f :: nat and at :: attachments
  assumes "unmapped m p n" and h: "n div 2 + n div 2 = n" "0 < n div 2"
  defines "m' \<equiv> map_range (map_range m p (n div 2) f) (p + n div 2) (n div 2) f"
    and "at' \<equiv> at(p \<mapsto> n div 2, p + n div 2 \<mapsto> n div 2)"
  shows "attached_at m' at' p n" "keeps m at m' at'" "same_outside m m' p n"
proof -
  show "attached_at m' at' p n"
    using mirrored_two_halves[of m p n f] h by (simp add: attached_at_def m'_def at'_def)
  show "keeps m at m' at'"
    using assms(1) h by (auto simp: keeps_def m'_def at'_def unmapped_def map_range_def)
  show "same_outside m m' p n"
    using h by (auto simp: same_outside_def m'_def map_range_def)
qed

text \<open>Detaching both halves of one region leaves the regions beside it set up.\<close>

lemma detach_both_halves:
  assumes q: "attached_at m at q j" "region_ok g q j" and r: "region_ok g p n"
    and d: "disjoint_regions (q, j) (p, n)"
  shows "attached_at (unmap_range m p n) (at(p := None, p + n div 2 := None)) q j"
proof -
  note hq = region_halves[OF q(2)] and hp = region_halves[OF r]
  have "q \<noteq> p" "q \<noteq> p + n div 2" "q + j div 2 \<noteq> p" "q + j div 2 \<noteq> p + n div 2"
    using d hq(1,2) hp(1,2) by (auto simp: disjoint_regions_def)
  moreover have "mirrored_at (unmap_range m p n) q j"
    using q d by (auto simp: unmap_range_def disjoint_regions_def attached_at_def intro!: mirrored_at_cong[of m])
  ultimately show ?thesis using q(1) by (simp add: attached_at_def)
qed

lemma unmap_both_halves:
  "n div 2 + n div 2 = n \<Longrightarrow> unmap_range (unmap_range m p (n div 2)) (p + n div 2) (n div 2) = unmap_range m p n"
  by (rule ext) (auto simp: unmap_range_def)

end
