(* ===== verification/Sysv.thy ===== *)
theory Sysv
  imports Attachments
begin

text \<open>
  \<open>src/mirrored/sysv.rs\<close>: the allocator over System V shared memory. A segment is created, a range
  of addresses is reserved and given up again, and the segment is attached at both of its halves;
  between giving up and attaching somebody else may take the range, so the code tries again, at
  most ten times. The destructors of the two handle types (\<open>SharedMemory\<close>, \<open>MemoryMap\<close>) are calls
  of their own and are written where the scopes end. \<open>print_error\<close> is left out.
\<close>

record 'k sysv_sys =
  sv_page_size :: nat
  shmget :: "nat \<Rightarrow> 'k \<Rightarrow> int \<times> 'k"
  shmat :: "int \<Rightarrow> nat \<Rightarrow> 'k \<Rightarrow> nat \<times> 'k"
  shmctl_rmid :: "int \<Rightarrow> 'k \<Rightarrow> int \<times> 'k"
  shmdt :: "nat \<Rightarrow> 'k \<Rightarrow> int \<times> 'k"
  sv_mmap :: "nat \<Rightarrow> 'k \<Rightarrow> nat \<times> 'k"
  sv_munmap :: "nat \<Rightarrow> nat \<Rightarrow> 'k \<Rightarrow> int \<times> 'k"

definition sysv_allocation_granularity :: "'k sysv_sys \<Rightarrow> nat" where
  "sysv_allocation_granularity sys = sv_page_size sys"

subsection \<open>Operations\<close>

definition shm_allocate :: "'k sysv_sys \<Rightarrow> nat \<Rightarrow> 'k \<Rightarrow> fault + ((alloc_error + int) \<times> 'k)" where
  "shm_allocate sys n k =
     bindE (assert_that (n \<noteq> 0)) (\<lambda>_.
     bindE (assert_multiple n (sysv_allocation_granularity sys)) (\<lambda>_.
     let (shmid, k) = shmget sys n k in
     if shmid = - 1 then Inr (Inl Oom, k) else Inr (Inr shmid, k)))"

text \<open>\<open>Drop\<close> for \<open>SharedMemory\<close> and for \<open>MemoryMap\<close>.\<close>

definition shm_drop :: "'k sysv_sys \<Rightarrow> int \<Rightarrow> 'k \<Rightarrow> fault + 'k" where
  "shm_drop sys shmid k =
     (let (r, k) = shmctl_rmid sys shmid k in if r = - 1 then panic PlatformCallFailed else Inr k)"

definition map_drop :: "'k sysv_sys \<Rightarrow> nat \<Rightarrow> 'k \<Rightarrow> fault + 'k" where
  "map_drop sys p k =
     (let (r, k) = shmdt sys p k in if r = - 1 then panic PlatformCallFailed else Inr k)"

text \<open>
  \<open>attach\<close>: \<open>r as isize == -1\<close> is the address \<open>usize::MAX\<close>. When the segment was attached
  elsewhere, the map that is dropped is the one built from \<open>ptr\<close>, not from \<open>r\<close>.
\<close>

definition attach :: "'k sysv_sys \<Rightarrow> int \<Rightarrow> nat \<Rightarrow> 'k \<Rightarrow> fault + ((alloc_error + nat) \<times> 'k)" where
  "attach sys shmid p k =
     bindE (assert_that (p \<noteq> 0)) (\<lambda>_.
     let (r, k) = shmat sys shmid p k in
     if r = usize_max then Inr (Inl Other, k)
     else if r \<noteq> p then bindE (map_drop sys p k) (\<lambda>k. Inr (Inl Other, k))
     else Inr (Inr p, k))"

definition sv_unmap :: "'k sysv_sys \<Rightarrow> nat \<Rightarrow> nat \<Rightarrow> 'k \<Rightarrow> fault + ((unit + unit) \<times> 'k)" where
  "sv_unmap sys p n k =
     (let (r, k) = sv_munmap sys p n k in if r = - 1 then Inr (Inl (), k) else Inr (Inr (), k))"

text \<open>
  The loop of \<open>allocate_mirrored\<close>, with the rounds that are left before \<open>counter\<close> passes
  \<open>MAX_NO_ITERS\<close>. A round that cannot attach the second half drops the first map.
\<close>

fun sysv_attempts ::
    "'k sysv_sys \<Rightarrow> int \<Rightarrow> nat \<Rightarrow> nat \<Rightarrow> 'k \<Rightarrow> fault + ((alloc_error + nat) \<times> 'k)" where
  "sysv_attempts sys shmid n 0 k = Inr (Inl Other, k)"
| "sysv_attempts sys shmid n (Suc rounds) k =
     (let (p, k) = sv_mmap sys n k in
      if p = MAP_FAILED then Inr (Inl Oom, k)
      else
        (let p2 = p + n div 2 in
         bindE (sv_unmap sys p n k) (\<lambda>(u, k).
         case u of
           Inl _ \<Rightarrow> panic ExpectFailed
         | Inr _ \<Rightarrow>
             bindE (attach sys shmid p k) (\<lambda>(map0, k).
             case map0 of
               Inl _ \<Rightarrow> sysv_attempts sys shmid n rounds k
             | Inr m0 \<Rightarrow>
                 bindE (attach sys shmid p2 k) (\<lambda>(map1, k).
                 case map1 of
                   Inl _ \<Rightarrow> bindE (map_drop sys m0 k) (\<lambda>k. sysv_attempts sys shmid n rounds k)
                 | Inr _ \<Rightarrow> Inr (Inr p, k))))))"

definition sysv_max_iters :: nat where
  "sysv_max_iters = 10"

definition sysv_allocate_mirrored :: "'k sysv_sys \<Rightarrow> nat \<Rightarrow> 'k \<Rightarrow> fault + ((alloc_error + nat) \<times> 'k)" where
  "sysv_allocate_mirrored sys n k =
     bindE (assert_that (n \<noteq> 0)) (\<lambda>_.
     let half_size = n div 2 in
     bindE (assert_multiple half_size (sysv_allocation_granularity sys)) (\<lambda>_.
     bindE (shm_allocate sys half_size k) (\<lambda>(shm, k).
     case shm of
       Inl e \<Rightarrow> Inr (Inl e, k)
     | Inr shmid \<Rightarrow>
         bindE (sysv_attempts sys shmid n sysv_max_iters k) (\<lambda>(r, k).
         bindE (shm_drop sys shmid k) (\<lambda>k. Inr (r, k))))))"

text \<open>\<open>MemoryMap::from_raw\<close> of both halves; each map is dropped at the end of its statement.\<close>

definition sysv_deallocate_mirrored :: "'k sysv_sys \<Rightarrow> nat \<Rightarrow> nat \<Rightarrow> 'k \<Rightarrow> fault + 'k" where
  "sysv_deallocate_mirrored sys p n k =
     (let p2 = p + n div 2 in
      bindE (assert_that (p \<noteq> 0)) (\<lambda>_.
      bindE (map_drop sys p k) (\<lambda>k.
      bindE (assert_that (p2 \<noteq> 0)) (\<lambda>_.
      map_drop sys p2 k))))"

definition sysv_platform :: "'k sysv_sys \<Rightarrow> ('k \<times> (nat \<times> nat) set) platform" where
  "sysv_platform sys =
     track (sysv_allocation_granularity sys) (sysv_allocate_mirrored sys) (sysv_deallocate_mirrored sys)"

subsection \<open>The system\<close>

text \<open>
  What the code relies on. Three observations: the address space, the table of segments (the memory
  object and the size of each identifier that has not been removed), and the table of attachments
  (the address of each and its size). \<open>shmat\<close> to an address either fails or maps the whole
  segment there, and it refuses a range that is in use; \<open>shmdt\<close> undoes exactly one \<open>shmat\<close>;
  removing a segment leaves what is attached alone.
\<close>

locale sysv_kernel =
  fixes sys :: "'k sysv_sys"
    and kernel_ok :: "'k \<Rightarrow> bool"
    and vm :: "'k \<Rightarrow> addr_space"
    and segs :: "'k \<Rightarrow> int \<Rightarrow> (nat \<times> nat) option"
    and maps :: "'k \<Rightarrow> nat \<Rightarrow> nat option"
  assumes page_pos: "0 < sv_page_size sys"
    and shmget: "kernel_ok k \<Longrightarrow> 0 < n \<Longrightarrow> shmget sys n k = (shmid, k') \<Longrightarrow>
      kernel_ok k' \<and> vm k' = vm k \<and> maps k' = maps k \<and>
      (shmid = - 1 \<and> segs k' = segs k \<or>
       shmid \<noteq> - 1 \<and> segs k shmid = None \<and> (\<exists>f. segs k' = (segs k)(shmid \<mapsto> (f, n))))"
    and shmctl: "kernel_ok k \<Longrightarrow> segs k shmid = Some s \<Longrightarrow> shmctl_rmid sys shmid k = (r, k') \<Longrightarrow>
      kernel_ok k' \<and> vm k' = vm k \<and> maps k' = maps k \<and> r = 0 \<and> segs k' = (segs k)(shmid := None)"
    and mmap: "kernel_ok k \<Longrightarrow> 0 < n \<Longrightarrow> sv_page_size sys dvd n \<Longrightarrow> sv_mmap sys n k = (p, k') \<Longrightarrow>
      kernel_ok k' \<and> segs k' = segs k \<and> maps k' = maps k \<and>
      (if p = MAP_FAILED then vm k' = vm k
       else 0 < p \<and> sv_page_size sys dvd p \<and> p + n < isize_bound \<and>
            unmapped (vm k) p n \<and> (\<exists>f. vm k' = map_range (vm k) p n f))"
    and munmap: "kernel_ok k \<Longrightarrow> 0 < n \<Longrightarrow> sv_page_size sys dvd n \<Longrightarrow> sv_page_size sys dvd a \<Longrightarrow>
      sv_munmap sys a n k = (r, k') \<Longrightarrow>
      kernel_ok k' \<and> segs k' = segs k \<and> maps k' = maps k \<and> r = 0 \<and> vm k' = unmap_range (vm k) a n"
    and shmat: "kernel_ok k \<Longrightarrow> segs k shmid = Some (f, n) \<Longrightarrow> 0 < a \<Longrightarrow> sv_page_size sys dvd a \<Longrightarrow>
      shmat sys shmid a k = (q, k') \<Longrightarrow>
      kernel_ok k' \<and> segs k' = segs k \<and>
      (q = usize_max \<and> vm k' = vm k \<and> maps k' = maps k \<or>
       q = a \<and> unmapped (vm k) a n \<and> vm k' = map_range (vm k) a n f \<and> maps k' = (maps k)(a \<mapsto> n))"
    and shmdt: "kernel_ok k \<Longrightarrow> maps k a = Some n \<Longrightarrow> shmdt sys a k = (r, k') \<Longrightarrow>
      kernel_ok k' \<and> segs k' = segs k \<and> r = 0 \<and> vm k' = unmap_range (vm k) a n \<and>
      maps k' = (maps k)(a := None)"
begin

lemma attach_cases:
  assumes k: "kernel_ok k" "segs k shmid = Some (f, n)" and a: "0 < a" "sv_page_size sys dvd a" "a \<noteq> usize_max"
  obtains (Err) e k' where "attach sys shmid a k = Inr (Inl e, k')" "kernel_ok k'" "segs k' = segs k"
      "vm k' = vm k" "maps k' = maps k"
  | (Ok) k' where "attach sys shmid a k = Inr (Inr a, k')" "kernel_ok k'" "segs k' = segs k" "unmapped (vm k) a n"
      "vm k' = map_range (vm k) a n f" "maps k' = (maps k)(a \<mapsto> n)"
proof -
  obtain r k' where r: "shmat sys shmid a k = (r, k')" by (cases "shmat sys shmid a k")
  show ?thesis using shmat[OF k a(1,2) r] r a Err[of Other k'] Ok[of k'] by (auto simp: attach_def)
qed

lemma map_drop_ok:
  assumes "kernel_ok k" "maps k a = Some n"
  obtains k' where "map_drop sys a k = Inr k'" "kernel_ok k'" "segs k' = segs k"
    "vm k' = unmap_range (vm k) a n" "maps k' = (maps k)(a := None)"
proof -
  obtain r k' where r: "shmdt sys a k = (r, k')" by (cases "shmdt sys a k")
  show ?thesis using shmdt[OF assms r] r that[of k'] by (simp add: map_drop_def)
qed

end

context sysv_kernel
begin

text \<open>What the loop can leave behind: nothing, or the attached region.\<close>

definition attempt_ok :: "nat \<Rightarrow> 'k \<Rightarrow> (alloc_error + nat) \<times> 'k \<Rightarrow> bool" where
  "attempt_ok n k res \<longleftrightarrow>
     (case res of (r, k') \<Rightarrow> kernel_ok k' \<and> segs k' = segs k \<and> keeps (vm k) (maps k) (vm k') (maps k') \<and>
        (case r of
           Inl _ \<Rightarrow> vm k' = vm k
         | Inr p \<Rightarrow> region_ok (sv_page_size sys) p n \<and> unmapped (vm k) p n \<and> attached_at (vm k') (maps k') p n \<and>
                    same_outside (vm k) (vm k') p n))"

lemma attempt_ok_trans:
  "attempt_ok n k1 res \<Longrightarrow> vm k1 = vm k \<Longrightarrow> segs k1 = segs k \<Longrightarrow>
   keeps (vm k) (maps k) (vm k1) (maps k1) \<Longrightarrow> attempt_ok n k res"
  by (auto simp: attempt_ok_def split: sum.splits intro: keeps_trans)

lemma attempts_ok:
  assumes "kernel_ok k" "segs k shmid = Some (f, n div 2)" and n: "0 < n" "2 * sv_page_size sys dvd n"
  shows "\<exists>res. sysv_attempts sys shmid n rounds k = Inr res \<and> attempt_ok n k res"
  using assms(1,2)
proof (induction rounds arbitrary: k)
  case 0
  then show ?case by (simp add: attempt_ok_def)
next
  case (Suc rounds)
  let ?h = "n div 2"
  note half = request_halves[OF n]
  obtain p k1 where m: "sv_mmap sys n k = (p, k1)" by (cases "sv_mmap sys n k")
  note s1 = mmap[OF Suc.prems(1) n(1) half(4) m]
  show ?case
  proof (cases "p = MAP_FAILED")
    case True
    then show ?thesis using s1 m by (simp add: attempt_ok_def)
  next
    case False
    then have p: "kernel_ok k1" "segs k1 = segs k" "maps k1 = maps k" "0 < p" "sv_page_size sys dvd p"
      "p + n < isize_bound" "unmapped (vm k) p n" "\<exists>g. vm k1 = map_range (vm k) p n g"
      using s1 by auto
    obtain r k2 where u: "sv_munmap sys p n k1 = (r, k2)" by (cases "sv_munmap sys p n k1")
    note s2 = munmap[OF p(1) n(1) half(4) p(5) u]
    have k2: "kernel_ok k2" "segs k2 = segs k" "maps k2 = maps k" "vm k2 = vm k" "r = 0"
      using s2 p(2,3,7,8) unmap_map_range by auto
    have un: "sv_unmap sys p n k1 = Inr (Inr (), k2)" using u k2(5) by (simp add: sv_unmap_def)
    have a: "p \<noteq> usize_max" "0 < p + ?h" "sv_page_size sys dvd p + ?h" "p + ?h \<noteq> usize_max"
      using p(4,5,6) half by (auto simp: usize_max_def usize_isize_bound)
    have seg2: "segs k2 shmid = Some (f, ?h)" using k2(2) Suc.prems(2) by simp
    have again: "\<exists>res. sysv_attempts sys shmid n rounds k' = Inr res \<and> attempt_ok n k res"
      if "kernel_ok k'" "segs k' = segs k" "vm k' = vm k" "keeps (vm k) (maps k) (vm k') (maps k')" for k'
      using Suc.IH[of k'] Suc.prems(2) that attempt_ok_trans by metis
    have first: "sysv_attempts sys shmid n (Suc rounds) k = bindE (attach sys shmid p k2) (\<lambda>(map0, k).
             case map0 of
               Inl _ \<Rightarrow> sysv_attempts sys shmid n rounds k
             | Inr m0 \<Rightarrow>
                 bindE (attach sys shmid (p + ?h) k) (\<lambda>(map1, k).
                 case map1 of
                   Inl _ \<Rightarrow> bindE (map_drop sys m0 k) (\<lambda>k. sysv_attempts sys shmid n rounds k)
                 | Inr _ \<Rightarrow> Inr (Inr p, k)))"
      using m False un by simp
    show ?thesis
    proof (cases rule: attach_cases[OF k2(1) seg2 p(4,5) a(1)])
      case (1 e k3)
      then show ?thesis using first k2 again[of k3] by simp
    next
      case (2 k3)
      have seg3: "segs k3 shmid = Some (f, ?h)" using 2(3) seg2 by simp
      show ?thesis
      proof (cases rule: attach_cases[OF 2(2) seg3 a(2-4)])
        case (1 e k4)
        have "maps k4 p = Some ?h" using 1(5) 2(6) by simp
        from map_drop_ok[OF 1(2) this] obtain k5 where
          k5: "map_drop sys p k4 = Inr k5" "kernel_ok k5" "segs k5 = segs k4"
          "vm k5 = unmap_range (vm k4) p ?h" "maps k5 = (maps k4)(p := None)" .
        have "vm k5 = vm k"
          using k5(4) 1(4) 2(5) k2(4) unmap_map_range[of "vm k" p ?h f] unmapped_part[OF p(7), of p ?h] by simp
        moreover have "maps k5 = (maps k)(p := None)" using k5(5) 1(5) 2(6) k2(3) by simp
        then have "keeps (vm k) (maps k) (vm k5) (maps k5)"
          using keeps_detached[OF p(7) n(1)] \<open>vm k5 = vm k\<close> by simp
        ultimately show ?thesis
          using first 2(1) 1(1) k5 again[of k5] 1(3) 2(3) k2(2) by simp
      next
        case b: (2 k4)
        have v: "vm k4 = map_range (map_range (vm k) p ?h f) (p + ?h) ?h f" using b(5) 2(5) k2(4) by simp
        have mp: "maps k4 = (maps k)(p \<mapsto> ?h, p + ?h \<mapsto> ?h)" using b(6) 2(6) k2(3) by simp
        note both = attach_both_halves(1,2)[OF p(7) half(1,2), where f = f and at = "maps k", folded v mp]
          attach_both_halves(3)[OF p(7) half(1,2), where f = f, folded v]
        have "region_ok (sv_page_size sys) p n" using p n by (simp add: region_ok_def)
        then have "attempt_ok n k (Inr p, k4)"
          using both b(2,3) 2(3) k2(2) p(7) by (simp add: attempt_ok_def)
        then show ?thesis using first 2(1) b(1) by simp
      qed
    qed
  qed
qed

text \<open>
  The whole of \<open>allocate_mirrored\<close>: it returns, the segment identifier is removed on every path, and
  either nothing is attached that was not before, or the region is mirrored.
\<close>

lemma sysv_allocate_ok:
  assumes k: "kernel_ok k" and n: "0 < n" "2 * sv_page_size sys dvd n"
  shows "\<exists>res. sysv_allocate_mirrored sys n k = Inr res \<and> attempt_ok n k res"
proof -
  let ?h = "n div 2"
  note half = request_halves(3,2)[OF n]
  obtain shmid k1 where g: "shmget sys ?h k = (shmid, k1)" by (cases "shmget sys ?h k")
  note s1 = shmget[OF k half(2) g]
  have alloc: "shm_allocate sys ?h k = (if shmid = - 1 then Inr (Inl Oom, k1) else Inr (Inr shmid, k1))"
    using g half page_pos by (simp add: shm_allocate_def sysv_allocation_granularity_def)
  have guards: "assert_multiple ?h (sysv_allocation_granularity sys) = Inr ()"
    using half page_pos by (simp add: sysv_allocation_granularity_def)
  show ?thesis
  proof (cases "shmid = - 1")
    case True
    then have "sysv_allocate_mirrored sys n k = Inr (Inl Oom, k1)" "attempt_ok n k (Inl Oom, k1)"
      using s1 alloc guards n by (auto simp: sysv_allocate_mirrored_def Let_def attempt_ok_def)
    then show ?thesis by blast
  next
    case False
    then obtain f where f: "segs k shmid = None" "segs k1 = (segs k)(shmid \<mapsto> (f, ?h))" using s1 by auto
    have k1: "kernel_ok k1" "vm k1 = vm k" "maps k1 = maps k" using s1 by auto
    obtain r k2 where a: "sysv_attempts sys shmid n sysv_max_iters k1 = Inr (r, k2)" "attempt_ok n k1 (r, k2)"
      using attempts_ok[OF k1(1) _ n, of shmid f] f(2) by (metis fun_upd_same surj_pair)
    obtain q k3 where c: "shmctl_rmid sys shmid k2 = (q, k3)" by (cases "shmctl_rmid sys shmid k2")
    have "kernel_ok k2" "segs k2 shmid = Some (f, ?h)" using a(2) f(2) by (auto simp: attempt_ok_def)
    note s3 = shmctl[OF this c]
    have "segs k3 = segs k" using s3 a(2) f by (auto simp: attempt_ok_def)
    then have "attempt_ok n k (r, k3)"
      using a(2) s3 k1 by (auto simp: attempt_ok_def split: sum.splits)
    moreover have "sysv_allocate_mirrored sys n k = Inr (r, k3)"
      using alloc guards n False a(1) c s3 by (simp add: sysv_allocate_mirrored_def Let_def shm_drop_def)
    ultimately show ?thesis by blast
  qed
qed

lemma sysv_deallocate_ok:
  assumes k: "kernel_ok k" and r: "region_ok (sv_page_size sys) p n" and a: "attached_at (vm k) (maps k) p n"
  obtains k' where "sysv_deallocate_mirrored sys p n k = Inr k'" "kernel_ok k'" "segs k' = segs k"
    "vm k' = unmap_range (vm k) p n" "maps k' = (maps k)(p := None, p + n div 2 := None)"
proof -
  let ?h = "n div 2"
  note h = region_halves(1,2)[OF r]
  have p0: "0 < p" using r by (simp add: region_ok_def)
  have m: "maps k p = Some ?h" "maps k (p + ?h) = Some ?h" using a by (simp_all add: attached_at_def)
  obtain k1 where k1: "map_drop sys p k = Inr k1" "kernel_ok k1" "segs k1 = segs k"
    "vm k1 = unmap_range (vm k) p ?h" "maps k1 = (maps k)(p := None)" by (rule map_drop_ok[OF k m(1)])
  have "maps k1 (p + ?h) = Some ?h" using k1(5) m(2) h by simp
  from map_drop_ok[OF k1(2) this] obtain k2 where
    k2: "map_drop sys (p + ?h) k1 = Inr k2" "kernel_ok k2" "segs k2 = segs k1"
    "vm k2 = unmap_range (vm k1) (p + ?h) ?h" "maps k2 = (maps k1)(p + ?h := None)" .
  have "vm k2 = unmap_range (vm k) p n" using k2(4) k1(4) unmap_both_halves[OF h(1)] by simp
  then show ?thesis
    using that[of k2] k1 k2 h p0 by (simp add: sysv_deallocate_mirrored_def Let_def)
qed

end

sublocale sysv_kernel \<subseteq> mirroring_allocator "sysv_allocation_granularity sys"
  "sysv_allocate_mirrored sys" "sysv_deallocate_mirrored sys" kernel_ok vm "\<lambda>k. attached_at (vm k) (maps k)"
proof unfold_locales
  note g = sysv_allocation_granularity_def[of sys]
  show "0 < sysv_allocation_granularity sys" using page_pos by (simp add: g)
  show "attached_at (vm k) (maps k) p n \<Longrightarrow> mirrored_at (vm k) p n" for k p n by (simp add: attached_at_def)
  fix k n
  assume k: "kernel_ok k" and n: "0 < n" "2 * sysv_allocation_granularity sys dvd n" "n < usize_bound"
  note ok = sysv_allocate_ok[OF k n(1) n(2)[unfolded g]]
  show "\<exists>r k'. sysv_allocate_mirrored sys n k = Inr (r, k') \<and> kernel_ok k'"
    using ok by (auto simp: attempt_ok_def)
  show "attached_at (vm k') (maps k') q m"
    if "sysv_allocate_mirrored sys n k = Inr (Inl e, k')" "attached_at (vm k) (maps k) q m"
      "region_ok (sysv_allocation_granularity sys) q m" for e k' q m
    using ok that region_halves(2) keeps_attached by (fastforce simp: attempt_ok_def)
  show "region_ok (sysv_allocation_granularity sys) p n \<and> unmapped (vm k) p n \<and> attached_at (vm k') (maps k') p n \<and>
      (\<forall>q m. attached_at (vm k) (maps k) q m \<longrightarrow> region_ok (sysv_allocation_granularity sys) q m \<longrightarrow>
             attached_at (vm k') (maps k') q m)"
    if "sysv_allocate_mirrored sys n k = Inr (Inr p, k')" for p k'
    using ok that region_halves(2) keeps_attached by (fastforce simp: attempt_ok_def g)
next
  fix k p n
  assume k: "kernel_ok k" and r: "region_ok (sysv_allocation_granularity sys) p n"
    and a: "attached_at (vm k) (maps k) p n"
  obtain k' where k': "sysv_deallocate_mirrored sys p n k = Inr k'" "kernel_ok k'"
    "vm k' = unmap_range (vm k) p n" "maps k' = (maps k)(p := None, p + n div 2 := None)"
    using sysv_deallocate_ok[OF k _ a] r by (metis sysv_allocation_granularity_def)
  then show "\<exists>k'. sysv_deallocate_mirrored sys p n k = Inr k' \<and> kernel_ok k' \<and> unmapped (vm k') p n \<and>
      (\<forall>q m. attached_at (vm k) (maps k) q m \<longrightarrow> region_ok (sysv_allocation_granularity sys) q m \<longrightarrow>
             disjoint_regions (q, m) (p, n) \<longrightarrow> attached_at (vm k') (maps k') q m)"
    using detach_both_halves r by (auto simp: unmapped_def unmap_range_def)
qed

context sysv_kernel
begin

lemma sysv_provides: "provides_platform (sysv_platform sys) kernel_ok"
  unfolding sysv_platform_def by (rule track_provides)

end

subsection \<open>A concrete system\<close>

text \<open>
  Addresses below \<open>svs_brk\<close> have been reserved at some time; reservations are never handed out
  twice, and a segment can be attached wherever the range lies below and is free.
\<close>

record sv_sim =
  svs_vm :: addr_space
  svs_segs :: "int \<Rightarrow> (nat \<times> nat) option"
  svs_maps :: "nat \<Rightarrow> nat option"
  svs_next :: nat
  svs_brk :: nat
  svs_limit :: nat

definition sv_sim_shmget :: "nat \<Rightarrow> sv_sim \<Rightarrow> int \<times> sv_sim" where
  "sv_sim_shmget n k =
     (if n < svs_limit k
      then (int (svs_next k), k\<lparr>svs_segs := (svs_segs k)(int (svs_next k) \<mapsto> (svs_next k, n)),
                               svs_next := Suc (svs_next k)\<rparr>)
      else (- 1, k))"

definition sv_sim_mmap :: "nat \<Rightarrow> sv_sim \<Rightarrow> nat \<times> sv_sim" where
  "sv_sim_mmap n k =
     (let p = svs_brk k in
      if p + n < svs_limit k
      then (p, k\<lparr>svs_vm := map_range (svs_vm k) p n 0, svs_brk := p + n\<rparr>)
      else (MAP_FAILED, k))"

definition sv_sim_shmat :: "int \<Rightarrow> nat \<Rightarrow> sv_sim \<Rightarrow> nat \<times> sv_sim" where
  "sv_sim_shmat shmid a k =
     (case svs_segs k shmid of
        None \<Rightarrow> (usize_max, k)
      | Some (f, n) \<Rightarrow>
          if a + n \<le> svs_brk k \<and> list_all (\<lambda>x. svs_vm k x = None) [a..<a + n]
          then (a, k\<lparr>svs_vm := map_range (svs_vm k) a n f, svs_maps := (svs_maps k)(a \<mapsto> n)\<rparr>)
          else (usize_max, k))"

definition sv_sim_shmdt :: "nat \<Rightarrow> sv_sim \<Rightarrow> int \<times> sv_sim" where
  "sv_sim_shmdt a k =
     (case svs_maps k a of
        None \<Rightarrow> (- 1, k)
      | Some n \<Rightarrow> (0, k\<lparr>svs_vm := unmap_range (svs_vm k) a n, svs_maps := (svs_maps k)(a := None)\<rparr>))"

definition sv_sim_sys :: "nat \<Rightarrow> sv_sim sysv_sys" where
  "sv_sim_sys g =
     \<lparr>sv_page_size = g, shmget = sv_sim_shmget, shmat = sv_sim_shmat,
      shmctl_rmid = (\<lambda>shmid k. (0, k\<lparr>svs_segs := (svs_segs k)(shmid := None)\<rparr>)),
      shmdt = sv_sim_shmdt, sv_mmap = sv_sim_mmap,
      sv_munmap = (\<lambda>a n k. (0, k\<lparr>svs_vm := unmap_range (svs_vm k) a n\<rparr>))\<rparr>"

definition sv_sim_ok :: "nat \<Rightarrow> sv_sim \<Rightarrow> bool" where
  "sv_sim_ok g k \<longleftrightarrow> 0 < svs_brk k \<and> g dvd svs_brk k \<and> svs_limit k \<le> isize_bound \<and>
     (\<forall>a. svs_brk k \<le> a \<longrightarrow> svs_vm k a = None) \<and>
     (\<forall>i. int (svs_next k) \<le> i \<longrightarrow> svs_segs k i = None)"

definition sv_sim_start :: "nat \<Rightarrow> nat \<Rightarrow> sv_sim" where
  "sv_sim_start g limit =
     \<lparr>svs_vm = (\<lambda>_. None), svs_segs = (\<lambda>_. None), svs_maps = (\<lambda>_. None), svs_next = 0, svs_brk = g,
      svs_limit = limit\<rparr>"

lemma sv_sim_kernel:
  assumes "0 < g"
  shows "sysv_kernel (sv_sim_sys g) (sv_sim_ok g) svs_vm svs_segs svs_maps"
proof unfold_locales
  fix k n p k'
  assume k: "sv_sim_ok g k" "0 < n" "sv_page_size (sv_sim_sys g) dvd n" and m: "sv_mmap (sv_sim_sys g) n k = (p, k')"
  show "sv_sim_ok g k' \<and> svs_segs k' = svs_segs k \<and> svs_maps k' = svs_maps k \<and>
      (if p = MAP_FAILED then svs_vm k' = svs_vm k
       else 0 < p \<and> sv_page_size (sv_sim_sys g) dvd p \<and> p + n < isize_bound \<and>
            unmapped (svs_vm k) p n \<and> (\<exists>f. svs_vm k' = map_range (svs_vm k) p n f))"
  proof (cases "svs_brk k + n < svs_limit k")
    case True
    have lim: "svs_limit k \<le> isize_bound" "g dvd svs_brk k" "0 < svs_brk k" "g dvd n"
      using k by (auto simp: sv_sim_ok_def sv_sim_sys_def)
    have p: "p = svs_brk k" and k': "k' = k\<lparr>svs_vm := map_range (svs_vm k) p n 0, svs_brk := p + n\<rparr>"
      using m True by (auto simp: sv_sim_sys_def sv_sim_mmap_def Let_def)
    have "g dvd p" using lim by (simp add: p max_def)
    moreover have "p \<noteq> MAP_FAILED" using True lim(1) by (simp add: p MAP_FAILED_def usize_max_def usize_isize_bound)
    moreover have "0 < p" "p + n < isize_bound" using lim True by (auto simp: p)
    moreover have "unmapped (svs_vm k) p n" using k(1) by (auto simp: p unmapped_def sv_sim_ok_def)
    moreover have "sv_sim_ok g k'" using k(1) lim \<open>g dvd p\<close> by (auto simp: k' sv_sim_ok_def map_range_def p)
    ultimately show ?thesis by (auto simp: k' sv_sim_sys_def)
  next
    case False
    then have "p = MAP_FAILED" "k' = k" using m by (auto simp: sv_sim_sys_def sv_sim_mmap_def Let_def)
    then show ?thesis using k(1) by simp
  qed
next
  fix k shmid f n a q k'
  assume k: "sv_sim_ok g k" "svs_segs k shmid = Some (f, n)" and m: "shmat (sv_sim_sys g) shmid a k = (q, k')"
  show "sv_sim_ok g k' \<and> svs_segs k' = svs_segs k \<and>
      (q = usize_max \<and> svs_vm k' = svs_vm k \<and> svs_maps k' = svs_maps k \<or>
       q = a \<and> unmapped (svs_vm k) a n \<and> svs_vm k' = map_range (svs_vm k) a n f \<and>
       svs_maps k' = (svs_maps k)(a \<mapsto> n))"
    using k m by (auto simp: sv_sim_sys_def sv_sim_shmat_def sv_sim_ok_def map_range_def unmapped_def
        list_all_iff split: if_splits)
next
  fix k a n r k'
  assume "sv_sim_ok g k" "svs_maps k a = Some n" "shmdt (sv_sim_sys g) a k = (r, k')"
  then show "sv_sim_ok g k' \<and> svs_segs k' = svs_segs k \<and> r = 0 \<and> svs_vm k' = unmap_range (svs_vm k) a n \<and>
      svs_maps k' = (svs_maps k)(a := None)"
    by (auto simp: sv_sim_sys_def sv_sim_shmdt_def sv_sim_ok_def unmap_range_def)
next
  fix k n k' and shmid
  assume "sv_sim_ok g k" "0 < n" "shmget (sv_sim_sys g) n k = (shmid, k')"
  then show "sv_sim_ok g k' \<and> svs_vm k' = svs_vm k \<and> svs_maps k' = svs_maps k \<and>
      (shmid = - 1 \<and> svs_segs k' = svs_segs k \<or>
       shmid \<noteq> - 1 \<and> svs_segs k shmid = None \<and> (\<exists>f. svs_segs k' = (svs_segs k)(shmid \<mapsto> (f, n))))"
    by (auto simp: sv_sim_sys_def sv_sim_shmget_def sv_sim_ok_def split: if_splits)
qed (use assms in \<open>auto simp: sv_sim_sys_def sv_sim_ok_def unmap_range_def\<close>)

interpretation sv_sim_kernel: sysv_kernel "sv_sim_sys 4" "sv_sim_ok 4" svs_vm svs_segs svs_maps
  by (rule sv_sim_kernel) simp

end
