(* ===== verification/Winapi.thy ===== *)
theory Winapi
  imports Attachments
begin

text \<open>
  \<open>src/mirrored/winapi.rs\<close>: the allocator over a file mapping of the paging file. As on System V a
  range is reserved, released and then mapped twice, with a retry when somebody else was faster.
  Null handles and addresses are 0, a \<open>BOOL\<close> is a number with 0 for failure. The message built
  with \<open>tiny_str!\<close> when the mapping cannot be created is only printed and is left out.
\<close>

record 'k win_sys =
  dwAllocationGranularity :: nat
  dwPageSize :: nat
  CreateFileMappingW :: "nat \<Rightarrow> nat \<Rightarrow> 'k \<Rightarrow> nat \<times> 'k"
  CloseHandle :: "nat \<Rightarrow> 'k \<Rightarrow> nat \<times> 'k"
  VirtualAlloc :: "nat \<Rightarrow> 'k \<Rightarrow> nat \<times> 'k"
  VirtualFree :: "nat \<Rightarrow> 'k \<Rightarrow> nat \<times> 'k"
  MapViewOfFileEx :: "nat \<Rightarrow> nat \<Rightarrow> nat \<Rightarrow> 'k \<Rightarrow> nat \<times> 'k"
  UnmapViewOfFile :: "nat \<Rightarrow> 'k \<Rightarrow> nat \<times> 'k"

definition win_allocation_granularity :: "'k win_sys \<Rightarrow> nat" where
  "win_allocation_granularity sys = max (dwPageSize sys) (dwAllocationGranularity sys)"

subsection \<open>Operations\<close>

text \<open>The size goes to the system as two 32-bit halves, high half first.\<close>

definition create_file_mapping :: "'k win_sys \<Rightarrow> nat \<Rightarrow> 'k \<Rightarrow> fault + ((alloc_error + nat) \<times> 'k)" where
  "create_file_mapping sys n k =
     bindE (assert_that (n \<noteq> 0)) (\<lambda>_.
     bindE (assert_multiple n (win_allocation_granularity sys)) (\<lambda>_.
     let dw_maximum_size_low = n mod 4294967296;
         dw_maximum_size_high = drop_bit 32 n mod 4294967296;
         (h, k) = CreateFileMappingW sys dw_maximum_size_high dw_maximum_size_low k in
     if h = 0 then Inr (Inl Oom, k) else Inr (Inr h, k)))"

definition close_file_mapping :: "'k win_sys \<Rightarrow> nat \<Rightarrow> 'k \<Rightarrow> fault + ((unit + unit) \<times> 'k)" where
  "close_file_mapping sys h k =
     bindE (assert_that (h \<noteq> 0)) (\<lambda>_.
     let (r, k) = CloseHandle sys h k in
     if r = 0 then Inr (Inl (), k) else Inr (Inr (), k))"

definition reserve_virtual_memory :: "'k win_sys \<Rightarrow> nat \<Rightarrow> 'k \<Rightarrow> fault + ((alloc_error + nat) \<times> 'k)" where
  "reserve_virtual_memory sys n k =
     bindE (assert_that (n \<noteq> 0)) (\<lambda>_.
     bindE (assert_multiple n (win_allocation_granularity sys)) (\<lambda>_.
     let (r, k) = VirtualAlloc sys n k in
     if r = 0 then Inr (Inl Oom, k)
     else
       let (fr, k) = VirtualFree sys r k in
       if fr = 0 then Inr (Inl Other, k) else Inr (Inr r, k)))"

definition map_view_of_file ::
    "bool \<Rightarrow> 'k win_sys \<Rightarrow> nat \<Rightarrow> nat \<Rightarrow> nat \<Rightarrow> 'k \<Rightarrow> fault + ((unit + unit) \<times> 'k)" where
  "map_view_of_file dbg sys h n address k =
     bindE (assert_that (h \<noteq> 0)) (\<lambda>_.
     bindE (assert_that (address \<noteq> 0)) (\<lambda>_.
     bindE (assert_that (n \<noteq> 0)) (\<lambda>_.
     bindE (assert_multiple n (win_allocation_granularity sys)) (\<lambda>_.
     let (r, k) = MapViewOfFileEx sys h n address k in
     if r = 0 then Inr (Inl (), k)
     else bindE (debug_assert dbg (r = address)) (\<lambda>_. Inr (Inr (), k))))))"

definition unmap_view_of_file :: "'k win_sys \<Rightarrow> nat \<Rightarrow> 'k \<Rightarrow> fault + ((unit + unit) \<times> 'k)" where
  "unmap_view_of_file sys address k =
     bindE (assert_that (address \<noteq> 0)) (\<lambda>_.
     let (r, k) = UnmapViewOfFile sys address k in
     if r = 0 then Inr (Inl (), k) else Inr (Inr (), k))"

text \<open>\<open>.expect(\<dots>)\<close> on one of these results.\<close>

definition expect_ok :: "fault + ((unit + unit) \<times> 'k) \<Rightarrow> fault + 'k" where
  "expect_ok m = bindE m (\<lambda>(r, k). case r of Inl _ \<Rightarrow> panic ExpectFailed | Inr _ \<Rightarrow> Inr k)"

text \<open>
  The loop, with the rounds that are left: \<open>no_iters\<close> starts at 0 and the test is
  \<open>no_iters > MAX_NO_ALLOC_ITERS\<close>, so there are \<open>MAX_NO_ALLOC_ITERS + 1\<close> of them. The \<open>?\<close> after
  \<open>reserve_virtual_memory\<close> returns at once, without closing the file mapping.
\<close>

fun win_attempts ::
    "bool \<Rightarrow> 'k win_sys \<Rightarrow> nat \<Rightarrow> nat \<Rightarrow> nat \<Rightarrow> 'k \<Rightarrow> fault + ((alloc_error + nat) \<times> 'k)" where
  "win_attempts dbg sys h n 0 k =
     bindE (expect_ok (close_file_mapping sys h k)) (\<lambda>k. Inr (Inl Other, k))"
| "win_attempts dbg sys h n (Suc rounds) k =
     bindE (reserve_virtual_memory sys n k) (\<lambda>(virt_ptr, k).
     case virt_ptr of
       Inl e \<Rightarrow> Inr (Inl e, k)
     | Inr p \<Rightarrow>
         bindE (map_view_of_file dbg sys h (n div 2) p k) (\<lambda>(r, k).
         case r of
           Inl _ \<Rightarrow> win_attempts dbg sys h n rounds k
         | Inr _ \<Rightarrow>
             bindE (map_view_of_file dbg sys h (n div 2) (p + n div 2) k) (\<lambda>(r, k).
             case r of
               Inl _ \<Rightarrow>
                 bindE (unmap_view_of_file sys p k) (\<lambda>(u, k).
                 case u of
                   Inl _ \<Rightarrow> bindE (expect_ok (close_file_mapping sys h k)) (\<lambda>_. panic PlatformCallFailed)
                 | Inr _ \<Rightarrow> win_attempts dbg sys h n rounds k)
             | Inr _ \<Rightarrow>
                 bindE (expect_ok (close_file_mapping sys h k)) (\<lambda>k. Inr (Inr p, k)))))"

definition win_max_rounds :: nat where
  "win_max_rounds = 10 + 1"

definition win_allocate_mirrored ::
    "bool \<Rightarrow> 'k win_sys \<Rightarrow> nat \<Rightarrow> 'k \<Rightarrow> fault + ((alloc_error + nat) \<times> 'k)" where
  "win_allocate_mirrored dbg sys n k =
     (let half_size = n div 2 in
      bindE (assert_that (n \<noteq> 0)) (\<lambda>_.
      bindE (assert_multiple half_size (win_allocation_granularity sys)) (\<lambda>_.
      bindE (create_file_mapping sys half_size k) (\<lambda>(file_mapping, k).
      case file_mapping of
        Inl e \<Rightarrow> Inr (Inl e, k)
      | Inr h \<Rightarrow> win_attempts dbg sys h n win_max_rounds k))))"

definition win_deallocate_mirrored :: "'k win_sys \<Rightarrow> nat \<Rightarrow> nat \<Rightarrow> 'k \<Rightarrow> fault + 'k" where
  "win_deallocate_mirrored sys p n k =
     bindE (assert_that (p \<noteq> 0)) (\<lambda>_.
     bindE (assert_that (n \<noteq> 0)) (\<lambda>_.
     bindE (assert_multiple n (win_allocation_granularity sys)) (\<lambda>_.
     let half_size = n div 2 in
     bindE (expect_ok (unmap_view_of_file sys p k)) (\<lambda>k.
     let second_half_ptr = p + half_size in
     expect_ok (unmap_view_of_file sys second_half_ptr k)))))"

definition win_platform :: "bool \<Rightarrow> 'k win_sys \<Rightarrow> ('k \<times> (nat \<times> nat) set) platform" where
  "win_platform dbg sys =
     track (win_allocation_granularity sys) (win_allocate_mirrored dbg sys) (win_deallocate_mirrored sys)"

text \<open>The two halves of the size are the size: nothing is lost below \<open>2 ^ 64\<close>.\<close>

lemma mapping_size_halves:
  assumes "n < usize_bound"
  shows "(drop_bit 32 n mod 4294967296) * 4294967296 + n mod 4294967296 = n"
proof -
  have "drop_bit 32 n = n div 4294967296" by (simp add: drop_bit_eq_div)
  moreover have "n div 4294967296 < 4294967296" using assms by (simp add: usize_bound_def div_less_iff_less_mult)
  ultimately show ?thesis by simp
qed

subsection \<open>The system\<close>

text \<open>
  Observations: the address space, the open handles with the memory object and the size of each, and
  the views (the base address of each and its size). Releasing a range that has just been reserved
  gives the address space back as it was; if it fails the reservation stays.
\<close>

locale win_kernel =
  fixes sys :: "'k win_sys"
    and kernel_ok :: "'k \<Rightarrow> bool"
    and vm :: "'k \<Rightarrow> addr_space"
    and handles :: "'k \<Rightarrow> nat \<Rightarrow> (nat \<times> nat) option"
    and views :: "'k \<Rightarrow> nat \<Rightarrow> nat option"
  assumes gran_pos: "0 < win_allocation_granularity sys"
    and CreateFileMappingW: "kernel_ok k \<Longrightarrow> 0 < hi * 4294967296 + lo \<Longrightarrow>
      CreateFileMappingW sys hi lo k = (h, k') \<Longrightarrow>
      kernel_ok k' \<and> vm k' = vm k \<and> views k' = views k \<and>
      (h = 0 \<and> handles k' = handles k \<or>
       0 < h \<and> handles k h = None \<and> (\<exists>f. handles k' = (handles k)(h \<mapsto> (f, hi * 4294967296 + lo))))"
    and CloseHandle: "kernel_ok k \<Longrightarrow> handles k h = Some s \<Longrightarrow> CloseHandle sys h k = (r, k') \<Longrightarrow>
      kernel_ok k' \<and> vm k' = vm k \<and> views k' = views k \<and> 0 < r \<and> handles k' = (handles k)(h := None)"
    and VirtualAlloc: "kernel_ok k \<Longrightarrow> 0 < n \<Longrightarrow> win_allocation_granularity sys dvd n \<Longrightarrow>
      VirtualAlloc sys n k = (p, k') \<Longrightarrow>
      kernel_ok k' \<and> handles k' = handles k \<and> views k' = views k \<and>
      (if p = 0 then vm k' = vm k
       else win_allocation_granularity sys dvd p \<and> p + n < isize_bound \<and>
            unmapped (vm k) p n \<and> (\<exists>f. vm k' = map_range (vm k) p n f))"
    and VirtualFree: "kernel_ok k \<Longrightarrow> 0 < n \<Longrightarrow> win_allocation_granularity sys dvd n \<Longrightarrow> VirtualAlloc sys n k = (p, k') \<Longrightarrow> p \<noteq> 0 \<Longrightarrow>
      VirtualFree sys p k' = (r, k'') \<Longrightarrow>
      kernel_ok k'' \<and> handles k'' = handles k' \<and> views k'' = views k' \<and> vm k'' = (if r = 0 then vm k' else vm k)"
    and MapViewOfFileEx: "kernel_ok k \<Longrightarrow> handles k h = Some (f, n) \<Longrightarrow> 0 < a \<Longrightarrow>
      win_allocation_granularity sys dvd a \<Longrightarrow> MapViewOfFileEx sys h n a k = (r, k') \<Longrightarrow>
      kernel_ok k' \<and> handles k' = handles k \<and>
      (r = 0 \<and> vm k' = vm k \<and> views k' = views k \<or>
       r = a \<and> unmapped (vm k) a n \<and> views k a = None \<and> vm k' = map_range (vm k) a n f \<and>
       views k' = (views k)(a \<mapsto> n))"
    and UnmapViewOfFile: "kernel_ok k \<Longrightarrow> views k a = Some n \<Longrightarrow> UnmapViewOfFile sys a k = (r, k') \<Longrightarrow>
      kernel_ok k' \<and> handles k' = handles k \<and> 0 < r \<and> vm k' = unmap_range (vm k) a n \<and>
      views k' = (views k)(a := None)"

context win_kernel
begin

lemma close_ok:
  assumes "kernel_ok k" "handles k h = Some s" "0 < h"
  obtains k' where "expect_ok (close_file_mapping sys h k) = Inr k'" "kernel_ok k'" "vm k' = vm k"
    "views k' = views k" "handles k' = (handles k)(h := None)"
proof -
  obtain r k' where r: "CloseHandle sys h k = (r, k')" by (cases "CloseHandle sys h k")
  show ?thesis
    using CloseHandle[OF assms(1,2) r] r assms(3) that[of k'] by (simp add: expect_ok_def close_file_mapping_def)
qed

lemma map_view_cases:
  assumes k: "kernel_ok k" "handles k h = Some (f, n)" "0 < h" and n: "0 < n" "win_allocation_granularity sys dvd n"
    and a: "0 < a" "win_allocation_granularity sys dvd a"
  obtains (Err) k' where "map_view_of_file dbg sys h n a k = Inr (Inl (), k')" "kernel_ok k'"
      "handles k' = handles k" "vm k' = vm k" "views k' = views k"
  | (Ok) k' where "map_view_of_file dbg sys h n a k = Inr (Inr (), k')" "kernel_ok k'" "handles k' = handles k"
      "unmapped (vm k) a n" "vm k' = map_range (vm k) a n f" "views k' = (views k)(a \<mapsto> n)" "views k a = None"
proof -
  obtain r k' where r: "MapViewOfFileEx sys h n a k = (r, k')" by (cases "MapViewOfFileEx sys h n a k")
  show ?thesis
    using MapViewOfFileEx[OF k(1,2) a r] r k(3) n a gran_pos Err[of k'] Ok[of k']
    by (auto simp: map_view_of_file_def)
qed

lemma unmap_view_ok:
  assumes "kernel_ok k" "views k a = Some n" "0 < a"
  obtains k' where "unmap_view_of_file sys a k = Inr (Inr (), k')" "kernel_ok k'" "handles k' = handles k"
    "vm k' = unmap_range (vm k) a n" "views k' = (views k)(a := None)"
proof -
  obtain r k' where r: "UnmapViewOfFile sys a k = (r, k')" by (cases "UnmapViewOfFile sys a k")
  show ?thesis
    using UnmapViewOfFile[OF assms(1,2) r] r assms(3) that[of k'] by (simp add: unmap_view_of_file_def)
qed

text \<open>
  Reserving. When the range cannot be found nothing has changed; when it was found but cannot be
  released, it stays reserved.
\<close>

lemma reserve_cases:
  assumes k: "kernel_ok k" and n: "0 < n" "win_allocation_granularity sys dvd n"
  obtains (Alloc) k' where "reserve_virtual_memory sys n k = Inr (Inl Oom, k')" "kernel_ok k'"
      "handles k' = handles k" "views k' = views k" "vm k' = vm k"
  | (Free) p f k' where "reserve_virtual_memory sys n k = Inr (Inl Other, k')" "kernel_ok k'"
      "handles k' = handles k" "views k' = views k" "unmapped (vm k) p n" "vm k' = map_range (vm k) p n f"
  | (Ok) p k' where "reserve_virtual_memory sys n k = Inr (Inr p, k')" "kernel_ok k'" "handles k' = handles k"
      "views k' = views k" "vm k' = vm k" "0 < p" "win_allocation_granularity sys dvd p"
      "p + n < isize_bound" "unmapped (vm k) p n"
proof -
  obtain p k1 where v: "VirtualAlloc sys n k = (p, k1)" by (cases "VirtualAlloc sys n k")
  note s1 = VirtualAlloc[OF k n v]
  show ?thesis
  proof (cases "p = 0")
    case True
    then show ?thesis using Alloc[of k1] s1 v n gran_pos by (simp add: reserve_virtual_memory_def)
  next
    case False
    obtain r k2 where f: "VirtualFree sys p k1 = (r, k2)" by (cases "VirtualFree sys p k1")
    note s2 = VirtualFree[OF k n v False f]
    obtain g where g: "vm k1 = map_range (vm k) p n g" and u: "unmapped (vm k) p n" using s1 False by auto
    show ?thesis
    proof (cases "r = 0")
      case True
      then show ?thesis using Free[of k2 p g] s1 s2 v f False n gran_pos g u
        by (simp add: reserve_virtual_memory_def)
    next
      case r: False
      then show ?thesis using Ok[of p k2] s1 s2 v f False n gran_pos by (simp add: reserve_virtual_memory_def)
    qed
  qed
qed

text \<open>
  What the loop leaves behind. A success: the two views of a mirrored region and a closed handle. After
  the last round: what was there before, and a closed handle. When a range could not be reserved in some
  round, in a state that is otherwise the one the loop started in: what that left, and an open handle.
\<close>

definition reserve_failed :: "nat \<Rightarrow> 'k \<Rightarrow> alloc_error \<Rightarrow> 'k \<Rightarrow> bool" where
  "reserve_failed n k e k' \<longleftrightarrow>
     (\<exists>k1. vm k1 = vm k \<and> views k1 = views k \<and> handles k1 = handles k \<and>
        reserve_virtual_memory sys n k1 = Inr (Inl e, k')) \<and>
     views k' = views k \<and> handles k' = handles k \<and>
     (if e = Oom then vm k' = vm k else \<exists>p f. unmapped (vm k) p n \<and> vm k' = map_range (vm k) p n f)"

definition win_ok :: "nat \<Rightarrow> nat \<Rightarrow> 'k \<Rightarrow> (alloc_error + nat) \<times> 'k \<Rightarrow> bool" where
  "win_ok h n k res \<longleftrightarrow>
     (case res of (r, k') \<Rightarrow> kernel_ok k' \<and>
        (case r of
           Inl e \<Rightarrow> e = Other \<and> vm k' = vm k \<and> views k' = views k \<and> handles k' = (handles k)(h := None) \<or>
                    reserve_failed n k e k'
         | Inr p \<Rightarrow> handles k' = (handles k)(h := None) \<and> region_ok (win_allocation_granularity sys) p n \<and>
                    unmapped (vm k) p n \<and> mirrored_at (vm k') p n \<and> same_outside (vm k) (vm k') p n \<and>
                    views k' = (views k)(p \<mapsto> n div 2, p + n div 2 \<mapsto> n div 2)))"

lemma win_ok_cong:
  assumes "vm k1 = vm k" "views k1 = views k" "handles k1 = handles k" "win_ok h n k1 res"
  shows "win_ok h n k res"
  using assms(4) unfolding win_ok_def reserve_failed_def assms(1-3) .

lemma win_ok_attached: "win_ok h n k (Inr p, k') \<Longrightarrow> attached_at (vm k') (views k') p n"
  using request_halves(2)[of n "win_allocation_granularity sys"] by (auto simp: win_ok_def attached_at_def region_ok_def)

lemma win_ok_keeps:
  assumes "win_ok h n k (r, k')" "0 < n"
  shows "keeps (vm k) (views k) (vm k') (views k')"
proof (cases r)
  case (Inl e)
  then show ?thesis using assms(1)
    by (auto simp: win_ok_def reserve_failed_def keeps_def map_range_def unmapped_def split: if_splits)
next
  case (Inr p)
  then show ?thesis using assms
    by (auto simp: win_ok_def keeps_def unmapped_def same_outside_def)
qed

lemma win_attempts_ok:
  assumes "kernel_ok k" "handles k h = Some (f, n div 2)" and h: "0 < h"
    and n: "0 < n" "2 * win_allocation_granularity sys dvd n"
  shows "\<exists>res. win_attempts dbg sys h n rounds k = Inr res \<and> win_ok h n k res"
  using assms(1,2)
proof (induction rounds arbitrary: k)
  case 0
  obtain k' where "expect_ok (close_file_mapping sys h k) = Inr k'" "kernel_ok k'" "vm k' = vm k"
    "views k' = views k" "handles k' = (handles k)(h := None)" using close_ok[OF 0 h] .
  then show ?case by (simp add: win_ok_def)
next
  case (Suc rounds)
  let ?h = "n div 2"
  note half = request_halves[OF n]
  have again: "\<exists>res. win_attempts dbg sys h n rounds k' = Inr res \<and> win_ok h n k res"
    if "kernel_ok k'" "handles k' = handles k" "vm k' = vm k" "views k' = views k" for k'
    using Suc.IH[of k'] Suc.prems(2) that win_ok_cong by metis
  show ?case
  proof (cases rule: reserve_cases[OF Suc.prems(1) n(1) half(4)])
    case (1 k1)
    then have "reserve_failed n k Oom k1" by (auto simp: reserve_failed_def)
    then show ?thesis using 1 by (simp add: win_ok_def)
  next
    case (2 p g k1)
    then have "reserve_failed n k Other k1" by (auto simp: reserve_failed_def)
    then show ?thesis using 2 by (simp add: win_ok_def)
  next
    case (3 p k1)
    have hd1: "handles k1 h = Some (f, ?h)" using 3(3) Suc.prems(2) by simp
    show ?thesis
    proof (cases rule: map_view_cases[where dbg = dbg, OF 3(2) hd1 h half(2,3) 3(6,7)])
      case (1 k2)
      then show ?thesis using 3(1,3-5) again[of k2] by simp
    next
      case a: (2 k2)
      have hd2: "handles k2 h = Some (f, ?h)" using a(3) hd1 by simp
      have p2: "0 < p + ?h" "win_allocation_granularity sys dvd p + ?h" using 3(6,7) half by auto
      show ?thesis
      proof (cases rule: map_view_cases[where dbg = dbg, OF a(2) hd2 h half(2,3) p2])
        case (1 k3)
        have "views k3 p = Some ?h" using 1(5) a(6) by simp
        from unmap_view_ok[OF 1(2) this 3(6)] obtain k4 where
          k4: "unmap_view_of_file sys p k3 = Inr (Inr (), k4)" "kernel_ok k4" "handles k4 = handles k3"
          "vm k4 = unmap_range (vm k3) p ?h" "views k4 = (views k3)(p := None)" .
        have "vm k4 = vm k"
          using k4(4) 1(4) a(5) 3(5) unmap_map_range[OF unmapped_part[OF 3(9), of p ?h]] by simp
        moreover have "views k4 = views k" using k4(5) 1(5) a(6,7) 3(4) by (simp add: fun_upd_idem_iff)
        ultimately show ?thesis
          using 3(1,3) a(1,3) 1(1,3) k4(1-3) again[of k4] by simp
      next
        case b: (2 k3)
        have v: "vm k3 = map_range (map_range (vm k) p ?h f) (p + ?h) ?h f" using b(5) a(5) 3(5) by simp
        have vw: "views k3 = (views k)(p \<mapsto> ?h, p + ?h \<mapsto> ?h)" using b(6) a(6) 3(4) by simp
        note both = attach_both_halves(1)[OF 3(9) half(1,2), where f = f and at = "views k", folded v vw]
          attach_both_halves(3)[OF 3(9) half(1,2), where f = f, folded v]
        have hd3: "handles k3 h = Some (f, ?h)" using b(3) hd2 by simp
        obtain k4 where k4: "expect_ok (close_file_mapping sys h k3) = Inr k4" "kernel_ok k4" "vm k4 = vm k3"
          "views k4 = views k3" "handles k4 = (handles k3)(h := None)" using close_ok[OF b(2) hd3 h] .
        have "region_ok (win_allocation_granularity sys) p n" using 3 n by (simp add: region_ok_def)
        then have "win_ok h n k (Inr p, k4)"
          using both k4 b(3) a(3) 3(3,9) vw by (simp add: win_ok_def attached_at_def)
        then show ?thesis using 3(1) a(1) b(1) k4(1) by simp
      qed
    qed
  qed
qed

lemma win_allocate_ok:
  assumes k: "kernel_ok k" and n: "0 < n" "2 * win_allocation_granularity sys dvd n" "n < usize_bound"
  obtains (Mapping) k' where "win_allocate_mirrored dbg sys n k = Inr (Inl Oom, k')" "kernel_ok k'"
      "vm k' = vm k" "views k' = views k" "handles k' = handles k"
  | (Attempts) h f k1 res where "0 < h" "kernel_ok k1" "vm k1 = vm k" "views k1 = views k" "handles k h = None"
      "handles k1 = (handles k)(h \<mapsto> (f, n div 2))"
      "win_allocate_mirrored dbg sys n k = win_attempts dbg sys h n win_max_rounds k1"
      "win_allocate_mirrored dbg sys n k = Inr res" "win_ok h n k1 res"
proof -
  let ?h = "n div 2"
  note half = request_halves[OF n(1,2)]
  have guards: "assert_multiple ?h (win_allocation_granularity sys) = Inr ()" using half gran_pos by simp
  let ?hi = "drop_bit 32 ?h mod 4294967296" and ?lo = "?h mod 4294967296"
  have size_eq: "?hi * 4294967296 + ?lo = ?h" using n(3) by (intro mapping_size_halves) simp
  obtain h k1 where c: "CreateFileMappingW sys ?hi ?lo k = (h, k1)" by (cases "CreateFileMappingW sys ?hi ?lo k")
  have pos: "0 < ?hi * 4294967296 + ?lo" unfolding size_eq by (rule half(2))
  note s = CreateFileMappingW[OF k pos c, unfolded size_eq]
  have alloc: "create_file_mapping sys ?h k = (if h = 0 then Inr (Inl Oom, k1) else Inr (Inr h, k1))"
    using c half gran_pos by (simp add: create_file_mapping_def Let_def)
  show ?thesis
  proof (cases "h = 0")
    case True
    then show ?thesis using Mapping[of k1] s alloc guards n by (simp add: win_allocate_mirrored_def Let_def)
  next
    case False
    then obtain f where f: "handles k h = None" "handles k1 = (handles k)(h \<mapsto> (f, ?h))" using s by auto
    have run: "win_allocate_mirrored dbg sys n k = win_attempts dbg sys h n win_max_rounds k1"
      using alloc guards n False by (simp add: win_allocate_mirrored_def Let_def)
    have "handles k1 h = Some (f, ?h)" using f(2) by simp
    then obtain res where "win_attempts dbg sys h n win_max_rounds k1 = Inr res" "win_ok h n k1 res"
      using win_attempts_ok[of k1 h f n dbg win_max_rounds] s False n by auto
    then show ?thesis using Attempts[of h k1 f res] s f run False by simp
  qed
qed

lemma win_deallocate_ok:
  assumes k: "kernel_ok k" and r: "region_ok (win_allocation_granularity sys) p n"
    and a: "attached_at (vm k) (views k) p n"
  obtains k' where "win_deallocate_mirrored sys p n k = Inr k'" "kernel_ok k'" "handles k' = handles k"
    "vm k' = unmap_range (vm k) p n" "views k' = (views k)(p := None, p + n div 2 := None)"
proof -
  let ?h = "n div 2"
  note h = region_halves[OF r]
  have p0: "0 < p" "0 < n" using r by (simp_all add: region_ok_def)
  have m: "views k p = Some ?h" "views k (p + ?h) = Some ?h" using a by (simp_all add: attached_at_def)
  obtain k1 where k1: "unmap_view_of_file sys p k = Inr (Inr (), k1)" "kernel_ok k1" "handles k1 = handles k"
    "vm k1 = unmap_range (vm k) p ?h" "views k1 = (views k)(p := None)" by (rule unmap_view_ok[OF k m(1) p0(1)])
  have m1: "views k1 (p + ?h) = Some ?h" "0 < p + ?h" using k1(5) m(2) h by simp_all
  obtain k2 where k2: "unmap_view_of_file sys (p + ?h) k1 = Inr (Inr (), k2)" "kernel_ok k2" "handles k2 = handles k1"
    "vm k2 = unmap_range (vm k1) (p + ?h) ?h" "views k2 = (views k1)(p + ?h := None)"
    by (rule unmap_view_ok[OF k1(2) m1])
  have "vm k2 = unmap_range (vm k) p n" using k2(4) k1(4) unmap_both_halves[OF h(1)] by simp
  then show ?thesis
    using that[of k2] k1 k2 h p0 gran_pos by (simp add: win_deallocate_mirrored_def Let_def expect_ok_def)
qed

text \<open>
  When no range can be reserved the \<open>?\<close> returns past the cleanup: the file mapping stays open.
\<close>

lemma win_reserve_leak:
  assumes k: "kernel_ok k" and n: "0 < n" "2 * win_allocation_granularity sys dvd n" "n < usize_bound"
    and c: "CreateFileMappingW sys (drop_bit 32 (n div 2) mod 4294967296) (n div 2 mod 4294967296) k = (h, k1)" "h \<noteq> 0"
    and v: "VirtualAlloc sys n k1 = (0, k2)"
  shows "win_allocate_mirrored dbg sys n k = Inr (Inl Oom, k2)" "handles k h = None" "handles k2 h \<noteq> None"
proof -
  note half = request_halves[OF n(1,2)]
  have size_eq: "(drop_bit 32 (n div 2) mod 4294967296) * 4294967296 + n div 2 mod 4294967296 = n div 2"
    using n(3) by (intro mapping_size_halves) simp
  note s = CreateFileMappingW[OF k _ c(1), unfolded size_eq, OF half(2)]
  have k1: "kernel_ok k1" using s by simp
  note s2 = VirtualAlloc[OF k1 n(1) half(4) v]
  show "handles k h = None" "handles k2 h \<noteq> None" using s s2 c(2) by auto
  have "win_attempts dbg sys h n (Suc 10) k1 = Inr (Inl Oom, k2)"
    by (subst win_attempts.simps) (use v half n gran_pos in \<open>simp add: reserve_virtual_memory_def\<close>)
  then show "win_allocate_mirrored dbg sys n k = Inr (Inl Oom, k2)"
    using c half n gran_pos
    by (simp add: win_allocate_mirrored_def win_max_rounds_def create_file_mapping_def Let_def)
qed

end

sublocale win_kernel \<subseteq> mirroring_allocator "win_allocation_granularity sys"
  "win_allocate_mirrored dbg sys" "win_deallocate_mirrored sys" kernel_ok vm "\<lambda>k. attached_at (vm k) (views k)" for dbg
proof unfold_locales
  show "0 < win_allocation_granularity sys" by (rule gran_pos)
  show "attached_at (vm k) (views k) p n \<Longrightarrow> mirrored_at (vm k) p n" for k p n by (simp add: attached_at_def)
  fix k n
  assume k: "kernel_ok k" and n: "0 < n" "2 * win_allocation_granularity sys dvd n" "n < usize_bound"
  have ok: "\<exists>r k'. win_allocate_mirrored dbg sys n k = Inr (r, k') \<and> kernel_ok k' \<and>
      keeps (vm k) (views k) (vm k') (views k') \<and>
      (case r of Inl _ \<Rightarrow> True | Inr p \<Rightarrow> region_ok (win_allocation_granularity sys) p n \<and> unmapped (vm k) p n \<and>
         attached_at (vm k') (views k') p n)"
  proof (rule win_allocate_ok[OF k n, of dbg], goal_cases)
    case (1 k')
    then show ?case by (intro exI[of _ "Inl Oom"] exI[of _ k']) simp
  next
    case (2 h f k1 res)
    obtain r k' where res: "res = (r, k')" by (cases res)
    note ok = 2(9)[unfolded res]
    show ?case using 2 res win_ok_keeps[OF ok n(1)] win_ok_attached[of h n k1 _ k'] ok
      by (intro exI[of _ r] exI[of _ k']) (cases r; simp add: win_ok_def)
  qed
  then show "\<exists>r k'. win_allocate_mirrored dbg sys n k = Inr (r, k') \<and> kernel_ok k'" by blast
  show "attached_at (vm k') (views k') q m"
    if "win_allocate_mirrored dbg sys n k = Inr (Inl e, k')" "attached_at (vm k) (views k) q m"
      "region_ok (win_allocation_granularity sys) q m" for e k' q m
    using ok that region_halves(2) keeps_attached by fastforce
  show "region_ok (win_allocation_granularity sys) p n \<and> unmapped (vm k) p n \<and> attached_at (vm k') (views k') p n \<and>
      (\<forall>q m. attached_at (vm k) (views k) q m \<longrightarrow> region_ok (win_allocation_granularity sys) q m \<longrightarrow>
             attached_at (vm k') (views k') q m)"
    if "win_allocate_mirrored dbg sys n k = Inr (Inr p, k')" for p k'
    using ok that region_halves(2) keeps_attached by fastforce
next
  fix k p n
  assume k: "kernel_ok k" and r: "region_ok (win_allocation_granularity sys) p n"
    and a: "attached_at (vm k) (views k) p n"
  obtain k' where "win_deallocate_mirrored sys p n k = Inr k'" "kernel_ok k'"
    "vm k' = unmap_range (vm k) p n" "views k' = (views k)(p := None, p + n div 2 := None)"
    using win_deallocate_ok[OF k r a] .
  then show "\<exists>k'. win_deallocate_mirrored sys p n k = Inr k' \<and> kernel_ok k' \<and> unmapped (vm k') p n \<and>
      (\<forall>q m. attached_at (vm k) (views k) q m \<longrightarrow> region_ok (win_allocation_granularity sys) q m \<longrightarrow>
             disjoint_regions (q, m) (p, n) \<longrightarrow> attached_at (vm k') (views k') q m)"
    using detach_both_halves r by (auto simp: unmapped_def unmap_range_def)
qed

context win_kernel
begin

lemma win_provides: "provides_platform (win_platform dbg sys) kernel_ok"
  unfolding win_platform_def by (rule track_provides)

end

subsection \<open>A concrete system\<close>

text \<open>The System V one with handles for identifiers; address 0 stands for failure.\<close>

record win_sim =
  wis_vm :: addr_space
  wis_handles :: "nat \<Rightarrow> (nat \<times> nat) option"
  wis_views :: "nat \<Rightarrow> nat option"
  wis_next :: nat
  wis_brk :: nat
  wis_limit :: nat

definition win_sim_create :: "nat \<Rightarrow> nat \<Rightarrow> win_sim \<Rightarrow> nat \<times> win_sim" where
  "win_sim_create hi lo k =
     (Suc (wis_next k), k\<lparr>wis_handles := (wis_handles k)(Suc (wis_next k) \<mapsto> (wis_next k, hi * 4294967296 + lo)),
                          wis_next := Suc (wis_next k)\<rparr>)"

definition win_sim_alloc :: "nat \<Rightarrow> win_sim \<Rightarrow> nat \<times> win_sim" where
  "win_sim_alloc n k =
     (let p = wis_brk k in
      if p + n < wis_limit k
      then (p, k\<lparr>wis_vm := map_range (wis_vm k) p n 0, wis_brk := p + n\<rparr>)
      else (0, k))"

text \<open>What has been reserved last is what reaches up to the break.\<close>

definition win_sim_free :: "nat \<Rightarrow> win_sim \<Rightarrow> nat \<times> win_sim" where
  "win_sim_free p k = (1, k\<lparr>wis_vm := unmap_range (wis_vm k) p (wis_brk k - p)\<rparr>)"

definition win_sim_map :: "nat \<Rightarrow> nat \<Rightarrow> nat \<Rightarrow> win_sim \<Rightarrow> nat \<times> win_sim" where
  "win_sim_map h n a k =
     (case wis_handles k h of
        None \<Rightarrow> (0, k)
      | Some (f, m) \<Rightarrow>
          if n = m \<and> a + n \<le> wis_brk k \<and> wis_views k a = None \<and> list_all (\<lambda>x. wis_vm k x = None) [a..<a + n]
          then (a, k\<lparr>wis_vm := map_range (wis_vm k) a n f, wis_views := (wis_views k)(a \<mapsto> n)\<rparr>)
          else (0, k))"

definition win_sim_unmap :: "nat \<Rightarrow> win_sim \<Rightarrow> nat \<times> win_sim" where
  "win_sim_unmap a k =
     (case wis_views k a of
        None \<Rightarrow> (0, k)
      | Some n \<Rightarrow> (1, k\<lparr>wis_vm := unmap_range (wis_vm k) a n, wis_views := (wis_views k)(a := None)\<rparr>))"

definition win_sim_sys :: "nat \<Rightarrow> win_sim win_sys" where
  "win_sim_sys g =
     \<lparr>dwAllocationGranularity = g, dwPageSize = 1,
      CreateFileMappingW = win_sim_create,
      CloseHandle = (\<lambda>h k. (1, k\<lparr>wis_handles := (wis_handles k)(h := None)\<rparr>)),
      VirtualAlloc = win_sim_alloc, VirtualFree = win_sim_free,
      MapViewOfFileEx = win_sim_map, UnmapViewOfFile = win_sim_unmap\<rparr>"

definition win_sim_ok :: "nat \<Rightarrow> win_sim \<Rightarrow> bool" where
  "win_sim_ok g k \<longleftrightarrow> 0 < wis_brk k \<and> g dvd wis_brk k \<and> wis_limit k \<le> isize_bound \<and>
     (\<forall>a. wis_brk k \<le> a \<longrightarrow> wis_vm k a = None) \<and> (\<forall>i. wis_next k < i \<longrightarrow> wis_handles k i = None)"

definition win_sim_start :: "nat \<Rightarrow> nat \<Rightarrow> win_sim" where
  "win_sim_start g limit =
     \<lparr>wis_vm = (\<lambda>_. None), wis_handles = (\<lambda>_. None), wis_views = (\<lambda>_. None), wis_next = 0, wis_brk = g,
      wis_limit = limit\<rparr>"

lemma win_sim_gran: "0 < g \<Longrightarrow> win_allocation_granularity (win_sim_sys g) = g"
  by (simp add: win_allocation_granularity_def win_sim_sys_def)

lemma win_sim_alloc_ok:
  assumes k: "win_sim_ok g k" "0 < n" "g dvd n" and m: "win_sim_alloc n k = (p, k')"
  shows "win_sim_ok g k' \<and> wis_handles k' = wis_handles k \<and> wis_views k' = wis_views k \<and>
      (if p = 0 then wis_vm k' = wis_vm k
       else g dvd p \<and> p + n < isize_bound \<and> unmapped (wis_vm k) p n \<and> wis_brk k' = p + n \<and>
            wis_vm k' = map_range (wis_vm k) p n 0)"
proof (cases "wis_brk k + n < wis_limit k")
  case True
  have lim: "wis_limit k \<le> isize_bound" "g dvd wis_brk k" "0 < wis_brk k" using k by (auto simp: win_sim_ok_def)
  have p: "p = wis_brk k" and k': "k' = k\<lparr>wis_vm := map_range (wis_vm k) p n 0, wis_brk := p + n\<rparr>"
    using m True by (auto simp: win_sim_alloc_def Let_def)
  have "g dvd p" using lim k(3) by (simp add: p max_def)
  moreover have "0 < p" "p + n < isize_bound" using lim True by (auto simp: p)
  moreover have "unmapped (wis_vm k) p n" using k(1) by (auto simp: p unmapped_def win_sim_ok_def)
  moreover have "win_sim_ok g k'" using k lim \<open>g dvd p\<close> by (auto simp: k' win_sim_ok_def map_range_def p)
  ultimately show ?thesis by (simp add: k')
next
  case False
  then have "p = 0" "k' = k" using m by (auto simp: win_sim_alloc_def Let_def)
  then show ?thesis using k(1) by simp
qed

lemma win_sim_kernel:
  assumes g: "0 < g"
  shows "win_kernel (win_sim_sys g) (win_sim_ok g) wis_vm wis_handles wis_views"
proof (unfold_locales, unfold win_sim_gran[OF g])
  fix k n p k'
  assume k: "win_sim_ok g k" "0 < n" "g dvd n" and m: "VirtualAlloc (win_sim_sys g) n k = (p, k')"
  show "win_sim_ok g k' \<and> wis_handles k' = wis_handles k \<and> wis_views k' = wis_views k \<and>
      (if p = 0 then wis_vm k' = wis_vm k
       else g dvd p \<and> p + n < isize_bound \<and> unmapped (wis_vm k) p n \<and>
            (\<exists>f. wis_vm k' = map_range (wis_vm k) p n f))"
    using win_sim_alloc_ok[OF k, of p k'] m by (auto simp: win_sim_sys_def split: if_splits)
next
  fix k n p k' r k''
  assume k: "win_sim_ok g k" and n: "0 < n" "g dvd n" and a: "VirtualAlloc (win_sim_sys g) n k = (p, k')" "p \<noteq> 0"
    and f: "VirtualFree (win_sim_sys g) p k' = (r, k'')"
  have p: "p = wis_brk k" "k' = k\<lparr>wis_vm := map_range (wis_vm k) p n 0, wis_brk := p + n\<rparr>"
    using a by (auto simp: win_sim_sys_def win_sim_alloc_def Let_def split: if_splits)
  have un: "unmapped (wis_vm k) p n" using k by (auto simp: p(1) unmapped_def win_sim_ok_def)
  have f': "r = 1" "k'' = k'\<lparr>wis_vm := unmap_range (wis_vm k') p n\<rparr>"
    using f p(2) by (auto simp: win_sim_sys_def win_sim_free_def)
  have vm: "wis_vm k'' = wis_vm k" using f'(2) p(2) unmap_map_range[OF un] by simp
  have lim: "wis_limit k \<le> isize_bound" "g dvd wis_brk k" "0 < wis_brk k" using k by (auto simp: win_sim_ok_def)
  then have "g dvd p + n" using n by (simp add: p(1) max_def)
  then have "win_sim_ok g k''"
    using k vm f'(2) p n by (auto simp: win_sim_ok_def)
  then show "win_sim_ok g k'' \<and> wis_handles k'' = wis_handles k' \<and> wis_views k'' = wis_views k' \<and>
      wis_vm k'' = (if r = 0 then wis_vm k' else wis_vm k)"
    using f' vm by simp
qed (use assms in \<open>auto simp: win_sim_sys_def win_sim_ok_def unmap_range_def win_sim_create_def
      win_sim_map_def win_sim_unmap_def map_range_def unmapped_def list_all_iff split: option.splits if_splits\<close>)

text \<open>A request that succeeds in its first round.\<close>

lemma win_sim_success:
  "\<exists>k'. win_allocate_mirrored True (win_sim_sys 4) 8 (win_sim_start 4 100) = Inr (Inr 4, k')"
proof -
  obtain rounds where m: "win_max_rounds = Suc rounds" by (simp add: win_max_rounds_def)
  show ?thesis unfolding win_allocate_mirrored_def m win_attempts.simps
    by (simp add: create_file_mapping_def reserve_virtual_memory_def map_view_of_file_def
        close_file_mapping_def expect_ok_def win_sim_gran win_sim_sys_def win_allocation_granularity_def
        win_sim_create_def win_sim_alloc_def win_sim_free_def win_sim_map_def win_sim_start_def unmap_range_def map_range_def
        list_all_iff)
qed

interpretation win_sim_kernel: win_kernel "win_sim_sys 4" "win_sim_ok 4" wis_vm wis_handles wis_views
  by (rule win_sim_kernel) simp

end
