(* ===== verification/Macos.thy ===== *)
theory Macos
  imports Attachments
begin

text \<open>
  \<open>src/mirrored/macos.rs\<close>: the allocator over Mach. A region is allocated, its first half allocated
  anew in place, and the first half is remapped over the second. Every call returns a
  \<open>kern_return_t\<close>; the addresses are in-out parameters. The handle \<open>mach_make_memory_entry_64\<close>
  returns is not used and not released: the model counts such handles. The debug messages are
  left out.
\<close>

record 'k mach_sys =
  vm_page_size :: nat
  mach_vm_allocate_anywhere :: "nat \<Rightarrow> 'k \<Rightarrow> int \<times> nat \<times> 'k"
  mach_vm_allocate_fixed :: "nat \<Rightarrow> nat \<Rightarrow> 'k \<Rightarrow> int \<times> nat \<times> 'k"
  mach_make_memory_entry_64 :: "nat \<Rightarrow> nat \<Rightarrow> 'k \<Rightarrow> int \<times> 'k"
  mach_vm_remap :: "nat \<Rightarrow> nat \<Rightarrow> nat \<Rightarrow> 'k \<Rightarrow> int \<times> 'k"
  mach_vm_deallocate :: "nat \<Rightarrow> nat \<Rightarrow> 'k \<Rightarrow> int \<times> 'k"

definition KERN_SUCCESS :: int where
  "KERN_SUCCESS = 0"

definition mac_allocation_granularity :: "'k mach_sys \<Rightarrow> nat" where
  "mac_allocation_granularity sys = vm_page_size sys"

subsection \<open>Operations\<close>

definition mac_dealloc :: "'k mach_sys \<Rightarrow> nat \<Rightarrow> nat \<Rightarrow> 'k \<Rightarrow> fault + ((unit + unit) \<times> 'k)" where
  "mac_dealloc sys p n k =
     bindE (assert_that (n \<noteq> 0)) (\<lambda>_.
     bindE (assert_multiple n (mac_allocation_granularity sys)) (\<lambda>_.
     bindE (assert_that (p \<noteq> 0)) (\<lambda>_.
     let (r, k) = mach_vm_deallocate sys p n k in
     if r \<noteq> KERN_SUCCESS then Inr (Inl (), k) else Inr (Inr (), k))))"

text \<open>The error paths that give the region back; a second failure is a panic.\<close>

definition mac_fail :: "'k mach_sys \<Rightarrow> nat \<Rightarrow> nat \<Rightarrow> 'k \<Rightarrow> fault + ((alloc_error + nat) \<times> 'k)" where
  "mac_fail sys addr n k =
     bindE (mac_dealloc sys addr n k) (\<lambda>(r, k).
     case r of Inl _ \<Rightarrow> panic PlatformCallFailed | Inr _ \<Rightarrow> Inr (Inl Other, k))"

definition mac_allocate_mirrored ::
    "bool \<Rightarrow> 'k mach_sys \<Rightarrow> nat \<Rightarrow> 'k \<Rightarrow> fault + ((alloc_error + nat) \<times> 'k)" where
  "mac_allocate_mirrored dbg sys n k =
     bindE (assert_that (n \<noteq> 0)) (\<lambda>_.
     let half_size = n div 2 in
     bindE (assert_multiple half_size (mac_allocation_granularity sys)) (\<lambda>_.
     let (r, addr, k) = mach_vm_allocate_anywhere sys n k in
     if r \<noteq> KERN_SUCCESS then Inr (Inl Oom, k)
     else bindE (debug_assert dbg (addr \<noteq> 0)) (\<lambda>_.
       let (r, addr, k) = mach_vm_allocate_fixed sys addr half_size k in
       if r \<noteq> KERN_SUCCESS then Inr (Inl Other, k)
       else
         (let (r, k) = mach_make_memory_entry_64 sys half_size addr k in
          if r \<noteq> KERN_SUCCESS then mac_fail sys addr n k
          else
            (let to = addr + half_size;
                 (r, k) = mach_vm_remap sys to half_size addr k in
             if r \<noteq> KERN_SUCCESS then mac_fail sys addr n k
             else Inr (Inr addr, k))))))"

definition mac_deallocate_mirrored :: "'k mach_sys \<Rightarrow> nat \<Rightarrow> nat \<Rightarrow> 'k \<Rightarrow> fault + 'k" where
  "mac_deallocate_mirrored sys p n k =
     bindE (assert_that (p \<noteq> 0)) (\<lambda>_.
     bindE (assert_that (n \<noteq> 0)) (\<lambda>_.
     bindE (assert_multiple n (mac_allocation_granularity sys)) (\<lambda>_.
     bindE (mac_dealloc sys p n k) (\<lambda>(r, k).
     case r of Inl _ \<Rightarrow> panic ExpectFailed | Inr _ \<Rightarrow> Inr k))))"

definition mac_platform :: "bool \<Rightarrow> 'k mach_sys \<Rightarrow> ('k \<times> (nat \<times> nat) set) platform" where
  "mac_platform dbg sys =
     track (mac_allocation_granularity sys) (mac_allocate_mirrored dbg sys) (mac_deallocate_mirrored sys)"

subsection \<open>The system\<close>

text \<open>
  \<open>ports\<close> counts the memory-entry handles this task holds. A fixed allocation with
  \<open>VM_FLAGS_OVERWRITE\<close> replaces the pages, a remap makes the target show the bytes of the source;
  both leave the rest of the address space alone, and a failed one may have unmapped its target.
\<close>

locale mach_kernel =
  fixes sys :: "'k mach_sys"
    and kernel_ok :: "'k \<Rightarrow> bool"
    and vm :: "'k \<Rightarrow> addr_space"
    and ports :: "'k \<Rightarrow> nat"
  assumes page_pos: "0 < vm_page_size sys"
    and allocate_anywhere: "kernel_ok k \<Longrightarrow> 0 < n \<Longrightarrow> vm_page_size sys dvd n \<Longrightarrow>
      mach_vm_allocate_anywhere sys n k = (r, p, k') \<Longrightarrow>
      kernel_ok k' \<and> ports k' = ports k \<and>
      (if r = KERN_SUCCESS
       then 0 < p \<and> vm_page_size sys dvd p \<and> p + n < isize_bound \<and>
            unmapped (vm k) p n \<and> (\<exists>f. vm k' = map_range (vm k) p n f)
       else vm k' = vm k)"
    and allocate_fixed: "kernel_ok k \<Longrightarrow> 0 < n \<Longrightarrow> vm_page_size sys dvd n \<Longrightarrow> 0 < a \<Longrightarrow>
      vm_page_size sys dvd a \<Longrightarrow> mach_vm_allocate_fixed sys a n k = (r, p, k') \<Longrightarrow>
      kernel_ok k' \<and> ports k' = ports k \<and>
      (if r = KERN_SUCCESS then p = a \<and> (\<exists>f. vm k' = map_range (vm k) a n f)
       else same_outside (vm k) (vm k') a n)"
    and make_entry: "kernel_ok k \<Longrightarrow> mach_make_memory_entry_64 sys n a k = (r, k') \<Longrightarrow>
      kernel_ok k' \<and> vm k' = vm k \<and> ports k' = (if r = KERN_SUCCESS then Suc (ports k) else ports k)"
    and remap: "kernel_ok k \<Longrightarrow> 0 < n \<Longrightarrow> vm_page_size sys dvd n \<Longrightarrow> vm_page_size sys dvd a \<Longrightarrow>
      vm_page_size sys dvd b \<Longrightarrow> a + n \<le> b \<Longrightarrow> mach_vm_remap sys b n a k = (r, k') \<Longrightarrow>
      kernel_ok k' \<and> ports k' = ports k \<and> same_outside (vm k) (vm k') b n \<and>
      (r = KERN_SUCCESS \<longrightarrow> (\<forall>i < n. vm k' (b + i) = vm k (a + i)))"
    and deallocate: "kernel_ok k \<Longrightarrow> 0 < n \<Longrightarrow> vm_page_size sys dvd n \<Longrightarrow> vm_page_size sys dvd a \<Longrightarrow>
      mach_vm_deallocate sys a n k = (r, k') \<Longrightarrow>
      kernel_ok k' \<and> ports k' = ports k \<and> r = KERN_SUCCESS \<and> vm k' = unmap_range (vm k) a n"
begin

lemma mac_dealloc_ok:
  assumes k: "kernel_ok k" and n: "0 < n" "vm_page_size sys dvd n" and p: "0 < p" "vm_page_size sys dvd p"
  obtains k' where "mac_dealloc sys p n k = Inr (Inr (), k')" "kernel_ok k'" "ports k' = ports k"
    "vm k' = unmap_range (vm k) p n"
proof -
  obtain r k' where r: "mach_vm_deallocate sys p n k = (r, k')" by (cases "mach_vm_deallocate sys p n k")
  show ?thesis
    using deallocate[OF k n p(2) r] r n p page_pos that[of k']
    by (simp add: mac_dealloc_def mac_allocation_granularity_def)
qed

lemma mac_fail_ok:
  assumes k: "kernel_ok k" and n: "0 < n" "vm_page_size sys dvd n" and p: "0 < p" "vm_page_size sys dvd p"
    and u: "unmapped m p n" "same_outside m (vm k) p n"
  obtains k' where "mac_fail sys p n k = Inr (Inl Other, k')" "kernel_ok k'" "ports k' = ports k" "vm k' = m"
proof -
  obtain k' where k': "mac_dealloc sys p n k = Inr (Inr (), k')" "kernel_ok k'" "ports k' = ports k"
    "vm k' = unmap_range (vm k) p n" by (rule mac_dealloc_ok[OF k n p])
  show ?thesis using that[of k'] k' unmap_same_outside[OF u(2,1)] by (simp add: mac_fail_def)
qed

text \<open>
  \<open>allocate_mirrored\<close>. The three error returns after the first allocation differ: when the second
  allocation fails the whole region stays behind (\<open>Leak\<close>); when there is no memory entry, or the
  remapping fails, the region is released, and in the latter case a handle stays behind. So it does
  after every success.
\<close>

lemma mac_allocate_cases:
  assumes k: "kernel_ok k" and n: "0 < n" "2 * vm_page_size sys dvd n"
  obtains (NoMem) r p k' where "mach_vm_allocate_anywhere sys n k = (r, p, k')" "r \<noteq> KERN_SUCCESS"
      "mac_allocate_mirrored dbg sys n k = Inr (Inl Oom, k')" "kernel_ok k'" "vm k' = vm k" "ports k' = ports k"
  | (Undone) k' where "mac_allocate_mirrored dbg sys n k = Inr (Inl Other, k')" "kernel_ok k'" "vm k' = vm k"
      "ports k' = ports k \<or> ports k' = Suc (ports k)"
  | (Leak) p f k1 r p' k' where "mach_vm_allocate_anywhere sys n k = (KERN_SUCCESS, p, k1)"
      "mach_vm_allocate_fixed sys p (n div 2) k1 = (r, p', k')" "r \<noteq> KERN_SUCCESS"
      "mac_allocate_mirrored dbg sys n k = Inr (Inl Other, k')" "kernel_ok k'" "unmapped (vm k) p n" "ports k' = ports k"
      "same_outside (map_range (vm k) p n f) (vm k') p (n div 2)"
  | (Ok) p k' where "mac_allocate_mirrored dbg sys n k = Inr (Inr p, k')" "kernel_ok k'"
      "ports k' = Suc (ports k)" "region_ok (vm_page_size sys) p n" "unmapped (vm k) p n" "mirrored_at (vm k') p n"
      "same_outside (vm k) (vm k') p n"
proof -
  let ?h = "n div 2"
  note half = request_halves[OF n]
  have guard: "assert_multiple ?h (mac_allocation_granularity sys) = Inr ()"
    using half page_pos by (simp add: mac_allocation_granularity_def)
  obtain r p k1 where a: "mach_vm_allocate_anywhere sys n k = (r, p, k1)"
    by (cases "mach_vm_allocate_anywhere sys n k") auto
  note s1 = allocate_anywhere[OF k n(1) half(4) a]
  show ?thesis
  proof (cases "r = KERN_SUCCESS")
    case False
    then show ?thesis using NoMem[OF a False] s1 a guard n by (simp add: mac_allocate_mirrored_def Let_def)
  next
    case r: True
    obtain g where p: "kernel_ok k1" "ports k1 = ports k" "0 < p" "vm_page_size sys dvd p"
      "p + n < isize_bound" "unmapped (vm k) p n" "vm k1 = map_range (vm k) p n g" using s1 r by auto
    obtain r2 p2 k2 where b: "mach_vm_allocate_fixed sys p ?h k1 = (r2, p2, k2)"
      by (cases "mach_vm_allocate_fixed sys p ?h k1") auto
    note s2 = allocate_fixed[OF p(1) half(2,3) p(3,4) b]
    have region: "region_ok (vm_page_size sys) p n" using p n by (simp add: region_ok_def)
    show ?thesis
    proof (cases "r2 = KERN_SUCCESS")
      case False
      have "mac_allocate_mirrored dbg sys n k = Inr (Inl Other, k2)"
        using a b r False guard n p(3) by (simp add: mac_allocate_mirrored_def Let_def)
      then show ?thesis using Leak[OF a[unfolded r] b False] s2 False p(2,6,7) by auto
    next
      case r2: True
      then obtain f where k2: "kernel_ok k2" "ports k2 = ports k" "p2 = p" "vm k2 = map_range (vm k1) p ?h f"
        using s2 p(2) by auto
      have out2: "same_outside (vm k) (vm k2) p n"
        using half by (auto simp: same_outside_def k2(4) p(7) map_range_def)
      obtain r3 k3 where c: "mach_make_memory_entry_64 sys ?h p k2 = (r3, k3)"
        by (cases "mach_make_memory_entry_64 sys ?h p k2")
      note s3 = make_entry[OF k2(1) c]
      have upto: "mac_allocate_mirrored dbg sys n k =
         (if r3 \<noteq> KERN_SUCCESS then mac_fail sys p n k3
          else
            (let (r, k) = mach_vm_remap sys (p + ?h) ?h p k3 in
             if r \<noteq> KERN_SUCCESS then mac_fail sys p n k else Inr (Inr p, k)))"
        using a b c r r2 guard n p(3) k2(3) by (simp add: mac_allocate_mirrored_def Let_def)
      show ?thesis
      proof (cases "r3 = KERN_SUCCESS")
        case False
        have "same_outside (vm k) (vm k3) p n" using out2 s3 by simp
        then obtain k4 where "mac_fail sys p n k3 = Inr (Inl Other, k4)" "kernel_ok k4" "vm k4 = vm k" "ports k4 = ports k3"
          using mac_fail_ok[OF _ n(1) half(4) p(3,4,6), of k3] s3 by metis
        then show ?thesis using Undone[of k4] upto False s3 k2(2) by simp
      next
        case r3: True
        obtain r4 k4 where d: "mach_vm_remap sys (p + ?h) ?h p k3 = (r4, k4)"
          by (cases "mach_vm_remap sys (p + ?h) ?h p k3")
        have k3: "kernel_ok k3" "vm_page_size sys dvd p + ?h" "p + ?h \<le> p + ?h" using s3 p(4) half by auto
        note s4 = remap[OF k3(1) half(2,3) p(4) k3(2,3) d]
        have out4: "same_outside (vm k) (vm k4) p n"
          using out2 s3 s4 half by (auto simp: same_outside_def)
        show ?thesis
        proof (cases "r4 = KERN_SUCCESS")
          case False
          obtain k5 where "mac_fail sys p n k4 = Inr (Inl Other, k5)" "kernel_ok k5" "vm k5 = vm k" "ports k5 = ports k4"
            using mac_fail_ok[OF _ n(1) half(4) p(3,4,6) out4] s4 by metis
          then show ?thesis using Undone[of k5] upto r3 d False s3 s4 k2(2) by simp
        next
          case r4: True
          have "vm k4 (p + i) = Some (f, i) \<and> vm k4 (p + ?h + i) = Some (f, i)" if "i < ?h" for i
          proof -
            have "vm k3 (p + i) = Some (f, i)" using that s3 k2(4) by (simp add: map_range_def)
            then show ?thesis using s4 r4 that by (auto simp: same_outside_def)
          qed
          then have "mirrored_at (vm k4) p n" unfolding mirrored_at_def by blast
          then show ?thesis
            using Ok[of p k4] upto r3 r4 d s3 s4 k2(2) region p(6) out4 by simp
        qed
      qed
    qed
  qed
qed

lemma mac_deallocate_ok:
  assumes k: "kernel_ok k" and r: "region_ok (vm_page_size sys) p n"
  obtains k' where "mac_deallocate_mirrored sys p n k = Inr k'" "kernel_ok k'" "ports k' = ports k"
    "vm k' = unmap_range (vm k) p n"
proof -
  have p: "0 < n" "vm_page_size sys dvd n" "0 < p" "vm_page_size sys dvd p"
    using r region_halves(4)[OF r] by (auto simp: region_ok_def)
  obtain k' where "mac_dealloc sys p n k = Inr (Inr (), k')" "kernel_ok k'" "ports k' = ports k"
    "vm k' = unmap_range (vm k) p n" by (rule mac_dealloc_ok[OF k p])
  then show ?thesis using that p page_pos
    by (simp add: mac_deallocate_mirrored_def mac_allocation_granularity_def)
qed

end

sublocale mach_kernel \<subseteq> mirroring_allocator "mac_allocation_granularity sys"
  "mac_allocate_mirrored dbg sys" "mac_deallocate_mirrored sys" kernel_ok vm "\<lambda>k. mirrored_at (vm k)" for dbg
proof unfold_locales
  note g = mac_allocation_granularity_def[of sys]
  show "0 < mac_allocation_granularity sys" using page_pos by (simp add: g)
  fix k n
  assume k: "kernel_ok k" and n: "0 < n" "2 * mac_allocation_granularity sys dvd n" "n < usize_bound"
  note cases = mac_allocate_cases[OF k n(1) n(2)[unfolded g], of dbg]
  show "\<exists>r k'. mac_allocate_mirrored dbg sys n k = Inr (r, k') \<and> kernel_ok k'"
    by (rule cases) auto
  show "mirrored_at (vm k') q m"
    if "mac_allocate_mirrored dbg sys n k = Inr (Inl e, k')" "mirrored_at (vm k) q m" for e k' q m
  proof (rule mirrored_at_keep[OF that(2)], rule cases)
    fix p f k1 k2 r p'
    assume s: "mac_allocate_mirrored dbg sys n k = Inr (Inl Other, k2)" "unmapped (vm k) p n"
      "same_outside (map_range (vm k) p n f) (vm k2) p (n div 2)"
    have "same_outside (vm k) (vm k2) p n"
      using s(3) by (auto simp: same_outside_def map_range_def)
    then show "\<forall>a x. vm k a = Some x \<longrightarrow> vm k' a = Some x"
      using same_outside_mapped[OF _ s(2)] s(1) that(1) by auto
  qed (use that in auto)
  show "region_ok (mac_allocation_granularity sys) p n \<and> unmapped (vm k) p n \<and> mirrored_at (vm k') p n \<and>
      (\<forall>q m. mirrored_at (vm k) q m \<longrightarrow> region_ok (mac_allocation_granularity sys) q m \<longrightarrow> mirrored_at (vm k') q m)"
    if r: "mac_allocate_mirrored dbg sys n k = Inr (Inr p, k')" for p k'
  proof (rule cases)
    fix q k2
    assume s: "mac_allocate_mirrored dbg sys n k = Inr (Inr q, k2)" "region_ok (vm_page_size sys) q n"
      "unmapped (vm k) q n" "mirrored_at (vm k2) q n" "same_outside (vm k) (vm k2) q n"
    then have "\<forall>a x. vm k a = Some x \<longrightarrow> vm k' a = Some x"
      using r same_outside_mapped[OF s(5,3)] by auto
    then show ?thesis using r s mirrored_at_keep[of "vm k" _ _ "vm k'"] by (auto simp: g)
  qed (use r in auto)
next
  fix k p n assume k: "kernel_ok k" and r: "region_ok (mac_allocation_granularity sys) p n"
  obtain k' where k': "mac_deallocate_mirrored sys p n k = Inr k'" "kernel_ok k'" "vm k' = unmap_range (vm k) p n"
    by (rule mac_deallocate_ok[OF k, of p n]) (use r in \<open>simp_all add: mac_allocation_granularity_def\<close>)
  moreover have "unmapped (vm k') p n" by (simp add: k'(3) unmapped_def unmap_range_def)
  moreover have "mirrored_at (vm k') q m" if "mirrored_at (vm k) q m" "disjoint_regions (q, m) (p, n)" for q m
    using that by (auto simp: k'(3) unmap_range_def disjoint_regions_def intro!: mirrored_at_cong[of "vm k"])
  ultimately show "\<exists>k'. mac_deallocate_mirrored sys p n k = Inr k' \<and> kernel_ok k' \<and> unmapped (vm k') p n \<and>
      (\<forall>q m. mirrored_at (vm k) q m \<longrightarrow> region_ok (mac_allocation_granularity sys) q m \<longrightarrow>
             disjoint_regions (q, m) (p, n) \<longrightarrow> mirrored_at (vm k') q m)"
    by blast
qed

context mach_kernel
begin

lemma mac_provides: "provides_platform (mac_platform dbg sys) kernel_ok"
  unfolding mac_platform_def by (rule track_provides)

end

subsection \<open>A concrete system\<close>

text \<open>
  Memory objects are numbered; addresses below \<open>ms_brk\<close> have been reserved at some time. Ports are
  limited, and with \<open>ms_fixed_ok\<close> off a fixed allocation fails.
\<close>

record mac_sim =
  ms_vm :: addr_space
  ms_next :: nat
  ms_brk :: nat
  ms_limit :: nat
  ms_ports :: nat
  ms_port_limit :: nat
  ms_fixed_ok :: bool

definition mac_sim_anywhere :: "nat \<Rightarrow> mac_sim \<Rightarrow> int \<times> nat \<times> mac_sim" where
  "mac_sim_anywhere n k =
     (let p = ms_brk k in
      if p + n < ms_limit k
      then (0, p, k\<lparr>ms_vm := map_range (ms_vm k) p n (ms_next k), ms_next := Suc (ms_next k), ms_brk := p + n\<rparr>)
      else (3, 0, k))"

definition mac_sim_fixed :: "nat \<Rightarrow> nat \<Rightarrow> mac_sim \<Rightarrow> int \<times> nat \<times> mac_sim" where
  "mac_sim_fixed a n k =
     (if ms_fixed_ok k \<and> a + n \<le> ms_brk k
      then (0, a, k\<lparr>ms_vm := map_range (ms_vm k) a n (ms_next k), ms_next := Suc (ms_next k)\<rparr>)
      else (3, a, k))"

definition mac_sim_entry :: "nat \<Rightarrow> nat \<Rightarrow> mac_sim \<Rightarrow> int \<times> mac_sim" where
  "mac_sim_entry n a k =
     (if ms_ports k < ms_port_limit k then (0, k\<lparr>ms_ports := Suc (ms_ports k)\<rparr>) else (6, k))"

definition mac_sim_remap :: "nat \<Rightarrow> nat \<Rightarrow> nat \<Rightarrow> mac_sim \<Rightarrow> int \<times> mac_sim" where
  "mac_sim_remap b n a k =
     (if b + n \<le> ms_brk k
      then (0, k\<lparr>ms_vm := (\<lambda>x. if b \<le> x \<and> x < b + n then ms_vm k (a + (x - b)) else ms_vm k x)\<rparr>)
      else (1, k))"

definition mac_sim_sys :: "nat \<Rightarrow> mac_sim mach_sys" where
  "mac_sim_sys g =
     \<lparr>vm_page_size = g, mach_vm_allocate_anywhere = mac_sim_anywhere,
      mach_vm_allocate_fixed = mac_sim_fixed, mach_make_memory_entry_64 = mac_sim_entry,
      mach_vm_remap = mac_sim_remap,
      mach_vm_deallocate = (\<lambda>a n k. (0, k\<lparr>ms_vm := unmap_range (ms_vm k) a n\<rparr>))\<rparr>"

definition mac_sim_ok :: "nat \<Rightarrow> mac_sim \<Rightarrow> bool" where
  "mac_sim_ok g k \<longleftrightarrow> 0 < ms_brk k \<and> g dvd ms_brk k \<and> ms_limit k \<le> isize_bound \<and>
     (\<forall>a. ms_brk k \<le> a \<longrightarrow> ms_vm k a = None)"

definition mac_sim_start :: "nat \<Rightarrow> nat \<Rightarrow> nat \<Rightarrow> bool \<Rightarrow> mac_sim" where
  "mac_sim_start g limit port_limit fixed_ok =
     \<lparr>ms_vm = (\<lambda>_. None), ms_next = 0, ms_brk = g, ms_limit = limit, ms_ports = 0,
      ms_port_limit = port_limit, ms_fixed_ok = fixed_ok\<rparr>"

lemmas mac_sim_defs = mac_sim_sys_def mac_sim_anywhere_def mac_sim_fixed_def mac_sim_entry_def mac_sim_remap_def
  KERN_SUCCESS_def Let_def

lemmas mac_sim_runs = mac_sim_defs mac_sim_start_def mac_allocate_mirrored_def mac_allocation_granularity_def
  mac_fail_def mac_dealloc_def

lemma mac_sim_kernel:
  assumes "0 < g"
  shows "mach_kernel (mac_sim_sys g) (mac_sim_ok g) ms_vm ms_ports"
proof unfold_locales
  fix k n r p k'
  assume k: "mac_sim_ok g k" "0 < n" "vm_page_size (mac_sim_sys g) dvd n"
    and m: "mach_vm_allocate_anywhere (mac_sim_sys g) n k = (r, p, k')"
  show "mac_sim_ok g k' \<and> ms_ports k' = ms_ports k \<and>
      (if r = KERN_SUCCESS
       then 0 < p \<and> vm_page_size (mac_sim_sys g) dvd p \<and> p + n < isize_bound \<and>
            unmapped (ms_vm k) p n \<and> (\<exists>f. ms_vm k' = map_range (ms_vm k) p n f)
       else ms_vm k' = ms_vm k)"
  proof (cases "ms_brk k + n < ms_limit k")
    case True
    have lim: "ms_limit k \<le> isize_bound" "g dvd ms_brk k" "0 < ms_brk k" "g dvd n"
      using k by (auto simp: mac_sim_ok_def mac_sim_sys_def)
    have p: "p = ms_brk k" "r = 0"
      and k': "k' = k\<lparr>ms_vm := map_range (ms_vm k) p n (ms_next k), ms_next := Suc (ms_next k), ms_brk := p + n\<rparr>"
      using m True by (auto simp: mac_sim_sys_def mac_sim_anywhere_def Let_def)
    have "g dvd p" using lim by (simp add: p max_def)
    moreover have "0 < p" "p + n < isize_bound" using lim True by (auto simp: p)
    moreover have "unmapped (ms_vm k) p n" using k(1) by (auto simp: p unmapped_def mac_sim_ok_def)
    moreover have "mac_sim_ok g k'" using k(1) lim \<open>g dvd p\<close> by (auto simp: k' mac_sim_ok_def map_range_def p)
    ultimately show ?thesis by (auto simp: k' p(2) mac_sim_sys_def KERN_SUCCESS_def)
  next
    case False
    then show ?thesis using k(1) m by (auto simp: mac_sim_defs)
  qed
qed (use assms in \<open>auto simp: mac_sim_defs mac_sim_ok_def map_range_def unmap_range_def same_outside_def
      split: if_splits\<close>)

interpretation mac_sim_kernel: mach_kernel "mac_sim_sys 4" "mac_sim_ok 4" ms_vm ms_ports
  by (rule mac_sim_kernel) simp

end
