(* ===== verification/Retain.thy ===== *)
theory Retain
  imports Edit
begin

text \<open>
  \<open>retain\<close>, \<open>dedup_by\<close>, \<open>dedup_by_key\<close> and \<open>dedup\<close> (\<open>src/lib.rs\<close>). The caller's closure is a function
  of its own state \<open>'s\<close>; it answers \<open>None\<close> when it panics. The list functions \<open>retain_spec\<close> and
  \<open>dedup_spec\<close> say what is kept, what is dropped and, when the closure panics, what is left.
\<close>

subsection \<open>Operations\<close>

fun retain_loop ::
    "('a, 'os) cfg \<Rightarrow> ('s \<Rightarrow> 'a \<Rightarrow> bool option \<times> 's) \<Rightarrow> nat list \<Rightarrow> nat \<Rightarrow> 's \<Rightarrow> 'a deque \<Rightarrow>
     fault + (completion \<times> nat \<times> 's \<times> 'a deque)" where
  "retain_loop c f [] del s d = Inr (Returned, del, s, d)"
| "retain_loop c f (i # is) del s d =
     bindE (slice_index c d i) (\<lambda>v.
     case f s v of
       (None, s) \<Rightarrow> Inr (Unwinding, del, s, d)
     | (Some keep, s) \<Rightarrow>
         if \<not> keep then bindE (usize_add (debug c) del 1) (\<lambda>del. retain_loop c f is del s d)
         else if 0 < del then
           bindE (usize_sub (debug c) i del) (\<lambda>j.
           bindE (slice_swap c j i d) (\<lambda>d.
           retain_loop c f is del s d))
         else retain_loop c f is del s d)"

definition retain ::
    "('a, 'os) cfg \<Rightarrow> ('s \<Rightarrow> 'a \<Rightarrow> bool option \<times> 's) \<Rightarrow> 's \<Rightarrow> 'a deque \<Rightarrow> ('a, 'os) world \<Rightarrow>
     fault + (completion \<times> 's \<times> 'a deque \<times> ('a, 'os) world)" where
  "retain c f s d w =
     bindE (deque_len c d) (\<lambda>len.
     bindE (retain_loop c f [0..<len] 0 s d) (\<lambda>(r, del, s, d).
     case r of
       Unwinding \<Rightarrow> Inr (Unwinding, s, d, w)
     | Returned \<Rightarrow>
         if 0 < del then
           bindE (usize_sub (debug c) len del) (\<lambda>n.
           bindE (truncate c n d w) (\<lambda>(d, w).
           Inr (Returned, s, d, w)))
         else Inr (Returned, s, d, w)))"

text \<open>
  \<open>same_bucket\<close> gets mutable references: it answers with the two elements as it leaves them,
  also when it panics.
\<close>

type_synonym ('a, 's) bucket = "'s \<Rightarrow> 'a \<Rightarrow> 'a \<Rightarrow> bool option \<times> 'a \<times> 'a \<times> 's"

fun dedup_loop ::
    "('a, 'os) cfg \<Rightarrow> ('a, 's) bucket \<Rightarrow> nat \<Rightarrow> nat list \<Rightarrow> nat \<Rightarrow> 's \<Rightarrow> 'a deque \<Rightarrow>
     fault + (completion \<times> nat \<times> 's \<times> 'a deque)" where
  "dedup_loop c f p [] w s d = Inr (Returned, w, s, d)"
| "dedup_loop c f p (r # rs) w s d =
     (let p_r = ptr_offset c p (int r) in
      bindE (usize_sub (debug c) w 1) (\<lambda>wm1.
      let p_wm1 = ptr_offset c p (int wm1) in
      bindE (ptr_read c (buf d) p_r) (\<lambda>a.
      bindE (ptr_read c (buf d) p_wm1) (\<lambda>b.
      case f s a b of (same, a, b, s) \<Rightarrow>
      bindE (ptr_write c (buf d) p_r a) (\<lambda>m.
      bindE (ptr_write c m p_wm1 b) (\<lambda>m.
      let d = d\<lparr>buf := m\<rparr> in
      case same of
        None \<Rightarrow> Inr (Unwinding, w, s, d)
      | Some True \<Rightarrow> dedup_loop c f p rs w s d
      | Some False \<Rightarrow>
          bindE (if r \<noteq> w then
                   let p_w = ptr_offset c p_wm1 1 in
                   bindE (mem_swap c p_r p_w (buf d)) (\<lambda>m. Inr (d\<lparr>buf := m\<rparr>))
                 else Inr d) (\<lambda>d.
          bindE (usize_add (debug c) w 1) (\<lambda>w.
          dedup_loop c f p rs w s d))))))))"

definition dedup_by ::
    "('a, 'os) cfg \<Rightarrow> ('a, 's) bucket \<Rightarrow> 's \<Rightarrow> 'a deque \<Rightarrow> ('a, 'os) world \<Rightarrow>
     fault + (completion \<times> 's \<times> 'a deque \<times> ('a, 'os) world)" where
  "dedup_by c f s d w =
     bindE (deque_len c d) (\<lambda>ln.
     if ln \<le> 1 then Inr (Returned, s, d, w)
     else
       bindE (dedup_loop c f (eptr d) [1..<ln] 1 s d) (\<lambda>(r, n, s, d).
       case r of
         Unwinding \<Rightarrow> Inr (Unwinding, s, d, w)
       | Returned \<Rightarrow> bindE (truncate c n d w) (\<lambda>(d, w). Inr (Returned, s, d, w))))"

text \<open>The closure \<open>|a, b| key(a) == key(b)\<close>; \<open>eqk\<close> is the \<open>PartialEq\<close> of the keys.\<close>

definition key_bucket ::
    "('s \<Rightarrow> 'a \<Rightarrow> 'k option \<times> 'a \<times> 's) \<Rightarrow> ('k \<Rightarrow> 'k \<Rightarrow> bool) \<Rightarrow> ('a, 's) bucket" where
  "key_bucket key eqk s a b =
     (case key s a of
        (None, a, s) \<Rightarrow> (None, a, b, s)
      | (Some ka, a, s) \<Rightarrow>
          (case key s b of
             (None, b, s) \<Rightarrow> (None, a, b, s)
           | (Some kb, b, s) \<Rightarrow> (Some (eqk ka kb), a, b, s)))"

definition dedup_by_key ::
    "('a, 'os) cfg \<Rightarrow> ('s \<Rightarrow> 'a \<Rightarrow> 'k option \<times> 'a \<times> 's) \<Rightarrow> ('k \<Rightarrow> 'k \<Rightarrow> bool) \<Rightarrow> 's \<Rightarrow> 'a deque \<Rightarrow>
     ('a, 'os) world \<Rightarrow> fault + (completion \<times> 's \<times> 'a deque \<times> ('a, 'os) world)" where
  "dedup_by_key c key eqk s d w = dedup_by c (key_bucket key eqk) s d w"

text \<open>\<open>dedup\<close>: the closure is \<open>a == b\<close> of the element type.\<close>

definition dedup ::
    "('a, 'os) cfg \<Rightarrow> ('a \<Rightarrow> 'a \<Rightarrow> bool) \<Rightarrow> 'a deque \<Rightarrow> ('a, 'os) world \<Rightarrow>
     fault + (completion \<times> unit \<times> 'a deque \<times> ('a, 'os) world)" where
  "dedup c eq d w = dedup_by c (\<lambda>s a b. (Some (eq a b), a, b, s)) () d w"

subsection \<open>What they do to the list\<close>

text \<open>
  \<open>K\<close> has been kept and \<open>R\<close> rejected; the deque holds \<open>K @ R @ rest\<close>. Keeping an element swaps it
  with the first rejected one, which rotates \<open>R\<close>.
\<close>

fun retain_spec ::
    "('s \<Rightarrow> 'a \<Rightarrow> bool option \<times> 's) \<Rightarrow> 's \<Rightarrow> 'a list \<Rightarrow> 'a list \<Rightarrow> 'a list \<Rightarrow>
     completion \<times> 's \<times> 'a list \<times> 'a list \<times> 'a list" where
  "retain_spec f s K R [] = (Returned, s, K, R, [])"
| "retain_spec f s K R (x # xs) =
     (case f s x of
        (None, s) \<Rightarrow> (Unwinding, s, K, R, x # xs)
      | (Some True, s) \<Rightarrow> retain_spec f s (K @ [x]) (rotate1 R) xs
      | (Some False, s) \<Rightarrow> retain_spec f s K (R @ [x]) xs)"

fun dedup_spec ::
    "('a, 's) bucket \<Rightarrow> 's \<Rightarrow> 'a list \<Rightarrow> 'a list \<Rightarrow> 'a list \<Rightarrow>
     completion \<times> 's \<times> 'a list \<times> 'a list \<times> 'a list" where
  "dedup_spec f s K R [] = (Returned, s, K, R, [])"
| "dedup_spec f s K R (x # xs) =
     (case f s x (last K) of
        (None, a, b, s) \<Rightarrow> (Unwinding, s, butlast K @ [b], R, a # xs)
      | (Some True, a, b, s) \<Rightarrow> dedup_spec f s (butlast K @ [b]) (R @ [a]) xs
      | (Some False, a, b, s) \<Rightarrow> dedup_spec f s (butlast K @ [b, a]) (rotate1 R) xs)"

lemma mset_rotate1 [simp]: "mset (rotate1 xs) = mset xs"
  by (cases xs) auto

lemma swap_first_rejected:
  assumes "R \<noteq> []"
  shows "swap_nth (length K) (length K + length R) (K @ R @ x # xs) = K @ x # rotate1 R @ xs"
proof -
  obtain r R' where R: "R = r # R'" using assms by (cases R) auto
  show ?thesis by (simp add: R swap_nth_def nth_append list_update_append)
qed

lemma swap_nth_commute: "swap_nth i j xs = swap_nth j i xs"
  by (cases "i = j") (simp_all add: swap_nth_def list_update_swap)

lemma swap_same: "i < length xs \<Longrightarrow> swap_nth i i xs = xs"
  by (simp add: swap_nth_def)

text \<open>The loop of \<open>retain\<close> computes \<open>retain_spec\<close> on the represented list.\<close>

lemma retain_loop_rep:
  assumes "rep c d (K @ R @ rest)" "retain_spec f s K R rest = (r, s', K', R', rest')"
  shows "\<exists>d'. retain_loop c f [length K + length R..<length K + length R + length rest] (length R) s d
            = Inr (r, length R', s', d') \<and> evolves c d d' (K' @ R' @ rest')"
  using assms
proof (induction rest arbitrary: d K R s)
  case Nil
  then show ?case using evolves_refl[of c d] by auto
next
  case (Cons x rest)
  note rp = Cons.prems(1)
  let ?i = "length K + length R"
  have upt: "[?i..<?i + length (x # rest)] = ?i # [Suc ?i..<Suc ?i + length rest]"
    by (simp add: upt_conv_Cons del: upt_Suc)
  have idx: "slice_index c d ?i = Inr x"
    using slice_index_rep[OF rp, of ?i] by (simp add: nth_append)
  have small: "Suc (length R) < usize_bound"
    using wf_dequeD(6)[OF rep_wf[OF rp]] rep_len[OF rp] by (simp add: usize_isize_bound)
  obtain o1 s1 where f: "f s x = (o1, s1)" by (cases "f s x")
  show ?case
  proof (cases o1)
    case None
    then show ?thesis using Cons.prems f idx upt evolves_refl[OF rp] by auto
  next
    case (Some keep)
    show ?thesis
    proof (cases keep)
      case False
      have spec: "retain_spec f s1 K (R @ [x]) rest = (r, s', K', R', rest')"
        using Cons.prems(2) f Some False by simp
      have "rep c d (K @ (R @ [x]) @ rest)" using rp by simp
      from Cons.IH[OF this spec] show ?thesis
        using idx f Some False upt small by simp
    next
      case True
      have spec: "retain_spec f s1 (K @ [x]) (rotate1 R) rest = (r, s', K', R', rest')"
        using Cons.prems(2) f Some True by simp
      show ?thesis
      proof (cases "R = []")
        case True
        have "rep c d ((K @ [x]) @ rotate1 R @ rest)" using rp True by simp
        from Cons.IH[OF this spec] show ?thesis
          using idx f Some \<open>keep\<close> upt True by simp
      next
        case False
        have ij: "length K < length (K @ R @ x # rest)" "?i < length (K @ R @ x # rest)" by simp_all
        obtain d1 where d1: "slice_swap c (length K) ?i d = Inr d1"
          "evolves c d d1 (swap_nth (length K) ?i (K @ R @ x # rest))" using slice_swap_rep[OF rp ij] .
        have ev: "evolves c d d1 ((K @ [x]) @ rotate1 R @ rest)"
          using d1(2) swap_first_rejected[OF False, of K x rest] by simp
        from Cons.IH[OF evolves_rep[OF ev] spec] obtain d2 where
          "retain_loop c f [Suc ?i..<Suc ?i + length rest] (length R) s1 d1 = Inr (r, length R', s', d2)"
          "evolves c d1 d2 (K' @ R' @ rest')" by auto
        then show ?thesis
          using idx f Some \<open>keep\<close> upt False d1(1) evolves_trans[OF ev] by (intro exI[of _ d2]) simp
      qed
    qed
  qed
qed

lemma retain_spec_Returned: "retain_spec f s K R xs = (Returned, s', K', R', rest') \<Longrightarrow> rest' = []"
  by (induction f s K R xs rule: retain_spec.induct) (auto split: prod.splits option.splits bool.splits)

lemma retain_spec_mset:
  "retain_spec f s K R xs = (r, s', K', R', rest') \<Longrightarrow>
   mset K' + mset R' + mset rest' = mset K + mset R + mset xs"
  by (induction f s K R xs rule: retain_spec.induct)
    (auto split: prod.splits option.splits bool.splits)

lemma retain_rep:
  assumes r: "rep c d xs" and spec: "retain_spec f s [] [] xs = (e, s', K, R, rest)"
  obtains (Returned) d' where "e = Returned" "retain c f s d w = Inr (Returned, s', d', drop_vals c R w)"
      "evolves c d d' K"
  | (Unwinding) d' where "e = Unwinding" "retain c f s d w = Inr (Unwinding, s', d', w)"
      "evolves c d d' (K @ R @ rest)"
proof -
  have "rep c d ([] @ [] @ xs)" using r by simp
  from retain_loop_rep[OF this spec] obtain d1 where
    d1: "retain_loop c f [0..<length xs] 0 s d = Inr (e, length R, s', d1)"
      "evolves c d d1 (K @ R @ rest)" by auto
  have len: "deque_len c d = Inr (length xs)" using rep_wf[OF r] rep_len[OF r] by simp
  show ?thesis
  proof (cases e)
    case Unwinding
    then show ?thesis using that(2) d1 len by (simp add: retain_def)
  next
    case Returned
    with spec have rest: "rest = []" using retain_spec_Returned by metis
    have n: "length xs = length K + length R"
      using retain_spec_mset[OF spec] rest by (metis append_Nil2 mset_append size_mset length_append mset.simps(1) add_0)
    obtain d2 where d2: "truncate_back c (length K) d1 w = Inr (d2, drop_vals c (drop (length K) (K @ R)) w)"
      "evolves c d1 d2 (take (length K) (K @ R))"
      using truncate_back_rep[OF evolves_rep[OF d1(2)], of "length K" w] rest by auto
    show ?thesis
    proof (cases "R = []")
      case True
      then show ?thesis using that(1)[of d1] d1 len Returned rest by (simp add: retain_def)
    next
      case False
      then show ?thesis using that(1)[of d2] d1 d2 len Returned n evolves_trans
        by (simp add: retain_def truncate_def) blast
    qed
  qed
qed

text \<open>For a predicate without effects \<open>retain\<close> is \<open>filter\<close>, and drops exactly the others.\<close>

lemma retain_spec_filter:
  "\<exists>R'. retain_spec (\<lambda>s x. (Some (P x), s)) s K R xs = (Returned, s, K @ filter P xs, R', []) \<and>
   mset R' = mset R + mset (filter (\<lambda>x. \<not> P x) xs)"
proof (induction xs arbitrary: K R)
  case (Cons x xs)
  then show ?case using Cons[of "K @ [x]" "rotate1 R"] Cons[of K "R @ [x]"] by (cases "P x") auto
qed simp

subsection \<open>dedup\<close>

text \<open>A closure may write anything of the element type into the places it is given.\<close>

definition bucket_ok :: "('a, 'os) cfg \<Rightarrow> ('a, 's) bucket \<Rightarrow> bool" where
  "bucket_ok c f \<longleftrightarrow>
     (\<forall>s a b. val_ok c a \<longrightarrow> val_ok c b \<longrightarrow> (case f s a b of (_, a', b', _) \<Rightarrow> val_ok c a' \<and> val_ok c b'))"

lemma bucket_ok_sized: "0 < esize c \<Longrightarrow> bucket_ok c f"
  by (auto simp: bucket_ok_def val_ok_def split: prod.splits)

lemma butlast_last_snoc: "K \<noteq> [] \<Longrightarrow> K = butlast K @ [last K]"
  by simp

text \<open>One round: the closure runs on the read element and the last kept one.\<close>

lemma dedup_round:
  assumes rp: "rep c d ((K0 @ [k]) @ R @ x # rest)" and v: "val_ok c a" "val_ok c b"
  defines "i \<equiv> Suc (length K0) + length R"
  obtains m1 cs where
    "ptr_offset c (eptr d) (int i) = eptr d + i * esize c"
    "ptr_offset c (eptr d) (int (length K0)) = eptr d + length K0 * esize c"
    "ptr_offset c (eptr d + length K0 * esize c) 1 = eptr d + Suc (length K0) * esize c"
    "ptr_read c (buf d) (eptr d + i * esize c) = Inr x"
    "ptr_read c (buf d) (eptr d + length K0 * esize c) = Inr k"
    "ptr_write c (buf d) (eptr d + i * esize c) a = Inr m1"
    "ptr_write c m1 (eptr d + length K0 * esize c) b = Inr ((buf d)\<lparr>cells := cs\<rparr>)"
    "evolves c d (d\<lparr>buf := (buf d)\<lparr>cells := cs\<rparr>\<rparr>) ((K0 @ [b]) @ R @ a # rest)"
proof -
  note wf = rep_wf[OF rp]
  let ?xs = "(K0 @ [k]) @ R @ x # rest"
  have i: "i < length ?xs" "length K0 < length ?xs" by (simp_all add: i_def)
  have le: "i \<le> capacity d" "length K0 \<le> capacity d" "Suc (length K0) \<le> capacity d"
    using i rep_len_le[OF rp] by (simp_all add: i_def)
  obtain cs where cs: "ptr_write c (buf d) (eptr d + i * esize c) a = Inr ((buf d)\<lparr>cells := cs\<rparr>)"
    "evolves c d (d\<lparr>buf := (buf d)\<lparr>cells := cs\<rparr>\<rparr>) (?xs[i := a])"
    using rep_write[OF rp i(1) v(1)] .
  let ?d = "d\<lparr>buf := (buf d)\<lparr>cells := cs\<rparr>\<rparr>"
  have j: "length K0 < length (?xs[i := a])" by simp
  obtain cs' where cs': "ptr_write c (buf ?d) (eptr ?d + length K0 * esize c) b = Inr ((buf ?d)\<lparr>cells := cs'\<rparr>)"
    "evolves c ?d (?d\<lparr>buf := (buf ?d)\<lparr>cells := cs'\<rparr>\<rparr>) (?xs[i := a, length K0 := b])"
    using rep_write[OF evolves_rep[OF cs(2)] j v(2)] .
  have eq: "?xs[i := a, length K0 := b] = (K0 @ [b]) @ R @ a # rest"
    by (simp add: i_def list_update_append)
  show ?thesis
  proof (rule that[of "(buf d)\<lparr>cells := cs\<rparr>" cs'])
    show "ptr_read c (buf d) (eptr d + i * esize c) = Inr x"
      using rep_read[OF rp i(1)] by (simp add: i_def nth_append)
    show "ptr_read c (buf d) (eptr d + length K0 * esize c) = Inr k"
      using rep_read[OF rp i(2)] by (simp add: nth_append)
    show "evolves c d (d\<lparr>buf := (buf d)\<lparr>cells := cs'\<rparr>\<rparr>) ((K0 @ [b]) @ R @ a # rest)"
      using evolves_trans[OF cs(2) cs'(2)] eq by simp
  qed (use wf le cs(1) cs'(1) ptr_offset_next[OF wf, of "length K0"] in simp_all)
qed

lemma dedup_loop_rep:
  assumes "rep c d (K @ R @ rest)" "K \<noteq> []" "bucket_ok c f"
    and "dedup_spec f s K R rest = (r, s', K', R', rest')"
  shows "\<exists>d'. dedup_loop c f (eptr d) [length K + length R..<length K + length R + length rest] (length K) s d
            = Inr (r, length K', s', d') \<and> evolves c d d' (K' @ R' @ rest')"
  using assms(1,2,4)
proof (induction rest arbitrary: d K R s)
  case Nil
  then show ?case using evolves_refl[of c d] by auto
next
  case (Cons x rest)
  obtain K0 k where K: "K = K0 @ [k]" using Cons.prems(2) by (metis append_butlast_last_id)
  have rp: "rep c d ((K0 @ [k]) @ R @ x # rest)" using Cons.prems(1) K by simp
  obtain o1 a b s1 where f: "f s x k = (o1, a, b, s1)" by (cases "f s x k")
  have "val_ok c x" "val_ok c k" using rep_vals[OF rp] by simp_all
  then have v: "val_ok c a" "val_ok c b" using assms(3) f unfolding bucket_ok_def by (metis case_prod_conv)+
  define j where "j = Suc (length K0) + length R"
  define rs where "rs = [Suc j..<Suc j + length rest]"
  have j: "length K + length R = j" "length K = Suc (length K0)" using K by (simp_all add: j_def)
  have upt: "[length K + length R..<length K + length R + length (x # rest)] = j # rs"
    by (simp add: K j_def rs_def upt_conv_Cons del: upt_Suc)
  have jw: "j = Suc (length K0) \<longleftrightarrow> R = []" by (simp add: j_def)
  obtain m1 cs where rd:
    "ptr_offset c (eptr d) (int j) = eptr d + j * esize c"
    "ptr_offset c (eptr d) (int (length K0)) = eptr d + length K0 * esize c"
    "ptr_offset c (eptr d + length K0 * esize c) 1 = eptr d + Suc (length K0) * esize c"
    "ptr_read c (buf d) (eptr d + j * esize c) = Inr x"
    "ptr_read c (buf d) (eptr d + length K0 * esize c) = Inr k"
    "ptr_write c (buf d) (eptr d + j * esize c) a = Inr m1"
    "ptr_write c m1 (eptr d + length K0 * esize c) b = Inr ((buf d)\<lparr>cells := cs\<rparr>)"
    and ev: "evolves c d (d\<lparr>buf := (buf d)\<lparr>cells := cs\<rparr>\<rparr>) ((K0 @ [b]) @ R @ a # rest)"
    using dedup_round[OF rp v, folded j_def] .
  let ?d = "d\<lparr>buf := (buf d)\<lparr>cells := cs\<rparr>\<rparr>"
  have small: "Suc (Suc (length K0)) < usize_bound"
    using wf_dequeD(6)[OF rep_wf[OF rp]] rep_len[OF rp] by (simp add: usize_isize_bound)
  have step: "dedup_loop c f (eptr d) (j # rs) (Suc (length K0)) s d =
      (case o1 of None \<Rightarrow> Inr (Unwinding, Suc (length K0), s1, ?d)
       | Some True \<Rightarrow> dedup_loop c f (eptr d) rs (Suc (length K0)) s1 ?d
       | Some False \<Rightarrow> bindE (if R \<noteq> [] then bindE (mem_swap c (eptr d + j * esize c) (eptr d + Suc (length K0) * esize c) (buf ?d))
            (\<lambda>m. Inr (?d\<lparr>buf := m\<rparr>)) else Inr ?d)
          (\<lambda>d'. dedup_loop c f (eptr d) rs (Suc (Suc (length K0))) s1 d'))"
    using rd f small jw by (simp add: Let_def del: mult_Suc split: option.split bool.split)
  have next_range: "[length K1 + length R1..<length K1 + length R1 + length rest] = rs"
    if "length K1 + length R1 = Suc j" for K1 R1 :: "'a list"
    unfolding rs_def using that by simp
  have "\<exists>d'. dedup_loop c f (eptr d) (j # rs) (Suc (length K0)) s d = Inr (r, length K', s', d') \<and>
      evolves c d d' (K' @ R' @ rest')"
  proof (cases o1)
    case None
    then show ?thesis using Cons.prems(3) f K step ev by (auto simp del: dedup_loop.simps)
  next
    case (Some same)
    show ?thesis
    proof (cases same)
      case True
      have spec: "dedup_spec f s1 (K0 @ [b]) (R @ [a]) rest = (r, s', K', R', rest')"
        using Cons.prems(3) f Some True K by simp
      have "rep c ?d ((K0 @ [b]) @ (R @ [a]) @ rest)" using evolves_rep[OF ev] by simp
      from Cons.IH[OF this _ spec] show ?thesis
        using step Some True evolves_trans[OF ev] next_range[of "K0 @ [b]" "R @ [a]"]
        by (auto simp: j_def simp del: dedup_loop.simps)
    next
      case False
      have spec: "dedup_spec f s1 (K0 @ [b, a]) (rotate1 R) rest = (r, s', K', R', rest')"
        using Cons.prems(3) f Some False K by simp
      show ?thesis
      proof (cases "R = []")
        case True
        have "rep c ?d ((K0 @ [b, a]) @ rotate1 R @ rest)" using evolves_rep[OF ev] True by simp
        from Cons.IH[OF this _ spec] show ?thesis
          using step Some \<open>\<not> same\<close> True evolves_trans[OF ev]
            next_range[of "K0 @ [b, a]" "rotate1 R"] by (auto simp: j_def simp del: dedup_loop.simps)
      next
        case R: False
        let ?ys = "(K0 @ [b]) @ R @ a # rest"
        have ij: "j < length ?ys" "Suc (length K0) < length ?ys" using R by (simp_all add: j_def)
        obtain cs2 where m: "mem_swap c (eptr ?d + j * esize c) (eptr ?d + Suc (length K0) * esize c) (buf ?d)
            = Inr ((buf ?d)\<lparr>cells := cs2\<rparr>)"
          "evolves c ?d (?d\<lparr>buf := (buf ?d)\<lparr>cells := cs2\<rparr>\<rparr>) (swap_nth j (Suc (length K0)) ?ys)"
          using mem_swap_rep[OF evolves_rep[OF ev] ij] .
        let ?d2 = "?d\<lparr>buf := (buf ?d)\<lparr>cells := cs2\<rparr>\<rparr>"
        have "swap_nth j (Suc (length K0)) ?ys = (K0 @ [b, a]) @ rotate1 R @ rest"
          using swap_first_rejected[OF R, of "K0 @ [b]" a rest] R
          unfolding swap_nth_commute[of j "Suc (length K0)"] by (simp add: j_def)
        then have ev2: "evolves c d ?d2 ((K0 @ [b, a]) @ rotate1 R @ rest)"
          using evolves_trans[OF ev m(2)] by simp
        from Cons.IH[OF evolves_rep[OF ev2] _ spec] show ?thesis
          using step Some \<open>\<not> same\<close> R m(1) evolves_trans[OF ev2]
            next_range[of "K0 @ [b, a]" "rotate1 R"] by (auto simp: j_def simp del: dedup_loop.simps)
      qed
    qed
  qed
  then show ?case unfolding upt unfolding j(2) .
qed

lemma dedup_spec_Returned: "dedup_spec f s K R xs = (Returned, s', K', R', rest') \<Longrightarrow> rest' = []"
  by (induction f s K R xs rule: dedup_spec.induct) (auto split: prod.splits option.splits bool.splits)

lemma dedup_spec_length:
  "dedup_spec f s K R xs = (r, s', K', R', rest') \<Longrightarrow> K \<noteq> [] \<Longrightarrow>
   K' \<noteq> [] \<and> length K' + length R' + length rest' = length K + length R + length xs"
proof (induction f s K R xs arbitrary: r s' K' R' rest' rule: dedup_spec.induct)
  case (2 f s K R x xs)
  then show ?case by (cases K rule: rev_cases) (auto split: prod.splits option.splits bool.splits)
qed simp

lemma dedup_by_rep:
  assumes r: "rep c d (x # xs)" and f: "bucket_ok c f"
    and spec: "dedup_spec f s [x] [] xs = (e, s', K, R, rest)"
  obtains (Returned) d' where "e = Returned" "dedup_by c f s d w = Inr (Returned, s', d', drop_vals c R w)"
      "evolves c d d' K"
  | (Unwinding) d' where "e = Unwinding" "dedup_by c f s d w = Inr (Unwinding, s', d', w)"
      "evolves c d d' (K @ R @ rest)"
proof (cases "xs = []")
  case True
  then have "e = Returned" "K = [x]" "R = []" "s' = s" using spec by auto
  then show ?thesis
    using that(1)[of d] rep_wf[OF r] rep_len[OF r] True evolves_refl[OF r] by (simp add: dedup_by_def)
next
  case False
  have "rep c d ([x] @ [] @ xs)" using r by simp
  from dedup_loop_rep[OF this _ f spec] obtain d1 where
    d1: "dedup_loop c f (eptr d) [1..<Suc (length xs)] 1 s d = Inr (e, length K, s', d1)"
      "evolves c d d1 (K @ R @ rest)" by auto
  have len: "deque_len c d = Inr (Suc (length xs))" using rep_wf[OF r] rep_len[OF r] by simp
  show ?thesis
  proof (cases e)
    case Unwinding
    then show ?thesis using that(2) d1 len False by (simp add: dedup_by_def del: upt_Suc)
  next
    case Returned
    with spec have rest: "rest = []" using dedup_spec_Returned by metis
    obtain d2 where d2: "truncate_back c (length K) d1 w = Inr (d2, drop_vals c (drop (length K) (K @ R)) w)"
      "evolves c d1 d2 (take (length K) (K @ R))"
      using truncate_back_rep[OF evolves_rep[OF d1(2)], of "length K" w] rest by auto
    then show ?thesis using that(1)[of d2] d1 len Returned False evolves_trans[OF d1(2) d2(2)]
      by (simp add: dedup_by_def truncate_def del: upt_Suc)
  qed
qed

text \<open>For a comparison without effects: the first of every run of elements equal to it.\<close>

fun dedup_list :: "('a \<Rightarrow> 'a \<Rightarrow> bool) \<Rightarrow> 'a \<Rightarrow> 'a list \<Rightarrow> 'a list" where
  "dedup_list eq k [] = [k]"
| "dedup_list eq k (x # xs) = (if eq x k then dedup_list eq k xs else k # dedup_list eq x xs)"

lemma dedup_spec_list:
  "\<exists>R'. dedup_spec (\<lambda>s a b. (Some (eq a b), a, b, s)) s (K @ [k]) R xs
     = (Returned, s, K @ dedup_list eq k xs, R', []) \<and>
     mset (dedup_list eq k xs) + mset R' = add_mset k (mset R + mset xs)"
proof (induction xs arbitrary: K k R)
  case (Cons x xs)
  then show ?case using Cons[of K k "R @ [x]"] Cons[of "K @ [k]" x "rotate1 R"] by (cases "eq x k") auto
qed simp

text \<open>No two neighbours of the result are equal.\<close>

lemma dedup_list_hd: "hd (dedup_list eq k xs) = k \<and> dedup_list eq k xs \<noteq> []"
  by (induction xs arbitrary: k) auto

lemma dedup_list_distinct_neighbours:
  "successively (\<lambda>a b. \<not> eq b a) (dedup_list eq k xs)"
proof (induction xs arbitrary: k)
  case (Cons x xs)
  show ?case using dedup_list_hd[of eq x xs] Cons[of x] Cons[of k]
    by (cases "dedup_list eq x xs") (auto simp: successively_Cons)
qed simp

lemma bucket_ok_pure: "bucket_ok c (\<lambda>s a b. (Some (eq a b), a, b, s))"
  by (simp add: bucket_ok_def)

text \<open>When the comparison panics nothing has been dropped and no element has been lost.\<close>

lemma dedup_spec_mset:
  assumes f: "\<And>s a b. fst (snd (f s a b)) = a \<and> fst (snd (snd (f s a b))) = b"
  shows "dedup_spec f s K R xs = (r, s', K', R', rest') \<Longrightarrow> K \<noteq> [] \<Longrightarrow>
    mset K' + mset R' + mset rest' = mset K + mset R + mset xs"
proof (induction xs arbitrary: s K R)
  case (Cons x xs)
  obtain K0 k where K: "K = K0 @ [k]" using Cons.prems(2) by (cases K rule: rev_cases) auto
  obtain o1 a b s1 where e: "f s x k = (o1, a, b, s1)" by (cases "f s x k")
  then have ab: "a = x" "b = k" using f[of s x k] by (simp_all add: e)
  show ?case
  proof (cases o1)
    case None
    then show ?thesis using Cons.prems(1) K e ab by auto
  next
    case (Some same)
    then show ?thesis
      using Cons.prems(1) K e ab Cons.IH[of s1 "K0 @ [k]" "R @ [x]"] Cons.IH[of s1 "K0 @ [k, x]" "rotate1 R"]
      by (cases same) auto
  qed
qed simp

end
