(* ===== verification/Bulk.thy ===== *)
theory Bulk
  imports Lifecycle
begin

text \<open>
  Moving runs of elements between memories: the bytes of a slice, \<open>append_elements\<close>, \<open>append\<close>,
  \<open>steal_from_slice\<close>, \<open>split_off\<close>, and \<open>insert\<close> with its reservation.
\<close>

text \<open>The bytes of the values \<open>vs\<close>, one after the other.\<close>

definition enc_all :: "nat \<Rightarrow> 'a list \<Rightarrow> 'a cell list" where
  "enc_all sz vs = concat (map (enc sz) vs)"

lemma length_enc_all [simp]: "length (enc_all sz vs) = length vs * sz"
  by (induction vs) (simp_all add: enc_all_def)

lemma enc_all_nth: "i < length vs \<Longrightarrow> take sz (drop (i * sz) (enc_all sz vs)) = enc sz (vs ! i)"
proof (induction vs arbitrary: i)
  case (Cons v vs)
  then show ?case by (cases i) (simp_all add: enc_all_def)
qed simp

lemma enc_all_Nil_iff [simp]: "enc_all sz vs = [] \<longleftrightarrow> length vs * sz = 0"
  by (metis length_enc_all length_0_conv)

lemma view_write_run:
  assumes c: "cfg_ok c" "wf_buffer c b" "head_ok c b a" and j: "j + length vs \<le> blen b div 2"
  obtains cs where "ptr_copy_from c (enc_all (esize c) vs) b (a + j * esize c) = Inr (b\<lparr>cells := cs\<rparr>)"
    "length cs = length (cells b)"
    "view c (b\<lparr>cells := cs\<rparr>) a = splice_at (view c b a) j (map (enc (esize c)) vs)"
proof (cases "length vs * esize c = 0")
  case True
  then have "ptr_copy_from c (enc_all (esize c) vs) b (a + j * esize c) = Inr (b\<lparr>cells := cells b\<rparr>)"
    by (simp add: ptr_copy_from_def)
  moreover have "view c (b\<lparr>cells := cells b\<rparr>) a = splice_at (view c b a) j (map (enc (esize c)) vs)"
    using True j by (intro nth_equalityI) (auto simp: nth_splice_at bslot_def enc_def)
  ultimately show ?thesis using that by blast
next
  case False
  then have n0: "0 < length vs * esize c" by simp
  note w = window_in_mapping[OF c j n0]
  let ?cs = "write_cells (cells b) (a - bptr b + j * esize c) (enc_all (esize c) vs)"
  have "length vs * esize c \<le> length (cells b)"
    using w(2) j by (meson add_leD2 le_trans mult_le_mono1)
  then have "ptr_copy_from c (enc_all (esize c) vs) b (a + j * esize c) = Inr (b\<lparr>cells := ?cs\<rparr>)"
    using False w(1,4) by (simp add: ptr_copy_from_def)
  moreover have "view c (b\<lparr>cells := ?cs\<rparr>) a = splice_at (view c b a) j (map (enc (esize c)) vs)"
  proof (rule nth_equalityI)
    fix i assume "i < length (view c (b\<lparr>cells := ?cs\<rparr>) a)"
    then have i: "i < blen b div 2" by simp
    have off: "a + i * esize c - bptr b = a - bptr b + i * esize c"
      using c(3) by (simp add: head_ok_def)
    show "view c (b\<lparr>cells := ?cs\<rparr>) a ! i = splice_at (view c b a) j (map (enc (esize c)) vs) ! i"
      using slot_write_slots[OF w(2) j i, of "enc_all (esize c) vs" "a - bptr b"] i j off
        enc_all_nth[of "i - j" vs "esize c"]
      by (auto simp: bslot_def nth_splice_at)
  qed (use j in simp)
  ultimately show ?thesis using that by simp
qed

text \<open>Writing a run behind the last element, then extending the tail over it.\<close>

lemma rep_append_run:
  assumes r: "rep c d xs" and n: "length xs + length vs \<le> capacity d" and v: "list_all (val_ok c) vs"
  obtains cs where
    "ptr_copy_from c (enc_all (esize c) vs) (buf d) (ptr_offset c (eptr d) (int (length xs))) = Inr ((buf d)\<lparr>cells := cs\<rparr>)"
    "move_tail_unchecked c (d\<lparr>buf := (buf d)\<lparr>cells := cs\<rparr>\<rparr>) (to_isize (length vs))
       = Inr (d\<lparr>buf := (buf d)\<lparr>cells := cs\<rparr>, elen := length xs + length vs\<rparr>)"
    "evolves c d (d\<lparr>buf := (buf d)\<lparr>cells := cs\<rparr>, elen := length xs + length vs\<rparr>) (xs @ vs)"
proof -
  note wf = rep_wf[OF r] and len = rep_len[OF r]
  note w = wf_dequeD[OF wf]
  have j: "length xs + length vs \<le> blen (buf d) div 2" using n by (simp add: capacity_def)
  obtain cs where cs:
    "ptr_copy_from c (enc_all (esize c) vs) (buf d) (eptr d + length xs * esize c) = Inr ((buf d)\<lparr>cells := cs\<rparr>)"
    "length cs = length (cells (buf d))"
    "view c ((buf d)\<lparr>cells := cs\<rparr>) (eptr d) = splice_at (view c (buf d) (eptr d)) (length xs) (map (enc (esize c)) vs)"
    using view_write_run[OF w(1-3) j] .
  let ?d = "d\<lparr>buf := (buf d)\<lparr>cells := cs\<rparr>\<rparr>"
  have wf1: "wf_deque c ?d" by (rule wf_update_buf[OF wf cs(2)])
  have x: "- int (elen ?d) \<le> int (length vs)" "int (length vs) \<le> int (capacity ?d - elen ?d)" using n len by simp_all
  have eq: "nat (int (elen ?d) + int (length vs)) = length xs + length vs" using len by simp
  note m = move_tail_ok[OF wf1 x, unfolded eq]
  have sm: "to_isize (length vs) = int (length vs)" using n w(5) by simp
  have "take (length (xs @ vs)) (dview c ?d) = map (enc (esize c)) (xs @ vs)"
    using cs(3) rep_take_view[OF r] n by (simp add: dview_def splice_at_def capacity_def)
  then have "rep c (?d\<lparr>elen := length xs + length vs\<rparr>) (xs @ vs)"
    using m(2) rep_vals[OF r] v by (intro rep_view) simp_all
  then have "evolves c d (?d\<lparr>elen := length xs + length vs\<rparr>) (xs @ vs)"
    using cs(2) by (simp add: evolves_def capacity_def)
  moreover have "ptr_offset c (eptr d) (int (length xs)) = eptr d + length xs * esize c"
    using ptr_offset_slot[OF wf, of "length xs"] n by simp
  ultimately show ?thesis using that[of cs] cs(1) m(1) sm by simp
qed

lemma read_cells_slots: "read_cells mem w (n * sz) = concat (map (\<lambda>i. slot sz mem (w + i * sz)) [0..<n])"
proof (induction n)
  case (Suc n)
  have split: "read_cells mem w (k + m) = read_cells mem w k @ read_cells mem (w + k) m" for k m
    by (rule nth_equalityI) (auto simp: read_cells_def nth_append add.assoc)
  show ?case using split[of "n * sz" sz] Suc by (simp add: add.commute)
qed simp

lemma slice_cells_view:
  assumes wf: "wf_deque c d" and le: "i + length vs \<le> blen (buf d) div 2"
    and slots: "\<And>k. k < length vs \<Longrightarrow> dview c d ! (i + k) = enc (esize c) (vs ! k)"
  shows "slice_cells c (buf d) (eptr d + i * esize c) (length vs) = Inr (enc_all (esize c) vs)"
proof (cases "length vs * esize c = 0")
  case True
  then have "enc_all (esize c) vs = []" by (simp only: enc_all_Nil_iff)
  then show ?thesis using True unfolding slice_cells_def by (simp only: if_True refl)
next
  case False
  note w = wf_dequeD[OF wf]
  have pos: "0 < length vs * esize c" using False by simp
  note win = window_in_mapping[OF w(1-3) le pos]
  let ?o = "eptr d - bptr (buf d) + i * esize c"
  have "map (\<lambda>k. slot (esize c) (cells (buf d)) (?o + k * esize c)) [0..<length vs] = map (enc (esize c)) vs"
  proof (rule nth_equalityI)
    fix k assume "k < length (map (\<lambda>k. slot (esize c) (cells (buf d)) (?o + k * esize c)) [0..<length vs])"
    then have k: "k < length vs" by auto
    have "eptr d + (i + k) * esize c - bptr (buf d) = ?o + k * esize c"
      using w(3) by (simp add: head_ok_def add_mult_distrib)
    then show "map (\<lambda>k. slot (esize c) (cells (buf d)) (?o + k * esize c)) [0..<length vs] ! k
        = map (enc (esize c)) vs ! k"
      using slots[OF k] k le by (simp add: dview_def bslot_def)
  qed simp
  then have "read_cells (cells (buf d)) ?o (length vs * esize c) = enc_all (esize c) vs"
    unfolding read_cells_slots enc_all_def by (rule arg_cong)
  then show ?thesis using win(1,4) False by (simp add: slice_cells_def)
qed

lemma slice_cells_run:
  assumes r: "rep c d xs" and n: "i + n \<le> length xs"
  shows "slice_cells c (buf d) (eptr d + i * esize c) n = Inr (enc_all (esize c) (take n (drop i xs)))"
proof -
  have l: "length (take n (drop i xs)) = n" using n by simp
  have le: "i + n \<le> blen (buf d) div 2" using n rep_len_le[OF r] by (simp add: capacity_def)
  have "\<And>k. k < n \<Longrightarrow> dview c d ! (i + k) = enc (esize c) (take n (drop i xs) ! k)"
    using rep_slot[OF r] n by simp
  then show ?thesis using slice_cells_view[OF rep_wf[OF r], of i "take n (drop i xs)"] le unfolding l by blast
qed

lemma slice_cells_rep: "rep c d xs \<Longrightarrow> slice_cells c (buf d) (eptr d) (elen d) = Inr (enc_all (esize c) xs)"
  using slice_cells_run[of c d xs 0 "length xs"] rep_len[of c d xs] by simp

text \<open>A copy between memories is a read of the bytes and a write of them.\<close>

lemma ptr_copy_nonoverlapping_bytes:
  "ptr_copy_nonoverlapping c from src b dst n = bindE (slice_cells c from src n) (\<lambda>bytes. ptr_copy_from c bytes b dst)"
  by (simp add: ptr_copy_nonoverlapping_def slice_cells_def ptr_copy_from_def Let_def)

text \<open>
  What an operation that may grow \<open>d\<close> from \<open>n\<close> by \<open>k\<close> elements needs of the sizes: the doubled
  capacity fits in the address space. It holds for every request that is not absurd.
\<close>

definition room :: "('a, 'os) cfg \<Rightarrow> 'a deque \<Rightarrow> nat \<Rightarrow> nat \<Rightarrow> bool" where
  "room c d n k \<longleftrightarrow> n + k < usize_bound \<and> (capacity d < n + k \<longrightarrow> fits c (max (n + k) (2 * capacity d))) \<and>
     (esize c = 0 \<longrightarrow> n + k \<le> isize_max)"

text \<open>The outcomes of an operation that panics when its reservation fails.\<close>

definition grows ::
    "('a, 'os) cfg \<Rightarrow> ('os \<Rightarrow> bool) \<Rightarrow> ('os \<Rightarrow> (nat \<times> nat) set) \<Rightarrow>
     'a deque \<Rightarrow> ('a, 'os) world \<Rightarrow> 'a list \<Rightarrow> fault + ('a deque \<times> ('a, 'os) world) \<Rightarrow> bool" where
  "grows c os_ok owned d w ys m \<longleftrightarrow>
     (\<exists>e. m = panic (CalledUnwrapOnErr e)) \<or>
     (\<exists>d' s. m = Inr (d', w\<lparr>os := s\<rparr>) \<and> holds c os_ok owned d' (w\<lparr>os := s\<rparr>) ys \<and>
             others c owned d' (w\<lparr>os := s\<rparr>) = others c owned d w)"

context deque_env
begin

lemma room_1:
  assumes h: "holds c os_ok owned d w xs" and n: "length xs < isize_max" and f: "length xs = capacity d"
  shows "room c d (length xs) 1"
proof -
  have "fits c (max (capacity d + 1) (2 * capacity d))"
    using fits_double[OF holds_wf[OF h]] rep_len[OF holds_rep[OF h]] f n by simp
  then show ?thesis using n f by (simp add: room_def isize_max_def usize_isize_bound)
qed

lemma append_elements_cases:
  assumes h: "holds c os_ok owned d w xs" and k: "room c d (length xs) (length vs)"
    and v: "list_all (val_ok c) vs"
  obtains (Err) e where "append_elements c (enc_all (esize c) vs, length vs) d w = panic (CalledUnwrapOnErr e)"
      "capacity d < length xs + length vs"
  | (Ok) d' s where "append_elements c (enc_all (esize c) vs, length vs) d w = Inr (d', w\<lparr>os := s\<rparr>)"
      "holds c os_ok owned d' (w\<lparr>os := s\<rparr>) (xs @ vs)"
      "others c owned d' (w\<lparr>os := s\<rparr>) = others c owned d w"
proof -
  have k': "length xs + length vs < usize_bound"
    "capacity d < length xs + length vs \<longrightarrow> fits c (max (length xs + length vs) (2 * capacity d))"
    "esize c = 0 \<longrightarrow> length xs + length vs \<le> isize_max" using k by (simp_all add: room_def)
  show ?thesis
  proof (cases rule: reserve_cases[OF h k'])
    case (1 e)
    then show ?thesis using Err by (simp add: append_elements_def)
  next
    case (2 d' s)
    have r: "rep c d' xs" by (rule holds_rep[OF 2(2)])
    obtain cs where cs:
      "ptr_copy_from c (enc_all (esize c) vs) (buf d') (ptr_offset c (eptr d') (int (length xs))) = Inr ((buf d')\<lparr>cells := cs\<rparr>)"
      "move_tail_unchecked c (d'\<lparr>buf := (buf d')\<lparr>cells := cs\<rparr>\<rparr>) (to_isize (length vs))
         = Inr (d'\<lparr>buf := (buf d')\<lparr>cells := cs\<rparr>, elen := length xs + length vs\<rparr>)"
      "evolves c d' (d'\<lparr>buf := (buf d')\<lparr>cells := cs\<rparr>, elen := length xs + length vs\<rparr>) (xs @ vs)"
      using rep_append_run[OF r 2(4) v] .
    have "append_elements c (enc_all (esize c) vs, length vs) d w =
        Inr (d'\<lparr>buf := (buf d')\<lparr>cells := cs\<rparr>, elen := length xs + length vs\<rparr>, w\<lparr>os := s\<rparr>)"
      using 2(1) rep_wf[OF r] rep_len[OF r] cs(1,2) by (simp add: append_elements_def)
    then show ?thesis by (rule Ok) (use holds_evolves[OF 2(2) cs(3) refl] 2(3) in auto)
  qed
qed

lemma append_elements_grows:
  assumes "holds c os_ok owned d w xs" "room c d (length xs) (length vs)" "list_all (val_ok c) vs"
  shows "grows c os_ok owned d w (xs @ vs) (append_elements c (enc_all (esize c) vs, length vs) d w)"
  unfolding grows_def by (rule append_elements_cases[OF assms]) blast+

text \<open>
  \<open>append\<close> of another deque that lives in the same world: the elements move, \<open>other\<close> keeps its
  region and is empty.
\<close>

lemma append_cases:
  assumes h: "holds c os_ok owned d w xs" and o: "holds c os_ok owned other w ys"
    and disj: "regions c (buf d) \<inter> regions c (buf other) = {}"
    and k: "room c d (length xs) (length ys)"
  obtains (Err) e where "append c d other w = panic (CalledUnwrapOnErr e)"
  | (Ok) d' other' s where "append c d other w = Inr (d', other', w\<lparr>os := s\<rparr>)"
      "holds c os_ok owned d' (w\<lparr>os := s\<rparr>) (xs @ ys)"
      "holds c os_ok owned other' (w\<lparr>os := s\<rparr>) []" "buf other' = buf other"
      "others c owned d' (w\<lparr>os := s\<rparr>) = others c owned d w"
proof -
  have ro: "rep c other ys" by (rule holds_rep[OF o])
  have ap: "append c d other w = bindE (append_elements c (enc_all (esize c) ys, length ys) d w)
      (\<lambda>(d, w). Inr (d, other\<lparr>eptr := bptr (buf other), elen := 0\<rparr>, w))"
    using slice_cells_rep[OF ro] rep_len[OF ro] by (simp add: append_def)
  note g = append_elements_grows[OF h k rep_vals[OF ro], unfolded grows_def]
  then show ?thesis
  proof (elim disjE exE conjE)
    fix e assume "append_elements c (enc_all (esize c) ys, length ys) d w = panic (CalledUnwrapOnErr e)"
    then show ?thesis using Err ap by simp
  next
    fix d' s
    assume a: "append_elements c (enc_all (esize c) ys, length ys) d w = Inr (d', w\<lparr>os := s\<rparr>)"
      and h': "holds c os_ok owned d' (w\<lparr>os := s\<rparr>) (xs @ ys)"
      and f: "others c owned d' (w\<lparr>os := s\<rparr>) = others c owned d w"
    let ?o = "other\<lparr>eptr := bptr (buf other), elen := 0\<rparr>"
    note w = wf_dequeD[OF rep_wf[OF ro]]
    have "rep c ?o []" using w head_ok_bptr[OF w(1,2)] by (simp add: rep_def wf_deque_def)
    moreover have "regions c (buf other) \<subseteq> others c owned d w"
      using o disj by (auto simp: holds_def others_def)
    then have "regions c (buf other) \<subseteq> owned s" using f by (auto simp: others_def)
    ultimately have "holds c os_ok owned ?o (w\<lparr>os := s\<rparr>) []" using h' by (simp add: holds_def)
    then show ?thesis using Ok[of d' ?o s] a ap h' f by simp
  qed
qed

lemma steal_from_slice_grows:
  assumes w: "os_ok (os w)" and k: "room c (deque_new c) 0 (length vs)" and v: "list_all (val_ok c) vs"
  shows "grows c os_ok owned (deque_new c) w vs (steal_from_slice c (enc_all (esize c) vs, length vs) w)"
  using append_elements_grows[OF new_holds[of w], of vs] assms by (simp add: steal_from_slice_def)

text \<open>\<open>insert\<close> where its copy is right: at the two front positions and in the back half.\<close>

lemma deque_insert_grows:
  assumes h: "holds c os_ok owned d w xs" and i: "i \<le> length xs" "i \<le> 1 \<or> length xs div 2 < i"
    and n: "length xs < isize_max" and v: "val_ok c v"
  shows "grows c os_ok owned d w (take i xs @ v # drop i xs) (deque_insert c i v d w)"
proof -
  have gap: "\<exists>p d1 b. open_gap c i (length xs) d' = Inr (p, d1) \<and> ptr_write c (buf d1) p v = Inr b \<and>
      evolves c d' (d1\<lparr>buf := b\<rparr>) (take i xs @ v # drop i xs)"
    if "rep c d' xs" "length xs < capacity d'" for d'
  proof (cases "length xs div 2 < i")
    case True
    then show ?thesis using insert_back_rep[OF that(1) i(1) True that(2) v] by metis
  next
    case False
    then have i': "i \<le> 1" "i \<le> length xs div 2" using i by auto
    show ?thesis using insert_front_rep[OF that(1) i' that(2) v] by metis
  qed
  have r: "rep c d xs" by (rule holds_rep[OF h])
  note wf = rep_wf[OF r] and len = rep_len[OF r]
  have rest: "grows c os_ok owned d w (take i xs @ v # drop i xs)
      (bindE (open_gap c i (length xs) d') (\<lambda>(p, d). bindE (ptr_write c (buf d) p v) (\<lambda>b. Inr (d\<lparr>buf := b\<rparr>, w\<lparr>os := s\<rparr>))))"
    if d': "holds c os_ok owned d' (w\<lparr>os := s\<rparr>) xs" "others c owned d' (w\<lparr>os := s\<rparr>) = others c owned d w"
      "length xs < capacity d'" for d' s
  proof -
    obtain p d1 b where g: "open_gap c i (length xs) d' = Inr (p, d1)" "ptr_write c (buf d1) p v = Inr b"
      "evolves c d' (d1\<lparr>buf := b\<rparr>) (take i xs @ v # drop i xs)" using gap[OF holds_rep[OF d'(1)] d'(3)] by blast
    then show ?thesis using holds_evolves[OF d'(1) g(3) refl] d'(2) unfolding grows_def by auto
  qed
  show ?thesis
  proof (cases "length xs = capacity d")
    case False
    then have "length xs < capacity d" using rep_len_le[OF r] by simp
    then show ?thesis using rest[of d "os w"] h wf len i(1) by (simp add: deque_insert_def)
  next
    case True
    have k: "length xs + 1 < usize_bound" "capacity d < length xs + 1 \<longrightarrow> fits c (max (length xs + 1) (2 * capacity d))"
      "esize c = 0 \<longrightarrow> length xs + 1 \<le> isize_max" using room_1[OF h n True] by (simp_all add: room_def)
    show ?thesis
    proof (cases rule: reserve_cases[OF h k])
      case (1 e)
      then show ?thesis using wf len i(1) True by (simp add: deque_insert_def grows_def)
    next
      case (2 d' s)
      then show ?thesis using rest[OF 2(2,3)] wf len i(1) True by (simp add: deque_insert_def)
    qed
  qed
qed

text \<open>\<open>split_off\<close>: the tail moves into a fresh region.\<close>

lemma split_off_cases:
  assumes h: "holds c os_ok owned d w xs" and i: "i \<le> length xs" and n: "fits c (length xs - i)"
  obtains (Err) e where "split_off c i d w = panic (AllocationFailed e)"
  | (Ok) d' other s where "split_off c i d w = Inr (d', other, w\<lparr>os := s\<rparr>)"
      "holds c os_ok owned d' (w\<lparr>os := s\<rparr>) (take i xs)"
      "holds c os_ok owned other (w\<lparr>os := s\<rparr>) (drop i xs)"
      "buf d' = buf d" "regions c (buf other) \<inter> owned (os w) = {}"
      "owned s = owned (os w) \<union> regions c (buf other)"
proof -
  have r: "rep c d xs" by (rule holds_rep[OF h])
  note wf = rep_wf[OF r] and len = rep_len[OF r] and le = rep_len_le[OF r]
  note w = wf_dequeD[OF wf]
  define k where "k = length xs - i"
  have k: "k \<le> length xs" "length xs - k = i" "k < isize_bound" using i w(6) len by (auto simp: k_def)
  have w0: "os_ok (os w)" using h by (simp add: holds_def)
  show ?thesis
  proof (cases rule: with_capacity_cases[OF w0 n])
    case (1 e)
    then show ?thesis using Err[of e] wf len i by (simp add: split_off_def)
  next
    case (2 o1 s)
    have ro: "rep c o1 []" by (rule holds_rep[OF 2(2)])
    note wo = wf_dequeD[OF rep_wf[OF ro]]
    have eo: "elen o1 = 0" using rep_len[OF ro] by simp
    have x: "- int (elen o1) \<le> int k" "int k \<le> int (capacity o1 - elen o1)"
      using 2(3) eo by (simp_all add: k_def)
    have eq: "nat (int (elen o1) + int k) = k" using eo by simp
    note mo = move_tail_ok[OF rep_wf[OF ro] x, unfolded eq]
    note mt = rep_drop_tail(1,3)[OF r k(1), unfolded k(2)]
    have nn: "k \<le> blen (buf d) div 2" "k \<le> blen (buf o1) div 2"
      using k(1) le 2(3) by (simp_all add: capacity_def k_def)
    have le0: "0 + length (drop i xs) \<le> blen (buf o1) div 2" using nn(2) by (simp add: k_def)
    obtain cs where cs: "ptr_copy_from c (enc_all (esize c) (drop i xs)) (buf o1) (eptr o1 + 0 * esize c) = Inr ((buf o1)\<lparr>cells := cs\<rparr>)"
      "length cs = length (cells (buf o1))"
      "view c ((buf o1)\<lparr>cells := cs\<rparr>) (eptr o1) = splice_at (view c (buf o1) (eptr o1)) 0 (map (enc (esize c)) (drop i xs))"
      using view_write_run[OF wo(1-3) le0] .
    let ?o = "o1\<lparr>elen := k, buf := (buf o1)\<lparr>cells := cs\<rparr>\<rparr>"
    have "slice_cells c (buf d) (eptr d + i * esize c) k = Inr (enc_all (esize c) (drop i xs))"
      using slice_cells_run[OF r, of i k] i by (simp add: k_def)
    moreover have "ptr_offset c (eptr d) (int i) = eptr d + i * esize c"
      using ptr_offset_slot[OF wf, of i] i le by simp
    ultimately have cp: "ptr_copy_nonoverlapping c (buf d) (ptr_offset c (eptr d) (int i)) (buf o1) (eptr o1) k
        = Inr ((buf o1)\<lparr>cells := cs\<rparr>)"
      using cs(1) by (simp add: ptr_copy_nonoverlapping_bytes)
    have lo: "deque_len c (o1\<lparr>elen := k\<rparr>) = Inr k" using mo(2) by simp
    have run: "split_off c i d w = Inr (d\<lparr>elen := i\<rparr>, ?o, w\<lparr>os := s\<rparr>)"
      using wf len i 2(1) mt(1) mo(1) cp lo k(3) by (simp add: split_off_def k_def[symmetric])
    have "wf_deque c ?o" using wf_update_buf[OF mo(2), of cs] cs(2) by simp
    moreover have "take k (dview c ?o) = map (enc (esize c)) (drop i xs)"
      using cs(3) by (simp add: dview_def splice_at_def k_def)
    ultimately have "rep c ?o (drop i xs)"
      using rep_vals[OF r] by (intro rep_view) (simp_all add: k_def list_all_take_drop)
    moreover have "regions c (buf ?o) = regions c (buf o1)" using cs(2) by simp
    ultimately show ?thesis
      using Ok[OF run] mt(2) k(2) 2(2,5,6) h by (auto simp: holds_def)
  qed
qed

end

end
