(* ===== verification/Extend.thy ===== *)
theory Extend
  imports Bulk
begin

text \<open>
  Appending many elements (\<open>src/lib.rs\<close>): \<open>extend\<close> and \<open>from_iter\<close> with their specialisations,
  \<open>extend_with\<close>, \<open>resize\<close>, \<open>resize_default\<close>, \<open>from_elem\<close>, \<open>clone\<close>, \<open>clone_from\<close>, \<open>From\<close> and
  \<open>extend_from_slice\<close>. A finite iterator is the list of the items it will still give and a
  function \<open>hint\<close> that says what its \<open>size_hint\<close> answers when a given list is left; safe code may
  implement it wrongly, so nothing is assumed of it unless a lemma says so. \<open>cl\<close> is the element
  type's \<open>Clone\<close> and \<open>df\<close> its \<open>Default\<close>; they answer \<open>None\<close> when they panic.
\<close>

type_synonym 'a hint = "'a list \<Rightarrow> nat \<times> nat option"

subsection \<open>From iterators\<close>

fun extend_desugared ::
    "('a, 'os) cfg \<Rightarrow> 'a hint \<Rightarrow> 'a list \<Rightarrow> 'a deque \<Rightarrow> ('a, 'os) world \<Rightarrow>
     fault + ('a deque \<times> ('a, 'os) world)" where
  "extend_desugared c hint [] d w = Inr (d, w)"
| "extend_desugared c hint (element # rest) d w =
     bindE (deque_len c d) (\<lambda>len.
     let cap = capacity d in
     bindE (if len = cap then
              (let (lower, upper) = hint rest in
               case checked_add (case upper of Some u \<Rightarrow> u | None \<Rightarrow> lower) 1 of
                 None \<Rightarrow> panic ExpectFailed
               | Some additional_cap \<Rightarrow> reserve c d additional_cap w)
            else Inr (d, w)) (\<lambda>(d, w).
     bindE (debug_assert_m (debug c) (bindE (deque_len c d) (\<lambda>n. Inr (n < capacity d)))) (\<lambda>_.
     bindE (ptr_write c (buf d) (ptr_offset c (eptr d) (int len)) element) (\<lambda>b.
     bindE (move_tail_unchecked c (d\<lparr>buf := b\<rparr>) 1) (\<lambda>d.
     extend_desugared c hint rest d w)))))"

definition from_iter_default ::
    "('a, 'os) cfg \<Rightarrow> 'a hint \<Rightarrow> 'a list \<Rightarrow> ('a, 'os) world \<Rightarrow>
     fault + ('a deque \<times> ('a, 'os) world)" where
  "from_iter_default c hint items w =
     (case items of
        [] \<Rightarrow> Inr (deque_new c, w)
      | element # rest \<Rightarrow>
          (let (lower, _) = hint rest in
           bindE (with_capacity c (saturating_add lower 1) w) (\<lambda>(d, w).
           bindE (ptr_write c (buf d) (eptr d) element) (\<lambda>b.
           bindE (move_tail_unchecked c (d\<lparr>buf := b\<rparr>) 1) (\<lambda>d.
           extend_desugared c hint rest d w)))))"

text \<open>Writing at a pointer that runs along, the tail following it.\<close>

fun write_run ::
    "('a, 'os) cfg \<Rightarrow> 'a list \<Rightarrow> nat \<Rightarrow> 'a deque \<Rightarrow> fault + 'a deque" where
  "write_run c [] p d = Inr d"
| "write_run c (v # vs) p d =
     bindE (ptr_write c (buf d) p v) (\<lambda>b.
     bindE (move_tail_unchecked c (d\<lparr>buf := b\<rparr>) 1) (\<lambda>d.
     write_run c vs (ptr_offset c p 1) d))"

text \<open>The specialisation for \<open>TrustedLen\<close> iterators.\<close>

definition spec_extend_trusted ::
    "('a, 'os) cfg \<Rightarrow> 'a hint \<Rightarrow> 'a list \<Rightarrow> 'a deque \<Rightarrow> ('a, 'os) world \<Rightarrow>
     fault + ('a deque \<times> ('a, 'os) world)" where
  "spec_extend_trusted c hint items d w =
     (let (low, high) = hint items in
      bindE (case high of Some h \<Rightarrow> debug_assert (debug c) (low = h) | None \<Rightarrow> Inr ()) (\<lambda>_.
      case high of
        Some additional \<Rightarrow>
          bindE (reserve c d additional w) (\<lambda>(d, w).
          bindE (deque_len c d) (\<lambda>len.
          bindE (write_run c items (ptr_offset c (eptr d) (int len)) d) (\<lambda>d.
          Inr (d, w))))
      | None \<Rightarrow> extend_desugared c hint items d w))"

subsection \<open>From generators and clones\<close>

datatype 'a extend_with = ExtendElement 'a | ExtendDefault

definition ew_next :: "('a \<Rightarrow> 'a option) \<Rightarrow> 'a option \<Rightarrow> 'a extend_with \<Rightarrow> 'a option" where
  "ew_next cl df value = (case value of ExtendElement v \<Rightarrow> cl v | ExtendDefault \<Rightarrow> df)"

definition ew_last :: "'a option \<Rightarrow> 'a extend_with \<Rightarrow> 'a option" where
  "ew_last df value = (case value of ExtendElement v \<Rightarrow> Some v | ExtendDefault \<Rightarrow> df)"

text \<open>A generator that has not been consumed is dropped at the end of the function.\<close>

definition ew_drop :: "('a, 'os) cfg \<Rightarrow> 'a extend_with \<Rightarrow> ('a, 'os) world \<Rightarrow> ('a, 'os) world" where
  "ew_drop c value w = (case value of ExtendElement v \<Rightarrow> drop_vals c [v] w | ExtendDefault \<Rightarrow> w)"

fun extend_with_loop ::
    "('a, 'os) cfg \<Rightarrow> ('a \<Rightarrow> 'a option) \<Rightarrow> 'a option \<Rightarrow> 'a extend_with \<Rightarrow> nat \<Rightarrow> nat \<Rightarrow> 'a deque \<Rightarrow>
     fault + (completion \<times> nat \<times> 'a deque)" where
  "extend_with_loop c cl df value 0 p d = Inr (Returned, p, d)"
| "extend_with_loop c cl df value (Suc n) p d =
     (case ew_next cl df value of
        None \<Rightarrow> Inr (Unwinding, p, d)
      | Some v \<Rightarrow>
          bindE (ptr_write c (buf d) p v) (\<lambda>b.
          bindE (move_tail_unchecked c (d\<lparr>buf := b\<rparr>) 1) (\<lambda>d.
          extend_with_loop c cl df value n (ptr_offset c p 1) d)))"

definition extend_with ::
    "('a, 'os) cfg \<Rightarrow> ('a \<Rightarrow> 'a option) \<Rightarrow> 'a option \<Rightarrow> nat \<Rightarrow> 'a extend_with \<Rightarrow> 'a deque \<Rightarrow>
     ('a, 'os) world \<Rightarrow> fault + (completion \<times> 'a deque \<times> ('a, 'os) world)" where
  "extend_with c cl df n value d w =
     bindE (reserve c d n w) (\<lambda>(d, w).
     bindE (deque_len c d) (\<lambda>len.
     bindE (extend_with_loop c cl df value (n - 1) (ptr_offset c (eptr d) (int len)) d) (\<lambda>(r, p, d).
     case r of
       Unwinding \<Rightarrow> Inr (Unwinding, d, ew_drop c value w)
     | Returned \<Rightarrow>
         if 0 < n then
           (case ew_last df value of
              None \<Rightarrow> Inr (Unwinding, d, w)
            | Some v \<Rightarrow>
                bindE (ptr_write c (buf d) p v) (\<lambda>b.
                bindE (move_tail_unchecked c (d\<lparr>buf := b\<rparr>) 1) (\<lambda>d.
                Inr (Returned, d, w))))
         else Inr (Returned, d, ew_drop c value w))))"

definition resize_default ::
    "('a, 'os) cfg \<Rightarrow> 'a option \<Rightarrow> nat \<Rightarrow> 'a deque \<Rightarrow> ('a, 'os) world \<Rightarrow>
     fault + (completion \<times> 'a deque \<times> ('a, 'os) world)" where
  "resize_default c df new_len d w =
     bindE (deque_len c d) (\<lambda>len.
     if len < new_len then
       bindE (usize_sub (debug c) new_len len) (\<lambda>n.
       extend_with c (\<lambda>_. None) df n ExtendDefault d w)
     else bindE (truncate c new_len d w) (\<lambda>(d, w). Inr (Returned, d, w)))"

text \<open>\<open>while self.len() < new_len { self.push_back(value.clone()) }\<close>, at most \<open>k\<close> rounds.\<close>

fun resize_loop ::
    "('a, 'os) cfg \<Rightarrow> ('a \<Rightarrow> 'a option) \<Rightarrow> 'a \<Rightarrow> nat \<Rightarrow> nat \<Rightarrow> 'a deque \<Rightarrow> ('a, 'os) world \<Rightarrow>
     fault + (completion \<times> 'a deque \<times> ('a, 'os) world)" where
  "resize_loop c cl value new_len 0 d w = Inr (Returned, d, w)"
| "resize_loop c cl value new_len (Suc k) d w =
     bindE (deque_len c d) (\<lambda>len.
     if len < new_len then
       (case cl value of
          None \<Rightarrow> Inr (Unwinding, d, w)
        | Some v \<Rightarrow> bindE (push_back c v d w) (\<lambda>(d, w). resize_loop c cl value new_len k d w))
     else Inr (Returned, d, w))"

text \<open>\<open>value\<close> itself is dropped when \<open>resize\<close> ends.\<close>

definition resize ::
    "('a, 'os) cfg \<Rightarrow> ('a \<Rightarrow> 'a option) \<Rightarrow> nat \<Rightarrow> 'a \<Rightarrow> 'a deque \<Rightarrow> ('a, 'os) world \<Rightarrow>
     fault + (completion \<times> 'a deque \<times> ('a, 'os) world)" where
  "resize c cl new_len value d w =
     bindE (deque_len c d) (\<lambda>len.
     bindE
       (if len < new_len then
          bindE (usize_sub (debug c) new_len len) (\<lambda>n.
          bindE (reserve c d n w) (\<lambda>(d, w).
          resize_loop c cl value new_len n d w))
        else bindE (truncate c new_len d w) (\<lambda>(d, w). Inr (Returned, d, w))) (\<lambda>(r, d, w).
     bindE (if r = Returned
            then debug_assert_m (debug c) (bindE (deque_len c d) (\<lambda>n. Inr (n = new_len)))
            else Inr ()) (\<lambda>_.
     Inr (r, d, drop_vals c [value] w))))"

definition from_elem ::
    "('a, 'os) cfg \<Rightarrow> ('a \<Rightarrow> 'a option) \<Rightarrow> 'a \<Rightarrow> nat \<Rightarrow> ('a, 'os) world \<Rightarrow>
     fault + (completion \<times> 'a deque \<times> ('a, 'os) world)" where
  "from_elem c cl elem n w =
     bindE (with_capacity c n w) (\<lambda>(v, w).
     bindE (extend_with c cl None n (ExtendElement elem) v w) (\<lambda>(r, v, w).
     case r of
       Returned \<Rightarrow> Inr (Returned, v, w)
     | Unwinding \<Rightarrow> bindE (deque_drop c v w) (\<lambda>w. Inr (Unwinding, deque_new c, w))))"

text \<open>\<open>for i in vs { new.push_back(i.clone()) }\<close>\<close>

fun push_clones ::
    "('a, 'os) cfg \<Rightarrow> ('a \<Rightarrow> 'a option) \<Rightarrow> 'a list \<Rightarrow> 'a deque \<Rightarrow> ('a, 'os) world \<Rightarrow>
     fault + (completion \<times> 'a deque \<times> ('a, 'os) world)" where
  "push_clones c cl [] d w = Inr (Returned, d, w)"
| "push_clones c cl (v # vs) d w =
     (case cl v of
        None \<Rightarrow> Inr (Unwinding, d, w)
      | Some v \<Rightarrow> bindE (push_back c v d w) (\<lambda>(d, w). push_clones c cl vs d w))"

text \<open>\<open>From<&[T]>\<close> and \<open>From<&mut [T]>\<close>; a deque under construction is dropped by an unwinding.\<close>

definition from_slice ::
    "('a, 'os) cfg \<Rightarrow> ('a \<Rightarrow> 'a option) \<Rightarrow> 'a list \<Rightarrow> ('a, 'os) world \<Rightarrow>
     fault + ('a deque option \<times> ('a, 'os) world)" where
  "from_slice c cl s w =
     bindE (with_capacity c (length s) w) (\<lambda>(new, w).
     bindE (push_clones c cl s new w) (\<lambda>(r, new, w).
     case r of
       Returned \<Rightarrow> Inr (Some new, w)
     | Unwinding \<Rightarrow> bindE (deque_drop c new w) (\<lambda>w. Inr (None, w))))"

definition deque_clone ::
    "('a, 'os) cfg \<Rightarrow> ('a \<Rightarrow> 'a option) \<Rightarrow> 'a deque \<Rightarrow> ('a, 'os) world \<Rightarrow>
     fault + ('a deque option \<times> ('a, 'os) world)" where
  "deque_clone c cl d w =
     bindE (deque_len c d) (\<lambda>n.
     bindE (with_capacity c n w) (\<lambda>(new, w).
     bindE (slice_elems c d) (\<lambda>vs.
     bindE (push_clones c cl vs new w) (\<lambda>(r, new, w).
     case r of
       Returned \<Rightarrow> Inr (Some new, w)
     | Unwinding \<Rightarrow> bindE (deque_drop c new w) (\<lambda>w. Inr (None, w))))))"

definition clone_from ::
    "('a, 'os) cfg \<Rightarrow> ('a \<Rightarrow> 'a option) \<Rightarrow> 'a deque \<Rightarrow> 'a deque \<Rightarrow> ('a, 'os) world \<Rightarrow>
     fault + (completion \<times> 'a deque \<times> ('a, 'os) world)" where
  "clone_from c cl other d w =
     bindE (clear c d w) (\<lambda>(d, w).
     bindE (slice_elems c other) (\<lambda>vs.
     push_clones c cl vs d w))"

text \<open>
  \<open>clone_from_slice\<close> of the standard library assigns clones: the old value of each place is
  dropped. \<open>extend_from_slice\<close> calls it on the places behind the old length.
\<close>

fun clone_from_slice ::
    "('a, 'os) cfg \<Rightarrow> ('a \<Rightarrow> 'a option) \<Rightarrow> nat \<Rightarrow> 'a list \<Rightarrow> 'a buffer \<Rightarrow> ('a, 'os) world \<Rightarrow>
     fault + (completion \<times> 'a buffer \<times> ('a, 'os) world)" where
  "clone_from_slice c cl p [] b w = Inr (Returned, b, w)"
| "clone_from_slice c cl p (v # vs) b w =
     (case cl v of
        None \<Rightarrow> Inr (Unwinding, b, w)
      | Some v \<Rightarrow>
          bindE (drop_in_place c b p 1 w) (\<lambda>w.
          bindE (ptr_write c b p v) (\<lambda>b.
          clone_from_slice c cl (p + esize c) vs b w)))"

definition extend_from_slice ::
    "('a, 'os) cfg \<Rightarrow> ('a \<Rightarrow> 'a option) \<Rightarrow> 'a list \<Rightarrow> 'a deque \<Rightarrow> ('a, 'os) world \<Rightarrow>
     fault + (completion \<times> 'a deque \<times> ('a, 'os) world)" where
  "extend_from_slice c cl other d w =
     bindE (reserve c d (length other) w) (\<lambda>(d, w).
     bindE (deque_len c d) (\<lambda>len.
     bindE (move_tail_unchecked c d (to_isize (length other))) (\<lambda>d.
     bindE (clone_from_slice c cl (ptr_offset c (eptr d) (int len)) other (buf d) w) (\<lambda>(r, b, w).
     Inr (r, d\<lparr>buf := b\<rparr>, w)))))"

text \<open>The \<open>unstable\<close> build copies the slice of a \<open>Copy\<close> type into the extended tail.\<close>

definition spec_extend_copy ::
    "('a, 'os) cfg \<Rightarrow> 'a cell list \<times> nat \<Rightarrow> 'a deque \<Rightarrow> ('a, 'os) world \<Rightarrow>
     fault + ('a deque \<times> ('a, 'os) world)" where
  "spec_extend_copy c slice d w =
     (let (bytes, n) = slice in
      bindE (reserve c d n w) (\<lambda>(d, w).
      bindE (deque_len c d) (\<lambda>len.
      bindE (move_tail_unchecked c d (to_isize n)) (\<lambda>d.
      bindE (ptr_copy_from c bytes (buf d) (ptr_offset c (eptr d) (int len))) (\<lambda>b.
      Inr (d\<lparr>buf := b\<rparr>, w))))))"

subsection \<open>Writing behind the last element\<close>

lemma rep_write_push_view:
  assumes r: "rep c d xs" and n: "length xs < capacity d" and v: "val_ok c v"
  obtains cs where
    "ptr_write c (buf d) (eptr d + length xs * esize c) v = Inr ((buf d)\<lparr>cells := cs\<rparr>)"
    "move_tail_unchecked c (d\<lparr>buf := (buf d)\<lparr>cells := cs\<rparr>\<rparr>) 1
       = Inr (d\<lparr>elen := Suc (length xs), buf := (buf d)\<lparr>cells := cs\<rparr>\<rparr>)"
    "evolves c d (d\<lparr>elen := Suc (length xs), buf := (buf d)\<lparr>cells := cs\<rparr>\<rparr>) (xs @ [v])"
    "dview c (d\<lparr>elen := Suc (length xs), buf := (buf d)\<lparr>cells := cs\<rparr>\<rparr>) = (dview c d)[length xs := enc (esize c) v]"
proof -
  note len = rep_len[OF r]
  obtain cs where cs: "ptr_write c (buf d) (eptr d + length xs * esize c) v = Inr ((buf d)\<lparr>cells := cs\<rparr>)"
    "wf_deque c (d\<lparr>buf := (buf d)\<lparr>cells := cs\<rparr>\<rparr>)"
    "dview c (d\<lparr>buf := (buf d)\<lparr>cells := cs\<rparr>\<rparr>) = (dview c d)[length xs := enc (esize c) v]"
    "regions c ((buf d)\<lparr>cells := cs\<rparr>) = regions c (buf d)"
    using dview_write[OF rep_wf[OF r] n] .
  let ?d = "d\<lparr>buf := (buf d)\<lparr>cells := cs\<rparr>\<rparr>"
  have x: "- int (elen ?d) \<le> 1" "1 \<le> int (capacity ?d - elen ?d)" using n len by simp_all
  have eq: "nat (int (elen ?d) + 1) = Suc (length xs)" using len by simp
  note m = move_tail_ok[OF cs(2) x, unfolded eq]
  have "take (Suc (length xs)) ((dview c d)[length xs := enc (esize c) v])
      = map (enc (esize c)) (xs @ [v])"
    using rep_take_view[OF r] n by (simp add: take_Suc_conv_app_nth)
  then have "rep c (?d\<lparr>elen := Suc (length xs)\<rparr>) (xs @ [v])"
    using m(2) cs(3) rep_vals[OF r] v by (intro rep_view) simp_all
  moreover have "?d\<lparr>elen := Suc (length xs)\<rparr> = d\<lparr>elen := Suc (length xs), buf := (buf d)\<lparr>cells := cs\<rparr>\<rparr>" by simp
  moreover have "dview c (d\<lparr>elen := Suc (length xs), buf := (buf d)\<lparr>cells := cs\<rparr>\<rparr>) = (dview c d)[length xs := enc (esize c) v]"
    using cs(3) by (simp add: dview_def)
  ultimately show ?thesis using that[OF cs(1)] m(1) cs(4) by (simp add: evolves_def capacity_def)
qed

lemma rep_write_push:
  assumes r: "rep c d xs" and n: "length xs < capacity d" and v: "val_ok c v"
  obtains cs where
    "ptr_write c (buf d) (eptr d + length xs * esize c) v = Inr ((buf d)\<lparr>cells := cs\<rparr>)"
    "move_tail_unchecked c (d\<lparr>buf := (buf d)\<lparr>cells := cs\<rparr>\<rparr>) 1
       = Inr (d\<lparr>elen := Suc (length xs), buf := (buf d)\<lparr>cells := cs\<rparr>\<rparr>)"
    "evolves c d (d\<lparr>elen := Suc (length xs), buf := (buf d)\<lparr>cells := cs\<rparr>\<rparr>) (xs @ [v])"
  using rep_write_push_view[OF assms] by blast

lemma write_run_rep:
  assumes "rep c d xs" "length xs + length vs \<le> capacity d" "list_all (val_ok c) vs"
  shows "\<exists>d'. write_run c vs (eptr d + length xs * esize c) d = Inr d' \<and> eptr d' = eptr d \<and>
    evolves c d d' (xs @ vs)"
  using assms
proof (induction vs arbitrary: d xs)
  case Nil
  then show ?case using evolves_refl[of c d xs] by simp
next
  case (Cons v vs)
  have n: "length xs < capacity d" and v: "val_ok c v" using Cons.prems by simp_all
  obtain cs where cs: "ptr_write c (buf d) (eptr d + length xs * esize c) v = Inr ((buf d)\<lparr>cells := cs\<rparr>)"
    "move_tail_unchecked c (d\<lparr>buf := (buf d)\<lparr>cells := cs\<rparr>\<rparr>) 1
       = Inr (d\<lparr>elen := Suc (length xs), buf := (buf d)\<lparr>cells := cs\<rparr>\<rparr>)"
    "evolves c d (d\<lparr>elen := Suc (length xs), buf := (buf d)\<lparr>cells := cs\<rparr>\<rparr>) (xs @ [v])"
    using rep_write_push[OF Cons.prems(1) n v] .
  let ?d = "d\<lparr>elen := Suc (length xs), buf := (buf d)\<lparr>cells := cs\<rparr>\<rparr>"
  have cap: "capacity ?d = capacity d" using cs(3) by (simp add: evolves_def)
  have le: "length (xs @ [v]) + length vs \<le> capacity ?d" "list_all (val_ok c) vs"
    using Cons.prems cap by simp_all
  have p: "ptr_offset c (eptr d + length xs * esize c) 1 = eptr ?d + length (xs @ [v]) * esize c"
    using ptr_offset_next[OF rep_wf[OF Cons.prems(1)], of "length xs"] n by simp
  obtain d' where d': "write_run c vs (eptr ?d + length (xs @ [v]) * esize c) ?d = Inr d'" "eptr d' = eptr ?d"
    "evolves c ?d d' ((xs @ [v]) @ vs)" using Cons.IH[OF evolves_rep[OF cs(3)] le] by blast
  show ?case using cs(1,2) d' evolves_trans[OF cs(3) d'(3)] unfolding write_run.simps
    by (simp only: bindE_simps p) simp
qed

lemma extend_with_loop_rep:
  assumes "rep c d xs" "length xs + n \<le> capacity d" "val_ok c v" "ew_next cl df value = Some v"
  shows "\<exists>d'. extend_with_loop c cl df value n (eptr d + length xs * esize c) d
       = Inr (Returned, eptr d + (length xs + n) * esize c, d') \<and> eptr d' = eptr d \<and>
     evolves c d d' (xs @ replicate n v)"
  using assms(1,2)
proof (induction n arbitrary: d xs)
  case 0
  then show ?case using evolves_refl[of c d xs] by simp
next
  case (Suc n)
  have n: "length xs < capacity d" using Suc.prems by simp
  obtain cs where cs: "ptr_write c (buf d) (eptr d + length xs * esize c) v = Inr ((buf d)\<lparr>cells := cs\<rparr>)"
    "move_tail_unchecked c (d\<lparr>buf := (buf d)\<lparr>cells := cs\<rparr>\<rparr>) 1
       = Inr (d\<lparr>elen := Suc (length xs), buf := (buf d)\<lparr>cells := cs\<rparr>\<rparr>)"
    "evolves c d (d\<lparr>elen := Suc (length xs), buf := (buf d)\<lparr>cells := cs\<rparr>\<rparr>) (xs @ [v])"
    using rep_write_push[OF Suc.prems(1) n assms(3)] .
  let ?d = "d\<lparr>elen := Suc (length xs), buf := (buf d)\<lparr>cells := cs\<rparr>\<rparr>"
  have cap: "capacity ?d = capacity d" using cs(3) by (simp add: evolves_def)
  have le: "length (xs @ [v]) + n \<le> capacity ?d" using Suc.prems cap by simp
  have p: "ptr_offset c (eptr d + length xs * esize c) 1 = eptr ?d + length (xs @ [v]) * esize c"
    using ptr_offset_next[OF rep_wf[OF Suc.prems(1)], of "length xs"] n by simp
  obtain d' where d': "extend_with_loop c cl df value n (eptr ?d + length (xs @ [v]) * esize c) ?d
      = Inr (Returned, eptr ?d + (length (xs @ [v]) + n) * esize c, d')" "eptr d' = eptr ?d"
    "evolves c ?d d' ((xs @ [v]) @ replicate n v)" using Suc.IH[OF evolves_rep[OF cs(3)] le] by blast
  show ?case using cs(1,2) d' evolves_trans[OF cs(3) d'(3)] assms(4) unfolding extend_with_loop.simps
    by (simp only: bindE_simps p option.case) simp
qed

subsection \<open>Cloning is pushing\<close>

text \<open>When no clone panics, the loops that push clones are the queue's \<open>push_all\<close>.\<close>

lemma push_clones_push_all:
  assumes "\<And>v. v \<in> set vs \<Longrightarrow> cl v = Some (g v)"
  shows "push_clones c cl vs d w =
    bindE (push_all (push_back c) (map g vs) d w) (\<lambda>(d, w). Inr (Returned, d, w))"
  using assms
proof (induction vs arbitrary: d w)
  case (Cons v vs)
  then show ?case by (cases "push_back c (g v) d w") auto
qed simp

definition pushes :: "fault + (completion \<times> 'd \<times> 'w) \<Rightarrow> ('d \<Rightarrow> 'w \<Rightarrow> bool) \<Rightarrow> bool" where
  "pushes m P \<longleftrightarrow> (\<exists>e. m = panic (AllocationFailed e)) \<or> (\<exists>d w. m = Inr (Returned, d, w) \<and> P d w)"

lemma push_outcome_pushes:
  "push_outcome m P \<Longrightarrow> pushes (bindE m (\<lambda>(d, w). Inr (Returned, d, w))) P"
  by (auto simp: push_outcome_def pushes_def)

context deque_env
begin

lemma push_clones_state:
  assumes q: "queue_state c os_ok owned fr d w xs" and g: "\<And>v. v \<in> set vs \<Longrightarrow> cl v = Some (g v)"
    and v: "list_all (val_ok c) (map g vs)" and n: "length xs + length vs \<le> isize_max"
  shows "pushes (push_clones c cl vs d w) (\<lambda>d' w'. queue_state c os_ok owned fr d' w' (xs @ map g vs))"
proof -
  have eq: "push_clones c cl vs d w = bindE (push_all (push_back c) (map g vs) d w) (\<lambda>(d, w). Inr (Returned, d, w))"
    by (rule push_clones_push_all) (rule g)
  have "length xs + length (map g vs) \<le> isize_max" using n by simp
  then show ?thesis unfolding eq by (intro push_outcome_pushes ends.push_all_back[OF q v])
qed

end

text \<open>
  \<open>clone\<close> and \<open>From\<close>: a deque of clones in a region of its own; everything the process owned
  before, the original deque included, is untouched, and nothing has been dropped.
\<close>

definition fresh_deque ::
    "('a, 'os) cfg \<Rightarrow> ('os \<Rightarrow> bool) \<Rightarrow> ('os \<Rightarrow> (nat \<times> nat) set) \<Rightarrow> ('a, 'os) world \<Rightarrow> 'a list \<Rightarrow>
     fault + ('a deque option \<times> ('a, 'os) world) \<Rightarrow> bool" where
  "fresh_deque c os_ok owned w ys m \<longleftrightarrow>
     (\<exists>e. m = panic (AllocationFailed e)) \<or>
     (\<exists>d w'. m = Inr (Some d, w') \<and> holds c os_ok owned d w' ys \<and>
             others c owned d w' = owned (os w) \<and> dropped w' = dropped w)"

context deque_env
begin

lemma from_slice_fresh:
  assumes w: "os_ok (os w)" and n: "fits c (length vs)" and g: "\<And>v. v \<in> set vs \<Longrightarrow> cl v = Some (g v)"
    and v: "list_all (val_ok c) (map g vs)"
  shows "fresh_deque c os_ok owned w (map g vs) (from_slice c cl vs w)"
proof (cases rule: with_capacity_cases[OF w n])
  case (1 e)
  then show ?thesis by (simp add: from_slice_def fresh_deque_def)
next
  case (2 d s)
  let ?fr = "(others c owned d (w\<lparr>os := s\<rparr>), dropped w)"
  have q: "queue_state c os_ok owned ?fr d (w\<lparr>os := s\<rparr>) []"
    using 2(2) by (simp add: queue_state_def)
  have o: "others c owned d (w\<lparr>os := s\<rparr>) = owned (os w)" using 2(5,6) by (auto simp: others_def)
  have "2 * length vs < 2 * isize_bound" using n unfolding fits_def usize_isize_bound by simp
  then have "length [] + length vs \<le> isize_max" by (simp add: isize_max_def)
  from push_clones_state[OF q g v this] show ?thesis
    using 2(1) o unfolding pushes_def fresh_deque_def from_slice_def
    by (auto simp: queue_state_def)
qed

lemma deque_clone_from_slice:
  "rep c d xs \<Longrightarrow> deque_clone c cl d w = from_slice c cl xs w"
  using rep_wf[of c d xs] rep_len[of c d xs] slice_elems_rep[of c d xs]
  by (simp add: deque_clone_def from_slice_def)

lemma clone_from_state:
  assumes h: "holds c os_ok owned d w xs" and o: "rep c other ys" and g: "\<And>v. v \<in> set ys \<Longrightarrow> cl v = Some (g v)"
    and v: "list_all (val_ok c) (map g ys)"
  shows "pushes (clone_from c cl other d w)
    (\<lambda>d' w'. queue_state c os_ok owned (others c owned d w, dropped (drop_vals c xs w)) d' w' (map g ys))"
proof -
  obtain d1 where d1: "clear c d w = Inr (d1, drop_vals c xs w)" "evolves c d d1 []"
    using clear_rep[OF holds_rep[OF h]] .
  have q: "queue_state c os_ok owned (others c owned d w, dropped (drop_vals c xs w)) d1 (drop_vals c xs w) []"
    using holds_evolves[OF h d1(2), of "drop_vals c xs w"] by (simp add: queue_state_def)
  have "length ys < isize_bound" using wf_dequeD(6)[OF rep_wf[OF o]] rep_len[OF o] by simp
  then have n: "length [] + length ys \<le> isize_max" by (simp add: isize_max_def)
  show ?thesis using push_clones_state[OF q g v n] d1(1) slice_elems_rep[OF o]
    by (simp add: clone_from_def)
qed

text \<open>\<open>extend_with\<close> and \<open>resize_default\<close>.\<close>

lemma extend_with_outcome:
  assumes h: "holds c os_ok owned d w xs" and k: "room c d (length xs) n" and n: "0 < n"
    and g: "ew_next cl df value = Some v" "ew_last df value = Some u" and v: "val_ok c v" "val_ok c u"
  shows "(\<exists>e. extend_with c cl df n value d w = panic (CalledUnwrapOnErr e)) \<or>
    (\<exists>d' s. extend_with c cl df n value d w = Inr (Returned, d', w\<lparr>os := s\<rparr>) \<and>
       holds c os_ok owned d' (w\<lparr>os := s\<rparr>) (xs @ replicate (n - 1) v @ [u]) \<and>
       others c owned d' (w\<lparr>os := s\<rparr>) = others c owned d w)"
proof -
  have k': "length xs + n < usize_bound"
    "capacity d < length xs + n \<longrightarrow> fits c (max (length xs + n) (2 * capacity d))"
    "esize c = 0 \<longrightarrow> length xs + n \<le> isize_max" using k by (simp_all add: room_def)
  show ?thesis
  proof (cases rule: reserve_cases[OF h k'])
    case (1 e)
    then show ?thesis by (simp add: extend_with_def)
  next
    case (2 d1 s)
    have r: "rep c d1 xs" by (rule holds_rep[OF 2(2)])
    have le: "length xs + (n - 1) \<le> capacity d1" using 2(4) by simp
    obtain d2 where d2: "extend_with_loop c cl df value (n - 1) (eptr d1 + length xs * esize c) d1
        = Inr (Returned, eptr d1 + (length xs + (n - 1)) * esize c, d2)" "eptr d2 = eptr d1"
      "evolves c d1 d2 (xs @ replicate (n - 1) v)"
      using extend_with_loop_rep[OF r le v(1) g(1)] by blast
    let ?ys = "xs @ replicate (n - 1) v"
    have cap: "length ?ys < capacity d2" using 2(4) n d2(3) by (simp add: evolves_def)
    obtain cs where cs: "ptr_write c (buf d2) (eptr d2 + length ?ys * esize c) u = Inr ((buf d2)\<lparr>cells := cs\<rparr>)"
      "move_tail_unchecked c (d2\<lparr>buf := (buf d2)\<lparr>cells := cs\<rparr>\<rparr>) 1
         = Inr (d2\<lparr>elen := Suc (length ?ys), buf := (buf d2)\<lparr>cells := cs\<rparr>\<rparr>)"
      "evolves c d2 (d2\<lparr>elen := Suc (length ?ys), buf := (buf d2)\<lparr>cells := cs\<rparr>\<rparr>) (?ys @ [u])"
      using rep_write_push[OF evolves_rep[OF d2(3)] cap v(2)] .
    let ?d = "d2\<lparr>elen := Suc (length ?ys), buf := (buf d2)\<lparr>cells := cs\<rparr>\<rparr>"
    have p: "ptr_offset c (eptr d1) (int (length xs)) = eptr d1 + length xs * esize c"
      using ptr_offset_slot[OF rep_wf[OF r], of "length xs"] rep_len_le[OF r] by simp
    have run: "extend_with c cl df n value d w = Inr (Returned, ?d, w\<lparr>os := s\<rparr>)"
      using 2(1) rep_wf[OF r] rep_len[OF r] p d2(1,2) cs(1,2) n g(2) by (simp add: extend_with_def)
    show ?thesis
      using run holds_evolves[OF 2(2) evolves_trans[OF d2(3) cs(3)] refl] 2(3) by auto
  qed
qed

end

subsection \<open>extend_from_slice\<close>

text \<open>Without drop glue the assignments are writes; with it the first one reads an empty slot.\<close>

lemma clone_from_slice_view:
  assumes "wf_deque c d" "i + length vs \<le> capacity d" "\<not> needs_drop c"
    and "\<And>v. v \<in> set vs \<Longrightarrow> cl v = Some (g v)"
  shows "\<exists>cs. clone_from_slice c cl (eptr d + i * esize c) vs (buf d) w = Inr (Returned, (buf d)\<lparr>cells := cs\<rparr>, w) \<and>
     length cs = length (cells (buf d)) \<and>
     dview c (d\<lparr>buf := (buf d)\<lparr>cells := cs\<rparr>\<rparr>) = splice_at (dview c d) i (map (enc (esize c)) (map g vs))"
  using assms(1,2,4)
proof (induction vs arbitrary: d i)
  case Nil
  have "d = d\<lparr>buf := (buf d)\<lparr>cells := cells (buf d)\<rparr>\<rparr>" by simp
  then show ?case by (intro exI[of _ "cells (buf d)"]) (simp add: splice_at_def)
next
  case (Cons v vs)
  have i: "i < capacity d" and gv: "cl v = Some (g v)" using Cons.prems by auto
  have i': "i < blen (buf d) div 2" using i by (simp add: capacity_def)
  note w = wf_dequeD[OF Cons.prems(1)]
  obtain cs where cs: "ptr_write c (buf d) (eptr d + i * esize c) (g v) = Inr ((buf d)\<lparr>cells := cs\<rparr>)"
    "length cs = length (cells (buf d))"
    "view c ((buf d)\<lparr>cells := cs\<rparr>) (eptr d) = (view c (buf d) (eptr d))[i := enc (esize c) (g v)]"
    using view_write[OF w(1-3) i'] .
  let ?d = "d\<lparr>buf := (buf d)\<lparr>cells := cs\<rparr>\<rparr>"
  have wf: "wf_deque c ?d" by (rule wf_update_buf[OF Cons.prems(1) cs(2)])
  have le: "Suc i + length vs \<le> capacity ?d" using Cons.prems by simp
  have p: "eptr d + i * esize c + esize c = eptr ?d + Suc i * esize c" by simp
  have g: "\<And>u. u \<in> set vs \<Longrightarrow> cl u = Some (g u)" using Cons.prems by simp
  obtain cs' where cs': "clone_from_slice c cl (eptr ?d + Suc i * esize c) vs (buf ?d) w
      = Inr (Returned, (buf ?d)\<lparr>cells := cs'\<rparr>, w)" "length cs' = length (cells (buf ?d))"
    "dview c (?d\<lparr>buf := (buf ?d)\<lparr>cells := cs'\<rparr>\<rparr>) = splice_at (dview c ?d) (Suc i) (map (enc (esize c)) (map g vs))"
    using Cons.IH[OF wf le g] by blast
  have "dview c ?d = (dview c d)[i := enc (esize c) (g v)]" using cs(3) by (simp add: dview_def)
  then have "splice_at (dview c ?d) (Suc i) (map (enc (esize c)) (map g vs))
      = splice_at (dview c d) i (map (enc (esize c)) (map g (v # vs)))"
    using i by (simp add: splice_at_def take_Suc_conv_app_nth)
  then show ?case
    using cs(1,2) cs'(1)[folded p] cs'(2,3) gv assms(3)
    by (intro exI[of _ cs']) (simp add: drop_in_place_def)
qed

lemma clone_from_slice_uninit:
  assumes "rep c d xs" "length xs < capacity d" "needs_drop c" "0 < esize c" "cl v = Some u"
    and "dview c d ! length xs = replicate (esize c) Uninit"
  shows "clone_from_slice c cl (eptr d + length xs * esize c) (v # vs) (buf d) w = undef UninitRead"
proof -
  note w = wf_dequeD[OF rep_wf[OF assms(1)]]
  have "length xs < blen (buf d) div 2" using assms(2) by (simp add: capacity_def)
  then have "ptr_read c (buf d) (eptr d + length xs * esize c) = decode (esize c) (zval c) (dview c d ! length xs)"
    using view_read[OF w(1-3)] by (simp add: dview_def)
  then show ?thesis using assms(3-6) by (simp add: drop_in_place_def)
qed

context deque_env
begin

lemma extend_from_slice_outcome:
  assumes h: "holds c os_ok owned d w xs" and k: "room c d (length xs) (length vs)"
    and nd: "\<not> needs_drop c" and g: "\<And>v. v \<in> set vs \<Longrightarrow> cl v = Some (g v)"
    and v: "list_all (val_ok c) (map g vs)"
  shows "(\<exists>e. extend_from_slice c cl vs d w = panic (CalledUnwrapOnErr e)) \<or>
    (\<exists>d' s. extend_from_slice c cl vs d w = Inr (Returned, d', w\<lparr>os := s\<rparr>) \<and>
       holds c os_ok owned d' (w\<lparr>os := s\<rparr>) (xs @ map g vs) \<and>
       others c owned d' (w\<lparr>os := s\<rparr>) = others c owned d w)"
proof -
  have k': "length xs + length vs < usize_bound"
    "capacity d < length xs + length vs \<longrightarrow> fits c (max (length xs + length vs) (2 * capacity d))"
    "esize c = 0 \<longrightarrow> length xs + length vs \<le> isize_max" using k by (simp_all add: room_def)
  show ?thesis
  proof (cases rule: reserve_cases[OF h k'])
    case (1 e)
    then show ?thesis by (simp add: extend_from_slice_def)
  next
    case (2 d1 s)
    have r: "rep c d1 xs" by (rule holds_rep[OF 2(2)])
    note wf = rep_wf[OF r] and len = rep_len[OF r]
    have x: "- int (elen d1) \<le> int (length vs)" "int (length vs) \<le> int (capacity d1 - elen d1)" using 2(4) len by simp_all
    have eq: "nat (int (elen d1) + int (length vs)) = length xs + length vs" using len by simp
    note m = move_tail_ok[OF wf x, unfolded eq]
    let ?d2 = "d1\<lparr>elen := length xs + length vs\<rparr>"
    have le: "length xs + length vs \<le> capacity ?d2" using 2(4) by simp
    obtain cs where cs: "clone_from_slice c cl (eptr ?d2 + length xs * esize c) vs (buf ?d2) (w\<lparr>os := s\<rparr>)
        = Inr (Returned, (buf ?d2)\<lparr>cells := cs\<rparr>, w\<lparr>os := s\<rparr>)" "length cs = length (cells (buf ?d2))"
      "dview c (?d2\<lparr>buf := (buf ?d2)\<lparr>cells := cs\<rparr>\<rparr>) = splice_at (dview c ?d2) (length xs) (map (enc (esize c)) (map g vs))"
      using clone_from_slice_view[OF m(2) le nd, of cl g] g by blast
    let ?d3 = "?d2\<lparr>buf := (buf ?d2)\<lparr>cells := cs\<rparr>\<rparr>"
    have p: "ptr_offset c (eptr d1) (int (length xs)) = eptr d1 + length xs * esize c"
      using ptr_offset_slot[OF wf, of "length xs"] rep_len_le[OF r] by simp
    have sm: "to_isize (length vs) = int (length vs)" using 2(4) wf_dequeD(5)[OF wf] by simp
    have run: "extend_from_slice c cl vs d w = Inr (Returned, ?d3, w\<lparr>os := s\<rparr>)"
      using 2(1) wf len m(1) sm p cs(1) by (simp add: extend_from_slice_def)
    have "take (length (xs @ map g vs)) (dview c ?d3) = map (enc (esize c)) (xs @ map g vs)"
      using cs(3) rep_take_view[OF r] 2(4) by (simp add: splice_at_def)
    then have "rep c ?d3 (xs @ map g vs)"
      using wf_update_buf[OF m(2), of cs] cs(2) rep_vals[OF r] v by (intro rep_view) simp_all
    then have "evolves c d1 ?d3 (xs @ map g vs)" using cs(2) by (simp add: evolves_def capacity_def)
    then show ?thesis using run holds_evolves[OF 2(2) _ refl] 2(3) by (metis (no_types, lifting))
  qed
qed

lemma extend_from_slice_reads_uninit:
  assumes h: "holds c os_ok owned d w xs" and k: "length xs + length (v # vs) \<le> capacity d"
    and nd: "needs_drop c" "0 < esize c" "cl v = Some u"
    and un: "dview c d ! length xs = replicate (esize c) Uninit"
  shows "extend_from_slice c cl (v # vs) d w = undef UninitRead"
proof -
  have r: "rep c d xs" by (rule holds_rep[OF h])
  note wf = rep_wf[OF r] and len = rep_len[OF r]
  let ?n = "length (v # vs)"
  have x: "- int (elen d) \<le> int ?n" "int ?n \<le> int (capacity d - elen d)" using k len by simp_all
  have eq: "nat (int (elen d) + int ?n) = length xs + ?n" using len by simp
  note m = move_tail_ok[OF wf x, unfolded eq]
  have lt: "length xs < capacity d" using k by simp
  have p: "ptr_offset c (eptr d) (int (length xs)) = eptr d + length xs * esize c"
    using ptr_offset_slot[OF wf, of "length xs"] lt by simp
  have sm: "to_isize ?n = int ?n" using k wf_dequeD(5)[OF wf] by simp
  have "length xs + ?n < usize_bound" using k wf_dequeD(5)[OF wf] by (simp add: usize_isize_bound)
  then have "reserve c d ?n w = Inr (d, w)"
    using wf len k by (simp add: reserve_def try_reserve_def grow_policy_ok[OF r] reserve_capacity_def)
  moreover have "clone_from_slice c cl (eptr d + length xs * esize c) (v # vs) (buf d) w = undef UninitRead"
    by (rule clone_from_slice_uninit[where cl = cl and u = u]) (fact r lt nd un)+
  ultimately show ?thesis
    using wf len m(1) sm p
    by (simp add: extend_from_slice_def del: clone_from_slice.simps)
qed

end

subsection \<open>extend and resize\<close>

text \<open>The capacity a hint makes the code ask for beyond the element at hand.\<close>

definition hint_request :: "'a hint \<Rightarrow> 'a list \<Rightarrow> nat" where
  "hint_request hint zs = (case hint zs of (lower, upper) \<Rightarrow> (case upper of Some u \<Rightarrow> u | None \<Rightarrow> lower))"

lemma grows_trans:
  assumes "others c owned d1 (w\<lparr>os := s\<rparr>) = others c owned d w"
    "grows c os_ok owned d1 (w\<lparr>os := s\<rparr>) ys m"
  shows "grows c os_ok owned d w ys m"
  using assms unfolding grows_def by auto

lemma fits_isize: "fits c n \<Longrightarrow> n < isize_bound"
  unfolding fits_def usize_isize_bound by simp

context deque_env
begin

lemma room_of_fits:
  assumes "fits c (2 * N)" "n + k \<le> N" "capacity d \<le> N \<or> n + k \<le> capacity d"
  shows "room c d n k"
proof -
  have "2 * N < isize_bound" by (rule fits_isize[OF assms(1)])
  then have "n + k < isize_bound" using assms(2) by linarith
  then have "n + k < usize_bound" "n + k \<le> isize_max" by (simp_all add: usize_isize_bound isize_max_def)
  moreover have "fits c (max (n + k) (2 * capacity d))" if "capacity d < n + k"
    using assms that by (intro fits_mono[OF assms(1)]) auto
  ultimately show ?thesis by (simp add: room_def)
qed

lemma extend_desugared_grows:
  assumes "holds c os_ok owned d w xs" "list_all (val_ok c) items"
    and "\<And>zs. length zs < length items \<Longrightarrow> hint_request hint zs \<le> B"
    and "fits c (2 * (length xs + length items + B + 1))"
  shows "grows c os_ok owned d w (xs @ items) (extend_desugared c hint items d w)"
  using assms
proof (induction items arbitrary: d w xs)
  case Nil
  then show ?case unfolding grows_def by (intro disjI2 exI[of _ d] exI[of _ "os w"]) simp
next
  case (Cons x items)
  note h = Cons.prems(1)
  have r: "rep c d xs" by (rule holds_rep[OF h])
  note wf = rep_wf[OF r] and len = rep_len[OF r]
  have x: "val_ok c x" "list_all (val_ok c) items" using Cons.prems(2) by simp_all
  have f: "fits c (2 * (length (xs @ [x]) + length items + B + 1))" using Cons.prems(4) by simp
  text \<open>Once there is room for one element, it is written and the rest follows.\<close>
  have rest: "grows c os_ok owned d w (xs @ x # items)
      (bindE (debug_assert_m (debug c) (bindE (deque_len c d1) (\<lambda>n. Inr (n < capacity d1)))) (\<lambda>_.
       bindE (ptr_write c (buf d1) (ptr_offset c (eptr d1) (int (length xs))) x) (\<lambda>b.
       bindE (move_tail_unchecked c (d1\<lparr>buf := b\<rparr>) 1) (\<lambda>d.
       extend_desugared c hint items d (w\<lparr>os := s\<rparr>)))))"
    if d1: "holds c os_ok owned d1 (w\<lparr>os := s\<rparr>) xs" "length xs < capacity d1"
      "others c owned d1 (w\<lparr>os := s\<rparr>) = others c owned d w" for d1 s
  proof -
    have r1: "rep c d1 xs" by (rule holds_rep[OF d1(1)])
    obtain cs where cs: "ptr_write c (buf d1) (eptr d1 + length xs * esize c) x = Inr ((buf d1)\<lparr>cells := cs\<rparr>)"
      "move_tail_unchecked c (d1\<lparr>buf := (buf d1)\<lparr>cells := cs\<rparr>\<rparr>) 1
         = Inr (d1\<lparr>elen := Suc (length xs), buf := (buf d1)\<lparr>cells := cs\<rparr>\<rparr>)"
      "evolves c d1 (d1\<lparr>elen := Suc (length xs), buf := (buf d1)\<lparr>cells := cs\<rparr>\<rparr>) (xs @ [x])"
      using rep_write_push[OF r1 d1(2) x(1)] .
    note h2 = holds_evolves[OF d1(1) cs(3) refl]
    have p: "ptr_offset c (eptr d1) (int (length xs)) = eptr d1 + length xs * esize c"
      using ptr_offset_slot[OF rep_wf[OF r1], of "length xs"] d1(2) by simp
    have "grows c os_ok owned d w ((xs @ [x]) @ items) (extend_desugared c hint items
        (d1\<lparr>elen := Suc (length xs), buf := (buf d1)\<lparr>cells := cs\<rparr>\<rparr>) (w\<lparr>os := s\<rparr>))"
      by (rule grows_trans[OF _ Cons.IH[OF h2(1) x(2) _ f]]) (use h2(2) d1(3) Cons.prems(3) in simp_all)
    then show ?thesis using rep_wf[OF r1] rep_len[OF r1] d1(2) p cs(1,2) by simp
  qed
  define k where "k = Suc (hint_request hint items)"
  have kB: "k \<le> B + 1" using Cons.prems(3)[of items] by (simp add: k_def)
  have step: "extend_desugared c hint (x # items) d w =
     bindE (if length xs = capacity d then reserve c d k w else Inr (d, w)) (\<lambda>(d, w).
       bindE (debug_assert_m (debug c) (bindE (deque_len c d) (\<lambda>n. Inr (n < capacity d)))) (\<lambda>_.
       bindE (ptr_write c (buf d) (ptr_offset c (eptr d) (int (length xs))) x) (\<lambda>b.
       bindE (move_tail_unchecked c (d\<lparr>buf := b\<rparr>) 1) (\<lambda>d.
       extend_desugared c hint items d w))))"
  proof -
    have "checked_add (hint_request hint items) 1 = Some k"
      using kB fits_isize[OF Cons.prems(4)] by (simp add: checked_add_def k_def usize_isize_bound)
    then show ?thesis using wf len by (simp add: hint_request_def Let_def split: prod.splits)
  qed
  show ?case
  proof (cases "length xs = capacity d")
    case False
    then show ?thesis using rest[of d "os w"] h rep_len_le[OF r] unfolding step by simp
  next
    case True
    have "room c d (length xs) k"
      using room_of_fits[OF Cons.prems(4)] kB True by simp
    then have k': "length xs + k < usize_bound"
      "capacity d < length xs + k \<longrightarrow> fits c (max (length xs + k) (2 * capacity d))"
      "esize c = 0 \<longrightarrow> length xs + k \<le> isize_max" by (simp_all add: room_def)
    show ?thesis
    proof (cases rule: reserve_cases[OF h k'])
      case (1 e)
      then show ?thesis unfolding step using True by (simp add: grows_def)
    next
      case (2 d1 s)
      then show ?thesis unfolding step using rest[OF 2(2) _ 2(3)] True by (simp add: k_def)
    qed
  qed
qed

lemma resize_loop_state:
  assumes "queue_state c os_ok owned fr d w xs" "cl value = Some u" "val_ok c u" "length xs + k \<le> isize_max"
  shows "pushes (resize_loop c cl value (length xs + k) k d w)
    (\<lambda>d' w'. queue_state c os_ok owned fr d' w' (xs @ replicate k u))"
  using assms(1,4)
proof (induction k arbitrary: d w xs)
  case 0
  then show ?case by (simp add: pushes_def)
next
  case (Suc k)
  have r: "rep c d xs" using Suc.prems(1) by (simp add: queue_state_def holds_def)
  have n: "length xs < isize_max" using Suc.prems(2) by simp
  have step: "resize_loop c cl value (length xs + Suc k) (Suc k) d w =
      bindE (push_back c u d w) (\<lambda>(d, w). resize_loop c cl value (length xs + Suc k) k d w)"
    using rep_wf[OF r] rep_len[OF r] assms(2) by simp
  from push_back_outcome[OF Suc.prems(1) assms(3) n] show ?case
  proof (unfold push_outcome_def, elim disjE exE conjE)
    fix e assume "push_back c u d w = panic (AllocationFailed e)"
    then show ?thesis unfolding step by (simp add: pushes_def)
  next
    fix d1 w1 assume p: "push_back c u d w = Inr (d1, w1)"
      and q: "queue_state c os_ok owned fr d1 w1 (xs @ [u])"
    have "length (xs @ [u]) + k \<le> isize_max" using Suc.prems(2) by simp
    from Suc.IH[OF q this] show ?thesis unfolding step p by simp
  qed
qed

lemma resize_grow_outcome:
  assumes h: "holds c os_ok owned d w xs" and n: "length xs < new_len" and k: "room c d (length xs) (new_len - length xs)"
    and le: "new_len \<le> isize_max" and g: "cl value = Some u" "val_ok c u"
  shows "(\<exists>p. resize c cl new_len value d w = panic p \<and> memory_panic p) \<or>
    (\<exists>d' w'. resize c cl new_len value d w = Inr (Returned, d', drop_vals c [value] w') \<and>
       queue_state c os_ok owned (others c owned d w, dropped w) d' w' (xs @ replicate (new_len - length xs) u))"
proof -
  have r: "rep c d xs" by (rule holds_rep[OF h])
  let ?k = "new_len - length xs"
  have k': "length xs + ?k < usize_bound"
    "capacity d < length xs + ?k \<longrightarrow> fits c (max (length xs + ?k) (2 * capacity d))"
    "esize c = 0 \<longrightarrow> length xs + ?k \<le> isize_max" using k by (simp_all add: room_def)
  have sum: "length xs + ?k = new_len" using n by simp
  show ?thesis
  proof (cases rule: reserve_cases[OF h k'])
    case (1 e)
    then show ?thesis using rep_wf[OF r] rep_len[OF r] n by (simp add: resize_def)
  next
    case (2 d1 s)
    have q: "queue_state c os_ok owned (others c owned d w, dropped w) d1 (w\<lparr>os := s\<rparr>) xs"
      using 2(2,3) by (simp add: queue_state_def)
    have "length xs + ?k \<le> isize_max" using le sum by simp
    from resize_loop_state[OF q _ g(2) this, of cl "value", OF g(1)]
    show ?thesis
    proof (unfold pushes_def sum, elim disjE exE conjE)
      fix e assume "resize_loop c cl value new_len ?k d1 (w\<lparr>os := s\<rparr>) = panic (AllocationFailed e)"
      then show ?thesis using rep_wf[OF r] rep_len[OF r] n 2(1) by (simp add: resize_def)
    next
      fix d2 w2 assume l: "resize_loop c cl value new_len ?k d1 (w\<lparr>os := s\<rparr>) = Inr (Returned, d2, w2)"
        and q2: "queue_state c os_ok owned (others c owned d w, dropped w) d2 w2 (xs @ replicate ?k u)"
      have "rep c d2 (xs @ replicate ?k u)" using q2 by (simp add: queue_state_def holds_def)
      then have "deque_len c d2 = Inr new_len" using rep_wf rep_len sum by fastforce
      then have "resize c cl new_len value d w = Inr (Returned, d2, drop_vals c [value] w2)"
        using rep_wf[OF r] rep_len[OF r] n 2(1) l by (simp add: resize_def)
      then show ?thesis using q2 by blast
    qed
  qed
qed

end

lemma resize_shrink:
  assumes r: "rep c d xs" and n: "new_len \<le> length xs"
  obtains d' where "resize c cl new_len value d w = Inr (Returned, d', drop_vals c (drop new_len xs @ [value]) w)"
    "evolves c d d' (take new_len xs)"
proof -
  obtain d' where d': "truncate_back c new_len d w = Inr (d', drop_vals c (drop new_len xs) w)"
    "evolves c d d' (take new_len xs)" using truncate_back_rep[OF r] .
  have "deque_len c d' = Inr new_len"
    using rep_wf[OF evolves_rep[OF d'(2)]] rep_len[OF evolves_rep[OF d'(2)]] n by simp
  then show ?thesis
    using that[of d'] d' rep_wf[OF r] rep_len[OF r] n by (simp add: resize_def truncate_def)
qed

context deque_env
begin

text \<open>\<open>from_iter\<close>: the first element decides the capacity, the rest is an \<open>extend\<close>.\<close>

lemma from_iter_default_fresh:
  assumes w: "os_ok (os w)" and v: "list_all (val_ok c) items"
    and B: "\<And>zs. length zs < length items \<Longrightarrow> hint_request hint zs \<le> B"
      "\<And>zs. length zs < length items \<Longrightarrow> fst (hint zs) \<le> B"
    and f: "fits c (2 * (length items + B + 1))"
  shows "(\<exists>p. from_iter_default c hint items w = panic p \<and> memory_panic p) \<or>
    (\<exists>d s. from_iter_default c hint items w = Inr (d, w\<lparr>os := s\<rparr>) \<and> holds c os_ok owned d (w\<lparr>os := s\<rparr>) items \<and>
       others c owned d (w\<lparr>os := s\<rparr>) = owned (os w))"
proof (cases items)
  case Nil
  have "from_iter_default c hint [] w = Inr (deque_new c, w\<lparr>os := os w\<rparr>)" by (simp add: from_iter_default_def)
  then show ?thesis using new_holds[OF w] others_new[of w] Nil by force
next
  case (Cons x rest)
  let ?n = "saturating_add (fst (hint rest)) 1"
  have "?n \<le> 2 * (length items + B + 1)" using B(2)[of rest] Cons by (simp add: saturating_add_def)
  then have n: "fits c ?n" using fits_mono[OF f] by blast
  have n1: "0 < ?n" by (simp add: saturating_add_def usize_max_def usize_bound_def)
  show ?thesis
  proof (cases rule: with_capacity_cases[OF w n])
    case (1 e)
    then show ?thesis using Cons by (simp add: from_iter_default_def split_beta Let_def)
  next
    case (2 d s)
    have r: "rep c d []" by (rule holds_rep[OF 2(2)])
    have room: "length [] < capacity d" and vx: "val_ok c x" using 2(3) n1 v Cons by auto
    obtain cs where cs: "ptr_write c (buf d) (eptr d) x = Inr ((buf d)\<lparr>cells := cs\<rparr>)"
      "move_tail_unchecked c (d\<lparr>buf := (buf d)\<lparr>cells := cs\<rparr>\<rparr>) 1
         = Inr (d\<lparr>elen := Suc 0, buf := (buf d)\<lparr>cells := cs\<rparr>\<rparr>)"
      "evolves c d (d\<lparr>elen := Suc 0, buf := (buf d)\<lparr>cells := cs\<rparr>\<rparr>) ([] @ [x])"
      using rep_write_push[OF r room vx] by auto
    let ?d = "d\<lparr>elen := Suc 0, buf := (buf d)\<lparr>cells := cs\<rparr>\<rparr>"
    have h: "holds c os_ok owned ?d (w\<lparr>os := s\<rparr>) [x]" and o: "others c owned ?d (w\<lparr>os := s\<rparr>) = others c owned d (w\<lparr>os := s\<rparr>)"
      using holds_evolves[OF 2(2) cs(3) refl] by simp_all
    have own: "others c owned d (w\<lparr>os := s\<rparr>) = owned (os w)" using 2(5,6) by (auto simp: others_def)
    have "fits c (2 * (length [x] + length rest + B + 1))"
      using fits_mono[OF f, of "2 * (length [x] + length rest + B + 1)"] Cons by simp
    then have g: "grows c os_ok owned ?d (w\<lparr>os := s\<rparr>) ([x] @ rest) (extend_desugared c hint rest ?d (w\<lparr>os := s\<rparr>))"
      using v Cons B(1) by (intro extend_desugared_grows[OF h]) simp_all
    have run: "from_iter_default c hint items w = extend_desugared c hint rest ?d (w\<lparr>os := s\<rparr>)"
      using Cons 2(1) cs(1,2) by (simp add: from_iter_default_def split_beta Let_def)
    from g show ?thesis unfolding run grows_def using o own Cons by auto
  qed
qed

end

end
