(* ===== verification/Drain.thy ===== *)
theory Drain
  imports Extend
begin

text \<open>
  The iterators that borrow a deque (\<open>src/lib.rs\<close>): \<open>Drain\<close>, \<open>Splice\<close> and \<open>DrainFilter\<close>. The
  borrowed deque is an argument and a result of each step. \<open>draining\<close> is the invariant between
  the creation of a \<open>Drain\<close> and its drop: a shortened deque, the part of the range not yet given
  out, and the tail that waits behind it.
\<close>

subsection \<open>Drain\<close>

datatype range_bound = Included nat | Excluded nat | Unbounded

text \<open>\<open>iter\<close>, a slice iterator, is the address of its first element and the number of elements left.\<close>

record drain =
  tail_start :: nat
  tail_len :: nat
  it_ptr :: nat
  it_len :: nat

definition deque_drain ::
    "('a, 'os) cfg \<Rightarrow> range_bound \<Rightarrow> range_bound \<Rightarrow> 'a deque \<Rightarrow> fault + (drain \<times> 'a deque)" where
  "deque_drain c lo hi d =
     bindE (deque_len c d) (\<lambda>len.
     bindE (case lo of Included n \<Rightarrow> Inr n | Excluded n \<Rightarrow> usize_add (debug c) n 1 | Unbounded \<Rightarrow> Inr 0) (\<lambda>start.
     bindE (case hi of Included n \<Rightarrow> usize_add (debug c) n 1 | Excluded n \<Rightarrow> Inr n | Unbounded \<Rightarrow> Inr len) (\<lambda>end'.
     bindE (assert_that (start \<le> end')) (\<lambda>_.
     bindE (assert_that (end' \<le> len)) (\<lambda>_.
     let d = d\<lparr>elen := start\<rparr>;
         p = (if esize c = 0 then wrapping_add (eptr d) start else ptr_offset c (eptr d) (int start)) in
     bindE (usize_sub (debug c) end' start) (\<lambda>n.
     bindE (usize_sub (debug c) len end') (\<lambda>t.
     Inr (\<lparr>tail_start = end', tail_len = t, it_ptr = p, it_len = n\<rparr>, d))))))))"

definition drain_next ::
    "('a, 'os) cfg \<Rightarrow> 'a deque \<Rightarrow> drain \<Rightarrow> fault + ('a option \<times> drain)" where
  "drain_next c d dr =
     (if it_len dr = 0 then Inr (None, dr)
      else bindE (ptr_read c (buf d) (it_ptr dr)) (\<lambda>v.
           Inr (Some v, dr\<lparr>it_ptr := it_ptr dr + esize c, it_len := it_len dr - 1\<rparr>)))"

definition drain_next_back ::
    "('a, 'os) cfg \<Rightarrow> 'a deque \<Rightarrow> drain \<Rightarrow> fault + ('a option \<times> drain)" where
  "drain_next_back c d dr =
     (if it_len dr = 0 then Inr (None, dr)
      else bindE (ptr_read c (buf d) (it_ptr dr + (it_len dr - 1) * esize c)) (\<lambda>v.
           Inr (Some v, dr\<lparr>it_len := it_len dr - 1\<rparr>)))"

definition drain_size_hint :: "drain \<Rightarrow> nat \<times> nat option" where
  "drain_size_hint dr = (it_len dr, Some (it_len dr))"

definition drain_is_empty :: "drain \<Rightarrow> bool" where
  "drain_is_empty dr \<longleftrightarrow> it_len dr = 0"

text \<open>\<open>self.for_each(|_| {})\<close>: every element left is read and dropped, at most \<open>n\<close> of them.\<close>

fun drain_each ::
    "('a, 'os) cfg \<Rightarrow> 'a deque \<Rightarrow> nat \<Rightarrow> drain \<Rightarrow> ('a, 'os) world \<Rightarrow> fault + (drain \<times> ('a, 'os) world)" where
  "drain_each c d 0 dr w = Inr (dr, w)"
| "drain_each c d (Suc n) dr w =
     bindE (drain_next c d dr) (\<lambda>(r, dr).
     case r of
       None \<Rightarrow> Inr (dr, w)
     | Some v \<Rightarrow> drain_each c d n dr (drop_vals c [v] w))"

definition drain_drop ::
    "('a, 'os) cfg \<Rightarrow> drain \<Rightarrow> 'a deque \<Rightarrow> ('a, 'os) world \<Rightarrow> fault + ('a deque \<times> ('a, 'os) world)" where
  "drain_drop c dr d w =
     bindE (drain_each c d (it_len dr) dr w) (\<lambda>(dr, w).
     if 0 < tail_len dr then
       bindE (deque_len c d) (\<lambda>start.
       let tail = tail_start dr;
           src = ptr_offset c (eptr d) (int tail);
           dst = ptr_offset c (eptr d) (int start) in
       bindE (ptr_copy c (buf d) src dst (tail_len dr)) (\<lambda>b.
       bindE (move_tail_unchecked c (d\<lparr>buf := b\<rparr>) (to_isize (tail_len dr))) (\<lambda>d.
       Inr (d, w))))
     else Inr (d, w))"

subsection \<open>Splice\<close>

text \<open>
  \<open>Drain::fill\<close>: the places between the end of the deque and the tail, as many as there are items.
\<close>

fun fill_places ::
    "('a, 'os) cfg \<Rightarrow> nat \<Rightarrow> nat \<Rightarrow> 'a list \<Rightarrow> 'a deque \<Rightarrow> fault + (bool \<times> 'a list \<times> 'a deque)" where
  "fill_places c 0 p items d = Inr (True, items, d)"
| "fill_places c (Suc n) p [] d = Inr (False, [], d)"
| "fill_places c (Suc n) p (x # items) d =
     bindE (ptr_write c (buf d) p x) (\<lambda>b.
     bindE (move_tail_unchecked c (d\<lparr>buf := b\<rparr>) 1) (\<lambda>d.
     fill_places c n (p + esize c) items d))"

definition drain_fill ::
    "('a, 'os) cfg \<Rightarrow> drain \<Rightarrow> 'a list \<Rightarrow> 'a deque \<Rightarrow> fault + (bool \<times> 'a list \<times> 'a deque)" where
  "drain_fill c dr items d =
     bindE (deque_len c d) (\<lambda>range_start.
     bindE (usize_sub (debug c) (tail_start dr) range_start) (\<lambda>n.
     fill_places c n (ptr_offset c (eptr d) (int range_start)) items d))"

definition drain_move_tail_unchecked ::
    "('a, 'os) cfg \<Rightarrow> nat \<Rightarrow> drain \<Rightarrow> 'a deque \<Rightarrow> ('a, 'os) world \<Rightarrow>
     fault + (drain \<times> 'a deque \<times> ('a, 'os) world)" where
  "drain_move_tail_unchecked c extra dr d w =
     bindE (usize_add (debug c) (tail_start dr) (tail_len dr)) (\<lambda>used_capacity.
     bindE (usize_add (debug c) used_capacity extra) (\<lambda>n.
     bindE (reserve_capacity c d n w) (\<lambda>(r, d, w).
     case r of
       Inl _ \<Rightarrow> panic ExpectFailed
     | Inr _ \<Rightarrow>
         bindE (usize_add (debug c) (tail_start dr) extra) (\<lambda>new_tail_start.
         let src = ptr_offset c (eptr d) (int (tail_start dr));
             dst = ptr_offset c (eptr d) (int new_tail_start) in
         bindE (ptr_copy c (buf d) src dst (tail_len dr)) (\<lambda>b.
         Inr (dr\<lparr>tail_start := new_tail_start\<rparr>, d\<lparr>buf := b\<rparr>, w))))))"

text \<open>
  \<open>Splice::drop\<close>, followed by the drop of its field \<open>drain\<close>; \<open>hint\<close> is the \<open>size_hint\<close> of
  \<open>replace_with\<close> and \<open>items\<close> what it will still give.
\<close>

definition splice_fill ::
    "('a, 'os) cfg \<Rightarrow> 'a hint \<Rightarrow> 'a list \<Rightarrow> drain \<Rightarrow> 'a deque \<Rightarrow> ('a, 'os) world \<Rightarrow>
     fault + (drain \<times> 'a deque \<times> ('a, 'os) world)" where
  "splice_fill c hint items dr d w =
     bindE (drain_fill c dr items d) (\<lambda>(full, items, d).
     if \<not> full then Inr (dr, d, w)
     else
       (let (lower_bound, _) = hint items in
        bindE (if 0 < lower_bound then
                 bindE (drain_move_tail_unchecked c lower_bound dr d w) (\<lambda>(dr, d, w).
                 bindE (drain_fill c dr items d) (\<lambda>(full, items, d).
                 Inr (full, items, dr, d, w)))
               else Inr (True, items, dr, d, w)) (\<lambda>(full, items, dr, d, w).
        if \<not> full then Inr (dr, d, w)
        else
          bindE (from_iter_default c hint items w) (\<lambda>(collected, w).
          bindE (deque_len c collected) (\<lambda>n.
          bindE (slice_elems c collected) (\<lambda>vs.
          bindE (if 0 < n then
                   bindE (drain_move_tail_unchecked c n dr d w) (\<lambda>(dr, d, w).
                   bindE (drain_fill c dr vs d) (\<lambda>(filled, vs, d).
                   bindE (debug_assert (debug c) filled) (\<lambda>_.
                   bindE (debug_assert (debug c) (vs = [])) (\<lambda>_.
                   Inr (dr, d, w)))))
                 else Inr (dr, d, w)) (\<lambda>(dr, d, w).
          bindE (buffer_drop c (buf collected) w) (\<lambda>w. Inr (dr, d, w)))))))))"

definition splice_drop ::
    "('a, 'os) cfg \<Rightarrow> 'a hint \<Rightarrow> 'a list \<Rightarrow> drain \<Rightarrow> 'a deque \<Rightarrow> ('a, 'os) world \<Rightarrow>
     fault + ('a deque \<times> ('a, 'os) world)" where
  "splice_drop c hint items dr d w =
     bindE (drain_each c d (it_len dr) dr w) (\<lambda>(dr, w).
     bindE (if tail_len dr = 0 then
              bindE (extend_desugared c hint items d w) (\<lambda>(d, w). Inr (dr, d, w))
            else splice_fill c hint items dr d w) (\<lambda>(dr, d, w).
     drain_drop c dr d w))"

text \<open>
  \<open>Splice\<close> itself: the drained range and the iterator it will be replaced with. Iterating it is
  iterating the range.
\<close>

record 'a splice =
  sp_drain :: drain
  replace_with :: "'a list"
  sp_hint :: "'a hint"

definition deque_splice ::
    "('a, 'os) cfg \<Rightarrow> range_bound \<Rightarrow> range_bound \<Rightarrow> 'a hint \<Rightarrow> 'a list \<Rightarrow> 'a deque \<Rightarrow> fault + ('a splice \<times> 'a deque)" where
  "deque_splice c lo hi hint items d =
     bindE (deque_drain c lo hi d) (\<lambda>(dr, d).
     Inr (\<lparr>sp_drain = dr, replace_with = items, sp_hint = hint\<rparr>, d))"

definition splice_next :: "('a, 'os) cfg \<Rightarrow> 'a deque \<Rightarrow> 'a splice \<Rightarrow> fault + ('a option \<times> 'a splice)" where
  "splice_next c d sp = bindE (drain_next c d (sp_drain sp)) (\<lambda>(r, dr). Inr (r, sp\<lparr>sp_drain := dr\<rparr>))"

definition splice_next_back :: "('a, 'os) cfg \<Rightarrow> 'a deque \<Rightarrow> 'a splice \<Rightarrow> fault + ('a option \<times> 'a splice)" where
  "splice_next_back c d sp = bindE (drain_next_back c d (sp_drain sp)) (\<lambda>(r, dr). Inr (r, sp\<lparr>sp_drain := dr\<rparr>))"

definition splice_size_hint :: "'a splice \<Rightarrow> nat \<times> nat option" where
  "splice_size_hint sp = drain_size_hint (sp_drain sp)"

subsection \<open>DrainFilter\<close>

record drain_filter =
  idx :: nat
  del :: nat
  old_len :: nat

definition deque_drain_filter :: "('a, 'os) cfg \<Rightarrow> 'a deque \<Rightarrow> fault + (drain_filter \<times> 'a deque)" where
  "deque_drain_filter c d =
     bindE (deque_len c d) (\<lambda>old_len.
     bindE (isize_arith (debug c) (- to_isize old_len)) (\<lambda>x.
     bindE (move_tail_unchecked c d x) (\<lambda>d.
     Inr (\<lparr>idx = 0, del = 0, old_len = old_len\<rparr>, d))))"

text \<open>
  \<open>next\<close>, at most \<open>n\<close> rounds of its loop. The predicate gets a mutable reference: it answers with
  the element as it leaves it. The item is \<open>Some None\<close> at the end of the iteration.
\<close>

type_synonym ('a, 's) pred = "'s \<Rightarrow> 'a \<Rightarrow> bool option \<times> 'a \<times> 's"

fun drain_filter_next ::
    "('a, 'os) cfg \<Rightarrow> ('a, 's) pred \<Rightarrow> nat \<Rightarrow> drain_filter \<Rightarrow> 's \<Rightarrow> 'a deque \<Rightarrow>
     fault + (completion \<times> 'a option \<times> drain_filter \<times> 's \<times> 'a deque)" where
  "drain_filter_next c f 0 df s d = Inr (Returned, None, df, s, d)"
| "drain_filter_next c f (Suc n) df s d =
     (if idx df = old_len df then Inr (Returned, None, df, s, d)
      else
        let i = idx df in
        bindE (usize_add (debug c) (idx df) 1) (\<lambda>i'.
        let df = df\<lparr>idx := i'\<rparr>;
            p = ptr_offset c (eptr d) (int i) in
        bindE (ptr_read c (buf d) p) (\<lambda>v.
        case f s v of (r, v, s) \<Rightarrow>
        bindE (ptr_write c (buf d) p v) (\<lambda>b.
        let d = d\<lparr>buf := b\<rparr> in
        case r of
          None \<Rightarrow> Inr (Unwinding, None, df, s, d)
        | Some True \<Rightarrow>
            bindE (usize_add (debug c) (del df) 1) (\<lambda>k.
            bindE (ptr_read c (buf d) p) (\<lambda>v.
            Inr (Returned, Some v, df\<lparr>del := k\<rparr>, s, d)))
        | Some False \<Rightarrow>
            if 0 < del df then
              bindE (usize_sub (debug c) i (del df)) (\<lambda>j.
              bindE (ptr_copy_nonoverlapping c (buf d) p (buf d) (ptr_offset c (eptr d) (int j)) 1) (\<lambda>b.
              drain_filter_next c f n df s (d\<lparr>buf := b\<rparr>)))
            else drain_filter_next c f n df s d))))"

text \<open>\<open>for _ in self.by_ref() {}\<close>: the items are dropped.\<close>

fun drain_filter_each ::
    "('a, 'os) cfg \<Rightarrow> ('a, 's) pred \<Rightarrow> nat \<Rightarrow> drain_filter \<Rightarrow> 's \<Rightarrow> 'a deque \<Rightarrow> ('a, 'os) world \<Rightarrow>
     fault + (completion \<times> drain_filter \<times> 's \<times> 'a deque \<times> ('a, 'os) world)" where
  "drain_filter_each c f 0 df s d w = Inr (Returned, df, s, d, w)"
| "drain_filter_each c f (Suc n) df s d w =
     bindE (drain_filter_next c f (old_len df - idx df) df s d) (\<lambda>(r, item, df, s, d).
     case (r, item) of
       (Unwinding, _) \<Rightarrow> Inr (Unwinding, df, s, d, w)
     | (Returned, None) \<Rightarrow> Inr (Returned, df, s, d, w)
     | (Returned, Some v) \<Rightarrow> drain_filter_each c f n df s d (drop_vals c [v] w))"

text \<open>A panic of the predicate inside \<open>drop\<close> leaves the deque shortened to nothing.\<close>

definition drain_filter_drop ::
    "('a, 'os) cfg \<Rightarrow> ('a, 's) pred \<Rightarrow> drain_filter \<Rightarrow> 's \<Rightarrow> 'a deque \<Rightarrow> ('a, 'os) world \<Rightarrow>
     fault + (completion \<times> 's \<times> 'a deque \<times> ('a, 'os) world)" where
  "drain_filter_drop c f df s d w =
     bindE (drain_filter_each c f (old_len df - idx df) df s d w) (\<lambda>(r, df, s, d, w).
     case r of
       Unwinding \<Rightarrow> Inr (Unwinding, s, d, w)
     | Returned \<Rightarrow>
         bindE (usize_sub (debug c) (old_len df) (del df)) (\<lambda>new_len.
         bindE (move_tail_unchecked c d (to_isize new_len)) (\<lambda>d.
         Inr (Returned, s, d, w))))"

subsection \<open>A deque being drained\<close>

definition draining ::
    "('a, 'os) cfg \<Rightarrow> 'a deque \<Rightarrow> drain \<Rightarrow> nat \<Rightarrow> 'a list \<Rightarrow> 'a list \<Rightarrow> 'a list \<Rightarrow> bool" where
  "draining c d dr k pre mid post \<longleftrightarrow>
     wf_deque c d \<and> elen d = length pre \<and> it_len dr = length mid \<and> tail_len dr = length post \<and>
     (0 < esize c \<longrightarrow> mid \<noteq> [] \<longrightarrow> it_ptr dr = eptr d + k * esize c) \<and>
     length pre \<le> k \<and> k + length mid \<le> tail_start dr \<and> tail_start dr + length post \<le> capacity d \<and>
     (\<forall>i < length pre. dview c d ! i = enc (esize c) (pre ! i)) \<and>
     (\<forall>i < length mid. dview c d ! (k + i) = enc (esize c) (mid ! i)) \<and>
     (\<forall>i < length post. dview c d ! (tail_start dr + i) = enc (esize c) (post ! i)) \<and>
     list_all (val_ok c) (pre @ mid @ post)"

text \<open>At every moment the deque itself is a valid one: forgetting the \<open>Drain\<close> is safe.\<close>

lemma draining_rep: "draining c d dr k pre mid post \<Longrightarrow> rep c d pre"
  by (rule repI) (auto simp: draining_def list_all_iff)

definition range_start_of :: "range_bound \<Rightarrow> nat" where
  "range_start_of lo = (case lo of Included n \<Rightarrow> n | Excluded n \<Rightarrow> n + 1 | Unbounded \<Rightarrow> 0)"

definition range_end_of :: "range_bound \<Rightarrow> nat \<Rightarrow> nat" where
  "range_end_of hi len = (case hi of Included n \<Rightarrow> n + 1 | Excluded n \<Rightarrow> n | Unbounded \<Rightarrow> len)"

lemma deque_drain_rep:
  assumes r: "rep c d xs" and b: "s = range_start_of lo" "e = range_end_of hi (length xs)"
    and se: "s \<le> e" "e \<le> length xs"
  obtains dr where "deque_drain c lo hi d = Inr (dr, d\<lparr>elen := s\<rparr>)"
    "draining c (d\<lparr>elen := s\<rparr>) dr s (take s xs) (take (e - s) (drop s xs)) (drop e xs)" "tail_start dr = e"
proof -
  note wf = rep_wf[OF r] and len = rep_len[OF r] and le = rep_len_le[OF r]
  have small: "e < usize_bound" "s < usize_bound"
    using se wf_dequeD(6)[OF wf] len by (auto simp: usize_isize_bound)
  have lo: "(case lo of Included n \<Rightarrow> Inr n | Excluded n \<Rightarrow> usize_add (debug c) n 1 | Unbounded \<Rightarrow> Inr 0) = Inr s"
    using b(1) small(2) by (auto simp: range_start_of_def split: range_bound.splits)
  have hi: "(case hi of Included n \<Rightarrow> usize_add (debug c) n 1 | Excluded n \<Rightarrow> Inr n | Unbounded \<Rightarrow> Inr (length xs)) = Inr e"
    using b(2) small(1) by (auto simp: range_end_of_def split: range_bound.splits)
  let ?dr = "\<lparr>tail_start = e, tail_len = length xs - e,
    it_ptr = (if esize c = 0 then wrapping_add (eptr d) s else ptr_offset c (eptr d) (int s)), it_len = e - s\<rparr>"
  have run: "deque_drain c lo hi d = Inr (?dr, d\<lparr>elen := s\<rparr>)"
    using wf len lo hi se by (simp add: deque_drain_def)
  have p: "ptr_offset c (eptr d) (int s) = eptr d + s * esize c"
    using ptr_offset_slot[OF wf, of s] se le by simp
  have wfs: "wf_deque c (d\<lparr>elen := s\<rparr>)" using wf se le by (auto simp: wf_deque_def capacity_def)
  have slots: "dview c d ! i = enc (esize c) (xs ! i)" if "i < length xs" for i
    using rep_slot[OF r that] .
  have "draining c (d\<lparr>elen := s\<rparr>) ?dr s (take s xs) (take (e - s) (drop s xs)) (drop e xs)"
    using se le p wfs rep_vals[OF r] slots
    by (auto simp: draining_def list_all_iff min_def dest: in_set_takeD in_set_dropD)
  then show ?thesis using that run by simp
qed

lemma deque_drain_bad_range:
  assumes r: "rep c d xs" and b: "s = range_start_of lo" "e = range_end_of hi (length xs)"
    and small: "s < usize_bound" "e < usize_bound" and bad: "\<not> (s \<le> e \<and> e \<le> length xs)"
  shows "deque_drain c lo hi d = panic AssertFailed"
proof -
  have "(case lo of Included n \<Rightarrow> Inr n | Excluded n \<Rightarrow> usize_add (debug c) n 1 | Unbounded \<Rightarrow> Inr 0) = Inr s"
    using b(1) small(1) by (auto simp: range_start_of_def split: range_bound.splits)
  moreover have "(case hi of Included n \<Rightarrow> usize_add (debug c) n 1 | Excluded n \<Rightarrow> Inr n | Unbounded \<Rightarrow> Inr (length xs)) = Inr e"
    using b(2) small(2) by (auto simp: range_end_of_def split: range_bound.splits)
  ultimately show ?thesis
    using rep_wf[OF r] rep_len[OF r] bad by (cases "s \<le> e") (simp_all add: deque_drain_def)
qed

lemma draining_read:
  assumes "draining c d dr k pre mid post" "i < length mid"
  shows "ptr_read c (buf d) (it_ptr dr + i * esize c) = Inr (mid ! i)"
proof -
  have w: "wf_deque c d" and v: "val_ok c (mid ! i)" and slot: "dview c d ! (k + i) = enc (esize c) (mid ! i)"
    and k: "k + i < capacity d"
    using assms by (auto simp: draining_def list_all_iff)
  note wd = wf_dequeD[OF w]
  show ?thesis
  proof (cases "esize c = 0")
    case True
    then show ?thesis using v by (simp add: ptr_read_def val_ok_def)
  next
    case False
    have p: "it_ptr dr + i * esize c = eptr d + (k + i) * esize c"
      using assms False by (auto simp: draining_def add_mult_distrib)
    have "k + i < blen (buf d) div 2" using k by (simp add: capacity_def)
    then show ?thesis
      using view_read[OF wd(1-3)] slot val_ok_decode[OF v] by (simp add: p dview_def)
  qed
qed

lemma drain_next_rep:
  assumes "draining c d dr k pre mid post"
  shows "mid = [] \<Longrightarrow> drain_next c d dr = Inr (None, dr)"
    "mid = x # rest \<Longrightarrow> \<exists>dr'. drain_next c d dr = Inr (Some x, dr') \<and>
       draining c d dr' (Suc k) pre rest post \<and> tail_start dr' = tail_start dr"
proof -
  show "mid = [] \<Longrightarrow> drain_next c d dr = Inr (None, dr)"
    using assms by (simp add: drain_next_def draining_def)
  assume mid: "mid = x # rest"
  then have rd: "ptr_read c (buf d) (it_ptr dr) = Inr x" and n: "it_len dr = Suc (length rest)"
    using draining_read[OF assms, of 0] assms by (simp_all add: draining_def)
  have slots: "dview c d ! (Suc k + i) = enc (esize c) (rest ! i)" if "i < length rest" for i
    using assms mid that unfolding draining_def by (metis Suc_less_eq add_Suc add_Suc_right length_Cons nth_Cons_Suc)
  have "draining c d (dr\<lparr>it_ptr := it_ptr dr + esize c, it_len := it_len dr - 1\<rparr>) (Suc k) pre rest post"
    using assms mid n slots unfolding draining_def by auto
  then show "\<exists>dr'. drain_next c d dr = Inr (Some x, dr') \<and>
       draining c d dr' (Suc k) pre rest post \<and> tail_start dr' = tail_start dr"
    using rd n by (simp add: drain_next_def)
qed

lemma drain_next_back_rep:
  assumes "draining c d dr k pre mid post"
  shows "mid = [] \<Longrightarrow> drain_next_back c d dr = Inr (None, dr)"
    "mid = rest @ [x] \<Longrightarrow> \<exists>dr'. drain_next_back c d dr = Inr (Some x, dr') \<and>
       draining c d dr' k pre rest post \<and> tail_start dr' = tail_start dr"
proof -
  show "mid = [] \<Longrightarrow> drain_next_back c d dr = Inr (None, dr)"
    using assms by (simp add: drain_next_back_def draining_def)
  assume mid: "mid = rest @ [x]"
  then have rd: "ptr_read c (buf d) (it_ptr dr + length rest * esize c) = Inr x"
    and n: "it_len dr = Suc (length rest)"
    using draining_read[OF assms, of "length rest"] assms by (simp_all add: draining_def)
  have slots: "dview c d ! (k + i) = enc (esize c) (rest ! i)" if "i < length rest" for i
  proof -
    have "dview c d ! (k + i) = enc (esize c) ((rest @ [x]) ! i)" using assms mid that by (simp add: draining_def)
    then show ?thesis using that by (simp add: nth_append)
  qed
  have "draining c d (dr\<lparr>it_len := it_len dr - 1\<rparr>) k pre rest post"
    using assms mid n slots unfolding draining_def by auto
  then show "\<exists>dr'. drain_next_back c d dr = Inr (Some x, dr') \<and>
       draining c d dr' k pre rest post \<and> tail_start dr' = tail_start dr"
    using rd n by (simp add: drain_next_back_def)
qed

lemma drain_each_rep:
  assumes "draining c d dr k pre mid post"
  shows "\<exists>dr'. drain_each c d (length mid) dr w = Inr (dr', drop_vals c mid w) \<and>
    draining c d dr' (k + length mid) pre [] post \<and> tail_start dr' = tail_start dr"
  using assms
proof (induction mid arbitrary: dr k w)
  case (Cons x mid)
  obtain dr1 where d1: "drain_next c d dr = Inr (Some x, dr1)" "draining c d dr1 (Suc k) pre mid post"
    "tail_start dr1 = tail_start dr" using drain_next_rep(2)[OF Cons.prems refl] by blast
  show ?case using Cons.IH[OF d1(2), of "drop_vals c [x] w"] d1 by auto
qed auto

lemma draining_it_len: "draining c d dr k pre mid post \<Longrightarrow> it_len dr = length mid"
  by (simp add: draining_def)

lemma drain_is_empty_rep: "draining c d dr k pre mid post \<Longrightarrow> drain_is_empty dr \<longleftrightarrow> mid = []"
  by (simp add: drain_is_empty_def draining_def)

text \<open>Dropping the \<open>Drain\<close> closes the gap.\<close>

lemma drain_drop_rep:
  assumes dr: "draining c d dr k pre mid post"
  obtains d' where "drain_drop c dr d w = Inr (d', drop_vals c mid w)" "evolves c d d' (pre @ post)"
proof -
  obtain dr' where e: "drain_each c d (length mid) dr w = Inr (dr', drop_vals c mid w)"
    "draining c d dr' (k + length mid) pre [] post" "tail_start dr' = tail_start dr"
    using drain_each_rep[OF dr] by blast
  have wf: "wf_deque c d" and len: "elen d = length pre" and tl: "tail_len dr' = length post"
    and ts: "length pre \<le> tail_start dr'" "tail_start dr' + length post \<le> capacity d"
    using e(2) by (auto simp: draining_def)
  note il = draining_it_len[OF dr]
  show ?thesis
  proof (cases "post = []")
    case True
    then show ?thesis using that[of d] e tl il draining_rep[OF dr] evolves_refl[of c d pre] by (simp add: drain_drop_def)
  next
    case False
    have st: "tail_start dr' + length post \<le> capacity d" "length pre + length post \<le> capacity d" using ts by simp_all
    obtain cs where cs:
      "ptr_copy c (buf d) (eptr d + tail_start dr' * esize c) (eptr d + length pre * esize c) (length post) = Inr ((buf d)\<lparr>cells := cs\<rparr>)"
      "wf_deque c (d\<lparr>buf := (buf d)\<lparr>cells := cs\<rparr>\<rparr>)"
      "dview c (d\<lparr>buf := (buf d)\<lparr>cells := cs\<rparr>\<rparr>)
         = splice_at (dview c d) (length pre) (take (length post) (drop (tail_start dr') (dview c d)))"
      "regions c ((buf d)\<lparr>cells := cs\<rparr>) = regions c (buf d)"
      using dview_copy[OF wf st] .
    let ?d = "d\<lparr>buf := (buf d)\<lparr>cells := cs\<rparr>\<rparr>"
    have x: "- int (elen ?d) \<le> int (length post)" "int (length post) \<le> int (capacity ?d - elen ?d)" using st len by simp_all
    have eq: "nat (int (elen ?d) + int (length post)) = length pre + length post" using len by simp
    note m = move_tail_ok[OF cs(2) x, unfolded eq]
    let ?d2 = "?d\<lparr>elen := length pre + length post\<rparr>"
    have p: "ptr_offset c (eptr d) (int (tail_start dr')) = eptr d + tail_start dr' * esize c"
      "ptr_offset c (eptr d) (int (length pre)) = eptr d + length pre * esize c"
      using ptr_offset_slot[OF wf] st by simp_all
    have sm: "to_isize (length post) = int (length post)" using st wf_dequeD(5)[OF wf] by simp
    have run: "drain_drop c dr d w = Inr (?d2, drop_vals c mid w)"
      using e(1) il tl False wf len p cs(1) m(1) sm by (simp add: drain_drop_def Let_def)
    have "rep c ?d2 (pre @ post)"
    proof (rule repI)
      fix i assume "i < length (pre @ post)"
      then have i: "i < length pre + length post" by simp
      show "dview c ?d2 ! i = enc (esize c) ((pre @ post) ! i)"
      proof (cases "i < length pre")
        case True
        then show ?thesis using e(2) st cs(3) by (simp add: nth_splice_at draining_def nth_append)
      next
        case False
        then obtain j where j: "i = length pre + j" "j < length post"
          using i by (metis add_less_cancel_left le_Suc_ex not_less)
        then show ?thesis using e(2) st cs(3) by (simp add: nth_splice_at draining_def nth_append)
      qed
    next
      fix v assume "v \<in> set (pre @ post)"
      then show "val_ok c v" using e(2) by (auto simp: draining_def list_all_iff)
    qed (use m(2) in simp_all)
    then have "evolves c d ?d2 (pre @ post)" using cs(4) by (simp add: evolves_def capacity_def)
    then show ?thesis using that run by simp
  qed
qed

subsection \<open>Filling the gap\<close>

text \<open>Writing one place of the gap: the deque grows by one, range and tail are where they were.\<close>

lemma fill_step:
  assumes dr: "draining c d dr k pre [] post" and g: "length pre < tail_start dr" and v: "val_ok c x"
  obtains cs where
    "ptr_write c (buf d) (eptr d + length pre * esize c) x = Inr ((buf d)\<lparr>cells := cs\<rparr>)"
    "move_tail_unchecked c (d\<lparr>buf := (buf d)\<lparr>cells := cs\<rparr>\<rparr>) 1
       = Inr (d\<lparr>elen := Suc (length pre), buf := (buf d)\<lparr>cells := cs\<rparr>\<rparr>)"
    "evolves c d (d\<lparr>elen := Suc (length pre), buf := (buf d)\<lparr>cells := cs\<rparr>\<rparr>) (pre @ [x])"
    "draining c (d\<lparr>elen := Suc (length pre), buf := (buf d)\<lparr>cells := cs\<rparr>\<rparr>) dr (tail_start dr) (pre @ [x]) [] post"
    "dview c (d\<lparr>elen := Suc (length pre), buf := (buf d)\<lparr>cells := cs\<rparr>\<rparr>) = (dview c d)[length pre := enc (esize c) x]"
proof -
  have r: "rep c d pre" by (rule draining_rep[OF dr])
  have ts: "tail_start dr + length post \<le> capacity d" using dr by (simp add: draining_def)
  have n: "length pre < capacity d" using g ts by simp
  obtain cs where cs: "ptr_write c (buf d) (eptr d + length pre * esize c) x = Inr ((buf d)\<lparr>cells := cs\<rparr>)"
    "move_tail_unchecked c (d\<lparr>buf := (buf d)\<lparr>cells := cs\<rparr>\<rparr>) 1
       = Inr (d\<lparr>elen := Suc (length pre), buf := (buf d)\<lparr>cells := cs\<rparr>\<rparr>)"
    "evolves c d (d\<lparr>elen := Suc (length pre), buf := (buf d)\<lparr>cells := cs\<rparr>\<rparr>) (pre @ [x])"
    "dview c (d\<lparr>elen := Suc (length pre), buf := (buf d)\<lparr>cells := cs\<rparr>\<rparr>) = (dview c d)[length pre := enc (esize c) x]"
    using rep_write_push_view[OF r n v] .
  let ?d = "d\<lparr>elen := Suc (length pre), buf := (buf d)\<lparr>cells := cs\<rparr>\<rparr>"
  have cap: "capacity ?d = capacity d" using cs(3) by (simp add: evolves_def)
  have slots: "dview c ?d ! i = enc (esize c) ((pre @ [x]) ! i)" if "i < length (pre @ [x])" for i
    using rep_slot[OF evolves_rep[OF cs(3)] that] .
  have tail: "dview c ?d ! (tail_start dr + i) = enc (esize c) (post ! i)" if "i < length post" for i
    using that dr g ts by (simp add: cs(4) draining_def)
  have "draining c ?d dr (tail_start dr) (pre @ [x]) [] post"
    using dr g v rep_wf[OF evolves_rep[OF cs(3)]] slots tail unfolding draining_def cap by simp
  then show ?thesis using that cs by blast
qed

lemma fill_places_rep:
  assumes "draining c d dr k pre [] post" "length pre + n \<le> tail_start dr" "list_all (val_ok c) items"
  shows "\<exists>d' k'. fill_places c n (eptr d + length pre * esize c) items d
       = Inr (n \<le> length items, drop n items, d') \<and>
     draining c d' dr k' (pre @ take n items) [] post \<and> evolves c d d' (pre @ take n items) \<and>
     (\<forall>i. tail_start dr \<le> i \<longrightarrow> dview c d' ! i = dview c d ! i)"
  using assms
proof (induction n arbitrary: d k pre items)
  case 0
  then show ?case using draining_rep evolves_refl by fastforce
next
  case (Suc n)
  show ?case
  proof (cases items)
    case Nil
    then show ?thesis using Suc.prems draining_rep evolves_refl by fastforce
  next
    case (Cons x rest)
    have g: "length pre < tail_start dr" and v: "val_ok c x" "list_all (val_ok c) rest"
      using Suc.prems(2,3) Cons by simp_all
    obtain cs where cs:
      "ptr_write c (buf d) (eptr d + length pre * esize c) x = Inr ((buf d)\<lparr>cells := cs\<rparr>)"
      "move_tail_unchecked c (d\<lparr>buf := (buf d)\<lparr>cells := cs\<rparr>\<rparr>) 1
         = Inr (d\<lparr>elen := Suc (length pre), buf := (buf d)\<lparr>cells := cs\<rparr>\<rparr>)"
      "evolves c d (d\<lparr>elen := Suc (length pre), buf := (buf d)\<lparr>cells := cs\<rparr>\<rparr>) (pre @ [x])"
      "draining c (d\<lparr>elen := Suc (length pre), buf := (buf d)\<lparr>cells := cs\<rparr>\<rparr>) dr (tail_start dr) (pre @ [x]) [] post"
      "dview c (d\<lparr>elen := Suc (length pre), buf := (buf d)\<lparr>cells := cs\<rparr>\<rparr>) = (dview c d)[length pre := enc (esize c) x]"
      using fill_step[OF Suc.prems(1) g v(1)] .
    let ?d = "d\<lparr>elen := Suc (length pre), buf := (buf d)\<lparr>cells := cs\<rparr>\<rparr>"
    have p: "eptr d + length pre * esize c + esize c = eptr ?d + length (pre @ [x]) * esize c" by simp
    have le: "length (pre @ [x]) + n \<le> tail_start dr" using Suc.prems(2) by simp
    obtain d' k' where d': "fill_places c n (eptr ?d + length (pre @ [x]) * esize c) rest ?d
        = Inr (n \<le> length rest, drop n rest, d')"
      "draining c d' dr k' ((pre @ [x]) @ take n rest) [] post" "evolves c ?d d' ((pre @ [x]) @ take n rest)"
      "\<And>i. tail_start dr \<le> i \<Longrightarrow> dview c d' ! i = dview c ?d ! i"
      using Suc.IH[OF cs(4) le v(2)] by blast
    have "dview c d' ! i = dview c d ! i" if "tail_start dr \<le> i" for i
      using d'(4)[OF that] that g cs(5) by simp
    then show ?thesis
      using cs(1,2) d'(1)[folded p] d'(2) evolves_trans[OF cs(3) d'(3)] Cons
      by (intro exI[of _ d'] exI[of _ k']) simp
  qed
qed

lemma drain_fill_rep:
  assumes dr: "draining c d dr k pre [] post" and v: "list_all (val_ok c) items"
  defines "n \<equiv> tail_start dr - length pre"
  obtains d' k' where "drain_fill c dr items d = Inr (n \<le> length items, drop n items, d')"
    "draining c d' dr k' (pre @ take n items) [] post" "evolves c d d' (pre @ take n items)"
    "\<And>i. tail_start dr \<le> i \<Longrightarrow> dview c d' ! i = dview c d ! i"
proof -
  have wf: "wf_deque c d" and len: "elen d = length pre" and le: "length pre \<le> tail_start dr"
    "length pre \<le> capacity d"
    using dr by (auto simp: draining_def)
  have n: "length pre + n \<le> tail_start dr" using le by (simp add: n_def)
  obtain d' k' where d': "fill_places c n (eptr d + length pre * esize c) items d = Inr (n \<le> length items, drop n items, d')"
    "draining c d' dr k' (pre @ take n items) [] post" "evolves c d d' (pre @ take n items)"
    "\<And>i. tail_start dr \<le> i \<Longrightarrow> dview c d' ! i = dview c d ! i"
    using fill_places_rep[OF dr n v] by blast
  have p: "ptr_offset c (eptr d) (int (length pre)) = eptr d + length pre * esize c"
    using ptr_offset_slot[OF wf le(2)] .
  have "drain_fill c dr items d = Inr (n \<le> length items, drop n items, d')"
    using wf len le p d'(1) by (simp add: drain_fill_def n_def)
  then show ?thesis using that d'(2-4) by blast
qed

text \<open>Making room for \<open>extra\<close> more elements before the tail, when the capacity is there.\<close>

lemma drain_move_tail_rep:
  assumes dr: "draining c d dr k pre [] post" and room: "tail_start dr + length post + extra \<le> capacity d"
  obtains d' where "drain_move_tail_unchecked c extra dr d w = Inr (dr\<lparr>tail_start := tail_start dr + extra\<rparr>, d', w)"
    "draining c d' (dr\<lparr>tail_start := tail_start dr + extra\<rparr>) (length pre) pre [] post" "evolves c d d' pre"
proof -
  have wf: "wf_deque c d" and len: "elen d = length pre" and tl: "tail_len dr = length post"
    and le: "length pre \<le> tail_start dr" using dr by (auto simp: draining_def)
  note w = wf_dequeD[OF wf]
  have st: "tail_start dr + length post \<le> capacity d" "tail_start dr + extra + length post \<le> capacity d"
    using room by simp_all
  obtain cs where cs:
    "ptr_copy c (buf d) (eptr d + tail_start dr * esize c) (eptr d + (tail_start dr + extra) * esize c) (length post) = Inr ((buf d)\<lparr>cells := cs\<rparr>)"
    "wf_deque c (d\<lparr>buf := (buf d)\<lparr>cells := cs\<rparr>\<rparr>)"
    "dview c (d\<lparr>buf := (buf d)\<lparr>cells := cs\<rparr>\<rparr>)
       = splice_at (dview c d) (tail_start dr + extra) (take (length post) (drop (tail_start dr) (dview c d)))"
    "regions c ((buf d)\<lparr>cells := cs\<rparr>) = regions c (buf d)"
    using dview_copy[OF wf st] .
  let ?d = "d\<lparr>buf := (buf d)\<lparr>cells := cs\<rparr>\<rparr>" and ?dr = "dr\<lparr>tail_start := tail_start dr + extra\<rparr>"
  have small: "tail_start dr + length post < usize_bound" "tail_start dr + length post + extra < usize_bound"
    "tail_start dr + extra < usize_bound" using room w(5) by (simp_all add: usize_isize_bound)
  have p: "ptr_offset c (eptr d) (int (tail_start dr)) = eptr d + tail_start dr * esize c"
    "ptr_offset c (eptr d) (int (tail_start dr + extra)) = eptr d + (tail_start dr + extra) * esize c"
    using ptr_offset_slot[OF wf, of "tail_start dr"] ptr_offset_slot[OF wf, of "tail_start dr + extra"] st by simp_all
  have run: "drain_move_tail_unchecked c extra dr d w = Inr (?dr, ?d, w)"
    using small tl room p cs(1) unfolding drain_move_tail_unchecked_def Let_def reserve_capacity_def
    by (simp del: of_nat_add)
  have pre: "dview c ?d ! i = enc (esize c) (pre ! i)" if "i < length pre" for i
    using that le st dr cs(3) by (simp add: nth_splice_at draining_def)
  have post: "dview c ?d ! (tail_start dr + extra + i) = enc (esize c) (post ! i)" if "i < length post" for i
    using that st dr cs(3) by (simp add: nth_splice_at draining_def)
  have "draining c ?d ?dr (length pre) pre [] post"
    using dr cs(2) pre post st le unfolding draining_def by simp
  moreover from this have "evolves c d ?d pre"
    using draining_rep cs(4) by (simp add: evolves_def)
  ultimately show ?thesis using that run by blast
qed

text \<open>
  A splice whose items fit: the gap takes what it can, the tail moves once for the rest, and the
  result is the prefix, all the items, the tail. The hint must be exact for what the gap left.
\<close>

lemma collected_nothing:
  assumes "cfg_ok c"
  shows "from_iter_default c hint [] w = Inr (deque_new c, w)" "deque_len c (deque_new c) = Inr 0"
    "slice_elems c (deque_new c) = Inr []" "buffer_drop c (buf (deque_new c)) w = Inr w"
proof -
  have r: "rep c (deque_new c) []" by (rule rep_new[OF assms])
  show "from_iter_default c hint [] w = Inr (deque_new c, w)" by (simp add: from_iter_default_def)
  show "deque_len c (deque_new c) = Inr 0" using rep_wf[OF r] rep_len[OF r] by simp
  show "slice_elems c (deque_new c) = Inr []" by (rule slice_elems_rep[OF r])
  show "buffer_drop c (buf (deque_new c)) w = Inr w"
    by (simp add: buffer_drop_def deque_new_def buffer_new_def buf_is_empty_def empty_len_def Let_def)
qed

lemma splice_fill_rep:
  assumes dr: "draining c d dr k pre [] post" and v: "list_all (val_ok c) items"
    and rest: "rest = drop (tail_start dr - length pre) items" "fst (hint rest) = length rest"
    and room: "tail_start dr + length post + length rest \<le> capacity d"
  obtains dr' d' k' where "splice_fill c hint items dr d w = Inr (dr', d', w)"
    "draining c d' dr' k' (pre @ items) [] post" "evolves c d d' (pre @ items)"
proof -
  have c: "cfg_ok c" using dr wf_dequeD(1) by (auto simp: draining_def)
  define g where "g = tail_start dr - length pre"
  have le: "length pre \<le> tail_start dr" using dr by (simp add: draining_def)
  obtain u where hint: "hint rest = (length rest, u)" using rest(2) by (cases "hint rest") auto
  obtain d1 k1 where d1: "drain_fill c dr items d = Inr (g \<le> length items, rest, d1)"
    "draining c d1 dr k1 (pre @ take g items) [] post" "evolves c d d1 (pre @ take g items)"
    using drain_fill_rep[OF dr v] unfolding rest g_def by metis
  show ?thesis
  proof (cases "g \<le> length items")
    case False
    then show ?thesis using that[of dr d1 k1] d1 by (simp add: splice_fill_def)
  next
    case full: True
    show ?thesis
    proof (cases "rest = []")
      case True
      then have "take g items = items" using full by (simp add: rest g_def)
      then show ?thesis using that[of dr d1 k1] d1 full True hint collected_nothing[OF c]
        by (simp add: splice_fill_def)
    next
      case False
      let ?dr2 = "dr\<lparr>tail_start := tail_start dr + length rest\<rparr>"
      have room1: "tail_start dr + length post + length rest \<le> capacity d1"
        using room d1(3) by (simp add: evolves_def)
      obtain d2 where d2: "drain_move_tail_unchecked c (length rest) dr d1 w = Inr (?dr2, d2, w)"
        "draining c d2 ?dr2 (length (pre @ take g items)) (pre @ take g items) [] post"
        "evolves c d1 d2 (pre @ take g items)"
        using drain_move_tail_rep[OF d1(2) room1] .
      have v2: "list_all (val_ok c) rest" using v by (simp add: rest(1) list_all_take_drop)
      have gap: "tail_start ?dr2 - length (pre @ take g items) = length rest"
        using full le by (simp add: g_def)
      obtain d3 k3 where d3: "drain_fill c ?dr2 rest d2 = Inr (True, [], d3)"
        "draining c d3 ?dr2 k3 ((pre @ take g items) @ rest) [] post"
        "evolves c d2 d3 ((pre @ take g items) @ rest)"
        by (rule drain_fill_rep[OF d2(2) v2, unfolded gap]) auto
      have items: "(pre @ take g items) @ rest = pre @ items" by (simp add: rest(1) g_def)
      have "splice_fill c hint items dr d w = Inr (?dr2, d3, w)"
        using d1(1) full False hint d2(1) d3(1) collected_nothing[OF c]
        by (simp add: splice_fill_def)
      then show ?thesis
        using that d3(2) evolves_trans[OF d1(3) evolves_trans[OF d2(3) d3(3)]] unfolding items by blast
    qed
  qed
qed

lemma splice_drop_rep:
  assumes dr: "draining c d dr k pre mid post" and post: "post \<noteq> []" and v: "list_all (val_ok c) items"
    and rest: "rest = drop (tail_start dr - length pre) items" "fst (hint rest) = length rest"
    and room: "tail_start dr + length post + length rest \<le> capacity d"
  obtains d' where "splice_drop c hint items dr d w = Inr (d', drop_vals c mid w)"
    "evolves c d d' (pre @ items @ post)"
proof -
  obtain dr1 where e: "drain_each c d (length mid) dr w = Inr (dr1, drop_vals c mid w)"
    "draining c d dr1 (k + length mid) pre [] post" "tail_start dr1 = tail_start dr"
    using drain_each_rep[OF dr] by blast
  obtain dr2 d2 k2 where s: "splice_fill c hint items dr1 d (drop_vals c mid w) = Inr (dr2, d2, drop_vals c mid w)"
    "draining c d2 dr2 k2 (pre @ items) [] post" "evolves c d d2 (pre @ items)"
    using splice_fill_rep[where hint = hint and rest = rest, OF e(2) v rest[folded e(3)] room[folded e(3)]] .
  obtain d3 where d3: "drain_drop c dr2 d2 (drop_vals c mid w) = Inr (d3, drop_vals c mid w)"
    "evolves c d2 d3 ((pre @ items) @ post)"
    using drain_drop_rep[OF s(2), of "drop_vals c mid w"] by auto
  have "tail_len dr1 = length post" using e(2) by (simp add: draining_def)
  then have "splice_drop c hint items dr d w = Inr (d3, drop_vals c mid w)"
    using e(1) draining_it_len[OF dr] post s(1) d3(1) by (simp add: splice_drop_def)
  then show ?thesis using that evolves_trans[OF s(3) d3(2)] by simp
qed

subsection \<open>Filtering while draining\<close>

text \<open>
  The state between two items: with its old length the deque would hold \<open>K @ G @ rest\<close>, where
  \<open>K\<close> has been kept, \<open>rest\<close> is not yet visited, and \<open>G\<close> is what lies in the slots of the removed
  elements: stale copies. While the iterator lives the deque has length zero.
\<close>

text \<open>The call and the drop of what it returns, when nothing has to be allocated.\<close>

lemma deque_splice_rep:
  assumes r: "rep c d xs" and b: "s = range_start_of lo" "e = range_end_of hi (length xs)"
    and se: "s \<le> e" "e < length xs" and v: "list_all (val_ok c) items"
    and rest: "rest = drop (e - s) items" "fst (hint rest) = length rest" "length xs + length rest \<le> capacity d"
  obtains sp d' where "deque_splice c lo hi hint items d = Inr (sp, d\<lparr>elen := s\<rparr>)"
    "splice_size_hint sp = (e - s, Some (e - s))"
    "splice_drop c (sp_hint sp) (replace_with sp) (sp_drain sp) (d\<lparr>elen := s\<rparr>) w
       = Inr (d', drop_vals c (take (e - s) (drop s xs)) w)"
    "evolves c d d' (take s xs @ items @ drop e xs)"
proof -
  obtain dr where dr: "deque_drain c lo hi d = Inr (dr, d\<lparr>elen := s\<rparr>)"
    "draining c (d\<lparr>elen := s\<rparr>) dr s (take s xs) (take (e - s) (drop s xs)) (drop e xs)" "tail_start dr = e"
    by (rule deque_drain_rep[OF r b]) (use se in auto)
  have post: "drop e xs \<noteq> []" and gap: "tail_start dr - length (take s xs) = e - s" using se dr(3) by auto
  have "it_len dr = e - s" using dr(2) se by (simp add: draining_def)
  moreover obtain d' where
    "splice_drop c hint items dr (d\<lparr>elen := s\<rparr>) w = Inr (d', drop_vals c (take (e - s) (drop s xs)) w)"
    "evolves c (d\<lparr>elen := s\<rparr>) d' (take s xs @ items @ drop e xs)"
    by (rule splice_drop_rep[where hint = hint and rest = rest and w = w, OF dr(2) post v])
      (use rest gap se dr(3) in auto)
  ultimately show ?thesis
    using that[of "\<lparr>sp_drain = dr, replace_with = items, sp_hint = hint\<rparr>" d'] dr(1)
    by (simp add: deque_splice_def splice_size_hint_def drain_size_hint_def evolves_def)
qed

definition filtering ::
    "('a, 'os) cfg \<Rightarrow> 'a deque \<Rightarrow> drain_filter \<Rightarrow> 'a list \<Rightarrow> 'a list \<Rightarrow> 'a list \<Rightarrow> bool" where
  "filtering c d df K G rest \<longleftrightarrow>
     elen d = 0 \<and> idx df = length K + length G \<and> del df = length G \<and>
     old_len df = length (K @ G @ rest) \<and> rep c (d\<lparr>elen := old_len df\<rparr>) (K @ G @ rest)"

fun filter_scan ::
    "('a, 's) pred \<Rightarrow> 's \<Rightarrow> 'a list \<Rightarrow> 'a list \<Rightarrow> 'a list \<Rightarrow>
     completion \<times> 'a option \<times> 's \<times> 'a list \<times> 'a list \<times> 'a list" where
  "filter_scan f s K G [] = (Returned, None, s, K, G, [])"
| "filter_scan f s K G (x # rest) =
     (case f s x of
        (None, x, s) \<Rightarrow> (Unwinding, None, s, K @ [hd (G @ [x])], tl (G @ [x]), rest)
      | (Some True, x, s) \<Rightarrow> (Returned, Some x, s, K, G @ [x], rest)
      | (Some False, x, s) \<Rightarrow> filter_scan f s (K @ [x]) (tl (G @ [x])) rest)"

definition pred_ok :: "('a, 'os) cfg \<Rightarrow> ('a, 's) pred \<Rightarrow> bool" where
  "pred_ok c f \<longleftrightarrow> (\<forall>s a. val_ok c a \<longrightarrow> val_ok c (fst (snd (f s a))))"

lemma deque_drain_filter_rep:
  assumes r: "rep c d xs"
  obtains df where "deque_drain_filter c d = Inr (df, d\<lparr>elen := 0\<rparr>)"
    "filtering c (d\<lparr>elen := 0\<rparr>) df [] [] xs" "idx df = 0" "old_len df = length xs"
proof -
  note wf = rep_wf[OF r] and len = rep_len[OF r]
  have "move_tail_unchecked c d (- int (length xs)) = Inr (d\<lparr>elen := 0\<rparr>)"
    using rep_drop_tail(1)[OF r, of "length xs"] by simp
  then have "deque_drain_filter c d = Inr (\<lparr>idx = 0, del = 0, old_len = length xs\<rparr>, d\<lparr>elen := 0\<rparr>)"
    using wf len wf_dequeD(6)[OF wf] by (simp add: deque_drain_filter_def)
  moreover have "d\<lparr>elen := length xs\<rparr> = d" using len by simp
  ultimately show ?thesis using that[of "\<lparr>idx = 0, del = 0, old_len = length xs\<rparr>"] r
    by (simp add: filtering_def)
qed

lemma rep_copy_one:
  assumes r: "rep c d xs" and ij: "i < length xs" "j < length xs"
  obtains cs where
    "ptr_copy_nonoverlapping c (buf d) (eptr d + i * esize c) (buf d) (eptr d + j * esize c) 1 = Inr ((buf d)\<lparr>cells := cs\<rparr>)"
    "evolves c d (d\<lparr>buf := (buf d)\<lparr>cells := cs\<rparr>\<rparr>) (xs[j := xs ! i])"
proof -
  note w = wf_dequeD[OF rep_wf[OF r]]
  have le: "j + length [xs ! i] \<le> blen (buf d) div 2" using ij rep_len_le[OF r] by (simp add: capacity_def)
  obtain cs where cs:
    "ptr_copy_from c (enc_all (esize c) [xs ! i]) (buf d) (eptr d + j * esize c) = Inr ((buf d)\<lparr>cells := cs\<rparr>)"
    "length cs = length (cells (buf d))"
    "view c ((buf d)\<lparr>cells := cs\<rparr>) (eptr d) = splice_at (view c (buf d) (eptr d)) j (map (enc (esize c)) [xs ! i])"
    using view_write_run[OF w(1-3) le] .
  have "slice_cells c (buf d) (eptr d + i * esize c) 1 = Inr (enc_all (esize c) [xs ! i])"
    using slice_cells_run[OF r, of i 1] ij by (simp add: take_Suc hd_drop_conv_nth)
  then have cp: "ptr_copy_nonoverlapping c (buf d) (eptr d + i * esize c) (buf d) (eptr d + j * esize c) 1
      = Inr ((buf d)\<lparr>cells := cs\<rparr>)"
    using cs(1) by (simp only: ptr_copy_nonoverlapping_bytes bindE_simps)
  have "rep c (d\<lparr>buf := (buf d)\<lparr>cells := cs\<rparr>\<rparr>) (xs[j := xs ! i])"
  proof (rule repI[OF wf_update_buf[OF rep_wf[OF r] cs(2)]])
    fix k assume "k < length (xs[j := xs ! i])"
    then show "dview c (d\<lparr>buf := (buf d)\<lparr>cells := cs\<rparr>\<rparr>) ! k = enc (esize c) (xs[j := xs ! i] ! k)"
      using cs(3) le rep_slot[OF r, of k] rep_len_le[OF r] ij
      by (cases "k = j") (auto simp: dview_def nth_splice_at capacity_def)
  next
    fix x assume "x \<in> set (xs[j := xs ! i])"
    then show "val_ok c x" using rep_val_ok[OF r] ij set_update_subset_insert[of xs j "xs ! i"] by auto
  qed (simp add: rep_len[OF r])
  then show ?thesis using that[OF cp] cs(2) by (simp add: evolves_def)
qed

lemma upd_order: "(d :: 'a deque)\<lparr>buf := b, elen := n\<rparr> = d\<lparr>elen := n, buf := b\<rparr>"
  by simp

text \<open>One visit: the predicate has run on \<open>x\<close> and left \<open>y\<close> in its place.\<close>

lemma filtering_visit:
  assumes fl: "filtering c d df K G (x # rest)" and y: "val_ok c y"
  obtains cs where
    "ptr_offset c (eptr d) (int (idx df)) = eptr d + idx df * esize c"
    "ptr_read c (buf d) (eptr d + idx df * esize c) = Inr x"
    "ptr_write c (buf d) (eptr d + idx df * esize c) y = Inr ((buf d)\<lparr>cells := cs\<rparr>)"
    "rep c (d\<lparr>elen := old_len df, buf := (buf d)\<lparr>cells := cs\<rparr>\<rparr>) (K @ G @ y # rest)"
    "regions c ((buf d)\<lparr>cells := cs\<rparr>) = regions c (buf d)"
proof -
  let ?d = "d\<lparr>elen := old_len df\<rparr>"
  have r: "rep c ?d (K @ G @ x # rest)" and i: "idx df = length K + length G"
    using fl unfolding filtering_def by blast+
  have lt: "idx df < length (K @ G @ x # rest)" using i by simp
  have p: "ptr_offset c (eptr d) (int (idx df)) = eptr d + idx df * esize c"
    using ptr_offset_slot[OF rep_wf[OF r], of "idx df"] lt rep_len_le[OF r] by simp
  have rd: "ptr_read c (buf d) (eptr d + idx df * esize c) = Inr x"
    using rep_read[OF r lt] i by (simp add: nth_append)
  obtain cs where cs: "ptr_write c (buf ?d) (eptr ?d + idx df * esize c) y = Inr ((buf ?d)\<lparr>cells := cs\<rparr>)"
    "evolves c ?d (?d\<lparr>buf := (buf ?d)\<lparr>cells := cs\<rparr>\<rparr>) ((K @ G @ x # rest)[idx df := y])"
    using rep_write[OF r lt y] .
  have "(K @ G @ x # rest)[idx df := y] = K @ G @ y # rest" by (simp add: i list_update_append)
  then show ?thesis using that[of cs] p rd cs by (simp add: evolves_def)
qed

lemma filtering_keeps:
  assumes fl: "filtering c d df K G rest" shows "evolves c d d []" "idx df + length rest = old_len df"
    "old_len df < usize_bound"
proof -
  have r: "rep c (d\<lparr>elen := old_len df\<rparr>) (K @ G @ rest)" and n: "old_len df = length (K @ G @ rest)"
    using fl unfolding filtering_def by blast+
  have "wf_deque c d" using rep_wf[OF r] fl by (auto simp: wf_deque_def filtering_def capacity_def)
  then show "evolves c d d []" using fl by (auto simp: evolves_def rep_def filtering_def)
  show "idx df + length rest = old_len df" using fl by (simp add: filtering_def)
  show "old_len df < usize_bound"
    using wf_dequeD(6)[OF rep_wf[OF r]] by (simp add: usize_isize_bound)
qed

lemma drain_filter_next_rep:
  assumes "filtering c d df K G rest" "pred_ok c f" "length rest \<le> n"
    and "filter_scan f s K G rest = (r, item, s', K', G', rest')"
  shows "\<exists>df' d'. drain_filter_next c f n df s d = Inr (r, item, df', s', d') \<and>
    filtering c d' df' K' G' rest' \<and> evolves c d d' [] \<and> old_len df' = old_len df"
  using assms(1,3,4)
proof (induction rest arbitrary: d df K G s n)
  case Nil
  then have "idx df = old_len df" by (simp add: filtering_def)
  then show ?case using Nil filtering_keeps(1)[OF Nil(1)] by (cases n) auto
next
  case (Cons x rest)
  note fl = Cons.prems(1)
  obtain m where n: "n = Suc m" "length rest \<le> m" using Cons.prems(2) by (cases n) auto
  obtain o1 y s1 where f: "f s x = (o1, y, s1)" by (cases "f s x")
  have r0: "rep c (d\<lparr>elen := old_len df\<rparr>) (K @ G @ x # rest)" using fl unfolding filtering_def by blast
  have "val_ok c x" using rep_vals[OF r0] by simp
  then have y: "val_ok c y" using assms(2) f unfolding pred_ok_def by (metis fst_conv snd_conv)
  obtain cs where cs:
    "ptr_offset c (eptr d) (int (idx df)) = eptr d + idx df * esize c"
    "ptr_read c (buf d) (eptr d + idx df * esize c) = Inr x"
    "ptr_write c (buf d) (eptr d + idx df * esize c) y = Inr ((buf d)\<lparr>cells := cs\<rparr>)"
    "rep c (d\<lparr>elen := old_len df, buf := (buf d)\<lparr>cells := cs\<rparr>\<rparr>) (K @ G @ y # rest)"
    "regions c ((buf d)\<lparr>cells := cs\<rparr>) = regions c (buf d)"
    using filtering_visit[OF fl y] .
  let ?d = "d\<lparr>buf := (buf d)\<lparr>cells := cs\<rparr>\<rparr>" and ?df = "df\<lparr>idx := Suc (idx df)\<rparr>"
  note keeps = filtering_keeps[OF fl]
  have ne: "idx df \<noteq> old_len df" "Suc (idx df) < usize_bound" using keeps by auto
  have dl: "del df = length G" "idx df = length K + length G" "elen d = 0"
    "old_len df = length (K @ G @ x # rest)" using fl by (simp_all add: filtering_def)
  have rd: "ptr_read c ((buf d)\<lparr>cells := cs\<rparr>) (eptr d + idx df * esize c) = Inr y"
    using rep_read[OF cs(4), of "idx df"] dl by (simp add: nth_append)
  have ev: "evolves c d ?d []"
  proof -
    have "wf_deque c ?d" using rep_wf[OF cs(4)] dl(3) by (auto simp: wf_deque_def capacity_def)
    then show ?thesis using cs(5) dl(3) by (simp add: evolves_def rep_def capacity_def)
  qed
  note step = n(1) ne f cs(1-3) dl(1,2)
  show ?case
  proof (cases o1)
    case None
    have "filtering c ?d ?df (K @ [hd (G @ [y])]) (tl (G @ [y])) rest"
      using dl cs(4) by (cases G) (simp_all add: filtering_def upd_order)
    then show ?thesis using step None Cons.prems(3) ev by (auto simp: Let_def)
  next
    case (Some b)
    show ?thesis
    proof (cases b)
      case True
      have "filtering c ?d (?df\<lparr>del := Suc (del df)\<rparr>) K (G @ [y]) rest"
        using dl cs(4) by (simp add: filtering_def upd_order)
      moreover have "Suc (length G) < usize_bound" using ne(2) dl(2) by simp
      ultimately show ?thesis using step Some True Cons.prems(3) ev rd by (auto simp: Let_def)
    next
      case False
      have spec: "filter_scan f s1 (K @ [y]) (tl (G @ [y])) rest = (r, item, s', K', G', rest')"
        using Cons.prems(3) f Some False by simp
      show ?thesis
      proof (cases "G = []")
        case True
        have "filtering c ?d ?df (K @ [y]) (tl (G @ [y])) rest"
          using dl cs(4) True by (simp add: filtering_def upd_order)
        from Cons.IH[OF this n(2) spec] show ?thesis
          using step Some False True evolves_trans[OF ev] by (auto simp: Let_def)
      next
        case G: False
        let ?D = "d\<lparr>elen := old_len df, buf := (buf d)\<lparr>cells := cs\<rparr>\<rparr>"
        have ij: "idx df < length (K @ G @ y # rest)" "length K < length (K @ G @ y # rest)" using dl by simp_all
        obtain cs2 where c2: "ptr_copy_nonoverlapping c (buf ?D) (eptr ?D + idx df * esize c) (buf ?D) (eptr ?D + length K * esize c) 1
            = Inr ((buf ?D)\<lparr>cells := cs2\<rparr>)"
          "evolves c ?D (?D\<lparr>buf := (buf ?D)\<lparr>cells := cs2\<rparr>\<rparr>) ((K @ G @ y # rest)[length K := (K @ G @ y # rest) ! idx df])"
          using rep_copy_one[OF cs(4) ij] .
        let ?d2 = "?d\<lparr>buf := (buf ?d)\<lparr>cells := cs2\<rparr>\<rparr>"
        have "(K @ G @ y # rest)[length K := (K @ G @ y # rest) ! idx df] = (K @ [y]) @ tl (G @ [y]) @ rest"
          using G dl(2) by (cases G) (simp_all add: nth_append)
        then have "filtering c ?d2 ?df (K @ [y]) (tl (G @ [y])) rest"
          using dl c2(2) G by (simp add: filtering_def evolves_def upd_order)
        note fl2 = this
        have ev2: "evolves c d ?d2 []"
          using filtering_keeps(1)[OF fl2] c2(2) cs(5) by (simp add: evolves_def capacity_def)
        have pj: "ptr_offset c (eptr d) (int (length K)) = eptr d + length K * esize c"
          using ptr_offset_slot[OF rep_wf[OF cs(4)], of "length K"] ij(2) rep_len_le[OF cs(4)] by simp
        from Cons.IH[OF fl2 n(2) spec] show ?thesis
          using step Some False G c2(1) pj evolves_trans[OF ev2] by (auto simp: Let_def)
      qed
    qed
  qed
qed

text \<open>All the items there are, as dropping the iterator runs through them.\<close>

fun filter_all ::
    "('a, 's) pred \<Rightarrow> 's \<Rightarrow> 'a list \<Rightarrow> 'a list \<Rightarrow> 'a list \<Rightarrow>
     completion \<times> 's \<times> 'a list \<times> 'a list \<times> 'a list \<times> 'a list" where
  "filter_all f s K G [] = (Returned, s, K, G, [], [])"
| "filter_all f s K G (x # rest) =
     (case f s x of
        (None, x, s) \<Rightarrow> (Unwinding, s, K @ [hd (G @ [x])], tl (G @ [x]), rest, [])
      | (Some True, x, s) \<Rightarrow>
          (case filter_all f s K (G @ [x]) rest of
             (r, s, K, G, rest, items) \<Rightarrow> (r, s, K, G, rest, x # items))
      | (Some False, x, s) \<Rightarrow> filter_all f s (K @ [x]) (tl (G @ [x])) rest)"

lemma filter_all_scan:
  "filter_all f s K G rest =
     (case filter_scan f s K G rest of
        (Unwinding, _, s, K, G, rest) \<Rightarrow> (Unwinding, s, K, G, rest, [])
      | (Returned, None, s, K, G, rest) \<Rightarrow> (Returned, s, K, G, rest, [])
      | (Returned, Some v, s, K, G, rest) \<Rightarrow>
          (case filter_all f s K G rest of (r, s, K, G, rest, items) \<Rightarrow> (r, s, K, G, rest, v # items)))"
  by (induction f s K G rest rule: filter_scan.induct) (auto split: prod.splits option.splits bool.splits)

lemma filter_scan_shorter:
  "filter_scan f s K G rest = (Returned, Some v, s', K', G', rest') \<Longrightarrow> length rest' < length rest"
proof (induction rest arbitrary: s K G)
  case (Cons x rest)
  then show ?case by (fastforce split: prod.splits option.splits bool.splits)
qed simp

lemma filter_all_Returned: "filter_all f s K G rest = (Returned, s', K', G', rest', items) \<Longrightarrow> rest' = []"
  by (induction f s K G rest arbitrary: items rule: filter_all.induct)
    (auto split: prod.splits option.splits bool.splits)

lemma drain_filter_each_rep:
  assumes "filtering c d df K G rest" "pred_ok c f" "length rest \<le> n"
    and "filter_all f s K G rest = (r, s', K', G', rest', items)"
  shows "\<exists>df' d'. drain_filter_each c f n df s d w = Inr (r, df', s', d', drop_vals c items w) \<and>
    filtering c d' df' K' G' rest' \<and> evolves c d d' [] \<and> old_len df' = old_len df"
  using assms(1,3,4)
proof (induction n arbitrary: d df K G rest s items w)
  case 0
  then show ?case using filtering_keeps(1)[OF 0(1)] by auto
next
  case (Suc n)
  obtain r1 it1 s1 K1 G1 rest1 where sc: "filter_scan f s K G rest = (r1, it1, s1, K1, G1, rest1)"
    by (metis prod_cases6)
  have fuel: "length rest \<le> old_len df - idx df" using filtering_keeps(2)[OF Suc.prems(1)] by simp
  obtain df1 d1 where n1: "drain_filter_next c f (old_len df - idx df) df s d = Inr (r1, it1, df1, s1, d1)"
    "filtering c d1 df1 K1 G1 rest1" "evolves c d d1 []" "old_len df1 = old_len df"
    using drain_filter_next_rep[OF Suc.prems(1) assms(2) fuel sc] by blast
  show ?case
  proof (cases "r1 = Returned \<and> it1 \<noteq> None")
    case False
    then show ?thesis using n1 Suc.prems(3) filter_all_scan[of f s K G rest] sc
      by (cases r1; cases it1) auto
  next
    case True
    then obtain v where v: "it1 = Some v" "r1 = Returned" by auto
    obtain items1 where items: "filter_all f s1 K1 G1 rest1 = (r, s', K', G', rest', items1)" "items = v # items1"
      using Suc.prems(3) filter_all_scan[of f s K G rest] sc v by (auto split: prod.splits)
    have "length rest1 \<le> n" using filter_scan_shorter[of f s K G rest v s1 K1 G1 rest1] sc v Suc.prems(2) by simp
    from Suc.IH[OF n1(2) this items(1), of "drop_vals c [v] w"] show ?thesis
      using n1 v items(2) evolves_trans[OF n1(3)] by auto
  qed
qed

text \<open>Dropping the iterator: what is not given out yet is removed or kept, and the deque is the kept part.\<close>

lemma drain_filter_drop_rep:
  assumes fl: "filtering c d df K G rest" and f: "pred_ok c f"
    and all: "filter_all f s K G rest = (Returned, s', K', G', rest', items)"
  obtains d' where "drain_filter_drop c f df s d w = Inr (Returned, s', d', drop_vals c items w)"
    "evolves c d d' K'"
proof -
  have n: "length rest \<le> old_len df - idx df" using filtering_keeps(2)[OF fl] by simp
  have rest': "rest' = []" by (rule filter_all_Returned[OF all])
  obtain df1 d1 where e: "drain_filter_each c f (old_len df - idx df) df s d w = Inr (Returned, df1, s', d1, drop_vals c items w)"
    "filtering c d1 df1 K' G' []" "evolves c d d1 []" "old_len df1 = old_len df"
    using drain_filter_each_rep[OF fl f n all] rest' by blast
  have r: "rep c (d1\<lparr>elen := old_len df1\<rparr>) (K' @ G')" and n1: "old_len df1 = length K' + length G'"
    "del df1 = length G'" "elen d1 = 0"
    using e(2) unfolding filtering_def append_Nil2 length_append by blast+
  have wf: "wf_deque c d1" using rep_wf[OF r] n1 by (auto simp: wf_deque_def capacity_def)
  have cap: "length K' \<le> capacity d1" using rep_len_le[OF r] by simp
  have x: "- int (elen d1) \<le> int (length K')" "int (length K') \<le> int (capacity d1 - elen d1)" using cap n1 by simp_all
  have eq: "nat (int (elen d1) + int (length K')) = length K'" using n1 by simp
  note m = move_tail_ok[OF wf x, unfolded eq]
  have "rep c (d1\<lparr>elen := length K'\<rparr>) K'"
    using rep_drop_tail(3)[OF r, of "length G'"] by simp
  then have "evolves c d (d1\<lparr>elen := length K'\<rparr>) K'" using e(3) by (simp add: evolves_def)
  moreover have "drain_filter_drop c f df s d w = Inr (Returned, s', d1\<lparr>elen := length K'\<rparr>, drop_vals c items w)"
    using e(1) n1 m(1) cap wf_dequeD(5)[OF wf] by (simp add: drain_filter_drop_def)
  ultimately show ?thesis using that by blast
qed

text \<open>For a predicate without effects: the others stay, in order.\<close>

lemma filter_all_pure:
  "\<exists>G'. filter_all (\<lambda>s x. (Some (P x), x, s)) s K G rest
     = (Returned, s, K @ filter (\<lambda>x. \<not> P x) rest, G', [], filter P rest)"
proof (induction rest arbitrary: K G)
  case (Cons x rest)
  obtain G1 where 1: "filter_all (\<lambda>s x. (Some (P x), x, s)) s K (G @ [x]) rest
     = (Returned, s, K @ filter (\<lambda>x. \<not> P x) rest, G1, [], filter P rest)" using Cons by blast
  obtain G2 where 2: "filter_all (\<lambda>s x. (Some (P x), x, s)) s (K @ [x]) (tl (G @ [x])) rest
     = (Returned, s, (K @ [x]) @ filter (\<lambda>x. \<not> P x) rest, G2, [], filter P rest)" using Cons by blast
  show ?case using 1 2 by (cases "P x") simp_all
qed simp

lemma pred_ok_pure: "pred_ok c (\<lambda>s x. (r s x, x, s' s x))"
  by (simp add: pred_ok_def)

text \<open>
  A predicate that panics after an element has been removed: \<open>idx\<close> has moved past the element it
  panicked on, \<open>del\<close> still counts the removed one, so the stale copy of the removed element stays
  in the range that becomes the deque again, and another element is lost.
\<close>

lemma drain_filter_panic:
  assumes r: "rep c d (x # y # zs)" and f: "pred_ok c f"
    and fx: "f s x = (Some True, x, s1)" "f s1 y = (None, y, s2)" and fz: "\<And>z. z \<in> set zs \<Longrightarrow> f s2 z = (Some False, z, s2)"
  obtains df df1 df2 d1 d2 d3 where
    "deque_drain_filter c d = Inr (df, d\<lparr>elen := 0\<rparr>)"
    "drain_filter_next c f (old_len df - idx df) df s (d\<lparr>elen := 0\<rparr>) = Inr (Returned, Some x, df1, s1, d1)"
    "drain_filter_next c f (old_len df1 - idx df1) df1 s1 d1 = Inr (Unwinding, None, df2, s2, d2)"
    "drain_filter_drop c f df2 s2 d2 w = Inr (Returned, s2, d3, w)" "evolves c d d3 (x # zs)"
proof -
  obtain df where df: "deque_drain_filter c d = Inr (df, d\<lparr>elen := 0\<rparr>)"
    "filtering c (d\<lparr>elen := 0\<rparr>) df [] [] (x # y # zs)"
    using deque_drain_filter_rep[OF r] by metis
  have n: "length (x # y # zs) \<le> old_len df - idx df" using filtering_keeps(2)[OF df(2)] by simp
  have s1: "filter_scan f s [] [] (x # y # zs) = (Returned, Some x, s1, [], [x], y # zs)" using fx by simp
  obtain df1 d1 where d1: "drain_filter_next c f (old_len df - idx df) df s (d\<lparr>elen := 0\<rparr>) = Inr (Returned, Some x, df1, s1, d1)"
    "filtering c d1 df1 [] [x] (y # zs)" "evolves c (d\<lparr>elen := 0\<rparr>) d1 []"
    using drain_filter_next_rep[OF df(2) f n s1] by blast
  have n1: "length (y # zs) \<le> old_len df1 - idx df1" using filtering_keeps(2)[OF d1(2)] by simp
  have s2: "filter_scan f s1 [] [x] (y # zs) = (Unwinding, None, s2, [x], [y], zs)" using fx by simp
  obtain df2 d2 where d2: "drain_filter_next c f (old_len df1 - idx df1) df1 s1 d1 = Inr (Unwinding, None, df2, s2, d2)"
    "filtering c d2 df2 [x] [y] zs" "evolves c d1 d2 []"
    using drain_filter_next_rep[OF d1(2) f n1 s2] by blast
  have "\<exists>G'. filter_all f s2 K G zs = (Returned, s2, K @ zs, G', [], [])" for K G
    using fz
  proof (induction zs arbitrary: K G)
    case (Cons z zs)
    obtain G' where "filter_all f s2 (K @ [z]) (tl (G @ [z])) zs = (Returned, s2, (K @ [z]) @ zs, G', [], [])"
      using Cons by (meson list.set_intros(2))
    then show ?case using Cons.prems by simp
  qed simp
  then obtain G' where all: "filter_all f s2 [x] [y] zs = (Returned, s2, [x] @ zs, G', [], [])" by blast
  obtain d3 where d3: "drain_filter_drop c f df2 s2 d2 w = Inr (Returned, s2, d3, w)" "evolves c d2 d3 (x # zs)"
    using drain_filter_drop_rep[OF d2(2) f all, of w] by auto
  have "evolves c d d3 (x # zs)" using d1(3) d2(3) d3(2) by (simp add: evolves_def)
  then show ?thesis using that df(1) d1(1) d2(1) d3(1) by blast
qed

subsection \<open>Making room by reallocation\<close>

text \<open>
  When the room in front of the tail has to come from a new buffer, \<open>reserve_capacity\<close> copies the
  \<open>len()\<close> elements of the deque, which while the range is drained are only those in front of it.
  The tail stays behind in the old buffer, which is freed: its new places were never written.
\<close>

context deque_env
begin

lemma drain_move_tail_loses:
  assumes h: "holds c os_ok owned d w pre" and dr: "draining c d dr k pre [] post" and e: "0 < esize c"
    and n: "capacity d < tail_start dr + length post + extra" "fits c (tail_start dr + length post + extra)"
  obtains (Oom) e s where "drain_move_tail_unchecked c extra dr d w = panic ExpectFailed"
      "allocate_mirrored (plat c) (alloc_bytes c (2 * (tail_start dr + length post + extra) * esize c)) (os w) = Inr (Inl e, s)"
  | (Lost) d' s where "drain_move_tail_unchecked c extra dr d w
        = Inr (dr\<lparr>tail_start := tail_start dr + extra\<rparr>, d', w\<lparr>os := s\<rparr>)" "holds c os_ok owned d' (w\<lparr>os := s\<rparr>) pre"
      "tail_start dr + length post + extra \<le> capacity d'"
      "\<And>i. i < length post \<Longrightarrow> dview c d' ! (tail_start dr + extra + i) = replicate (esize c) Uninit"
      "others c owned d' (w\<lparr>os := s\<rparr>) = others c owned d w"
proof -
  let ?N = "tail_start dr + length post + extra"
  have tl: "tail_len dr = length post" and le: "length pre \<le> tail_start dr" using dr by (auto simp: draining_def)
  have small: "?N < usize_bound" using fits_isize[OF n(2)] by (simp add: usize_isize_bound)
  then have arith: "tail_start dr + length post < usize_bound" "tail_start dr + extra < usize_bound" by simp_all
  show ?thesis
  proof (cases rule: reserve_capacity_cases[OF h n(2)])
    case (1 e s)
    then show ?thesis using Oom[OF _ 1(5)] small arith tl by (simp add: drain_move_tail_unchecked_def)
  next
    case (2 d' s)
    have wf: "wf_deque c d'" and r: "rep c d' pre" using 2(2) by (auto intro: holds_wf holds_rep)
    note w = wf_dequeD[OF wf]
    have cap: "?N \<le> capacity d'" using 2(4) e by blast
    then have st: "tail_start dr + length post \<le> capacity d'" "tail_start dr + extra + length post \<le> capacity d'"
      by simp_all
    obtain cs where cs:
      "ptr_copy c (buf d') (eptr d' + tail_start dr * esize c) (eptr d' + (tail_start dr + extra) * esize c) (length post)
         = Inr ((buf d')\<lparr>cells := cs\<rparr>)"
      "wf_deque c (d'\<lparr>buf := (buf d')\<lparr>cells := cs\<rparr>\<rparr>)"
      "dview c (d'\<lparr>buf := (buf d')\<lparr>cells := cs\<rparr>\<rparr>)
         = splice_at (dview c d') (tail_start dr + extra) (take (length post) (drop (tail_start dr) (dview c d')))"
      "regions c ((buf d')\<lparr>cells := cs\<rparr>) = regions c (buf d')"
      using dview_copy[OF wf st] .
    let ?d = "d'\<lparr>buf := (buf d')\<lparr>cells := cs\<rparr>\<rparr>"
    have p: "ptr_offset c (eptr d') (int (tail_start dr)) = eptr d' + tail_start dr * esize c"
      "ptr_offset c (eptr d') (int (tail_start dr + extra)) = eptr d' + (tail_start dr + extra) * esize c"
      using ptr_offset_slot[OF wf, of "tail_start dr"] ptr_offset_slot[OF wf, of "tail_start dr + extra"] st by simp_all
    have run: "drain_move_tail_unchecked c extra dr d w
        = Inr (dr\<lparr>tail_start := tail_start dr + extra\<rparr>, ?d, w\<lparr>os := s\<rparr>)"
      using small arith tl 2(1) p cs(1) unfolding drain_move_tail_unchecked_def Let_def
      by (simp del: of_nat_add)
    have "take (length pre) (dview c ?d) = take (length pre) (dview c d')"
      using le st cs(3) by (intro nth_equalityI) (auto simp: nth_splice_at)
    then have "rep c ?d pre"
      using cs(2) rep_take_view[OF r] rep_vals[OF r] rep_len[OF r] by (intro rep_view) simp_all
    then have keep: "holds c os_ok owned ?d (w\<lparr>os := s\<rparr>) pre"
      "others c owned ?d (w\<lparr>os := s\<rparr>) = others c owned d w"
      using 2(2,3) cs(4) by (simp_all add: holds_def others_def)
    have lost: "dview c ?d ! (tail_start dr + extra + i) = replicate (esize c) Uninit" if i: "i < length post" for i
    proof -
      have "dview c ?d ! (tail_start dr + extra + i) = dview c d' ! (tail_start dr + i)"
        using st i cs(3) by (simp add: nth_splice_at)
      then show ?thesis using 2(6)[OF e n(1)] i le st by simp
    qed
    show ?thesis by (rule Lost[OF run keep(1) _ lost keep(2)]) (use cap in simp)
  qed
qed

text \<open>
  The destructor of a \<open>Drain\<close> whose range is used up and whose tail already stands behind the deque
  counts the tail in, whatever its slots hold.
\<close>

lemma drain_drop_in_place:
  assumes r: "rep c d xs" and dr: "tail_start dr = length xs" "it_len dr = 0" "0 < tail_len dr"
    and le: "length xs + tail_len dr \<le> capacity d"
  obtains d' where "drain_drop c dr d w = Inr (d', w)" "wf_deque c d'" "elen d' = length xs + tail_len dr"
    "dview c d' = dview c d" "evolves c d (d'\<lparr>elen := length xs\<rparr>) xs"
proof -
  let ?n = "length xs" and ?m = "tail_len dr"
  note wf = rep_wf[OF r] and len = rep_len[OF r]
  obtain cs where cs:
    "ptr_copy c (buf d) (eptr d + ?n * esize c) (eptr d + ?n * esize c) ?m = Inr ((buf d)\<lparr>cells := cs\<rparr>)"
    "wf_deque c (d\<lparr>buf := (buf d)\<lparr>cells := cs\<rparr>\<rparr>)"
    "dview c (d\<lparr>buf := (buf d)\<lparr>cells := cs\<rparr>\<rparr>) = splice_at (dview c d) ?n (take ?m (drop ?n (dview c d)))"
    "regions c ((buf d)\<lparr>cells := cs\<rparr>) = regions c (buf d)"
    using dview_copy[OF wf le le] .
  let ?d = "d\<lparr>buf := (buf d)\<lparr>cells := cs\<rparr>\<rparr>"
  have view: "dview c ?d = dview c d"
    unfolding cs(3) by (rule nth_equalityI) (use le in \<open>auto simp: nth_splice_at\<close>)
  have x: "- int (elen ?d) \<le> int ?m" "int ?m \<le> int (capacity ?d - elen ?d)" using le len by simp_all
  have eq: "nat (int (elen ?d) + int ?m) = ?n + ?m" using len by simp
  note m = move_tail_ok[OF cs(2) x, unfolded eq]
  have "ptr_offset c (eptr d) (int ?n) = eptr d + ?n * esize c" "to_isize ?m = int ?m"
    using ptr_offset_slot[OF wf, of ?n] le wf_dequeD(5)[OF wf] by simp_all
  then have run: "drain_drop c dr d w = Inr (?d\<lparr>elen := ?n + ?m\<rparr>, w)"
    using dr wf len cs(1) m(1) by (simp add: drain_drop_def Let_def)
  have "rep c (?d\<lparr>elen := ?n + ?m, elen := ?n\<rparr>) xs"
  proof (rule rep_view)
    show "wf_deque c (?d\<lparr>elen := ?n + ?m, elen := ?n\<rparr>)" using cs(2) le by (simp add: wf_deque_def capacity_def)
    show "take ?n (dview c (?d\<lparr>elen := ?n + ?m, elen := ?n\<rparr>)) = map (enc (esize c)) xs"
      using rep_take_view[OF r] view by (simp add: dview_def)
  qed (use rep_vals[OF r] in simp_all)
  then show ?thesis using that[OF run m(2)] view cs(4) by (simp add: evolves_def dview_def)
qed

text \<open>A splice that has to reallocate: the gap is filled, making room for the rest loses the tail, the
  rest is written.\<close>

lemma splice_fill_loses:
  assumes h: "holds c os_ok owned d w pre" and dr: "draining c d dr k pre [] post"
    and v: "list_all (val_ok c) items" and e: "0 < esize c"
    and rest: "rest = drop (tail_start dr - length pre) items" "fst (hint rest) = length rest"
    and n: "capacity d < tail_start dr + length post + length rest" "fits c (tail_start dr + length post + length rest)"
  obtains (Oom) e s where "splice_fill c hint items dr d w = panic ExpectFailed"
      "allocate_mirrored (plat c) (alloc_bytes c (2 * (tail_start dr + length post + length rest) * esize c)) (os w) = Inr (Inl e, s)"
  | (Lost) dr' d' s where "splice_fill c hint items dr d w = Inr (dr', d', w\<lparr>os := s\<rparr>)"
      "holds c os_ok owned d' (w\<lparr>os := s\<rparr>) (pre @ items)" "tail_start dr' = length (pre @ items)"
      "it_len dr' = 0" "tail_len dr' = length post" "length (pre @ items) + length post \<le> capacity d'"
      "\<And>i. i < length post \<Longrightarrow> dview c d' ! (length (pre @ items) + i) = replicate (esize c) Uninit"
proof -
  define g where "g = tail_start dr - length pre"
  let ?pre = "pre @ take g items"
  have st: "length pre \<le> tail_start dr" "tail_start dr + length post \<le> capacity d"
    and tl: "it_len dr = 0" "tail_len dr = length post" using dr by (auto simp: draining_def)
  have ne: "rest \<noteq> []" and full: "g \<le> length items" using n(1) st(2) rest(1) by (auto simp: g_def)
  obtain u where hint: "hint rest = (length rest, u)" using rest(2) by (cases "hint rest") auto
  obtain d1 k1 where d1: "drain_fill c dr items d = Inr (True, rest, d1)"
    "draining c d1 dr k1 ?pre [] post" "evolves c d d1 ?pre"
    by (rule drain_fill_rep[OF dr v, folded g_def]) (use full in \<open>simp add: rest(1) g_def\<close>)
  have h1: "holds c os_ok owned d1 w ?pre" using holds_evolves[OF h d1(3), of w] by simp
  have cap1: "capacity d1 = capacity d" using d1(3) by (simp add: evolves_def)
  show ?thesis
  proof (cases rule: drain_move_tail_loses[OF h1 d1(2) e n(1)[folded cap1] n(2)])
    case (1 e s)
    then show ?thesis using Oom d1(1) hint ne by (simp add: splice_fill_def)
  next
    case (2 d2 s)
    let ?dr2 = "dr\<lparr>tail_start := tail_start dr + length rest\<rparr>"
    let ?dr0 = "?dr2\<lparr>tail_len := 0\<rparr>"
    have c: "cfg_ok c" using wf_dequeD(1)[OF holds_wf[OF h]] .
    have r2: "rep c d2 ?pre" by (rule holds_rep[OF 2(2)])
    have ends: "length ?pre + length rest = tail_start ?dr2" "length (pre @ items) = tail_start ?dr2"
      using full st(1) by (simp_all add: rest(1) g_def)
    have dr0: "draining c d2 ?dr0 (length ?pre) ?pre [] []"
      using rep_wf[OF r2] rep_len[OF r2] rep_slot[OF r2] rep_vals[OF r2] tl(1) ends(1) 2(3)
      unfolding draining_def by simp
    have v2: "list_all (val_ok c) rest" using v by (simp add: rest(1) list_all_take_drop)
    have gap: "tail_start ?dr0 - length ?pre = length rest" using ends(1) by simp
    obtain d3 where d3: "drain_fill c ?dr0 rest d2 = Inr (True, [], d3)" "evolves c d2 d3 (?pre @ rest)"
      "\<And>i. tail_start ?dr2 \<le> i \<Longrightarrow> dview c d3 ! i = dview c d2 ! i"
      by (rule drain_fill_rep[OF dr0 v2, unfolded gap]) auto
    have items: "?pre @ rest = pre @ items" by (simp add: rest(1) g_def)
    have fill: "splice_fill c hint items dr d w = Inr (?dr2, d3, w\<lparr>os := s\<rparr>)"
      using d1(1) ne hint 2(1) d3(1) collected_nothing[OF c] by (simp add: splice_fill_def drain_fill_def)
    show ?thesis
      by (rule Lost[OF fill]) (use holds_evolves[OF 2(2) d3(2)[unfolded items]] 2(3,4) d3(2,3) ends(2) tl
          in \<open>simp_all add: evolves_def\<close>)
  qed
qed

text \<open>
  The whole \<open>Splice::drop\<close>: the destructor of its \<open>Drain\<close> counts the lost tail in again.
\<close>

lemma splice_drop_loses:
  assumes h: "holds c os_ok owned d w pre" and dr: "draining c d dr k pre mid post" and post: "post \<noteq> []"
    and v: "list_all (val_ok c) items" and e: "0 < esize c"
    and rest: "rest = drop (tail_start dr - length pre) items" "fst (hint rest) = length rest"
    and n: "capacity d < tail_start dr + length post + length rest" "fits c (tail_start dr + length post + length rest)"
  obtains (Oom) e s where "splice_drop c hint items dr d w = panic ExpectFailed"
      "allocate_mirrored (plat c) (alloc_bytes c (2 * (tail_start dr + length post + length rest) * esize c)) (os w) = Inr (Inl e, s)"
  | (Lost) d' s where "splice_drop c hint items dr d w = Inr (d', (drop_vals c mid w)\<lparr>os := s\<rparr>)"
      "wf_deque c d'" "elen d' = length (pre @ items) + length post"
      "holds c os_ok owned (d'\<lparr>elen := length (pre @ items)\<rparr>) ((drop_vals c mid w)\<lparr>os := s\<rparr>) (pre @ items)"
      "\<And>i. i < length post \<Longrightarrow> dview c d' ! (length (pre @ items) + i) = replicate (esize c) Uninit"
proof -
  let ?w = "drop_vals c mid w"
  obtain dr1 where e1: "drain_each c d (length mid) dr w = Inr (dr1, ?w)"
    "draining c d dr1 (k + length mid) pre [] post" "tail_start dr1 = tail_start dr"
    using drain_each_rep[OF dr] by blast
  have tl: "tail_len dr1 = length post" "it_len dr = length mid" using e1(2) dr by (simp_all add: draining_def)
  have h1: "holds c os_ok owned d ?w pre" using h by (simp add: holds_def)
  show ?thesis
  proof (cases rule: splice_fill_loses[where hint = hint and rest = rest, OF h1 e1(2) v e rest[folded e1(3)] n[folded e1(3)]])
    case (1 e s)
    then show ?thesis using Oom e1(1,3) tl post by (simp add: splice_drop_def)
  next
    case (2 dr2 d2 s)
    have "0 < tail_len dr2" "length (pre @ items) + tail_len dr2 \<le> capacity d2" using 2(5,6) post by simp_all
    from drain_drop_in_place[OF holds_rep[OF 2(2)] 2(3,4) this] obtain d' where
      d': "drain_drop c dr2 d2 (?w\<lparr>os := s\<rparr>) = Inr (d', ?w\<lparr>os := s\<rparr>)" "wf_deque c d'"
        "elen d' = length (pre @ items) + tail_len dr2" "dview c d' = dview c d2"
        "evolves c d2 (d'\<lparr>elen := length (pre @ items)\<rparr>) (pre @ items)" .
    have run: "splice_drop c hint items dr d w = Inr (d', ?w\<lparr>os := s\<rparr>)"
      using e1(1) tl post 2(1) d'(1) by (simp add: splice_drop_def)
    show ?thesis
      by (rule Lost[OF run d'(2)]) (use d'(3,4) 2(5,7) holds_evolves[OF 2(2) d'(5) refl] in simp_all)
  qed
qed

text \<open>The call and the drop of what it returns, when the deque has to grow.\<close>

lemma deque_splice_loses:
  assumes h: "holds c os_ok owned d w xs" and b: "s = range_start_of lo" "e = range_end_of hi (length xs)"
    and se: "s \<le> e" "e < length xs" and v: "list_all (val_ok c) items" and sz: "0 < esize c"
    and rest: "rest = drop (e - s) items" "fst (hint rest) = length rest"
    and n: "capacity d < length xs + length rest" "fits c (length xs + length rest)"
  obtains sp where "deque_splice c lo hi hint items d = Inr (sp, d\<lparr>elen := s\<rparr>)"
    "(\<exists>a t. splice_drop c (sp_hint sp) (replace_with sp) (sp_drain sp) (d\<lparr>elen := s\<rparr>) w = panic ExpectFailed \<and>
        allocate_mirrored (plat c) (alloc_bytes c (2 * (length xs + length rest) * esize c)) (os w) = Inr (Inl a, t)) \<or>
     (\<exists>d' t. splice_drop c (sp_hint sp) (replace_with sp) (sp_drain sp) (d\<lparr>elen := s\<rparr>) w
          = Inr (d', (drop_vals c (take (e - s) (drop s xs)) w)\<lparr>os := t\<rparr>) \<and>
        wf_deque c d' \<and> elen d' = length (take s xs @ items @ drop e xs) \<and>
        rep c (d'\<lparr>elen := length (take s xs @ items)\<rparr>) (take s xs @ items) \<and>
        (\<forall>i < length (drop e xs). dview c d' ! (length (take s xs @ items) + i) = replicate (esize c) Uninit))"
proof -
  obtain dr where dr: "deque_drain c lo hi d = Inr (dr, d\<lparr>elen := s\<rparr>)"
    "draining c (d\<lparr>elen := s\<rparr>) dr s (take s xs) (take (e - s) (drop s xs)) (drop e xs)" "tail_start dr = e"
    by (rule deque_drain_rep[OF holds_rep[OF h] b]) (use se in auto)
  have hs: "holds c os_ok owned (d\<lparr>elen := s\<rparr>) w (take s xs)"
    using h draining_rep[OF dr(2)] by (simp add: holds_def)
  have post: "drop e xs \<noteq> []" and gap: "tail_start dr - length (take s xs) = e - s"
    and total: "tail_start dr + length (drop e xs) = length xs" using se dr(3) by auto
  let ?sp = "\<lparr>sp_drain = dr, replace_with = items, sp_hint = hint\<rparr>"
  show ?thesis
  proof (rule that)
    show "deque_splice c lo hi hint items d = Inr (?sp, d\<lparr>elen := s\<rparr>)"
      using dr(1) by (simp add: deque_splice_def)
    show "(\<exists>a t. splice_drop c (sp_hint ?sp) (replace_with ?sp) (sp_drain ?sp) (d\<lparr>elen := s\<rparr>) w = panic ExpectFailed \<and>
        allocate_mirrored (plat c) (alloc_bytes c (2 * (length xs + length rest) * esize c)) (os w) = Inr (Inl a, t)) \<or>
     (\<exists>d' t. splice_drop c (sp_hint ?sp) (replace_with ?sp) (sp_drain ?sp) (d\<lparr>elen := s\<rparr>) w
          = Inr (d', (drop_vals c (take (e - s) (drop s xs)) w)\<lparr>os := t\<rparr>) \<and>
        wf_deque c d' \<and> elen d' = length (take s xs @ items @ drop e xs) \<and>
        rep c (d'\<lparr>elen := length (take s xs @ items)\<rparr>) (take s xs @ items) \<and>
        (\<forall>i < length (drop e xs). dview c d' ! (length (take s xs @ items) + i) = replicate (esize c) Uninit))"
      by (rule splice_drop_loses[where hint = hint and rest = rest, OF hs dr(2) post v sz, unfolded gap total])
        (use rest n in \<open>auto dest: holds_rep\<close>)
  qed
qed

text \<open>A splice with nothing behind the range is an \<open>extend\<close>.\<close>

lemma splice_drop_extends:
  assumes h: "holds c os_ok owned d w pre" and dr: "draining c d dr k pre mid []" and v: "list_all (val_ok c) items"
    and B: "\<And>zs. length zs < length items \<Longrightarrow> hint_request hint zs \<le> B"
    and f: "fits c (2 * (length pre + length items + B + 1))"
  shows "grows c os_ok owned d (drop_vals c mid w) (pre @ items) (splice_drop c hint items dr d w)"
proof -
  obtain dr1 where e: "drain_each c d (length mid) dr w = Inr (dr1, drop_vals c mid w)"
    "draining c d dr1 (k + length mid) pre [] []"
    using drain_each_rep[OF dr] by blast
  have z: "tail_len dr1 = 0" "it_len dr1 = 0" using e(2) draining_it_len[OF e(2)] by (simp_all add: draining_def)
  have "splice_drop c hint items dr d w = extend_desugared c hint items d (drop_vals c mid w)"
    using e(1) draining_it_len[OF dr] z
    by (cases "extend_desugared c hint items d (drop_vals c mid w)") (auto simp: splice_drop_def drain_drop_def)
  moreover have "holds c os_ok owned d (drop_vals c mid w) pre"
    using h by (simp add: holds_def)
  ultimately show ?thesis using extend_desugared_grows[OF _ v B f] by simp
qed

end

end
