(* ===== verification/Into_Iter.thy ===== *)
theory Into_Iter
  imports Extend
begin

text \<open>
  The consuming iterator \<open>IntoIter\<close> (\<open>src/lib.rs\<close>): two raw pointers that move towards each other.
  For a zero-sized element type they count bytes instead of elements. Its \<open>Drop\<close> rebuilds the
  buffer from the address and the capacity, so the size it gives back is recomputed from
  \<open>2 * cap\<close>, which may be less than the \<open>len\<close> the buffer was made with.
\<close>

subsection \<open>Pointer arithmetic on addresses\<close>

text \<open>\<open>arith_offset\<close> of the module \<open>intrinsics\<close>; the pointers it is used on are \<open>*const i8\<close>.\<close>

definition arith_offset :: "bool \<Rightarrow> nat \<Rightarrow> int \<Rightarrow> fault + nat" where
  "arith_offset dbg dst off =
     (if 0 \<le> off then Inr (wrapping_add dst (of_isize off))
      else bindE (isize_arith dbg (- off)) (\<lambda>m. Inr (wrapping_sub dst (of_isize m))))"

text \<open>Division of \<open>isize\<close> rounds towards zero.\<close>

definition isize_div :: "int \<Rightarrow> int \<Rightarrow> int" where
  "isize_div a b = (if 0 \<le> a then a div b else - ((- a) div b))"

definition wrapping_offset_from :: "('a, 'os) cfg \<Rightarrow> nat \<Rightarrow> nat \<Rightarrow> int option" where
  "wrapping_offset_from c self other =
     (if esize c = 0 then None
      else Some (isize_div (isize_wrap (to_isize other - to_isize self)) (to_isize (esize c))))"

subsection \<open>The iterator\<close>

text \<open>\<open>ii_mem\<close> is the memory mapped at \<open>ii_buf\<close>.\<close>

record 'a into_iter =
  ii_buf :: nat
  ii_cap :: nat
  ii_ptr :: nat
  ii_end :: nat
  ii_mem :: "'a cell list"

definition ii_buffer :: "'a into_iter \<Rightarrow> 'a buffer" where
  "ii_buffer it = \<lparr>bptr = ii_buf it, blen = 2 * ii_cap it, cells = ii_mem it\<rparr>"

definition ii_size_hint :: "('a, 'os) cfg \<Rightarrow> 'a into_iter \<Rightarrow> nat \<times> nat option" where
  "ii_size_hint c it =
     (let exact = (case wrapping_offset_from c (ii_ptr it) (ii_end it) of
                     Some x \<Rightarrow> of_isize x
                   | None \<Rightarrow> wrapping_sub (ii_end it) (ii_ptr it))
      in (exact, Some exact))"

definition ii_count :: "('a, 'os) cfg \<Rightarrow> 'a into_iter \<Rightarrow> nat" where
  "ii_count c it = fst (ii_size_hint c it)"

definition ii_is_empty :: "'a into_iter \<Rightarrow> bool" where
  "ii_is_empty it \<longleftrightarrow> ii_ptr it = ii_end it"

text \<open>\<open>elems\<close> (of the \<open>unstable\<close> build) divides by the element size; \<open>as_slice\<close> does not.\<close>

definition ii_elems :: "('a, 'os) cfg \<Rightarrow> 'a into_iter \<Rightarrow> fault + (nat \<times> nat)" where
  "ii_elems c it =
     bindE (usize_sub (debug c) (ii_end it) (ii_ptr it)) (\<lambda>bytes.
     bindE (usize_div bytes (esize c)) (\<lambda>n.
     Inr (ii_ptr it, n)))"

definition ii_as_slice :: "('a, 'os) cfg \<Rightarrow> 'a into_iter \<Rightarrow> nat \<times> nat" where
  "ii_as_slice c it = (ii_ptr it, fst (ii_size_hint c it))"

definition ii_next :: "('a, 'os) cfg \<Rightarrow> 'a into_iter \<Rightarrow> fault + ('a option \<times> 'a into_iter)" where
  "ii_next c it =
     (if ii_ptr it = ii_end it then Inr (None, it)
      else if esize c = 0 then
        bindE (arith_offset (debug c) (ii_ptr it) 1) (\<lambda>p.
        bindE (ptr_read c (ii_buffer it) 1) (\<lambda>v.
        Inr (Some v, it\<lparr>ii_ptr := p\<rparr>)))
      else
        (let old = ii_ptr it in
         bindE (ptr_read c (ii_buffer it) old) (\<lambda>v.
         Inr (Some v, it\<lparr>ii_ptr := ptr_offset c old 1\<rparr>))))"

definition ii_next_back :: "('a, 'os) cfg \<Rightarrow> 'a into_iter \<Rightarrow> fault + ('a option \<times> 'a into_iter)" where
  "ii_next_back c it =
     (if ii_end it = ii_ptr it then Inr (None, it)
      else if esize c = 0 then
        bindE (arith_offset (debug c) (ii_end it) (- 1)) (\<lambda>p.
        bindE (ptr_read c (ii_buffer it) 1) (\<lambda>v.
        Inr (Some v, it\<lparr>ii_end := p\<rparr>)))
      else
        (let p = ptr_offset c (ii_end it) (- 1) in
         bindE (ptr_read c (ii_buffer it) p) (\<lambda>v.
         Inr (Some v, it\<lparr>ii_end := p\<rparr>))))"

text \<open>\<open>for _x in self.by_ref() {}\<close>, at most \<open>n\<close> rounds.\<close>

fun ii_each ::
    "('a, 'os) cfg \<Rightarrow> nat \<Rightarrow> 'a into_iter \<Rightarrow> ('a, 'os) world \<Rightarrow> fault + ('a into_iter \<times> ('a, 'os) world)" where
  "ii_each c 0 it w = Inr (it, w)"
| "ii_each c (Suc n) it w =
     bindE (ii_next c it) (\<lambda>(r, it).
     case r of
       None \<Rightarrow> Inr (it, w)
     | Some v \<Rightarrow> ii_each c n it (drop_vals c [v] w))"

definition ii_drop :: "('a, 'os) cfg \<Rightarrow> 'a into_iter \<Rightarrow> ('a, 'os) world \<Rightarrow> fault + ('a, 'os) world" where
  "ii_drop c it w =
     bindE (ii_each c (fst (ii_size_hint c it)) it w) (\<lambda>(it, w).
     bindE (usize_mul (debug c) 2 (ii_cap it)) (\<lambda>n.
     bindE (buffer_from_raw_parts c (ii_buf it) n (ii_mem it)) (\<lambda>b.
     buffer_drop c b w)))"

definition deque_into_iter :: "('a, 'os) cfg \<Rightarrow> 'a deque \<Rightarrow> fault + 'a into_iter" where
  "deque_into_iter c d =
     (let begin' = eptr d in
      bindE (deque_len c d) (\<lambda>len.
      bindE (if esize c = 0 then arith_offset (debug c) begin' (to_isize len)
             else Inr (ptr_offset c begin' (int len))) (\<lambda>end'.
      bindE (assert_that (begin' \<le> end')) (\<lambda>_.
      let it = \<lparr>ii_buf = bptr (buf d), ii_cap = capacity d, ii_ptr = begin', ii_end = end',
                ii_mem = cells (buf d)\<rparr> in
      bindE (debug_assert (debug c) (len = fst (ii_size_hint c it))) (\<lambda>_.
      Inr it)))))"

definition ii_clone ::
    "('a, 'os) cfg \<Rightarrow> 'a into_iter \<Rightarrow> ('a, 'os) world \<Rightarrow> fault + ('a into_iter \<times> ('a, 'os) world)" where
  "ii_clone c it w =
     bindE (with_capacity c (fst (ii_size_hint c it)) w) (\<lambda>(deq, w).
     let (p, n) = ii_as_slice c it in
     bindE (slice_cells c (ii_buffer it) p n) (\<lambda>bytes.
     bindE (append_elements c (bytes, n) deq w) (\<lambda>(deq, w).
     bindE (deque_into_iter c deq) (\<lambda>it2.
     Inr (it2, w)))))"

text \<open>
  The specialisations of the \<open>unstable\<close> build: collecting an \<open>IntoIter\<close> that has not been advanced
  takes its buffer over; extending by one moves its elements and leaves it empty.
\<close>

definition from_iter_into_iter ::
    "('a, 'os) cfg \<Rightarrow> 'a into_iter \<Rightarrow> ('a, 'os) world \<Rightarrow> fault + ('a deque \<times> ('a, 'os) world)" where
  "from_iter_into_iter c it w =
     (if ii_buf it = ii_ptr it then
        bindE (ii_elems c it) (\<lambda>elems.
        bindE (from_raw_parts c (ii_buf it) (ii_cap it) elems (ii_mem it)) (\<lambda>d.
        Inr (d, w)))
      else
        (let (p, n) = ii_as_slice c it in
         bindE (slice_cells c (ii_buffer it) p n) (\<lambda>bytes.
         bindE (append_elements c (bytes, n) (deque_new c) w) (\<lambda>(d, w).
         bindE (ii_drop c (it\<lparr>ii_ptr := ii_end it\<rparr>) w) (\<lambda>w.
         Inr (d, w))))))"

definition spec_extend_into_iter ::
    "('a, 'os) cfg \<Rightarrow> 'a into_iter \<Rightarrow> 'a deque \<Rightarrow> ('a, 'os) world \<Rightarrow> fault + ('a deque \<times> ('a, 'os) world)" where
  "spec_extend_into_iter c it d w =
     (let (p, n) = ii_as_slice c it in
      bindE (slice_cells c (ii_buffer it) p n) (\<lambda>bytes.
      bindE (append_elements c (bytes, n) d w) (\<lambda>(d, w).
      bindE (ii_drop c (it\<lparr>ii_ptr := ii_end it\<rparr>) w) (\<lambda>w.
      Inr (d, w)))))"

subsection \<open>What is left to give\<close>

definition step_of :: "('a, 'os) cfg \<Rightarrow> nat" where
  "step_of c = (if esize c = 0 then 1 else esize c)"

text \<open>The iterator made from \<open>d\<close> will give \<open>ys\<close>, which start at slot \<open>k\<close>.\<close>

definition iterates :: "('a, 'os) cfg \<Rightarrow> 'a into_iter \<Rightarrow> 'a deque \<Rightarrow> nat \<Rightarrow> 'a list \<Rightarrow> bool" where
  "iterates c it d k ys \<longleftrightarrow>
     wf_deque c d \<and> ii_buf it = bptr (buf d) \<and> ii_mem it = cells (buf d) \<and> ii_cap it = capacity d \<and>
     ii_ptr it = eptr d + k * step_of c \<and> ii_end it = eptr d + (k + length ys) * step_of c \<and>
     k + length ys \<le> capacity d \<and>
     (\<forall>i < length ys. dview c d ! (k + i) = enc (esize c) (ys ! i)) \<and> list_all (val_ok c) ys"

lemma step_bound:
  assumes "wf_deque c d" "n \<le> capacity d"
  shows "eptr d + n * step_of c < usize_bound"
proof (cases "esize c = 0")
  case True
  note w = wf_dequeD[OF assms(1)]
  have "bptr (buf d) \<le> ag c" "half_bytes c (buf d) = ag c"
    using w(2) True by (simp_all add: wf_buffer_def half_bytes_def)
  then have "eptr d < 2 * ag c" using w(3) by (simp add: head_ok_def)
  moreover have "4 * ag c < 2 * isize_bound" using cfg_okD(6)[OF w(1)] by (simp add: usize_isize_bound)
  ultimately show ?thesis using assms(2) w(5) True by (simp add: step_of_def usize_isize_bound)
next
  case False
  then show ?thesis using slot_addr_bound[OF assms] by (simp add: step_of_def)
qed

lemma step_of_pos [simp]: "0 < step_of c"
  by (simp add: step_of_def)

lemma esize_small: "cfg_ok c \<Longrightarrow> esize c < isize_bound"
  using cfg_okD(6)[of c] by (simp add: usize_isize_bound)

lemma isize_wrap_diff: "isize_wrap (to_isize a - to_isize b) = isize_wrap (int a - int b)"
proof -
  have "\<exists>j. to_isize x = int x + int usize_bound * j" for x
    by (cases "x < isize_bound") (auto simp: to_isize_def intro: exI[of _ 0] exI[of _ "- 1"])
  then obtain i j where ij: "to_isize a = int a + int usize_bound * i" "to_isize b = int b + int usize_bound * j"
    by blast
  have "to_isize a - to_isize b + int isize_bound = (int a - int b + int isize_bound) + int usize_bound * (i - j)"
    unfolding ij by (simp add: algebra_simps)
  then show ?thesis unfolding isize_wrap_def by (simp only: mod_mult_self2)
qed

lemma ii_size_hint_rep:
  assumes it: "iterates c it d k ys"
  shows "ii_size_hint c it = (length ys, Some (length ys))"
proof -
  have w: "wf_deque c d" and le: "k + length ys \<le> capacity d"
    and p: "ii_ptr it = eptr d + k * step_of c" "ii_end it = eptr d + (k + length ys) * step_of c"
    using it by (simp_all add: iterates_def)
  have len: "length ys < isize_bound" using le wf_dequeD(5)[OF w] by simp
  have b: "ii_end it < usize_bound" "ii_ptr it \<le> ii_end it"
    using step_bound[OF w le] p by (simp_all add: add_mult_distrib)
  show ?thesis
  proof (cases "esize c = 0")
    case True
    then have "wrapping_sub (ii_end it) (ii_ptr it) = length ys"
      using wrapping_sub_le[OF b(2,1)] p by (simp add: step_of_def)
    then show ?thesis using True by (simp add: ii_size_hint_def wrapping_offset_from_def Let_def)
  next
    case False
    have diff: "int (ii_end it) - int (ii_ptr it) = int (length ys * esize c)"
      using p False by (simp add: step_of_def add_mult_distrib)
    have sz: "length ys * esize c < isize_bound"
    proof -
      note wd = wf_dequeD[OF w]
      have "length ys * esize c \<le> capacity d * esize c" using le by (intro mult_le_mono1) simp
      also have "\<dots> \<le> half_bytes c (buf d)" using half_bytes_facts(4)[OF wd(1,2)] by (simp add: capacity_def)
      finally have "2 * (length ys * esize c) < 2 * isize_bound"
        using half_bytes_facts(5)[OF wd(1,2)] unfolding usize_isize_bound by linarith
      then show ?thesis by simp
    qed
    have "isize_wrap (to_isize (ii_end it) - to_isize (ii_ptr it)) = int (length ys * esize c)"
    proof -
      have "isize_wrap (to_isize (ii_end it) - to_isize (ii_ptr it)) = isize_wrap (int (ii_end it) - int (ii_ptr it))"
        by (rule isize_wrap_diff)
      also have "\<dots> = int (length ys * esize c)"
        unfolding diff using sz by (intro isize_wrap_fits) (simp add: isize_fits_def del: of_nat_mult)
      finally show ?thesis .
    qed
    then have "wrapping_offset_from c (ii_ptr it) (ii_end it) = Some (int (length ys))"
      using False esize_small[OF wf_dequeD(1)[OF w]] by (simp add: wrapping_offset_from_def isize_div_def)
    then show ?thesis using len by (simp add: ii_size_hint_def Let_def usize_isize_bound)
  qed
qed

lemma iterates_slot:
  assumes it: "iterates c it d k ys" and i: "i < length ys" and e: "0 < esize c"
  shows "ptr_read c (ii_buffer it) (eptr d + (k + i) * esize c) = Inr (ys ! i)"
proof -
  have w: "wf_deque c d" and slot: "dview c d ! (k + i) = enc (esize c) (ys ! i)" and v: "val_ok c (ys ! i)"
    and k: "k + i < capacity d" and b: "ii_buf it = bptr (buf d)" "ii_mem it = cells (buf d)"
    using it i by (auto simp: iterates_def list_all_iff)
  note wd = wf_dequeD[OF w]
  have "ptr_read c (ii_buffer it) p = ptr_read c (buf d) p" for p
    using b by (simp add: ptr_read_def ii_buffer_def in_mapping_def bslot_def)
  moreover have "k + i < blen (buf d) div 2" using k by (simp add: capacity_def)
  ultimately show ?thesis
    using view_read[OF wd(1-3)] slot val_ok_decode[OF v] by (simp add: dview_def)
qed

lemma iterates_zst: "iterates c it d k (y # ys) \<Longrightarrow> esize c = 0 \<Longrightarrow> zval c = y"
  by (simp add: iterates_def val_ok_def)

lemma ii_is_empty_rep: "iterates c it d k ys \<Longrightarrow> ii_is_empty it \<longleftrightarrow> ys = []"
  by (cases "esize c = 0") (auto simp: ii_is_empty_def iterates_def add_mult_distrib step_of_def)

lemma deque_into_iter_rep:
  assumes r: "rep c d xs"
  obtains it where "deque_into_iter c d = Inr it" "iterates c it d 0 xs" "ii_ptr it = eptr d"
proof -
  note wf = rep_wf[OF r] and len = rep_len[OF r] and le = rep_len_le[OF r]
  let ?it = "\<lparr>ii_buf = bptr (buf d), ii_cap = capacity d, ii_ptr = eptr d,
    ii_end = eptr d + length xs * step_of c, ii_mem = cells (buf d)\<rparr>"
  have it: "iterates c ?it d 0 xs"
    using wf le rep_slot[OF r] rep_vals[OF r] by (simp add: iterates_def)
  have small: "length xs < isize_bound" using wf_dequeD(6)[OF wf] len by simp
  have e: "(if esize c = 0 then arith_offset (debug c) (eptr d) (to_isize (length xs))
      else Inr (ptr_offset c (eptr d) (int (length xs)))) = Inr (eptr d + length xs * step_of c)"
  proof (cases "esize c = 0")
    case True
    then have "eptr d + length xs < usize_bound" using step_bound[OF wf le] by (simp add: step_of_def)
    then show ?thesis using True small
      by (simp add: arith_offset_def wrapping_add_def step_of_def usize_isize_bound)
  next
    case False
    then show ?thesis using ptr_offset_slot[OF wf le] by (simp add: step_of_def)
  qed
  have "deque_into_iter c d = Inr ?it"
    using wf len e ii_size_hint_rep[OF it] by (simp add: deque_into_iter_def Let_def)
  then show ?thesis using that it by simp
qed

lemma ii_next_rep:
  assumes it: "iterates c it d k ys"
  shows "ys = [] \<Longrightarrow> ii_next c it = Inr (None, it)"
    "ys = y # rest \<Longrightarrow> \<exists>it'. ii_next c it = Inr (Some y, it') \<and> iterates c it' d (Suc k) rest \<and>
       ii_buf it' = ii_buf it"
proof -
  show "ys = [] \<Longrightarrow> ii_next c it = Inr (None, it)" using it by (simp add: ii_next_def iterates_def)
  assume ys: "ys = y # rest"
  have w: "wf_deque c d" and le: "Suc k + length rest \<le> capacity d"
    and p: "ii_ptr it = eptr d + k * step_of c" "ii_end it = eptr d + (Suc k + length rest) * step_of c"
    using it ys by (simp_all add: iterates_def)
  have ne: "ii_ptr it \<noteq> ii_end it" using p by (simp add: add_mult_distrib)
  have tail: "\<forall>i < length rest. dview c d ! (Suc k + i) = enc (esize c) (rest ! i)"
  proof (intro allI impI)
    fix i assume "i < length rest"
    then have "dview c d ! (k + Suc i) = enc (esize c) (ys ! Suc i)" using it ys unfolding iterates_def by auto
    then show "dview c d ! (Suc k + i) = enc (esize c) (rest ! i)" using ys by simp
  qed
  have it': "iterates c (it\<lparr>ii_ptr := eptr d + Suc k * step_of c\<rparr>) d (Suc k) rest"
    using it ys tail le by (simp add: iterates_def)
  have k1: "eptr d + Suc k * step_of c < usize_bound" using step_bound[OF w, of "Suc k"] le by simp
  have "ii_next c it = Inr (Some y, it\<lparr>ii_ptr := eptr d + Suc k * step_of c\<rparr>)"
  proof (cases "esize c = 0")
    case True
    then show ?thesis
      using ne p k1 iterates_zst[of c it d k y rest] it ys
      by (simp add: ii_next_def arith_offset_def wrapping_add_def ptr_read_def step_of_def)
  next
    case False
    have "ptr_read c (ii_buffer it) (ii_ptr it) = Inr y"
      using iterates_slot[OF it, of 0] False ys p(1) by (simp add: step_of_def)
    moreover have "ptr_offset c (ii_ptr it) 1 = eptr d + Suc k * step_of c"
      using ptr_offset_next[OF w, of k] le False p(1) by (simp add: step_of_def)
    ultimately show ?thesis using ne False by (simp add: ii_next_def Let_def)
  qed
  then show "\<exists>it'. ii_next c it = Inr (Some y, it') \<and> iterates c it' d (Suc k) rest \<and> ii_buf it' = ii_buf it"
    using it' by simp
qed

lemma ii_next_back_rep:
  assumes it: "iterates c it d k ys"
  shows "ys = [] \<Longrightarrow> ii_next_back c it = Inr (None, it)"
    "ys = rest @ [y] \<Longrightarrow> \<exists>it'. ii_next_back c it = Inr (Some y, it') \<and> iterates c it' d k rest"
proof -
  show "ys = [] \<Longrightarrow> ii_next_back c it = Inr (None, it)" using it by (simp add: ii_next_back_def iterates_def)
  assume ys: "ys = rest @ [y]"
  have w: "wf_deque c d" and le: "Suc (k + length rest) \<le> capacity d"
    and p: "ii_ptr it = eptr d + k * step_of c" "ii_end it = eptr d + Suc (k + length rest) * step_of c"
    using it ys by (simp_all add: iterates_def)
  have ne: "ii_end it \<noteq> ii_ptr it" using p by (simp add: add_mult_distrib)
  have front: "\<forall>i < length rest. dview c d ! (k + i) = enc (esize c) (rest ! i)"
  proof (intro allI impI)
    fix i assume i: "i < length rest"
    then have "dview c d ! (k + i) = enc (esize c) (ys ! i)" using it ys unfolding iterates_def by auto
    then show "dview c d ! (k + i) = enc (esize c) (rest ! i)" using ys i by (simp add: nth_append)
  qed
  have it': "iterates c (it\<lparr>ii_end := eptr d + (k + length rest) * step_of c\<rparr>) d k rest"
    using it ys front le by (simp add: iterates_def)
  have k1: "eptr d + Suc (k + length rest) * step_of c < usize_bound" using step_bound[OF w le] .
  have "ii_next_back c it = Inr (Some y, it\<lparr>ii_end := eptr d + (k + length rest) * step_of c\<rparr>)"
  proof (cases "esize c = 0")
    case True
    have "zval c = y" using it ys True by (simp add: iterates_def val_ok_def)
    moreover have "wrapping_sub (eptr d + Suc (k + length rest)) 1 = eptr d + (k + length rest)"
      using wrapping_sub_le[of 1 "eptr d + Suc (k + length rest)"] k1 True by (simp add: step_of_def)
    ultimately show ?thesis
      using True ne p by (simp add: ii_next_back_def arith_offset_def ptr_read_def step_of_def isize_fits_def
          isize_bound_def)
  next
    case False
    have "ptr_read c (ii_buffer it) (eptr d + (k + length rest) * step_of c) = Inr y"
      using iterates_slot[OF it, of "length rest"] False ys by (simp add: step_of_def)
    moreover have "ptr_offset c (ii_end it) (- 1) = eptr d + (k + length rest) * step_of c"
      using ptr_offset_prev[OF w le] False p(2) by (simp add: step_of_def)
    ultimately show ?thesis using ne False by (simp add: ii_next_back_def Let_def)
  qed
  then show "\<exists>it'. ii_next_back c it = Inr (Some y, it') \<and> iterates c it' d k rest" using it' by blast
qed

lemma ii_each_rep:
  assumes "iterates c it d k ys"
  shows "\<exists>it'. ii_each c (length ys) it w = Inr (it', drop_vals c ys w) \<and> iterates c it' d (k + length ys) []"
  using assms
proof (induction ys arbitrary: it k w)
  case (Cons y ys)
  obtain it1 where i1: "ii_next c it = Inr (Some y, it1)" "iterates c it1 d (Suc k) ys"
    using ii_next_rep(2)[OF Cons.prems refl] by blast
  show ?case using Cons.IH[OF i1(2), of "drop_vals c [y] w"] i1(1) by auto
qed auto

text \<open>The buffer that \<open>Drop\<close> rebuilds has the mapping of the original, even when its \<open>len\<close> is odd.\<close>

lemma wf_buffer_even_len:
  assumes c: "cfg_ok c" and b: "wf_buffer c b"
  shows "size_in_bytes c (2 * (blen b div 2)) = Inr (2 * half_bytes c b)"
    "regions c (b\<lparr>blen := 2 * (blen b div 2)\<rparr>) = regions c b"
proof -
  have two: "2 * (blen b div 2) = 0 \<longleftrightarrow> blen b = 0" if "0 < esize c"
    using b that by (auto simp: wf_buffer_def split: if_splits)
  show "regions c (b\<lparr>blen := 2 * (blen b div 2)\<rparr>) = regions c b"
    using two by (auto simp: regions_def)
  show "size_in_bytes c (2 * (blen b div 2)) = Inr (2 * half_bytes c b)"
  proof (cases "esize c = 0 \<or> blen b = 0")
    case True
    then have "2 * (blen b div 2) * esize c = 0" by auto
    then show ?thesis
      using True cfg_okD[OF c] alloc_bytes_0[of c] by (auto simp: size_in_bytes_ok half_bytes_def)
  next
    case False
    have le: "2 * (blen b div 2) * esize c \<le> blen b * esize c" by (intro mult_le_mono1) simp
    have a: "alloc_bytes c (2 * (blen b div 2) * esize c) = 2 * length (cells b)"
      "bptr b + 2 * length (cells b) < isize_bound" "ag c \<le> bptr b" using b False by (auto simp: wf_buffer_def)
    have "2 * (blen b div 2) * esize c \<le> 2 * length (cells b)"
      using alloc_bytes_facts(1)[OF cfg_okD(1)[OF c], of "2 * (blen b div 2) * esize c"] a(1) by simp
    then have "2 * (blen b div 2) * esize c + 2 * ag c < usize_bound"
      using a(2,3) unfolding usize_isize_bound by linarith
    then show ?thesis using False a(1) cfg_okD(1)[OF c] by (simp add: size_in_bytes_ok half_bytes_def)
  qed
qed

lemma iterates_same_region:
  "iterates c it d k ys \<Longrightarrow> ii_buf it = bptr (buf d) \<and> ii_mem it = cells (buf d) \<and> 2 * ii_cap it = 2 * (blen (buf d) div 2)"
  by (simp add: iterates_def capacity_def)

context deque_env
begin

text \<open>Dropping the iterator drops what it has not given, and gives back the whole region.\<close>

lemma ii_drop_ok:
  assumes it: "iterates c it d k ys" and w: "os_ok (os w)" "regions c (buf d) \<subseteq> owned (os w)"
  obtains s where "ii_drop c it w = Inr ((drop_vals c ys w)\<lparr>os := s\<rparr>)" "os_ok s"
    "owned s = owned (os w) - regions c (buf d)"
proof -
  obtain it1 where e: "ii_each c (length ys) it w = Inr (it1, drop_vals c ys w)" "iterates c it1 d (k + length ys) []"
    using ii_each_rep[OF it] by blast
  note same = iterates_same_region[OF e(2)]
  have wfd: "wf_deque c d" using it by (simp add: iterates_def)
  note wd = wf_dequeD[OF wfd]
  let ?n = "2 * (blen (buf d) div 2)"
  let ?b = "\<lparr>bptr = bptr (buf d), blen = ?n, cells = cells (buf d)\<rparr>"
  have b: "?b = (buf d)\<lparr>blen := ?n\<rparr>" by simp
  note ev = wf_buffer_even_len[OF wd(1,2)]
  have cap: "usize_mul (debug c) 2 (ii_cap it1) = Inr ?n"
    using same wd(5) by (simp add: capacity_def usize_isize_bound)
  have raw: "buffer_from_raw_parts c (ii_buf it1) ?n (ii_mem it1) = Inr ?b"
    using same wd(2) by (auto simp: buffer_from_raw_parts_def wf_buffer_def empty_len_def)
  have run: "ii_drop c it w = buffer_drop c ?b (drop_vals c ys w)"
    using e(1) ii_size_hint_rep[OF it] cap raw by (simp add: ii_drop_def)
  show ?thesis
  proof (cases "esize c = 0 \<or> ?n = 0")
    case True
    then have none: "regions c (buf d) = {}" using ev(2) by (auto simp: regions_def)
    have "buffer_drop c ?b (drop_vals c ys w) = Inr (drop_vals c ys w)"
      using True wd(2) by (auto simp: buffer_drop_def buf_is_empty_def wf_buffer_def empty_len_def)
    then show ?thesis using that[of "os w"] run none w by (simp add: drop_vals_def)
  next
    case False
    have r: "regions c (buf d) = {(bptr (buf d), 2 * half_bytes c (buf d))}"
      using False by (auto simp: regions_def half_bytes_def)
    then have "(bptr (buf d), 2 * half_bytes c (buf d)) \<in> owned (os w)" using w(2) by simp
    from deallocate_ok[OF w(1) this] obtain s where
      s: "deallocate_mirrored (plat c) (bptr (buf d)) (2 * half_bytes c (buf d)) (os w) = Inr s" "os_ok s"
        "owned s = owned (os w) - {(bptr (buf d), 2 * half_bytes c (buf d))}" by blast
    have "buffer_drop c ?b (drop_vals c ys w) = Inr ((drop_vals c ys w)\<lparr>os := s\<rparr>)"
      using False ev(1) s(1) by (simp add: buffer_drop_def buf_is_empty_def)
    then show ?thesis using that[of s] run r s(2,3) by simp
  qed
qed

lemma into_iter_drop_ok:
  assumes h: "holds c os_ok owned d w xs"
  obtains it s where "deque_into_iter c d = Inr it" "ii_drop c it w = Inr ((drop_vals c xs w)\<lparr>os := s\<rparr>)"
    "os_ok s" "owned s = others c owned d w"
proof -
  obtain it where it: "deque_into_iter c d = Inr it" "iterates c it d 0 xs"
    using deque_into_iter_rep[OF holds_rep[OF h]] by metis
  obtain s where "ii_drop c it w = Inr ((drop_vals c xs w)\<lparr>os := s\<rparr>)" "os_ok s"
    "owned s = owned (os w) - regions c (buf d)"
    using ii_drop_ok[OF it(2)] h by (auto simp: holds_def)
  then show ?thesis using that it(1) by (simp add: others_def)
qed

lemma iterates_cells:
  assumes it: "iterates c it d k ys"
  shows "slice_cells c (ii_buffer it) (fst (ii_as_slice c it)) (snd (ii_as_slice c it)) = Inr (enc_all (esize c) ys)"
proof (cases "esize c = 0")
  case True
  have "enc_all (esize c) ys = []" using True by (simp add: enc_all_def enc_def)
  then show ?thesis unfolding slice_cells_def using True by (simp only: mult_0_right if_True refl)
next
  case False
  have w: "wf_deque c d" and le: "k + length ys \<le> blen (buf d) div 2" and p: "ii_ptr it = eptr d + k * esize c"
    and b: "ii_buf it = bptr (buf d)" "ii_mem it = cells (buf d)"
    and slots: "\<And>i. i < length ys \<Longrightarrow> dview c d ! (k + i) = enc (esize c) (ys ! i)"
    using it False by (simp_all add: iterates_def step_of_def capacity_def)
  have "slice_cells c (ii_buffer it) q n = slice_cells c (buf d) q n" for q n
    using b by (simp add: slice_cells_def ii_buffer_def in_mapping_def)
  then show ?thesis
    using slice_cells_view[OF w le slots] ii_size_hint_rep[OF it] p by (simp add: ii_as_slice_def)
qed

text \<open>
  \<open>clone\<close> of the iterator copies the bytes of the elements it has not given into a deque of their
  own. Both iterators then give, and in the end drop, the same values.
\<close>

lemma ii_clone_cases:
  assumes it: "iterates c it d k ys" and w: "os_ok (os w)" and n: "fits c (length ys)"
  obtains (Err) e where "with_capacity c (length ys) w = panic (AllocationFailed e)"
      "ii_clone c it w = panic (AllocationFailed e)"
  | (Ok) it2 d2 s where "ii_clone c it w = Inr (it2, w\<lparr>os := s\<rparr>)" "iterates c it2 d2 0 ys" "os_ok s"
      "regions c (buf d2) \<subseteq> owned s" "owned s - regions c (buf d2) = owned (os w)"
proof -
  have hint: "fst (ii_size_hint c it) = length ys" using ii_size_hint_rep[OF it] by simp
  have vals: "list_all (val_ok c) ys" using it by (simp add: iterates_def)
  have bytes: "slice_cells c (ii_buffer it) (fst (ii_as_slice c it)) (length ys) = Inr (enc_all (esize c) ys)"
    "snd (ii_as_slice c it) = length ys"
    using iterates_cells[OF it] hint by (simp_all add: ii_as_slice_def)
  show ?thesis
  proof (cases rule: with_capacity_cases[OF w n])
    case (1 e)
    then show ?thesis using Err[of e] hint by (simp add: ii_clone_def)
  next
    case (2 d1 s)
    have "length ys < isize_bound" by (rule fits_isize[OF n])
    then have k: "room c d1 (length []) (length ys)" using 2(3)
      by (auto simp: room_def isize_max_def usize_isize_bound)
    show ?thesis
    proof (cases rule: append_elements_cases[OF 2(2) k vals])
      case (1 e)
      then show ?thesis using 2(3) by simp
    next
      case a: (2 d2 s2)
      obtain it2 where it2: "deque_into_iter c d2 = Inr it2" "iterates c it2 d2 0 ys"
        using deque_into_iter_rep[OF holds_rep[OF a(2)]] by (metis append_Nil)
      have run: "ii_clone c it w = Inr (it2, w\<lparr>os := s2\<rparr>)"
        using 2(1) hint bytes a(1) it2(1) by (simp add: ii_clone_def split_beta)
      show ?thesis
        by (rule Ok[OF run it2(2)]) (use a(2,3) 2(5,6) in \<open>auto simp: holds_def others_def\<close>)
    qed
  qed
qed

end

text \<open>Collecting an iterator of a zero-sized type that has not been advanced divides by its size.\<close>

lemma from_iter_into_iter_zst:
  assumes it: "iterates c it d 0 ys" and z: "esize c = 0" and start: "eptr d = bptr (buf d)"
  shows "from_iter_into_iter c it w = panic DivideByZero"
proof -
  have "ii_ptr it = ii_buf it" "ii_ptr it \<le> ii_end it" using it start by (simp_all add: iterates_def)
  then show ?thesis using z by (simp add: from_iter_into_iter_def ii_elems_def usize_div_def)
qed

end
