(* ===== verification/Wraparound.thy ===== *)
theory Wraparound
  imports Extend
begin

text \<open>
  The size arithmetic of \<open>reserve_capacity\<close> at its boundary. \<open>2 * new_capacity\<close> and
  \<open>len * size_of::<T>()\<close> are plain multiplications: a debug build panics when they overflow, a release
  build wraps, allocates the wrapped size and reports success. The operations that trust the
  reservation (\<open>extend_with\<close>, and through it \<open>resize_default\<close> and \<open>from_elem\<close>) then run off the end
  of the mapping. Everything here concerns operations of the theories \<open>Reserve\<close> and \<open>Extend\<close>.
\<close>

lemma move_tail_release: "\<not> debug c \<Longrightarrow> \<exists>n. move_tail_unchecked c d x = Inr (d\<lparr>elen := n\<rparr>)"
  by (auto simp: move_tail_unchecked_def deque_len_def isize_arith_def Let_def debug_assert_def debug_assert_m_def)

lemma extend_with_loop_overruns:
  assumes "\<not> debug c" "0 < esize c" "ew_next cl df value = Some v"
    and "bptr (buf d) \<le> p" "p \<le> bptr (buf d) + 2 * length (cells (buf d))"
      "bptr (buf d) + 2 * length (cells (buf d)) + esize c < usize_bound"
    and "bptr (buf d) + 2 * length (cells (buf d)) < p + n * esize c"
  shows "extend_with_loop c cl df value n p d = undef OutOfBounds"
  using assms(4-7)
proof (induction n arbitrary: p d)
  case (Suc n)
  show ?case
  proof (cases "in_mapping (buf d) p (esize c)")
    case False
    then show ?thesis using assms(1-3) by (simp add: ptr_write_def)
  next
    case True
    let ?b = "(buf d)\<lparr>cells := write_cells (cells (buf d)) (p - bptr (buf d)) (enc (esize c) v)\<rparr>"
    obtain m where m: "move_tail_unchecked c (d\<lparr>buf := ?b\<rparr>) 1 = Inr (d\<lparr>buf := ?b, elen := m\<rparr>)"
      using move_tail_release[OF assms(1)] by blast
    have next_p: "ptr_offset c p 1 = p + esize c"
      using ptr_offset_nat[of p 1 c] Suc.prems True by (simp add: in_mapping_def)
    have "extend_with_loop c cl df value n (p + esize c) (d\<lparr>buf := ?b, elen := m\<rparr>) = undef OutOfBounds"
      by (rule Suc.IH) (use Suc.prems True in \<open>simp_all add: in_mapping_def\<close>)
    then show ?thesis using assms(1-3) True m next_p by (simp add: ptr_write_def)
  qed
qed simp

lemma deque_len_new: "deque_len c (deque_new c) = Inr 0"
  by (simp add: deque_len_def deque_new_def Let_def)

lemma grow_policy_new:
  "0 < esize c \<Longrightarrow> grow_policy c (deque_new c) (Suc isize_bound) = Inr (Suc isize_bound)"
  by (simp add: grow_policy_def deque_new_def buffer_new_def empty_len_def capacity_def deque_len_def
      checked_add_def usize_bound_def isize_bound_def saturating_mul_def Let_def)

text \<open>
  In a release build \<open>reserve\<close> of \<open>2 ^ 63 + 1\<close> more elements returns normally, with the capacity a
  request for two elements gives.
\<close>

lemma reserve_wraps:
  assumes c: "cfg_ok c" "0 < esize c" "\<not> debug c"
    and a: "allocate_mirrored (plat c) (alloc_bytes c (2 * esize c)) (os w) = Inr (Inr p, s)"
  shows "reserve c (deque_new c) (isize_bound + 1) w =
    Inr (\<lparr>eptr = p, elen = 0, buf = \<lparr>bptr = p, blen = alloc_bytes c (2 * esize c) div esize c,
           cells = replicate (alloc_bytes c (2 * esize c) div 2) Uninit\<rparr>\<rparr>, w\<lparr>os := s\<rparr>)"
proof -
  note cc = cfg_okD[OF c(1)]
  have wrap: "usize_mul False 2 (Suc isize_bound) = Inr 2"
    by (simp add: usize_mul_def usize_bound_def isize_bound_def)
  have sz: "size_in_bytes c 2 = Inr (alloc_bytes c (2 * esize c))"
    using cc by (intro size_in_bytes_ok) simp_all
  have un: "uninitialized c 2 w = Inr (Inr \<lparr>bptr = p, blen = alloc_bytes c (2 * esize c) div esize c,
      cells = replicate (alloc_bytes c (2 * esize c) div 2) Uninit\<rparr>, w\<lparr>os := s\<rparr>)"
    using cc c sz a by (simp add: uninitialized_def debug_assert_def)
  have cap: "capacity (deque_new c) = 0" using c by (simp add: capacity_new)
  show ?thesis
    using c deque_len_new[of c] grow_policy_new[OF c(2)] cap wrap un
    by (simp add: reserve_def try_reserve_def reserve_capacity_def debug_assert_def debug_assert_m_def
        ptr_copy_nonoverlapping_def deque_new_def buffer_new_def buffer_drop_def buf_is_empty_def empty_len_def Let_def)
qed

lemma resize_default_overrun:
  fixes c :: "('a, 'os) cfg"
  assumes c: "cfg_ok c" "0 < esize c"
    and a: "allocate_mirrored (plat c) (alloc_bytes c (2 * esize c)) (os w) = Inr (Inr p, s)"
    and p: "p + alloc_bytes c (2 * esize c) < isize_bound"
  shows "resize_default c (Some v) (isize_bound + 1) (deque_new c) w =
    (if debug c then panic ArithmeticOverflow else undef OutOfBounds)"
proof -
  note cc = cfg_okD[OF c(1)]
  show ?thesis
  proof (cases "debug c")
    case True
    have "usize_mul True 2 (Suc isize_bound) = panic ArithmeticOverflow"
      by (simp add: usize_mul_def usize_bound_def isize_bound_def)
    then show ?thesis
      using True deque_len_new[of c] grow_policy_new[OF c(2)] c
      by (simp add: resize_default_def extend_with_def reserve_def try_reserve_def reserve_capacity_def
          capacity_new usize_sub_def)
  next
    case False
    define A where "A = alloc_bytes c (2 * esize c)"
    define d :: "'a deque" where "d = \<lparr>eptr = p, elen = 0, buf = \<lparr>bptr = p, blen = A div esize c, cells = replicate (A div 2) Uninit\<rparr>\<rparr>"
    have even: "even A" and A: "2 * (A div 2) = A" using alloc_bytes_facts(2)[OF cc(1), of "2 * esize c"] by (auto simp: A_def elim: dvdE)
    have r: "reserve c (deque_new c) (Suc isize_bound) w = Inr (d, w\<lparr>os := s\<rparr>)"
      using reserve_wraps[OF c False a] by (simp add: d_def A_def)
    have len': "deque_len c d = Inr 0" by (simp add: deque_len_def d_def)
    have start: "ptr_offset c (eptr d) 0 = p" using p ptr_offset_nat[of p 0 c] by (simp add: d_def usize_isize_bound)
    have e: "2 * esize c \<le> A" using alloc_bytes_facts(1)[OF cc(1), of "2 * esize c"] by (simp add: A_def)
    have "A < isize_bound" using p by (simp add: A_def)
    moreover have "isize_bound \<le> isize_bound * esize c" using c by (cases "esize c") simp_all
    ultimately have big: "A < isize_bound * esize c" by (rule less_le_trans)
    have "extend_with_loop c (\<lambda>_. None) (Some v) ExtendDefault isize_bound p d = undef OutOfBounds"
      by (rule extend_with_loop_overruns[where v = v])
        (use False c p e big A in \<open>simp_all add: ew_next_def d_def A_def[symmetric] usize_isize_bound\<close>)
    then show ?thesis using False deque_len_new[of c] len' r start
      by (simp add: resize_default_def extend_with_def usize_sub_def)
  qed
qed
end
