(* ===== verification/History.thy ===== *)
theory History
  imports Retain Bulk "HOL-Library.Multiset"
begin

text \<open>
  Histories: any sequence of calls on one deque, with the values the caller moves in and gets back.
  Along a history every value is accounted for: it is in the deque, has been given back, or has been
  dropped, each exactly once; and no call that the library's safety rests on ends in undefined
  behaviour. The calls left out are those with a defect of their own (\<open>insert\<close> in the front half,
  \<open>shrink_to_fit\<close>), those that involve a second deque, and those that run the caller's code while
  the deque is inconsistent.
\<close>

datatype 'a op =
    PushBack 'a | PushFront 'a | TryPushBack 'a | TryPushFront 'a | PopBack | PopFront
  | Insert nat 'a | Remove nat | SwapRemoveBack nat | SwapRemoveFront nat
  | Truncate nat | TruncateFront nat | Clear | Reserve nat | Retain "'a \<Rightarrow> bool"

text \<open>The values a call moves into the library, and what the caller must respect.\<close>

fun op_ins :: "'a op \<Rightarrow> 'a list" where
  "op_ins (PushBack v) = [v]"
| "op_ins (PushFront v) = [v]"
| "op_ins (TryPushBack v) = [v]"
| "op_ins (TryPushFront v) = [v]"
| "op_ins (Insert i v) = [v]"
| "op_ins _ = []"

fun op_ok :: "('a, 'os) cfg \<Rightarrow> 'a deque \<Rightarrow> 'a op \<Rightarrow> bool" where
  "op_ok c d (PushBack v) = (elen d < isize_max)"
| "op_ok c d (PushFront v) = (elen d < isize_max)"
| "op_ok c d (TryPushBack v) = (elen d < isize_max)"
| "op_ok c d (TryPushFront v) = (elen d < isize_max)"
| "op_ok c d (Insert i v) = (elen d < isize_max \<and> (i \<le> 1 \<or> elen d div 2 < i))"
| "op_ok c d (Reserve k) = room c d (elen d) k"
| "op_ok c d _ = True"

definition call_ok :: "('a, 'os) cfg \<Rightarrow> 'a deque \<Rightarrow> 'a op \<Rightarrow> bool" where
  "call_ok c d p \<longleftrightarrow> op_ok c d p \<and> list_all (val_ok c) (op_ins p)"

text \<open>One call, with the values it gives back.\<close>

fun exec :: "('a, 'os) cfg \<Rightarrow> 'a op \<Rightarrow> 'a deque \<Rightarrow> ('a, 'os) world \<Rightarrow>
    fault + ('a list \<times> 'a deque \<times> ('a, 'os) world)" where
  "exec c (PushBack v) d w = bindE (push_back c v d w) (\<lambda>(d, w). Inr ([], d, w))"
| "exec c (PushFront v) d w = bindE (push_front c v d w) (\<lambda>(d, w). Inr ([], d, w))"
| "exec c (TryPushBack v) d w =
     bindE (try_push_back c v d w) (\<lambda>(r, d, w). Inr (case r of Inl (u, _) \<Rightarrow> [u] | Inr _ \<Rightarrow> [], d, w))"
| "exec c (TryPushFront v) d w =
     bindE (try_push_front c v d w) (\<lambda>(r, d, w). Inr (case r of Inl (u, _) \<Rightarrow> [u] | Inr _ \<Rightarrow> [], d, w))"
| "exec c PopBack d w = bindE (pop_back c d) (\<lambda>(r, d). Inr (case r of None \<Rightarrow> [] | Some v \<Rightarrow> [v], d, w))"
| "exec c PopFront d w = bindE (pop_front c d) (\<lambda>(r, d). Inr (case r of None \<Rightarrow> [] | Some v \<Rightarrow> [v], d, w))"
| "exec c (Insert i v) d w = bindE (deque_insert c i v d w) (\<lambda>(d, w). Inr ([], d, w))"
| "exec c (Remove i) d w = bindE (remove c i d) (\<lambda>(v, d). Inr ([v], d, w))"
| "exec c (SwapRemoveBack i) d w =
     bindE (swap_remove_back c i d) (\<lambda>(r, d). Inr (case r of None \<Rightarrow> [] | Some v \<Rightarrow> [v], d, w))"
| "exec c (SwapRemoveFront i) d w =
     bindE (swap_remove_front c i d) (\<lambda>(r, d). Inr (case r of None \<Rightarrow> [] | Some v \<Rightarrow> [v], d, w))"
| "exec c (Truncate n) d w = bindE (truncate c n d w) (\<lambda>(d, w). Inr ([], d, w))"
| "exec c (TruncateFront n) d w = bindE (truncate_front c n d w) (\<lambda>(d, w). Inr ([], d, w))"
| "exec c Clear d w = bindE (clear c d w) (\<lambda>(d, w). Inr ([], d, w))"
| "exec c (Reserve k) d w = bindE (reserve c d k w) (\<lambda>(d, w). Inr ([], d, w))"
| "exec c (Retain P) d w =
     bindE (retain c (\<lambda>s x. (Some (P x), s)) () d w) (\<lambda>(_, _, d, w). Inr ([], d, w))"

text \<open>
  A history from \<open>(d, w)\<close>: \<open>ins\<close> is everything moved in so far, \<open>outs\<close> everything given back.
\<close>

inductive history :: "('a, 'os) cfg \<Rightarrow> 'a deque \<times> ('a, 'os) world \<Rightarrow> 'a list \<Rightarrow> 'a list \<Rightarrow>
    'a deque \<times> ('a, 'os) world \<Rightarrow> bool" for c st where
  start: "history c st [] [] st"
| call: "history c st ins outs (d, w) \<Longrightarrow> call_ok c d p \<Longrightarrow> exec c p d w = Inr (ret, d', w') \<Longrightarrow>
    history c st (ins @ op_ins p) (outs @ ret) (d', w')"

definition op_outcome ::
    "('a, 'os) cfg \<Rightarrow> ('os \<Rightarrow> bool) \<Rightarrow> ('os \<Rightarrow> (nat \<times> nat) set) \<Rightarrow> 'a deque \<Rightarrow> ('a, 'os) world \<Rightarrow>
     'a list \<Rightarrow> 'a list \<Rightarrow> fault + ('a list \<times> 'a deque \<times> ('a, 'os) world) \<Rightarrow> bool" where
  "op_outcome c os_ok owned d w xs ins m \<longleftrightarrow>
     (\<exists>p. m = panic p) \<or>
     (\<exists>ret d' w' ys D. m = Inr (ret, d', w') \<and> holds c os_ok owned d' w' ys \<and>
        others c owned d' w' = others c owned d w \<and>
        dropped w' = dropped w @ (if needs_drop c then D else []) \<and>
        mset ins + mset xs = mset ret + mset ys + mset D)"

lemma op_outcome_panic [simp]: "op_outcome c os_ok owned d w xs ins (panic p)"
  by (simp add: op_outcome_def)

lemma op_outcome_evolves:
  assumes "holds c os_ok owned d w xs" "evolves c d d' ys" "mset ins + mset xs = mset ret + mset ys + mset D"
  shows "op_outcome c os_ok owned d w xs ins (Inr (ret, d', drop_vals c D w))"
  unfolding op_outcome_def using holds_evolves[OF assms(1,2), of "drop_vals c D w"] assms(3)
  by (intro disjI2 exI[of _ ret] exI[of _ d'] exI[of _ "drop_vals c D w"] exI[of _ ys] exI[of _ D])
    (simp add: drop_vals_def)

lemma op_outcome_returns:
  assumes "holds c os_ok owned d' w' ys" "others c owned d' w' = others c owned d w" "dropped w' = dropped w"
    and "mset ins + mset xs = mset ret + mset ys"
  shows "op_outcome c os_ok owned d w xs ins (Inr (ret, d', w'))"
  unfolding op_outcome_def using assms
  by (intro disjI2 exI[of _ ret] exI[of _ d'] exI[of _ w'] exI[of _ ys] exI[of _ "[]"]) simp

lemma op_outcome_pushes:
  assumes "push_outcome m (\<lambda>d' w'. queue_state c os_ok owned (others c owned d w, dropped w) d' w' ys)"
    and "mset ins + mset xs = mset ys"
  shows "op_outcome c os_ok owned d w xs ins (bindE m (\<lambda>(d, w). Inr ([], d, w)))"
  using assms unfolding push_outcome_def queue_state_def by (auto intro!: op_outcome_returns)

lemma op_outcome_grows:
  assumes "grows c os_ok owned d w ys m" "mset ins + mset xs = mset ys"
  shows "op_outcome c os_ok owned d w xs ins (bindE m (\<lambda>(d, w). Inr ([], d, w)))"
  using assms unfolding grows_def by (auto intro!: op_outcome_returns)

lemma mset_remove_nth: "i < length xs \<Longrightarrow> mset xs = add_mset (xs ! i) (mset (take i xs @ drop (Suc i) xs))"
  by (metis append_Cons id_take_nth_drop mset_append union_commute mset.simps(2) union_mset_add_mset_right)

lemma mset_insert_at: "mset (take i xs @ v # drop i xs) = add_mset v (mset xs)"
  by (metis append_take_drop_id mset.simps(2) mset_append union_mset_add_mset_right)

lemma mset_swap_out_back: "i < length xs \<Longrightarrow> mset xs = add_mset (xs ! i) (mset (butlast (xs[i := last xs])))"
proof -
  assume i: "i < length xs"
  then have "xs \<noteq> []" by auto
  then obtain ys y where xs: "xs = ys @ [y]" by (metis rev_exhaust)
  show ?thesis
  proof (cases "i < length ys")
    case True
    then have "butlast (xs[i := last xs]) = ys[i := y]" "xs ! i = ys ! i"
      by (simp_all add: xs list_update_append nth_append)
    then show ?thesis using True mset_update[OF True, of y] by (simp add: xs nth_mem_mset)
  next
    case False
    then show ?thesis using i by (simp add: xs list_update_append nth_append)
  qed
qed

lemma mset_swap_out_front: "i < length xs \<Longrightarrow> mset xs = add_mset (xs ! i) (mset (tl (xs[i := hd xs])))"
  by (cases xs; cases i) (simp_all add: mset_update nth_mem_mset)

lemma take_drop_mset: "mset xs = mset (take n xs) + mset (drop n xs)"
  by (metis append_take_drop_id mset_append)

context deque_env
begin

text \<open>One call: it panics, or the accounts balance.\<close>

lemma exec_outcome:
  assumes h: "holds c os_ok owned d w xs" and ok: "call_ok c d p"
  shows "op_outcome c os_ok owned d w xs (op_ins p) (exec c p d w)"
proof -
  note r = holds_rep[OF h]
  note q = holds_queue_state[OF h]
  note len = rep_len[OF r]
  note ev = op_outcome_evolves[OF h]
  note same = ev[where D = "[]", simplified]
  show ?thesis
  proof (cases p)
    case (PushBack v)
    then have "val_ok c v" "length xs < isize_max" using ok len by (simp_all add: call_ok_def)
    then show ?thesis using op_outcome_pushes[OF push_back_outcome[OF q]] PushBack by simp
  next
    case (PushFront v)
    then have "val_ok c v" "length xs < isize_max" using ok len by (simp_all add: call_ok_def)
    then show ?thesis using op_outcome_pushes[OF push_front_outcome[OF q]] PushFront by simp
  next
    case (TryPushBack v)
    then have v: "length xs < isize_max" "val_ok c v" using ok len by (simp_all add: call_ok_def)
    show ?thesis
      by (rule try_push_back_cases[OF h v])
        (use TryPushBack in \<open>auto simp: others_def intro!: op_outcome_returns\<close>)
  next
    case (TryPushFront v)
    then have v: "length xs < isize_max" "val_ok c v" using ok len by (simp_all add: call_ok_def)
    show ?thesis
      by (rule try_push_front_cases[OF h v])
        (use TryPushFront in \<open>auto simp: others_def intro!: op_outcome_returns\<close>)
  next
    case PopBack
    obtain d' where "pop_back c d = Inr (if xs = [] then None else Some (last xs), d')"
      "queue_state c os_ok owned (others c owned d w, dropped w) d' w (butlast xs)" using pop_back_state[OF q] by blast
    then show ?thesis using PopBack
      by (cases xs rule: rev_cases) (auto simp: queue_state_def intro!: op_outcome_returns)
  next
    case PopFront
    obtain d' where "pop_front c d = Inr (if xs = [] then None else Some (hd xs), d')"
      "queue_state c os_ok owned (others c owned d w, dropped w) d' w (tl xs)" using pop_front_state[OF q] by blast
    then show ?thesis using PopFront
      by (cases xs) (auto simp: queue_state_def intro!: op_outcome_returns)
  next
    case (Insert i v)
    then have v: "length xs < isize_max" "val_ok c v" "i \<le> 1 \<or> length xs div 2 < i"
      using ok len by (simp_all add: call_ok_def)
    show ?thesis
    proof (cases "i \<le> length xs")
      case True
      show ?thesis using op_outcome_grows[OF deque_insert_grows[OF h True v(3,1,2)]] Insert mset_insert_at[of i xs v] by simp
    next
      case False
      then show ?thesis using insert_out_of_range[OF r, of i v w] Insert by simp
    qed
  next
    case (Remove i)
    show ?thesis
    proof (cases "i < length xs")
      case True
      obtain d' where "remove c i d = Inr (xs ! i, d')" "evolves c d d' (take i xs @ drop (Suc i) xs)"
        using remove_rep[OF r True] .
      then show ?thesis using Remove same[of d' _ "[]" "[xs ! i]"] mset_remove_nth[OF True] by simp
    next
      case False
      then show ?thesis using remove_out_of_range[OF r] Remove by simp
    qed
  next
    case (SwapRemoveBack i)
    show ?thesis
    proof (cases "i < length xs")
      case True
      obtain d' where "swap_remove_back c i d = Inr (Some (xs ! i), d')" "evolves c d d' (butlast (xs[i := last xs]))"
        using swap_remove_back_rep[OF r True] .
      then show ?thesis using SwapRemoveBack same[of d' _ "[]" "[xs ! i]"] mset_swap_out_back[OF True] by simp
    next
      case False
      then show ?thesis
        using SwapRemoveBack same[OF evolves_refl[OF r], of "[]" "[]"] r len slice_swap_panics[OF r, of i]
        by (auto simp: swap_remove_back_def rep_wf usize_sub_def)
    qed
  next
    case (SwapRemoveFront i)
    show ?thesis
    proof (cases "i < length xs")
      case True
      obtain d' where "swap_remove_front c i d = Inr (Some (xs ! i), d')" "evolves c d d' (tl (xs[i := hd xs]))"
        using swap_remove_front_rep[OF r True] .
      then show ?thesis using SwapRemoveFront same[of d' _ "[]" "[xs ! i]"] mset_swap_out_front[OF True] by simp
    next
      case False
      then show ?thesis
        using SwapRemoveFront same[OF evolves_refl[OF r], of "[]" "[]"] r len slice_swap_panics[OF r, of i]
        by (auto simp: swap_remove_front_def)
    qed
  next
    case (Truncate n)
    obtain d' where "truncate_back c n d w = Inr (d', drop_vals c (drop n xs) w)" "evolves c d d' (take n xs)"
      using truncate_back_rep[OF r] .
    then show ?thesis using Truncate ev[of d' _ "[]" "[]" "drop n xs"] take_drop_mset[of xs n]
      by (simp add: truncate_def)
  next
    case (TruncateFront n)
    obtain d' where "truncate_front c n d w = Inr (d', drop_vals c (take (length xs - n) xs) w)"
      "evolves c d d' (drop (length xs - n) xs)" using truncate_front_rep[OF r] .
    then show ?thesis using TruncateFront ev[of d' _ "[]" "[]" "take (length xs - n) xs"]
        take_drop_mset[of xs "length xs - n"] by (simp add: union_commute)
  next
    case Clear
    obtain d' where "clear c d w = Inr (d', drop_vals c xs w)" "evolves c d d' []" using clear_rep[OF r] .
    then show ?thesis using Clear ev[of d' _ "[]" "[]" xs] by simp
  next
    case (Reserve k)
    then have k: "room c d (length xs) k" using ok len by (simp add: call_ok_def)
    then have k': "length xs + k < usize_bound" "capacity d < length xs + k \<longrightarrow> fits c (max (length xs + k) (2 * capacity d))"
      "esize c = 0 \<longrightarrow> length xs + k \<le> isize_max" by (simp_all add: room_def)
    show ?thesis
      by (rule reserve_cases[OF h k']) (use Reserve in \<open>auto intro!: op_outcome_returns\<close>)
  next
    case (Retain P)
    obtain R where R: "retain_spec (\<lambda>s x. (Some (P x), s)) () [] [] xs = (Returned, (), filter P xs, R, [])"
      "mset R = mset (filter (\<lambda>x. \<not> P x) xs)" using retain_spec_filter[of P "()" "[]" "[]" xs] by auto
    have split: "mset [] + mset xs = mset [] + mset (filter P xs) + mset R"
      unfolding R(2) mset_filter mset.simps(1) empty_neutral by (rule multiset_partition)
    show ?thesis
    proof (cases rule: retain_rep[OF r R(1), of w])
      case (1 d')
      then show ?thesis using Retain ev[OF 1(3) split] by simp
    qed simp
  qed
qed

end

text \<open>A deque that holds \<open>xs\<close> when the history starts; \<open>ys\<close> are its elements at the end.\<close>

definition accounts ::
    "('a, 'os) cfg \<Rightarrow> ('os \<Rightarrow> bool) \<Rightarrow> ('os \<Rightarrow> (nat \<times> nat) set) \<Rightarrow> 'a list \<Rightarrow>
     'a deque \<times> ('a, 'os) world \<Rightarrow> 'a list \<Rightarrow> 'a list \<Rightarrow> 'a deque \<times> ('a, 'os) world \<Rightarrow> bool" where
  "accounts c os_ok owned xs st ins outs st' \<longleftrightarrow>
     (\<exists>ys D. holds c os_ok owned (fst st') (snd st') ys \<and>
        others c owned (fst st') (snd st') = others c owned (fst st) (snd st) \<and>
        dropped (snd st') = dropped (snd st) @ (if needs_drop c then D else []) \<and>
        mset ins + mset xs = mset outs + mset ys + mset D)"

context deque_env
begin

lemma accounts_call:
  assumes a: "accounts c os_ok owned xs st ins outs (d, w)" and p: "call_ok c d p"
  shows "(\<exists>e. exec c p d w = panic e) \<or>
    (\<exists>ret d' w'. exec c p d w = Inr (ret, d', w') \<and>
       accounts c os_ok owned xs st (ins @ op_ins p) (outs @ ret) (d', w'))"
proof -
  obtain ys D where ys: "holds c os_ok owned d w ys" "others c owned d w = others c owned (fst st) (snd st)"
    "dropped w = dropped (snd st) @ (if needs_drop c then D else [])" "mset ins + mset xs = mset outs + mset ys + mset D"
    using a by (auto simp: accounts_def)
  show ?thesis
  proof (cases "\<exists>e. exec c p d w = panic e")
    case False
    obtain ret d' w' zs E where e: "exec c p d w = Inr (ret, d', w')" "holds c os_ok owned d' w' zs"
      "others c owned d' w' = others c owned d w" "dropped w' = dropped w @ (if needs_drop c then E else [])"
      "mset (op_ins p) + mset ys = mset ret + mset zs + mset E"
      using exec_outcome[OF ys(1) p] False unfolding op_outcome_def by blast
    have "mset (ins @ op_ins p) + mset xs = (mset ins + mset xs) + mset (op_ins p)" by (simp add: ac_simps)
    also have "\<dots> = mset outs + mset D + (mset (op_ins p) + mset ys)" using ys(4) by (simp add: ac_simps)
    also have "\<dots> = mset (outs @ ret) + mset zs + mset (D @ E)" using e(5) by (simp add: ac_simps)
    finally have bal: "mset (ins @ op_ins p) + mset xs = mset (outs @ ret) + mset zs + mset (D @ E)" .
    have "accounts c os_ok owned xs st (ins @ op_ins p) (outs @ ret) (d', w')"
      unfolding accounts_def using e ys bal by (intro exI[of _ zs] exI[of _ "D @ E"]) simp
    then show ?thesis using e(1) by blast
  qed blast
qed

lemma history_accounts:
  assumes "history c st ins outs st'" "holds c os_ok owned (fst st) (snd st) xs"
  shows "accounts c os_ok owned xs st ins outs st'"
  using assms
proof (induction rule: history.induct)
  case start
  then show ?case unfolding accounts_def by (intro exI[of _ xs] exI[of _ "[]"]) simp
next
  case (call ins outs d w p ret d' w')
  then show ?case using accounts_call[of xs st ins outs d w p] by auto
qed

end

end
