(* ===== verification/Slice_Traits.thy ===== *)
theory Slice_Traits
  imports Edit
begin

text \<open>
  The traits of \<open>src/lib.rs\<close> that see a deque only as the slice of its elements: \<open>Deref\<close>, \<open>AsRef\<close>,
  \<open>Default\<close>, \<open>PartialEq\<close>, \<open>PartialOrd\<close>, \<open>Hash\<close> and \<open>Debug\<close>. What they do with the slice is the standard
  library's; it is written out for a list of elements. The last section is about the other views of
  the memory: \<open>tail_head_slice\<close>, \<open>get\<close>, and \<open>from_raw_parts\<close>.
\<close>

definition deque_default :: "('a, 'os) cfg \<Rightarrow> 'a deque" where
  "deque_default c = deque_new c"

definition deque_deref :: "'a deque \<Rightarrow> nat \<times> nat" where
  "deque_deref d = as_slice d"

definition deque_as_ref :: "'a deque \<Rightarrow> nat \<times> nat" where
  "deque_as_ref d = deque_deref d"

text \<open>The iterators of \<open>&d\<close> and \<open>&mut d\<close> are those of the slice, given by the slice they walk over.\<close>

definition ref_into_iter :: "'a deque \<Rightarrow> nat \<times> nat" where
  "ref_into_iter d = deque_deref d"

definition mut_into_iter :: "'a deque \<Rightarrow> nat \<times> nat" where
  "mut_into_iter d = deque_deref d"

subsection \<open>Slices\<close>

text \<open>\<open>==\<close> on slices: the lengths first, then the elements in order, as the element type compares.\<close>

definition slice_eq :: "('a \<Rightarrow> 'b \<Rightarrow> bool) \<Rightarrow> 'a list \<Rightarrow> 'b list \<Rightarrow> bool" where
  "slice_eq eq xs ys \<longleftrightarrow> length xs = length ys \<and> list_all (\<lambda>(x, y). eq x y) (zip xs ys)"

datatype ordering = Less | Equal | Greater

fun slice_partial_cmp :: "('a \<Rightarrow> 'a \<Rightarrow> ordering option) \<Rightarrow> 'a list \<Rightarrow> 'a list \<Rightarrow> ordering option" where
  "slice_partial_cmp cmp [] [] = Some Equal"
| "slice_partial_cmp cmp [] (y # ys) = Some Less"
| "slice_partial_cmp cmp (x # xs) [] = Some Greater"
| "slice_partial_cmp cmp (x # xs) (y # ys) =
     (case cmp x y of Some Equal \<Rightarrow> slice_partial_cmp cmp xs ys | r \<Rightarrow> r)"

text \<open>A slice hashes its length, then its elements.\<close>

definition slice_hash :: "(nat \<Rightarrow> 'h \<Rightarrow> 'h) \<Rightarrow> ('a \<Rightarrow> 'h \<Rightarrow> 'h) \<Rightarrow> 'a list \<Rightarrow> 'h \<Rightarrow> 'h" where
  "slice_hash write_usize hash xs state = fold hash xs (write_usize (length xs) state)"

subsection \<open>Deques\<close>

text \<open>The two sides may hold different element types, so each has a configuration.\<close>

definition deque_eq ::
    "('a, 'os) cfg \<Rightarrow> ('b, 'os) cfg \<Rightarrow> ('a \<Rightarrow> 'b \<Rightarrow> bool) \<Rightarrow> 'a deque \<Rightarrow> 'b deque \<Rightarrow> fault + bool" where
  "deque_eq c c' eq self other =
     bindE (slice_elems c self) (\<lambda>xs.
     bindE (slice_elems c' other) (\<lambda>ys.
     Inr (slice_eq eq xs ys)))"

definition deque_eq_slice :: "('a, 'os) cfg \<Rightarrow> ('a \<Rightarrow> 'b \<Rightarrow> bool) \<Rightarrow> 'a deque \<Rightarrow> 'b list \<Rightarrow> fault + bool" where
  "deque_eq_slice c eq self other = bindE (slice_elems c self) (\<lambda>xs. Inr (slice_eq eq xs other))"

definition deque_partial_cmp ::
    "('a, 'os) cfg \<Rightarrow> ('a \<Rightarrow> 'a \<Rightarrow> ordering option) \<Rightarrow> 'a deque \<Rightarrow> 'a deque \<Rightarrow> fault + ordering option" where
  "deque_partial_cmp c cmp self other =
     bindE (slice_elems c self) (\<lambda>xs.
     bindE (slice_elems c other) (\<lambda>ys.
     Inr (slice_partial_cmp cmp xs ys)))"

definition deque_partial_cmp_slice ::
    "('a, 'os) cfg \<Rightarrow> ('a \<Rightarrow> 'a \<Rightarrow> ordering option) \<Rightarrow> 'a deque \<Rightarrow> 'a list \<Rightarrow> fault + ordering option" where
  "deque_partial_cmp_slice c cmp self other =
     bindE (slice_elems c self) (\<lambda>xs. Inr (slice_partial_cmp cmp xs other))"

definition deque_hash ::
    "('a, 'os) cfg \<Rightarrow> (nat \<Rightarrow> 'h \<Rightarrow> 'h) \<Rightarrow> ('a \<Rightarrow> 'h \<Rightarrow> 'h) \<Rightarrow> 'a deque \<Rightarrow> 'h \<Rightarrow> fault + 'h" where
  "deque_hash c write_usize hash d state =
     bindE (slice_elems c d) (\<lambda>xs. Inr (slice_hash write_usize hash xs state))"

subsection \<open>Debug\<close>

text \<open>
  What the standard library prints for a slice with \<open>{:?}\<close>; how an element prints is a parameter.
  The deque prints with a format of its own, so that flags of the caller (\<open>{:#?}\<close>) have no effect.
\<close>

fun commas :: "string list \<Rightarrow> string" where
  "commas [] = []"
| "commas [s] = s"
| "commas (s # ss) = s @ '', '' @ commas ss"

definition debug_list :: "('a \<Rightarrow> string) \<Rightarrow> 'a list \<Rightarrow> string" where
  "debug_list show_elem xs = ''['' @ commas (map show_elem xs) @ '']''"

definition deque_fmt :: "('a, 'os) cfg \<Rightarrow> ('a \<Rightarrow> string) \<Rightarrow> 'a deque \<Rightarrow> fault + string" where
  "deque_fmt c show_elem d = bindE (slice_elems c d) (\<lambda>xs. Inr (debug_list show_elem xs))"

subsection \<open>Laws\<close>

lemma slice_eq_list_all2: "slice_eq eq xs ys \<longleftrightarrow> list_all2 eq xs ys"
  by (auto simp: slice_eq_def list_all2_iff list_all_iff)

lemma slice_eq_equality [simp]: "slice_eq (=) xs ys \<longleftrightarrow> xs = ys"
  by (simp add: slice_eq_list_all2 list.rel_eq)

text \<open>An element order that agrees with the element equality: so do the slices.\<close>

definition cmp_agrees :: "('a \<Rightarrow> 'a \<Rightarrow> bool) \<Rightarrow> ('a \<Rightarrow> 'a \<Rightarrow> ordering option) \<Rightarrow> bool" where
  "cmp_agrees eq cmp \<longleftrightarrow> (\<forall>x y. cmp x y = Some Equal \<longleftrightarrow> eq x y)"

lemma slice_cmp_Equal:
  assumes "cmp_agrees eq cmp"
  shows "slice_partial_cmp cmp xs ys = Some Equal \<longleftrightarrow> slice_eq eq xs ys"
proof -
  have eq: "eq x y \<longleftrightarrow> cmp x y = Some Equal" for x y using assms by (simp add: cmp_agrees_def)
  show ?thesis unfolding slice_eq_list_all2
  proof (induction xs arbitrary: ys)
    case Nil
    show ?case by (cases ys) simp_all
  next
    case (Cons x xs)
    then show ?case by (cases ys) (auto simp: eq split: option.splits ordering.splits)
  qed
qed

text \<open>
  The first place where two slices do not compare as equal decides, with whatever the elements there
  compare as; when there is none in the part they share, the lengths decide.
\<close>

lemma slice_cmp_first_difference:
  assumes "i < length xs" "i < length ys" "\<And>j. j < i \<Longrightarrow> cmp (xs ! j) (ys ! j) = Some Equal"
    and "cmp (xs ! i) (ys ! i) \<noteq> Some Equal"
  shows "slice_partial_cmp cmp xs ys = cmp (xs ! i) (ys ! i)"
  using assms
proof (induction cmp xs ys arbitrary: i rule: slice_partial_cmp.induct)
  case (4 cmp x xs y ys)
  show ?case
  proof (cases i)
    case 0
    then show ?thesis using 4(5) by (auto split: option.splits ordering.splits)
  next
    case (Suc k)
    have "cmp x y = Some Equal" using 4(4)[of 0] Suc by simp
    moreover have "slice_partial_cmp cmp xs ys = cmp (xs ! k) (ys ! k)"
      using 4(1)[of Equal k] calculation 4(2,3,5) 4(4)[of "Suc j" for j] Suc by simp
    ultimately show ?thesis using Suc by simp
  qed
qed simp_all

lemma slice_cmp_common_part:
  assumes "\<And>j. j < length xs \<Longrightarrow> j < length ys \<Longrightarrow> cmp (xs ! j) (ys ! j) = Some Equal"
  shows "slice_partial_cmp cmp xs ys =
    Some (if length xs < length ys then Less else if length xs = length ys then Equal else Greater)"
  using assms
proof (induction cmp xs ys rule: slice_partial_cmp.induct)
  case (4 cmp x xs y ys)
  have "cmp x y = Some Equal" using 4(2)[of 0] by simp
  then show ?case using 4(1)[of Equal] 4(2)[of "Suc j" for j] by simp
qed simp_all

text \<open>Equal elements that hash alike make equal slices that hash alike.\<close>

lemma slice_hash_eq:
  assumes "slice_eq eq xs ys" "\<And>x y s. eq x y \<Longrightarrow> hash x s = hash y s"
  shows "slice_hash write_usize hash xs st = slice_hash write_usize hash ys st"
proof -
  have "list_all2 eq xs ys" using assms(1) by (simp add: slice_eq_list_all2)
  then have "fold hash xs st' = fold hash ys st'" for st'
    by (induction arbitrary: st' rule: list_all2_induct) (simp_all add: assms(2))
  then show ?thesis using assms(1) by (simp add: slice_hash_def slice_eq_def)
qed

lemma deque_traits_rep:
  assumes "rep c d xs" "rep c d' ys"
  shows "deque_eq c c eq d d' = Inr (slice_eq eq xs ys)"
    "deque_partial_cmp c cmp d d' = Inr (slice_partial_cmp cmp xs ys)"
    "deque_hash c write_usize hash d st = Inr (slice_hash write_usize hash xs st)"
    "deque_eq_slice c eq d zs = Inr (slice_eq eq xs zs)"
    "deque_partial_cmp_slice c cmp d zs' = Inr (slice_partial_cmp cmp xs zs')"
    "deque_fmt c show_elem d = Inr (debug_list show_elem xs)"
  using slice_elems_rep[OF assms(1)] slice_elems_rep[OF assms(2)]
  by (simp_all add: deque_fmt_def deque_eq_def deque_partial_cmp_def deque_hash_def deque_eq_slice_def deque_partial_cmp_slice_def)

lemma ref_iterators_rep:
  assumes "rep c d xs" "it = ref_into_iter d \<or> it = mut_into_iter d"
  shows "read_elems c (buf d) (fst it) (snd it) = Inr xs"
  using assms read_elems_rep[OF assms(1), of 0 "length xs"] rep_len[OF assms(1)]
  by (auto simp: ref_into_iter_def mut_into_iter_def deque_deref_def as_slice_def)

subsection \<open>Other views\<close>

text \<open>The free space behind the elements; together they are the capacity.\<close>

lemma tail_head_slice_rep:
  assumes "rep c d xs"
  shows "tail_head_slice c d = Inr (eptr d + length xs * esize c, capacity d - length xs)"
proof -
  note wf = rep_wf[OF assms] and len = rep_len[OF assms] and le = rep_len_le[OF assms]
  have "usize_sub (debug c) (capacity d) (length xs) = Inr (capacity d - length xs)"
    using le by (simp add: usize_sub_def)
  then show ?thesis using wf len ptr_offset_slot[OF wf le] by (simp add: tail_head_slice_def)
qed

text \<open>
  \<open>from_raw_parts\<close> on the parts of a deque that is not full and starts below its capacity gives the
  deque back; a full deque is refused by the debug build, though it is a valid one.
\<close>

lemma from_raw_parts_again:
  assumes r: "rep c d xs" and n: "length xs < capacity d" and e: "even (blen (buf d))" "0 < esize c"
    and p: "eptr d < bptr (buf d) + capacity d * esize c"
  shows "from_raw_parts c (bptr (buf d)) (capacity d) (eptr d, elen d) (cells (buf d)) = Inr d"
proof -
  note wd = wf_dequeD[OF rep_wf[OF r]]
  have "capacity d * esize c \<le> half_bytes c (buf d)" "bptr (buf d) + 2 * half_bytes c (buf d) < usize_bound"
    "blen (buf d) < usize_bound"
    using half_bytes_facts(4,5,8)[OF wd(1,2)] by (simp_all add: capacity_def)
  then have "bptr (buf d) + capacity d * esize c < usize_bound" "capacity d * 2 < usize_bound"
    using e by (auto simp: capacity_def elim: evenE)
  moreover have "capacity d * 2 = blen (buf d)" using e by (simp add: capacity_def)
  moreover have "0 < bptr (buf d)" "bptr (buf d) \<le> eptr d" using wd(2,3) by (simp_all add: wf_buffer_def head_ok_def)
  ultimately show ?thesis
    using n e p rep_len[OF r]
    by (simp add: from_raw_parts_def in_bounds_def usize_mul_def usize_add_def debug_assert_m_def buffer_from_raw_parts_def
        mult.commute[of "esize c"])
qed

lemma from_raw_parts_full:
  assumes "debug c" "p + cap * esize c < usize_bound"
  shows "from_raw_parts c p cap (p, cap) mem = panic DebugAssertFailed"
  using assms by (simp add: from_raw_parts_def in_bounds_def usize_mul_def usize_add_def debug_assert_m_def
      debug_assert_def mult.commute[of "esize c"])

end
