(* ===== verification/Byte_Buf.thy ===== *)
theory Byte_Buf
  imports Extend
begin

text \<open>
  The \<open>BufMut\<close> and \<open>FromBuf\<close> implementations for \<open>SliceDeque<u8>\<close> (\<open>src/lib.rs\<close>): a writer asks for
  the free space behind the elements, writes into it, and then moves the tail over what it wrote.
  \<open>put\<close> is a method of the crate \<open>bytes\<close> and a parameter. The two \<open>IntoBuf\<close> implementations wrap
  the deque, or its slice, in a \<open>Cursor\<close> of the standard library at position 0.
\<close>

definition remaining_mut :: "('a, 'os) cfg \<Rightarrow> 'a deque \<Rightarrow> fault + nat" where
  "remaining_mut c d = bindE (deque_len c d) (\<lambda>len. usize_sub (debug c) usize_max len)"

text \<open>The slice \<open>bytes_mut\<close> returns, as its address and its length.\<close>

definition bytes_mut :: "('a, 'os) cfg \<Rightarrow> 'a deque \<Rightarrow> ('a, 'os) world \<Rightarrow>
    fault + ((nat \<times> nat) \<times> 'a deque \<times> ('a, 'os) world)" where
  "bytes_mut c d w =
     bindE (deque_len c d) (\<lambda>len.
     bindE (if capacity d = len then reserve c d 64 w else Inr (d, w)) (\<lambda>(d, w).
     let cap = capacity d in
     bindE (deque_len c d) (\<lambda>len.
     let p = eptr d in
     if len \<le> cap then Inr ((ptr_offset c p (int len), cap - len), d, w)
     else panic IndexOutOfBounds)))"

definition advance_mut :: "('a, 'os) cfg \<Rightarrow> nat \<Rightarrow> 'a deque \<Rightarrow> ('a, 'os) world \<Rightarrow>
    fault + ('a deque \<times> ('a, 'os) world)" where
  "advance_mut c cnt d w =
     bindE (deque_len c d) (\<lambda>len.
     bindE (usize_sub (debug c) (capacity d) len) (\<lambda>remaining.
     bindE (if remaining < cnt then reserve c d cnt w else Inr (d, w)) (\<lambda>(d, w).
     bindE (move_tail_unchecked c d (to_isize cnt)) (\<lambda>d. Inr (d, w)))))"

definition from_buf ::
    "('a, 'os) cfg \<Rightarrow> ('a deque \<Rightarrow> ('a, 'os) world \<Rightarrow> fault + ('a deque \<times> ('a, 'os) world)) \<Rightarrow> nat \<Rightarrow>
     ('a, 'os) world \<Rightarrow> fault + ('a deque \<times> ('a, 'os) world)" where
  "from_buf c put remaining w = bindE (with_capacity c remaining w) (\<lambda>(ret, w). put ret w)"

record 'b cursor =
  cur_inner :: 'b
  cur_pos :: nat

definition into_buf :: "'a deque \<Rightarrow> 'a deque cursor" where
  "into_buf d = \<lparr>cur_inner = d, cur_pos = 0\<rparr>"

definition into_buf_ref :: "'a deque \<Rightarrow> (nat \<times> nat) cursor" where
  "into_buf_ref d = \<lparr>cur_inner = as_slice d, cur_pos = 0\<rparr>"

text \<open>What a reader of such a cursor still has in front of it: the slice from the position on.\<close>

definition cursor_rest :: "('a, 'os) cfg \<Rightarrow> 'a deque \<Rightarrow> (nat \<times> nat) cursor \<Rightarrow> fault + 'a list" where
  "cursor_rest c d cur =
     (let (p, n) = cur_inner cur; k = min (cur_pos cur) n in read_elems c (buf d) (p + k * esize c) (n - k))"

lemma into_buf_reads:
  assumes r: "rep c d xs"
  shows "cursor_rest c d ((into_buf_ref d)\<lparr>cur_pos := k\<rparr>) = Inr (drop k xs)"
    "rep c (cur_inner (into_buf d)) (drop (cur_pos (into_buf d)) xs)"
proof -
  have "read_elems c (buf d) (eptr d + min k (length xs) * esize c) (length xs - min k (length xs))
      = Inr (drop k xs)"
    using read_elems_rep[OF r, of "min k (length xs)" "length xs - min k (length xs)"]
    by (cases "k \<le> length xs") (simp_all add: min_def)
  then show "cursor_rest c d ((into_buf_ref d)\<lparr>cur_pos := k\<rparr>) = Inr (drop k xs)"
    using rep_len[OF r] by (simp add: cursor_rest_def into_buf_ref_def as_slice_def)
  show "rep c (cur_inner (into_buf d)) (drop (cur_pos (into_buf d)) xs)" using r by (simp add: into_buf_def)
qed

text \<open>What the writer does between the two calls: it fills the first slots of the slice.\<close>

definition write_bytes :: "('a, 'os) cfg \<Rightarrow> nat \<Rightarrow> 'a list \<Rightarrow> 'a deque \<Rightarrow> fault + 'a deque" where
  "write_bytes c p vs d =
     bindE (ptr_copy_from c (enc_all (esize c) vs) (buf d) p) (\<lambda>b. Inr (d\<lparr>buf := b\<rparr>))"

lemma write_advance:
  assumes h: "holds c os_ok owned d w xs" and n: "length xs + length vs \<le> capacity d" and v: "list_all (val_ok c) vs"
  obtains d1 d2 where "write_bytes c (ptr_offset c (eptr d) (int (length xs))) vs d = Inr d1"
    "advance_mut c (length vs) d1 w = Inr (d2, w)" "holds c os_ok owned d2 w (xs @ vs)"
    "others c owned d2 w = others c owned d w"
proof -
  have r: "rep c d xs" by (rule holds_rep[OF h])
  obtain cs where cs:
    "ptr_copy_from c (enc_all (esize c) vs) (buf d) (ptr_offset c (eptr d) (int (length xs))) = Inr ((buf d)\<lparr>cells := cs\<rparr>)"
    "move_tail_unchecked c (d\<lparr>buf := (buf d)\<lparr>cells := cs\<rparr>\<rparr>) (to_isize (length vs))
       = Inr (d\<lparr>buf := (buf d)\<lparr>cells := cs\<rparr>, elen := length xs + length vs\<rparr>)"
    "evolves c d (d\<lparr>buf := (buf d)\<lparr>cells := cs\<rparr>, elen := length xs + length vs\<rparr>) (xs @ vs)"
    using rep_append_run[OF r n v] .
  let ?d1 = "d\<lparr>buf := (buf d)\<lparr>cells := cs\<rparr>\<rparr>"
  have "\<not> capacity d - length xs < length vs" using n by simp
  moreover have "deque_len c ?d1 = Inr (length xs)" using n rep_len[OF r] by (simp add: deque_len_def)
  ultimately have "advance_mut c (length vs) ?d1 w = Inr (d\<lparr>buf := (buf d)\<lparr>cells := cs\<rparr>, elen := length xs + length vs\<rparr>, w)"
    using cs(2) \<open>\<not> capacity d - length xs < length vs\<close> n by (simp add: advance_mut_def)
  then show ?thesis using that cs(1) holds_evolves[OF h cs(3)] by (simp add: write_bytes_def)
qed

context deque_env
begin

lemma bytes_mut_cases:
  assumes h: "holds c os_ok owned d w xs" and k: "length xs = capacity d \<longrightarrow> room c d (length xs) 64"
  obtains (Err) e where "bytes_mut c d w = panic (CalledUnwrapOnErr e)" "length xs = capacity d"
  | (Ok) n d' s where "bytes_mut c d w = Inr ((ptr_offset c (eptr d') (int (length xs)), n), d', w\<lparr>os := s\<rparr>)"
      "holds c os_ok owned d' (w\<lparr>os := s\<rparr>) xs" "others c owned d' (w\<lparr>os := s\<rparr>) = others c owned d w"
      "0 < n" "length xs + n = capacity d'"
proof -
  have r: "rep c d xs" by (rule holds_rep[OF h])
  note wf = rep_wf[OF r] and len = rep_len[OF r] and le = rep_len_le[OF r]
  show ?thesis
  proof (cases "length xs = capacity d")
    case False
    have "w\<lparr>os := os w\<rparr> = w" by simp
    then show ?thesis
      using Ok[of d "capacity d - length xs" "os w"] h wf len le False by (simp add: bytes_mut_def)
  next
    case True
    then have k': "length xs + 64 < usize_bound" "capacity d < length xs + 64 \<longrightarrow> fits c (max (length xs + 64) (2 * capacity d))"
      "esize c = 0 \<longrightarrow> length xs + 64 \<le> isize_max" using k by (simp_all add: room_def)
    show ?thesis
    proof (cases rule: reserve_cases[OF h k'])
      case (1 e)
      then show ?thesis using Err True wf len by (simp add: bytes_mut_def)
    next
      case (2 d' s)
      have r': "rep c d' xs" by (rule holds_rep[OF 2(2)])
      show ?thesis
        using Ok[of d' "capacity d' - length xs" s] 2 True wf len rep_wf[OF r'] rep_len[OF r'] by (simp add: bytes_mut_def)
    qed
  qed
qed

end

end
