(* ===== verification/Construction.thy ===== *)
theory Construction
  imports Extend
begin

text \<open>
  The macro \<open>sdeq!\<close> of \<open>src/lib.rs\<close>, in its three forms; the traits \<open>Extend\<close> and \<open>FromIterator\<close> with
  the dispatch behind them; and \<open>Clone\<close> for \<open>Buffer\<close> of \<open>src/mirrored/buffer.rs\<close>, which the deque itself
  does not use.
\<close>

subsection \<open>sdeq!\<close>

definition sdeq_elem ::
    "('a, 'os) cfg \<Rightarrow> ('a \<Rightarrow> 'a option) \<Rightarrow> 'a \<Rightarrow> nat \<Rightarrow> ('a, 'os) world \<Rightarrow>
     fault + ('a deque option \<times> ('a, 'os) world)" where
  "sdeq_elem c cl elem n w =
     bindE (with_capacity c n w) (\<lambda>(deq, w).
     bindE (resize c cl n elem deq w) (\<lambda>(r, deq, w).
     case r of
       Returned \<Rightarrow> Inr (Some deq, w)
     | Unwinding \<Rightarrow> bindE (deque_drop c deq w) (\<lambda>w. Inr (None, w))))"

definition sdeq_empty :: "('a, 'os) cfg \<Rightarrow> 'a deque" where
  "sdeq_empty c = deque_new c"

text \<open>The array is moved bytewise and then forgotten.\<close>

definition sdeq_list :: "('a, 'os) cfg \<Rightarrow> 'a list \<Rightarrow> ('a, 'os) world \<Rightarrow> fault + ('a deque \<times> ('a, 'os) world)" where
  "sdeq_list c array w = steal_from_slice c (enc_all (esize c) array, length array) w"

context deque_env
begin

lemma sdeq_list_grows:
  assumes "os_ok (os w)" "room c (deque_new c) 0 (length vs)" "list_all (val_ok c) vs"
  shows "grows c os_ok owned (deque_new c) w vs (sdeq_list c vs w)"
  unfolding sdeq_list_def by (rule steal_from_slice_grows[OF assms])

lemma sdeq_elem_outcome:
  assumes w: "os_ok (os w)" and n: "fits c n" "n \<le> isize_max" and g: "cl v = Some u" "val_ok c u"
  shows "(\<exists>p. sdeq_elem c cl v n w = panic p \<and> memory_panic p) \<or>
    (\<exists>d w'. sdeq_elem c cl v n w = Inr (Some d, drop_vals c [v] w') \<and>
       holds c os_ok owned d w' (replicate n u) \<and> others c owned d w' = owned (os w) \<and> dropped w' = dropped w)"
proof (cases rule: with_capacity_cases[OF w n(1)])
  case (1 e)
  then show ?thesis by (simp add: sdeq_elem_def)
next
  case (2 d s)
  have oth: "others c owned d (w\<lparr>os := s\<rparr>) = owned (os w)" using 2(5,6) by (auto simp: others_def)
  show ?thesis
  proof (cases "n = 0")
    case True
    obtain d' where d': "resize c cl n v d (w\<lparr>os := s\<rparr>) = Inr (Returned, d', drop_vals c (drop n [] @ [v]) (w\<lparr>os := s\<rparr>))"
      "evolves c d d' (take n [])" using resize_shrink[OF holds_rep[OF 2(2)], of n cl v "w\<lparr>os := s\<rparr>"] True by auto
    have "sdeq_elem c cl v n w = Inr (Some d', drop_vals c [v] (w\<lparr>os := s\<rparr>))"
      using 2(1) d'(1) True by (simp add: sdeq_elem_def)
    then show ?thesis using holds_evolves[OF 2(2) d'(2), of "w\<lparr>os := s\<rparr>"] oth True by auto
  next
    case False
    have "length ([] :: 'a list) < n" "room c d (length ([] :: 'a list)) (n - length ([] :: 'a list))"
      using False n 2(3) by (auto simp: room_def isize_max_def usize_isize_bound)
    from resize_grow_outcome[where cl = cl, OF 2(2) this n(2) g] show ?thesis
    proof (elim disjE exE conjE)
      fix p assume "resize c cl n v d (w\<lparr>os := s\<rparr>) = panic p" "memory_panic p"
      then show ?thesis using 2(1) by (simp add: sdeq_elem_def)
    next
      fix d' w' assume r: "resize c cl n v d (w\<lparr>os := s\<rparr>) = Inr (Returned, d', drop_vals c [v] w')"
        and q: "queue_state c os_ok owned (others c owned d (w\<lparr>os := s\<rparr>), dropped (w\<lparr>os := s\<rparr>)) d' w'
          ([] @ replicate (n - length ([] :: 'a list)) u)"
      have "sdeq_elem c cl v n w = Inr (Some d', drop_vals c [v] w')" using 2(1) r by (simp add: sdeq_elem_def)
      then show ?thesis using q oth by (auto simp: queue_state_def)
    qed
  qed
qed

end

subsection \<open>from\_elem\<close>

context deque_env
begin

lemma from_elem_outcome:
  assumes w: "os_ok (os w)" and n: "fits c n" "0 < n" and g: "cl v = Some u" and v: "val_ok c v" "val_ok c u"
  shows "(\<exists>p. from_elem c cl v n w = panic p \<and> memory_panic p) \<or>
    (\<exists>d s. from_elem c cl v n w = Inr (Returned, d, w\<lparr>os := s\<rparr>) \<and>
       holds c os_ok owned d (w\<lparr>os := s\<rparr>) (replicate (n - 1) u @ [v]) \<and>
       others c owned d (w\<lparr>os := s\<rparr>) = owned (os w))"
proof (cases rule: with_capacity_cases[OF w n(1)])
  case (1 e)
  then show ?thesis by (simp add: from_elem_def)
next
  case (2 d s)
  have k: "room c d (length ([] :: 'a list)) n"
    using n 2(3) fits_isize[OF n(1)] by (auto simp: room_def isize_max_def usize_isize_bound)
  have o: "others c owned d (w\<lparr>os := s\<rparr>) = owned (os w)" using 2(5,6) by (auto simp: others_def)
  have "ew_next cl None (ExtendElement v) = Some u" "ew_last None (ExtendElement v) = Some v"
    using g by (simp_all add: ew_next_def ew_last_def)
  from extend_with_outcome[OF 2(2) k n(2) this v(2,1)] show ?thesis
    using 2(1) o by (auto simp: from_elem_def)
qed

end

subsection \<open>from\_elem for bytes\<close>

text \<open>The specialisation for \<open>u8\<close>: \<open>ptr::write_bytes\<close> fills the new buffer in one go.\<close>

definition from_elem_bytes :: "('a, 'os) cfg \<Rightarrow> 'a \<Rightarrow> nat \<Rightarrow> ('a, 'os) world \<Rightarrow> fault + ('a deque \<times> ('a, 'os) world)" where
  "from_elem_bytes c elem n w =
     bindE (with_capacity c n w) (\<lambda>(v, w).
     bindE (ptr_copy_from c (enc_all (esize c) (replicate n elem)) (buf v) (eptr v)) (\<lambda>b.
     bindE (move_tail_unchecked c (v\<lparr>buf := b\<rparr>) (to_isize n)) (\<lambda>v.
     Inr (v, w))))"

context deque_env
begin

lemma from_elem_bytes_outcome:
  assumes w: "os_ok (os w)" and n: "fits c n" and v: "val_ok c v"
  shows "(\<exists>e. from_elem_bytes c v n w = panic (AllocationFailed e)) \<or>
    (\<exists>d s. from_elem_bytes c v n w = Inr (d, w\<lparr>os := s\<rparr>) \<and>
       holds c os_ok owned d (w\<lparr>os := s\<rparr>) (replicate n v) \<and> others c owned d (w\<lparr>os := s\<rparr>) = owned (os w))"
proof (cases rule: with_capacity_cases[OF w n])
  case (1 e)
  then show ?thesis by (simp add: from_elem_bytes_def)
next
  case (2 d s)
  have r: "rep c d []" by (rule holds_rep[OF 2(2)])
  have vs: "length ([] :: 'a list) + length (replicate n v) \<le> capacity d" "list_all (val_ok c) (replicate n v)"
    using 2(3) v by (simp_all add: list_all_iff)
  obtain cs where cs:
    "ptr_copy_from c (enc_all (esize c) (replicate n v)) (buf d) (ptr_offset c (eptr d) (int (length ([] :: 'a list))))
       = Inr ((buf d)\<lparr>cells := cs\<rparr>)"
    "move_tail_unchecked c (d\<lparr>buf := (buf d)\<lparr>cells := cs\<rparr>\<rparr>) (to_isize (length (replicate n v)))
       = Inr (d\<lparr>buf := (buf d)\<lparr>cells := cs\<rparr>, elen := length ([] :: 'a list) + length (replicate n v)\<rparr>)"
    "evolves c d (d\<lparr>buf := (buf d)\<lparr>cells := cs\<rparr>, elen := length ([] :: 'a list) + length (replicate n v)\<rparr>) ([] @ replicate n v)"
    using rep_append_run[OF r vs] .
  have "ptr_offset c (eptr d) 0 = eptr d" using ptr_offset_slot[OF rep_wf[OF r], of 0] by simp
  then have "from_elem_bytes c v n w = Inr (d\<lparr>buf := (buf d)\<lparr>cells := cs\<rparr>, elen := n\<rparr>, w\<lparr>os := s\<rparr>)"
    using 2(1) cs(1,2) by (simp add: from_elem_bytes_def)
  then show ?thesis
    using holds_evolves[OF 2(2) cs(3), of "w\<lparr>os := s\<rparr>"] 2(5,6) by (auto simp: others_def)
qed

end

subsection \<open>Extend and FromIterator\<close>

text \<open>The default \<open>SpecExtend\<close>.\<close>

definition spec_extend ::
    "('a, 'os) cfg \<Rightarrow> 'a hint \<Rightarrow> 'a list \<Rightarrow> 'a deque \<Rightarrow> ('a, 'os) world \<Rightarrow> fault + ('a deque \<times> ('a, 'os) world)" where
  "spec_extend c hint iter d w = extend_desugared c hint iter d w"

definition spec_from_iter ::
    "('a, 'os) cfg \<Rightarrow> 'a hint \<Rightarrow> 'a list \<Rightarrow> ('a, 'os) world \<Rightarrow> fault + ('a deque \<times> ('a, 'os) world)" where
  "spec_from_iter c hint iterator w = from_iter_default c hint iterator w"

text \<open>
  The one for references: \<open>iterator.cloned()\<close> gives the clones of what is left, under the same size
  hint. \<open>cl\<close> is a clone that does not panic.
\<close>

definition cloned :: "('a \<Rightarrow> 'a) \<Rightarrow> 'a hint \<Rightarrow> 'a list \<Rightarrow> 'a hint \<times> 'a list" where
  "cloned cl hint refs = ((\<lambda>zs. hint (drop (length refs - length zs) refs)), map cl refs)"

definition spec_extend_refs ::
    "('a, 'os) cfg \<Rightarrow> ('a \<Rightarrow> 'a) \<Rightarrow> 'a hint \<Rightarrow> 'a list \<Rightarrow> 'a deque \<Rightarrow> ('a, 'os) world \<Rightarrow>
     fault + ('a deque \<times> ('a, 'os) world)" where
  "spec_extend_refs c cl hint iterator d w =
     (let (hint, items) = cloned cl hint iterator in spec_extend c hint items d w)"

definition spec_from_iter_refs ::
    "('a, 'os) cfg \<Rightarrow> ('a \<Rightarrow> 'a) \<Rightarrow> 'a hint \<Rightarrow> 'a list \<Rightarrow> ('a, 'os) world \<Rightarrow>
     fault + ('a deque \<times> ('a, 'os) world)" where
  "spec_from_iter_refs c cl hint iterator w =
     (let (hint, items) = cloned cl hint iterator in spec_from_iter c hint items w)"

definition deque_extend ::
    "('a, 'os) cfg \<Rightarrow> 'a hint \<Rightarrow> 'a list \<Rightarrow> 'a deque \<Rightarrow> ('a, 'os) world \<Rightarrow> fault + ('a deque \<times> ('a, 'os) world)" where
  "deque_extend c hint iter d w = spec_extend c hint iter d w"

text \<open>\<open>Extend<&T>\<close> for \<open>Copy\<close> types: cloning is copying.\<close>

definition extend_copies ::
    "('a, 'os) cfg \<Rightarrow> 'a hint \<Rightarrow> 'a list \<Rightarrow> 'a deque \<Rightarrow> ('a, 'os) world \<Rightarrow> fault + ('a deque \<times> ('a, 'os) world)" where
  "extend_copies c hint iter d w = spec_extend_refs c (\<lambda>x. x) hint iter d w"

definition deque_from_iter ::
    "('a, 'os) cfg \<Rightarrow> 'a hint \<Rightarrow> 'a list \<Rightarrow> ('a, 'os) world \<Rightarrow> fault + ('a deque \<times> ('a, 'os) world)" where
  "deque_from_iter c hint iter w = spec_from_iter c hint iter w"

definition from_iter_trusted ::
    "('a, 'os) cfg \<Rightarrow> 'a hint \<Rightarrow> 'a list \<Rightarrow> ('a, 'os) world \<Rightarrow> fault + ('a deque \<times> ('a, 'os) world)" where
  "from_iter_trusted c hint iterator w = spec_extend_trusted c hint iterator (deque_new c) w"

context deque_env
begin

text \<open>An exact hint, as \<open>TrustedLen\<close> promises: one reservation, and the loop stays inside it.\<close>

lemma spec_extend_trusted_grows:
  assumes h: "holds c os_ok owned d w xs" and v: "list_all (val_ok c) items"
    and t: "hint items = (length items, Some (length items))" and k: "room c d (length xs) (length items)"
  shows "grows c os_ok owned d w (xs @ items) (spec_extend_trusted c hint items d w)"
proof -
  have k': "length xs + length items < usize_bound"
    "capacity d < length xs + length items \<longrightarrow> fits c (max (length xs + length items) (2 * capacity d))"
    "esize c = 0 \<longrightarrow> length xs + length items \<le> isize_max" using k by (simp_all add: room_def)
  show ?thesis
  proof (cases rule: reserve_cases[OF h k'])
    case (1 e)
    then show ?thesis using t by (simp add: grows_def spec_extend_trusted_def)
  next
    case (2 d1 s)
    have r: "rep c d1 xs" by (rule holds_rep[OF 2(2)])
    obtain d2 where d2: "write_run c items (eptr d1 + length xs * esize c) d1 = Inr d2" "evolves c d1 d2 (xs @ items)"
      using write_run_rep[OF r 2(4) v] by blast
    have "spec_extend_trusted c hint items d w = Inr (d2, w\<lparr>os := s\<rparr>)"
      using 2(1) t d2(1) rep_wf[OF r] rep_len[OF r] rep_len_le[OF r] by (simp add: spec_extend_trusted_def)
    then show ?thesis using holds_evolves[OF 2(2) d2(2), of "w\<lparr>os := s\<rparr>"] 2(3) by (auto simp: grows_def)
  qed
qed

text \<open>The specialisation for slices of \<open>Copy\<close> types: one reservation, one copy.\<close>

lemma spec_extend_copy_grows:
  assumes h: "holds c os_ok owned d w xs" and v: "list_all (val_ok c) vs" and k: "room c d (length xs) (length vs)"
  shows "grows c os_ok owned d w (xs @ vs) (spec_extend_copy c (enc_all (esize c) vs, length vs) d w)"
proof -
  have k': "length xs + length vs < usize_bound"
    "capacity d < length xs + length vs \<longrightarrow> fits c (max (length xs + length vs) (2 * capacity d))"
    "esize c = 0 \<longrightarrow> length xs + length vs \<le> isize_max" using k by (simp_all add: room_def)
  show ?thesis
  proof (cases rule: reserve_cases[OF h k'])
    case (1 e)
    then show ?thesis by (simp add: grows_def spec_extend_copy_def)
  next
    case (2 d1 s)
    have r: "rep c d1 xs" by (rule holds_rep[OF 2(2)])
    note wf = rep_wf[OF r]
    obtain cs where cs:
      "ptr_copy_from c (enc_all (esize c) vs) (buf d1) (ptr_offset c (eptr d1) (int (length xs))) = Inr ((buf d1)\<lparr>cells := cs\<rparr>)"
      "evolves c d1 (d1\<lparr>buf := (buf d1)\<lparr>cells := cs\<rparr>, elen := length xs + length vs\<rparr>) (xs @ vs)"
      using rep_append_run[OF r 2(4) v] by metis
    have m: "move_tail_unchecked c d1 (int (length vs)) = Inr (d1\<lparr>elen := length xs + length vs\<rparr>)"
      using move_tail_ok(1)[OF wf, of "int (length vs)"] 2(4) rep_len[OF r] by (simp add: nat_int_add)
    have "length vs < isize_bound" using 2(4) wf_dequeD(5)[OF wf] by simp
    then have "spec_extend_copy c (enc_all (esize c) vs, length vs) d w
        = Inr (d1\<lparr>buf := (buf d1)\<lparr>cells := cs\<rparr>, elen := length xs + length vs\<rparr>, w\<lparr>os := s\<rparr>)"
      using 2(1) cs(1) m wf rep_len[OF r] by (simp add: spec_extend_copy_def)
    then show ?thesis using holds_evolves[OF 2(2) cs(2), of "w\<lparr>os := s\<rparr>"] 2(3) by (auto simp: grows_def)
  qed
qed

lemma extend_copies_grows:
  assumes h: "holds c os_ok owned d w xs" and v: "list_all (val_ok c) items"
    and B: "\<And>zs. length zs < length items \<Longrightarrow> hint_request hint zs \<le> B"
    and f: "fits c (2 * (length xs + length items + B + 1))"
  shows "grows c os_ok owned d w (xs @ items) (extend_copies c hint items d w)"
  unfolding extend_copies_def spec_extend_refs_def cloned_def spec_extend_def Let_def prod.case list.map_ident
  by (rule extend_desugared_grows[OF h v _ f]) (use B in \<open>simp add: hint_request_def\<close>)

text \<open>Collecting and then extending is collecting the concatenation, when memory does not run out.\<close>

lemma from_iter_extend:
  assumes w: "os_ok (os w)" and v: "list_all (val_ok c) items" "list_all (val_ok c) added"
    and B: "\<And>zs. hint_request hint zs \<le> B" "\<And>zs. fst (hint zs) \<le> B"
    and f: "fits c (2 * (length items + length added + B + 1))"
  shows "(\<exists>p. bindE (deque_from_iter c hint items w) (\<lambda>(d, w). deque_extend c hint added d w) = panic p) \<or>
    (\<exists>d s. bindE (deque_from_iter c hint items w) (\<lambda>(d, w). deque_extend c hint added d w) = Inr (d, w\<lparr>os := s\<rparr>) \<and>
       holds c os_ok owned d (w\<lparr>os := s\<rparr>) (items @ added) \<and> others c owned d (w\<lparr>os := s\<rparr>) = owned (os w))"
proof -
  have f1: "fits c (2 * (length items + B + 1))" by (rule fits_mono[OF f]) simp
  show ?thesis
    using from_iter_default_fresh[OF w v(1) B f1]
  proof (elim disjE exE conjE)
    fix p assume "from_iter_default c hint items w = panic p" "memory_panic p"
    then show ?thesis by (simp add: deque_from_iter_def spec_from_iter_def)
  next
    fix d s assume d: "from_iter_default c hint items w = Inr (d, w\<lparr>os := s\<rparr>)"
      "holds c os_ok owned d (w\<lparr>os := s\<rparr>) items" "others c owned d (w\<lparr>os := s\<rparr>) = owned (os w)"
    have "grows c os_ok owned d (w\<lparr>os := s\<rparr>) (items @ added) (extend_desugared c hint added d (w\<lparr>os := s\<rparr>))"
      by (rule extend_desugared_grows[OF d(2) v(2) B(1) f])
    then show ?thesis
      using d by (auto simp: grows_def deque_from_iter_def spec_from_iter_def deque_extend_def spec_extend_def)
  qed
qed

end

subsection \<open>Cloning a buffer\<close>

text \<open>
  \<open>to[..mid].clone_from_slice(&from[..mid])\<close> where the sources may not hold values: each round
  reads a source, clones it, drops what is in the destination and writes the clone.
\<close>

fun clone_slots ::
    "('a, 'os) cfg \<Rightarrow> ('a \<Rightarrow> 'a option) \<Rightarrow> 'a buffer \<Rightarrow> nat \<Rightarrow> nat \<Rightarrow> nat \<Rightarrow> 'a buffer \<Rightarrow> ('a, 'os) world \<Rightarrow>
     fault + (completion \<times> 'a buffer \<times> ('a, 'os) world)" where
  "clone_slots c cl from p q 0 b w = Inr (Returned, b, w)"
| "clone_slots c cl from p q (Suc n) b w =
     bindE (ptr_read c from p) (\<lambda>v.
     case cl v of
       None \<Rightarrow> Inr (Unwinding, b, w)
     | Some v \<Rightarrow>
         bindE (drop_in_place c b q 1 w) (\<lambda>w.
         bindE (ptr_write c b q v) (\<lambda>b.
         clone_slots c cl from (p + esize c) (q + esize c) n b w)))"

definition buffer_clone ::
    "('a, 'os) cfg \<Rightarrow> ('a \<Rightarrow> 'a option) \<Rightarrow> 'a buffer \<Rightarrow> ('a, 'os) world \<Rightarrow>
     fault + ('a buffer option \<times> ('a, 'os) world)" where
  "buffer_clone c cl b w =
     (let mid = blen b div 2 in
      bindE (uninitialized c (blen b) w) (\<lambda>(r, w).
      case r of
        Inl e \<Rightarrow> panic ExpectFailed
      | Inr to \<Rightarrow>
          bindE (if mid \<le> blen to then Inr () else panic IndexOutOfBounds) (\<lambda>_.
          bindE (clone_slots c cl b (bptr b) (bptr to) mid to w) (\<lambda>(r, to, w).
          case r of
            Returned \<Rightarrow> Inr (Some to, w)
          | Unwinding \<Rightarrow> bindE (buffer_drop c to w) (\<lambda>w. Inr (None, w))))))"

definition buffer_default :: "('a, 'os) cfg \<Rightarrow> 'a buffer" where
  "buffer_default c = buffer_new c"

text \<open>
  A buffer does not have to have an even number of slots, but cloning asks \<open>uninitialized\<close> for as many
  as it has.
\<close>

lemma buffer_clone_odd:
  assumes "cfg_ok c" "0 < esize c" "odd (blen b)"
  shows "buffer_clone c cl b w = panic AssertFailed"
proof -
  have "0 < blen b" using assms(3) by (cases "blen b") auto
  then have "uninitialized c (blen b) w = panic AssertFailed"
    using assms cfg_okD[OF assms(1)] by (simp add: uninitialized_def odd_iff_mod_2_eq_one)
  then show ?thesis by (simp add: buffer_clone_def Let_def)
qed

context deque_env
begin

text \<open>For a type that needs dropping the first clone drops a slot that was never written.\<close>

lemma buffer_clone_drops_garbage:
  assumes b: "even (blen b)" "0 < blen b" "blen b * esize c + 2 * ag c < usize_bound"
    and nd: "needs_drop c" "0 < esize c" and v: "ptr_read c b (bptr b) = Inr v" "cl v = Some u"
    and w: "os_ok (os w)"
  shows "buffer_clone c cl b w = panic ExpectFailed \<or> buffer_clone c cl b w = undef UninitRead"
proof (cases rule: uninitialized_cases[OF cfg refl below b(1,3) w])
  case (1 e s)
  then show ?thesis by (simp add: buffer_clone_def Let_def)
next
  case (2 t s)
  have t: "blen b \<le> blen t" using 2(6) nd by simp
  obtain mid where mid: "blen b div 2 = Suc mid" using b by (cases "blen b div 2") (auto elim: evenE)
  have "0 < blen t div 2" using t mid by linarith
  note slot = view_uninit[OF 2(3,7) this nd(2) cfg]
  have "ptr_read c t (bptr t) = undef UninitRead"
    using view_read[OF cfg 2(3) head_ok_bptr[OF cfg 2(3)] \<open>0 < blen t div 2\<close>] slot nd(2) by simp
  then have "drop_in_place c t (bptr t) 1 (w\<lparr>os := s\<rparr>) = undef UninitRead"
    using nd(1) by (simp add: drop_in_place_def)
  moreover have "Suc mid \<le> blen t" using t mid by linarith
  ultimately show ?thesis using 2(1) v mid by (simp add: buffer_clone_def Let_def)
qed

end

end
