(* ===== verification/Tiny_Ascii.thy ===== *)
theory Tiny_Ascii
  imports Prelude "HOL-Library.Word"
begin

text \<open>
  \<open>src/macros.rs\<close>: \<open>TinyAsciiString\<close>, the buffer of 512 bytes the Windows allocator formats its
  diagnostics into, and the macro \<open>tiny_str!\<close>. The standard library calls \<open>write_str\<close> once for each
  literal piece and each argument of the format string; the pieces are a list here.
\<close>

type_synonym tiny_ascii_string = "8 word list"

definition tiny_new :: tiny_ascii_string where
  "tiny_new = replicate 512 0"

text \<open>\<open>from_utf8_unchecked\<close> of the whole buffer, the zeros behind the text included.\<close>

definition tiny_as_str :: "tiny_ascii_string \<Rightarrow> 8 word list" where
  "tiny_as_str s = s"

text \<open>The loop of \<open>write_str\<close> from index \<open>i\<close>; an error leaves what has been written.\<close>

fun tiny_write_from :: "nat \<Rightarrow> 8 word list \<Rightarrow> tiny_ascii_string \<Rightarrow> (unit + unit) \<times> tiny_ascii_string" where
  "tiny_write_from i [] s = (Inr (), s)"
| "tiny_write_from i (b # bs) s =
     (if i < length s then tiny_write_from (Suc i) bs (s[i := b]) else (Inl (), s))"

definition tiny_write_str :: "8 word list \<Rightarrow> tiny_ascii_string \<Rightarrow> (unit + unit) \<times> tiny_ascii_string" where
  "tiny_write_str bs s = tiny_write_from 0 bs s"

fun tiny_write_fmt :: "8 word list list \<Rightarrow> tiny_ascii_string \<Rightarrow> (unit + unit) \<times> tiny_ascii_string" where
  "tiny_write_fmt [] s = (Inr (), s)"
| "tiny_write_fmt (p # ps) s =
     (case tiny_write_str p s of (Inl e, s) \<Rightarrow> (Inl e, s) | (Inr _, s) \<Rightarrow> tiny_write_fmt ps s)"

text \<open>\<open>write!(&mut s, \<dots>).unwrap()\<close>.\<close>

definition tiny_str :: "8 word list list \<Rightarrow> fault + tiny_ascii_string" where
  "tiny_str ps = (case tiny_write_fmt ps tiny_new of (Inl _, _) \<Rightarrow> panic ExpectFailed | (Inr _, s) \<Rightarrow> Inr s)"

lemma tiny_write_from_spec:
  "i \<le> length s \<Longrightarrow> tiny_write_from i bs s =
     (if i + length bs \<le> length s then Inr () else Inl (),
      take i s @ take (length s - i) bs @ drop (i + length bs) s)"
proof (induction i bs s rule: tiny_write_from.induct)
  case (2 i b bs s)
  show ?case
  proof (cases "i < length s")
    case True
    then have "take (Suc i) (s[i := b]) = take i s @ [b]" by (simp add: take_Suc_conv_app_nth)
    moreover have "take (length s - i) (b # bs) = b # take (length s - Suc i) bs" using True by (simp add: Suc_diff_Suc[symmetric])
    ultimately show ?thesis using 2 True by simp
  next
    case False
    then have "i = length s" using 2 by simp
    then show ?thesis by simp
  qed
qed simp

text \<open>
  \<open>write_str\<close> writes at the front of the buffer: up to 512 bytes succeed, of a longer string the
  first 512 are kept and the error is reported.
\<close>

lemma tiny_write_str_spec:
  "tiny_write_str bs s = (if length bs \<le> length s then Inr () else Inl (), take (length s) bs @ drop (length bs) s)"
  using tiny_write_from_spec[of 0 s bs] by (simp add: tiny_write_str_def)

lemma tiny_str_single: "length p \<le> 512 \<Longrightarrow> tiny_str [p] = Inr (p @ replicate (512 - length p) 0)"
  by (simp add: tiny_str_def tiny_write_str_spec tiny_new_def)

lemma tiny_str_too_long: "512 < length p \<Longrightarrow> tiny_str (p # ps) = panic ExpectFailed"
  by (simp add: tiny_str_def tiny_write_str_spec tiny_new_def)

text \<open>
  Every call starts at index 0 again, so a message of several pieces is not their concatenation:
  a later piece overwrites the start of an earlier one.
\<close>

lemma tiny_str_overwrites:
  assumes "length p \<le> 512" "length q \<le> length p"
  shows "tiny_str [p, q] = Inr (q @ drop (length q) p @ replicate (512 - length p) 0)"
  using assms by (simp add: tiny_str_def tiny_write_str_spec tiny_new_def)

end
