(* ===== verification/Diagnostics.thy ===== *)
theory Diagnostics
  imports Main
begin

text \<open>
  What the allocators report on stderr when a system call fails: \<open>print_error\<close> of
  \<open>src/mirrored/linux.rs\<close>, \<open>sysv.rs\<close>, \<open>winapi.rs\<close> and \<open>macos.rs\<close>, and \<open>report_error\<close> of \<open>macos.rs\<close>. The
  functions return the lines they print. \<open>verbose\<close> is the configuration in which they print at all
  (debug assertions and \<open>use_std\<close>). The text of the last error of the system, and the numbers behind
  the names of the crate \<open>mach\<close>, are parameters.
\<close>

subsection \<open>The last error of the system\<close>

definition linux_print_error :: "bool \<Rightarrow> string \<Rightarrow> string \<Rightarrow> string list" where
  "linux_print_error verbose last_os_error location =
     (if verbose then [''Error at '' @ location @ '': '' @ last_os_error] else [])"

definition sysv_print_error :: "bool \<Rightarrow> string \<Rightarrow> string \<Rightarrow> string list" where
  "sysv_print_error verbose last_os_error location =
     (if verbose then [''Error at '' @ location @ '': '' @ last_os_error] else [])"

definition win_print_error :: "bool \<Rightarrow> string \<Rightarrow> string \<Rightarrow> string list" where
  "win_print_error verbose last_os_error location =
     (if verbose then [''Error at '' @ location @ '': '' @ last_os_error] else [])"

subsection \<open>Return codes of Mach\<close>

text \<open>The arms of the match, in the order of the code.\<close>

definition kern_names :: "string list" where
  "kern_names =
    [''KERN_ABORTED'', ''KERN_ALREADY_IN_SET'', ''KERN_ALREADY_WAITING'', ''KERN_CODESIGN_ERROR'',
          ''KERN_DEFAULT_SET'', ''KERN_EXCEPTION_PROTECTED'', ''KERN_FAILURE'', ''KERN_INVALID_ADDRESS'',
          ''KERN_INVALID_ARGUMENT'', ''KERN_INVALID_CAPABILITY'', ''KERN_INVALID_HOST'',
          ''KERN_INVALID_LEDGER'', ''KERN_INVALID_MEMORY_CONTROL'', ''KERN_INVALID_NAME'',
          ''KERN_INVALID_OBJECT'', ''KERN_INVALID_POLICY'', ''KERN_INVALID_PROCESSOR_SET'',
          ''KERN_INVALID_RIGHT'', ''KERN_INVALID_SECURITY'', ''KERN_INVALID_TASK'', ''KERN_INVALID_VALUE'',
          ''KERN_LOCK_OWNED'', ''KERN_LOCK_OWNED_SELF'', ''KERN_LOCK_SET_DESTROYED'',
          ''KERN_LOCK_UNSTABLE'', ''KERN_MEMORY_DATA_MOVED'', ''KERN_MEMORY_ERROR'',
          ''KERN_MEMORY_FAILURE'', ''KERN_MEMORY_PRESENT'', ''KERN_MEMORY_RESTART_COPY'',
          ''KERN_NAME_EXISTS'', ''KERN_NODE_DOWN'', ''KERN_NOT_DEPRESSED'', ''KERN_NOT_IN_SET'',
          ''KERN_NOT_RECEIVER'', ''KERN_NOT_SUPPORTED'', ''KERN_NOT_WAITING'', ''KERN_NO_ACCESS'',
          ''KERN_NO_SPACE'', ''KERN_OPERATION_TIMED_OUT'', ''KERN_POLICY_LIMIT'', ''KERN_POLICY_STATIC'',
          ''KERN_PROTECTION_FAILURE'', ''KERN_RESOURCE_SHORTAGE'', ''KERN_RETURN_MAX'',
          ''KERN_RIGHT_EXISTS'', ''KERN_RPC_CONTINUE_ORPHAN'', ''KERN_RPC_SERVER_TERMINATED'',
          ''KERN_RPC_TERMINATE_ORPHAN'', ''KERN_SEMAPHORE_DESTROYED'', ''KERN_SUCCESS'',
          ''KERN_TERMINATED'', ''KERN_UREFS_OVERFLOW'']"

text \<open>\<open>value_of\<close> is the number of a name, \<open>show_code\<close> how a number prints.\<close>

definition report_error :: "(string \<Rightarrow> int) \<Rightarrow> (int \<Rightarrow> string) \<Rightarrow> int \<Rightarrow> string \<times> string list" where
  "report_error value_of show_code error =
     (case find (\<lambda>name. error = value_of name) kern_names of
        Some name \<Rightarrow> (name, [])
      | None \<Rightarrow> (''UNKNOWN_KERN_ERROR'', [''unknown kernel error: '' @ show_code error]))"

definition mac_print_error :: "(string \<Rightarrow> int) \<Rightarrow> (int \<Rightarrow> string) \<Rightarrow> bool \<Rightarrow> string \<Rightarrow> int \<Rightarrow> string list" where
  "mac_print_error value_of show_code verbose msg error =
     (if verbose
      then (let (name, printed) = report_error value_of show_code error in
            printed @ [''ERROR at '' @ [CHR 0x22] @ msg @ [CHR 0x22] @ '': '' @ name])
      else [])"

subsection \<open>What is reported\<close>

lemma kern_names_distinct: "distinct kern_names"
  by code_simp

text \<open>Names with different numbers: every code of the library is reported by its own name.\<close>

lemma report_error_name:
  assumes "inj_on value_of (set kern_names)" "name \<in> set kern_names"
  shows "report_error value_of show_code (value_of name) = (name, [])"
proof -
  have "find (\<lambda>n. value_of name = value_of n) kern_names = Some name"
    using assms by (auto simp: find_Some_iff inj_on_def in_set_conv_nth nth_eq_iff_index_eq[OF kern_names_distinct])
      (metis inj_on_def nth_mem nth_eq_iff_index_eq[OF kern_names_distinct] less_irrefl less_trans)
  then show ?thesis by (simp add: report_error_def)
qed

text \<open>What is reported is the name of the code, or the code is unknown.\<close>

lemma report_error_sound:
  "report_error value_of show_code error = (name, printed) \<Longrightarrow>
   (name \<in> set kern_names \<and> value_of name = error \<and> printed = []) \<or>
   (error \<notin> value_of ` set kern_names \<and> name = ''UNKNOWN_KERN_ERROR'')"
  by (auto simp: report_error_def find_Some_iff find_None_iff split: option.splits)

text \<open>Nothing is printed in a release build; otherwise the last line names the place.\<close>

lemma print_errors:
  "linux_print_error False e l = []" "sysv_print_error False e l = []" "win_print_error False e l = []"
  "mac_print_error value_of show_code False l n = []"
  "last (mac_print_error value_of show_code True l n)
     = ''ERROR at '' @ [CHR 0x22] @ l @ [CHR 0x22] @ '': '' @ fst (report_error value_of show_code n)"
  by (simp_all add: linux_print_error_def sysv_print_error_def win_print_error_def mac_print_error_def split_beta)

end
