(* ===== verification/Item_Calls.thy ===== *)
theory Item_Calls
  imports Drain Into_Iter "HOL-Library.Multiset"
begin

text \<open>
  What a client does with an iterator of the library before it goes out of scope: it takes items
  from either end and looks at the size hint, and asserts what it gets. The locale \<open>item_source\<close> is
  the contract of a double-ended iterator; \<open>Drain\<close>, \<open>Splice\<close> and \<open>IntoIter\<close> are interpretations of it.
\<close>

subsection \<open>Calls on an iterator\<close>

text \<open>\<open>assert_eq!(it.next(), r)\<close>, \<open>assert_eq!(it.next_back(), r)\<close>, \<open>assert_eq!(it.size_hint(), (n, Some(n)))\<close>.\<close>

datatype 'a it_call = Next "'a option" | Next_Back "'a option" | Hint nat

fun opt_list :: "'a option \<Rightarrow> 'a list" where
  "opt_list None = []"
| "opt_list (Some x) = [x]"

lemma mset_first: "mset ys = mset (opt_list (if ys = [] then None else Some (hd ys))) + mset (tl ys)"
  by (cases ys) auto

lemma mset_final: "mset ys = mset (opt_list (if ys = [] then None else Some (last ys))) + mset (butlast ys)"
  by (cases ys rule: rev_cases) auto

fun run_calls ::
    "('a, 'os) cfg \<Rightarrow> ('i \<Rightarrow> fault + ('a option \<times> 'i)) \<Rightarrow> ('i \<Rightarrow> fault + ('a option \<times> 'i)) \<Rightarrow>
     ('i \<Rightarrow> nat \<times> nat option) \<Rightarrow> 'a it_call list \<Rightarrow> 'i \<Rightarrow> ('a, 'os) world \<Rightarrow> fault + ('i \<times> ('a, 'os) world)" where
  "run_calls c nx nb hint [] it w = Inr (it, w)"
| "run_calls c nx nb hint (Next r # calls) it w =
     bindE (nx it) (\<lambda>(v, it).
     bindE (assert_that (v = r)) (\<lambda>_.
     run_calls c nx nb hint calls it (drop_vals c (opt_list v) w)))"
| "run_calls c nx nb hint (Next_Back r # calls) it w =
     bindE (nb it) (\<lambda>(v, it).
     bindE (assert_that (v = r)) (\<lambda>_.
     run_calls c nx nb hint calls it (drop_vals c (opt_list v) w)))"
| "run_calls c nx nb hint (Hint n # calls) it w =
     bindE (assert_that (hint it = (n, Some n))) (\<lambda>_.
     run_calls c nx nb hint calls it w)"

text \<open>What is left of the items, or \<open>None\<close> when an assertion fails.\<close>

fun ref_calls :: "'a it_call list \<Rightarrow> 'a list \<Rightarrow> 'a list option" where
  "ref_calls [] ys = Some ys"
| "ref_calls (Next r # calls) ys =
     (if (if ys = [] then None else Some (hd ys)) = r then ref_calls calls (tl ys) else None)"
| "ref_calls (Next_Back r # calls) ys =
     (if (if ys = [] then None else Some (last ys)) = r then ref_calls calls (butlast ys) else None)"
| "ref_calls (Hint n # calls) ys = (if length ys = n then ref_calls calls ys else None)"

text \<open>The contract of a double-ended iterator with an exact size hint.\<close>

locale item_source =
  fixes gives :: "'i \<Rightarrow> 'a list \<Rightarrow> bool"
    and nx nb :: "'i \<Rightarrow> fault + ('a option \<times> 'i)"
    and hint :: "'i \<Rightarrow> nat \<times> nat option"
  assumes nx: "gives it ys \<Longrightarrow>
      \<exists>it'. nx it = Inr (if ys = [] then None else Some (hd ys), it') \<and> gives it' (tl ys)"
    and nb: "gives it ys \<Longrightarrow>
      \<exists>it'. nb it = Inr (if ys = [] then None else Some (last ys), it') \<and> gives it' (butlast ys)"
    and hint: "gives it ys \<Longrightarrow> hint it = (length ys, Some (length ys))"
begin

text \<open>The items given back are dropped at the end of their statements.\<close>

lemma run_calls_ref:
  assumes "gives it ys"
  shows "case ref_calls calls ys of
      None \<Rightarrow> run_calls c nx nb hint calls it w = panic AssertFailed
    | Some zs \<Rightarrow> \<exists>it' D. run_calls c nx nb hint calls it w = Inr (it', drop_vals c D w) \<and> gives it' zs \<and>
        mset ys = mset D + mset zs"
  using assms
proof (induction calls arbitrary: it ys w)
  case Nil
  then show ?case by (auto intro!: exI[of _ it] exI[of _ "[]"])
next
  case (Cons a calls)
  have step: "case ref_calls calls zs of
      None \<Rightarrow> run_calls c nx nb hint calls it' (drop_vals c D w) = panic AssertFailed
    | Some us \<Rightarrow> \<exists>it'' E. run_calls c nx nb hint calls it' (drop_vals c D w) = Inr (it'', drop_vals c E w) \<and>
        gives it'' us \<and> mset ys = mset E + mset us"
    if it': "gives it' zs" and m: "mset ys = mset D + mset zs" for it' zs D
  proof (cases "ref_calls calls zs")
    case None
    then show ?thesis using Cons.IH[OF it', of "drop_vals c D w"] by simp
  next
    case (Some us)
    then obtain it'' E where "run_calls c nx nb hint calls it' (drop_vals c D w) = Inr (it'', drop_vals c (D @ E) w)"
      "gives it'' us" "mset zs = mset E + mset us"
      using Cons.IH[OF it', of "drop_vals c D w"] by auto
    then show ?thesis using Some m by (auto intro!: exI[of _ it''] exI[of _ "D @ E"])
  qed
  show ?case
  proof (cases a)
    case (Next r)
    obtain it' where it': "nx it = Inr (if ys = [] then None else Some (hd ys), it')" "gives it' (tl ys)"
      using nx[OF Cons.prems] by blast
    show ?thesis using step[OF it'(2) mset_first] it'(1) Next by (auto simp: assert_that_def split: option.splits)
  next
    case (Next_Back r)
    obtain it' where it': "nb it = Inr (if ys = [] then None else Some (last ys), it')" "gives it' (butlast ys)"
      using nb[OF Cons.prems] by blast
    show ?thesis using step[OF it'(2) mset_final] it'(1) Next_Back by (auto simp: assert_that_def split: option.splits)
  next
    case (Hint n)
    then show ?thesis using step[OF Cons.prems, of "[]"] hint[OF Cons.prems] by (auto simp: assert_that_def split: option.splits)
  qed
qed

end

interpretation drain_items: item_source
  "\<lambda>dr ys. \<exists>k. draining c d dr k pre ys post" "drain_next c d" "drain_next_back c d" drain_size_hint
  for c d pre post
proof (unfold_locales, goal_cases)
  case (1 it ys)
  then show ?case using drain_next_rep by (cases ys) fastforce+
next
  case (2 it ys)
  then show ?case using drain_next_back_rep by (cases ys rule: rev_cases) fastforce+
next
  case (3 it ys)
  then show ?case by (auto simp: drain_size_hint_def draining_def)
qed

interpretation into_iter_items: item_source
  "\<lambda>it ys. \<exists>k. iterates c it d k ys" "ii_next c" "ii_next_back c" "ii_size_hint c"
  for c d
proof (unfold_locales, goal_cases)
  case (1 it ys)
  then show ?case using ii_next_rep by (cases ys) fastforce+
next
  case (2 it ys)
  then show ?case using ii_next_back_rep by (cases ys rule: rev_cases) fastforce+
next
  case (3 it ys)
  then show ?case by (auto simp: ii_size_hint_rep)
qed

lemma drain_next_keeps:
  "drain_next c d dr = Inr (r, dr') \<Longrightarrow> tail_start dr' = tail_start dr"
  "drain_next_back c d dr = Inr (r, dr') \<Longrightarrow> tail_start dr' = tail_start dr"
  by (auto simp: drain_next_def drain_next_back_def bindE_def split: if_splits sum.splits)

text \<open>Iterating a \<open>Splice\<close> leaves the end of the range and the replacement alone.\<close>

interpretation splice_items: item_source
  "\<lambda>sp ys. (\<exists>k. draining c d (sp_drain sp) k pre ys post) \<and> tail_start (sp_drain sp) = e \<and>
     replace_with sp = items \<and> sp_hint sp = hint"
  "splice_next c d" "splice_next_back c d" splice_size_hint
  for c :: "('a, 'os) cfg" and d pre post e items hint
proof (unfold_locales, goal_cases)
  case (1 sp ys)
  then obtain dr' where nx: "drain_next c d (sp_drain sp) = Inr (if ys = [] then None else Some (hd ys), dr')"
    "\<exists>k. draining c d dr' k pre (tl ys) post"
    using drain_items.nx[where c = c and d = d and pre = pre and post = post and it = "sp_drain sp" and ys = ys] by auto
  then show ?case using 1 drain_next_keeps(1)[OF nx(1)] by (intro exI[of _ "sp\<lparr>sp_drain := dr'\<rparr>"]) (simp add: splice_next_def)
next
  case (2 sp ys)
  then obtain dr' where nb: "drain_next_back c d (sp_drain sp) = Inr (if ys = [] then None else Some (last ys), dr')"
    "\<exists>k. draining c d dr' k pre (butlast ys) post"
    using drain_items.nb[where c = c and d = d and pre = pre and post = post and it = "sp_drain sp" and ys = ys] by auto
  then show ?case using 2 drain_next_keeps(2)[OF nb(1)]
    by (intro exI[of _ "sp\<lparr>sp_drain := dr'\<rparr>"]) (simp add: splice_next_back_def)
next
  case (3 sp ys)
  then show ?case using drain_items.hint[where c = c and d = d and pre = pre and post = post and it = "sp_drain sp" and ys = ys] by (simp add: splice_size_hint_def)
qed

text \<open>
  \<open>DrainFilter\<close> goes one way, and its hint has no lower bound: \<open>assert_eq!(it.next(), r)\<close> and
  \<open>assert_eq!(it.size_hint(), (0, Some(n)))\<close>.
\<close>

datatype 'a filter_call = Next_Match "'a option" | Upper nat

definition drain_filter_size_hint :: "('a, 'os) cfg \<Rightarrow> drain_filter \<Rightarrow> fault + (nat \<times> nat option)" where
  "drain_filter_size_hint c df = bindE (usize_sub (debug c) (old_len df) (idx df)) (\<lambda>n. Inr (0, Some n))"

fun run_filter_calls ::
    "('a, 'os) cfg \<Rightarrow> ('a \<Rightarrow> bool) \<Rightarrow> 'a filter_call list \<Rightarrow> drain_filter \<Rightarrow> 'a deque \<Rightarrow> ('a, 'os) world \<Rightarrow>
     fault + (drain_filter \<times> 'a deque \<times> ('a, 'os) world)" where
  "run_filter_calls c P [] df d w = Inr (df, d, w)"
| "run_filter_calls c P (Next_Match r # calls) df d w =
     bindE (drain_filter_next c (\<lambda>s x. (Some (P x), x, s)) (old_len df - idx df) df () d) (\<lambda>(_, v, df, _, d).
     bindE (assert_that (v = r)) (\<lambda>_.
     run_filter_calls c P calls df d (drop_vals c (opt_list v) w)))"
| "run_filter_calls c P (Upper n # calls) df d w =
     bindE (drain_filter_size_hint c df) (\<lambda>h.
     bindE (assert_that (h = (0, Some n))) (\<lambda>_.
     run_filter_calls c P calls df d w))"

text \<open>\<open>K\<close> is what has been kept, \<open>rest\<close> what the iterator has not looked at.\<close>

fun ref_filter_calls :: "('a \<Rightarrow> bool) \<Rightarrow> 'a filter_call list \<Rightarrow> 'a list \<Rightarrow> 'a list \<Rightarrow> ('a list \<times> 'a list) option" where
  "ref_filter_calls P [] K rest = Some (K, rest)"
| "ref_filter_calls P (Next_Match r # calls) K rest =
     (let kept = takeWhile (\<lambda>x. \<not> P x) rest; left = dropWhile (\<lambda>x. \<not> P x) rest in
      if (if left = [] then None else Some (hd left)) = r
      then ref_filter_calls P calls (K @ kept) (tl left) else None)"
| "ref_filter_calls P (Upper n # calls) K rest =
     (if length rest = n then ref_filter_calls P calls K rest else None)"

lemma filter_scan_pure:
  "\<exists>G'. filter_scan (\<lambda>s x. (Some (P x), x, s)) s K G rest =
     (let left = dropWhile (\<lambda>x. \<not> P x) rest in
      (Returned, if left = [] then None else Some (hd left), s, K @ takeWhile (\<lambda>x. \<not> P x) rest, G', tl left))"
proof (induction rest arbitrary: K G)
  case (Cons x rest)
  then show ?case using Cons[of "K @ [x]" "tl (G @ [x])"] by (cases "P x") (auto simp: Let_def)
qed simp

lemma run_filter_calls_ref:
  assumes "filtering c d df K G rest"
  shows "case ref_filter_calls P calls K rest of
      None \<Rightarrow> run_filter_calls c P calls df d w = panic AssertFailed
    | Some (K', rest') \<Rightarrow> \<exists>df' d' D G'. run_filter_calls c P calls df d w = Inr (df', d', drop_vals c D w) \<and>
        filtering c d' df' K' G' rest' \<and> evolves c d d' [] \<and> mset K + mset rest = mset D + mset K' + mset rest'"
  using assms
proof (induction calls arbitrary: df d K G rest w)
  case Nil
  then show ?case
    using filtering_keeps(1)[OF Nil]
    by (auto intro!: exI[of _ df])
next
  case (Cons a calls)
  show ?case
  proof (cases a)
    case (Next_Match r)
    define left kept where "left = dropWhile (\<lambda>x. \<not> P x) rest" and "kept = takeWhile (\<lambda>x. \<not> P x) rest"
    define v where "v = (if left = [] then None else Some (hd left))"
    have n: "length rest \<le> old_len df - idx df" using filtering_keeps(2)[OF Cons.prems] by simp
    obtain G1 where "filter_scan (\<lambda>s x. (Some (P x), x, s)) () K G rest = (Returned, v, (), K @ kept, G1, tl left)"
      using filter_scan_pure[of P "()" K G rest] by (auto simp: Let_def left_def kept_def v_def)
    from drain_filter_next_rep[OF Cons.prems pred_ok_pure n this] obtain df1 d1 where
      f1: "drain_filter_next c (\<lambda>s x. (Some (P x), x, s)) (old_len df - idx df) df () d = Inr (Returned, v, df1, (), d1)"
      "filtering c d1 df1 (K @ kept) G1 (tl left)" "evolves c d d1 []" by blast
    have m: "mset rest = mset kept + mset (opt_list v) + mset (tl left)"
    proof -
      have "mset rest = mset kept + mset left" unfolding left_def kept_def by (metis mset_append takeWhile_dropWhile_id)
      also have "mset left = mset (opt_list v) + mset (tl left)" unfolding v_def by (rule mset_first)
      finally show ?thesis by simp
    qed
    have ref: "ref_filter_calls P (a # calls) K rest = (if v = r then ref_filter_calls P calls (K @ kept) (tl left) else None)"
      using Next_Match by (simp add: Let_def left_def kept_def v_def)
    have run: "run_filter_calls c P (a # calls) df d w =
        (if v = r then run_filter_calls c P calls df1 d1 (drop_vals c (opt_list v) w) else panic AssertFailed)"
      using Next_Match f1(1) by (simp add: assert_that_def)
    show ?thesis
    proof (cases "v = r")
      case False
      then show ?thesis using run ref by simp
    next
      case True
      show ?thesis
      proof (cases "ref_filter_calls P calls (K @ kept) (tl left)")
        case None
        then show ?thesis using Cons.IH[OF f1(2), of "drop_vals c (opt_list v) w"] run ref True by simp
      next
        case (Some Kr)
        obtain K' rest' where Kr: "Kr = (K', rest')" by fastforce
        from Cons.IH[OF f1(2), of "drop_vals c (opt_list v) w"] obtain df' d' D G' where
          "run_filter_calls c P calls df1 d1 (drop_vals c (opt_list v) w) = Inr (df', d', drop_vals c (opt_list v @ D) w)"
          "filtering c d' df' K' G' rest'" "evolves c d1 d' []"
          "mset (K @ kept) + mset (tl left) = mset D + mset K' + mset rest'"
          unfolding Some Kr option.case prod.case drop_vals_append by blast
        moreover from this have "mset K + mset rest = mset (opt_list v @ D) + mset K' + mset rest'"
          using m by (simp add: ac_simps)
        moreover have "evolves c d d' []" using evolves_trans[OF f1(3)] calculation(3) .
        ultimately show ?thesis using run ref True Some Kr by auto
      qed
    qed
  next
    case (Upper n)
    have "usize_sub (debug c) (old_len df) (idx df) = Inr (length rest)"
      using filtering_keeps(2)[OF Cons.prems] Cons.prems by (simp add: filtering_def)
    then show ?thesis using Cons.IH[OF Cons.prems] Upper
      by (auto simp: assert_that_def drain_filter_size_hint_def split: option.splits)
  qed
qed

end
