(* ===== verification/Client.thy ===== *)
theory Client
  imports Item_Calls Construction Slice_Traits Retain
begin

text \<open>
  Calls a client makes on one deque, as it writes them: the call, and what is asserted of its
  result. \<open>do_edit\<close> and \<open>do_check\<close> run them on the model of the library, \<open>ref_edit\<close> and
  \<open>ref_check\<close> on a list. A call returns what the list says, panics where the list says it panics, or
  panics because memory ran out.

  Beside the list, the reference keeps a lower bound of the capacity (the documentation promises no
  more) and answers \<open>Stuck\<close> where it promises nothing: sizes above the limit \<open>N\<close>, capacities it
  cannot know, and calls with a defect of their own.
\<close>

subsection \<open>The calls\<close>

datatype 'a edit =
    Push_Back 'a | Push_Front 'a
  | Pop_Back "'a option" | Pop_Front "'a option" | Discard_Back | Discard_Front
  | Assign nat 'a | Assign_If nat 'a | Assign_Front 'a | Assign_Back 'a
  | Copy_Slot nat nat | For_Each_Mut "'a \<Rightarrow> 'a" | For_Each_Slice nat nat "'a \<Rightarrow> 'a" | Swap_Slots nat nat
  | Truncate_To nat | Truncate_Front_To nat | Clear_All
  | Resize_To nat 'a | Reserve_More nat | Reserve_Exactly nat | Shrink_To_Fit
  | Retain_If "'a \<Rightarrow> bool" | Dedup_Writing "'a \<Rightarrow> 'a \<Rightarrow> bool \<times> 'a \<times> 'a"
  | Dedup_By_Key "'a \<Rightarrow> int" | Dedup_Equal "'a \<Rightarrow> 'a \<Rightarrow> bool"
  | Extend_Items "'a list" | Extend_Copies "'a list" | Extend_Slice "'a list" | Resize_Default nat 'a
  | Insert_At nat 'a | Remove_At nat 'a | Swap_Remove_Back nat "'a option" | Swap_Remove_Front nat "'a option"
  | Drain_Range range_bound range_bound "'a it_call list"
  | Drain_Filter_If "'a \<Rightarrow> bool" "'a filter_call list"
  | Splice_Range range_bound range_bound "'a list" "'a it_call list" | Forget_Splice range_bound range_bound "'a list"
  | Forget_Back nat

text \<open>
  The closure of \<open>dedup_by\<close> may write to both elements; mostly it only compares them. \<open>Dedup_Equal\<close> is
  \<open>dedup\<close> with the \<open>==\<close> of the element type; the keys of \<open>Dedup_By_Key\<close> are integers.
  \<open>Forget_Splice\<close> is \<open>mem::forget(d.splice(\<dots>))\<close>.
\<close>

abbreviation Dedup_By :: "('a \<Rightarrow> 'a \<Rightarrow> bool) \<Rightarrow> 'a edit" where
  "Dedup_By same \<equiv> Dedup_Writing (\<lambda>a b. (same a b, a, b))"

definition bucket :: "('a \<Rightarrow> 'a \<Rightarrow> bool \<times> 'a \<times> 'a) \<Rightarrow> ('a, unit) bucket" where
  "bucket f s a b = (case f a b of (same, a, b) \<Rightarrow> (Some same, a, b, s))"

text \<open>The iterators of the standard library (ranges, slices, \<open>Vec\<close>) have exact size hints.\<close>

definition exact_hint :: "'a hint" where
  "exact_hint zs = (length zs, Some (length zs))"

text \<open>\<open>*p = v\<close>: what was there is dropped.\<close>

definition assign :: "('a, 'os) cfg \<Rightarrow> nat \<Rightarrow> 'a \<Rightarrow> 'a deque \<Rightarrow> ('a, 'os) world \<Rightarrow>
    fault + ('a deque \<times> ('a, 'os) world)" where
  "assign c p v d w =
     bindE (ptr_read c (buf d) p) (\<lambda>old.
     bindE (ptr_write c (buf d) p v) (\<lambda>b.
     Inr (d\<lparr>buf := b\<rparr>, drop_vals c [old] w)))"

definition assign_to :: "('a, 'os) cfg \<Rightarrow> nat option \<Rightarrow> 'a \<Rightarrow> 'a deque \<Rightarrow> ('a, 'os) world \<Rightarrow>
    fault + ('a deque \<times> ('a, 'os) world)" where
  "assign_to c r v d w = (case r of None \<Rightarrow> panic CalledUnwrapOnNone | Some p \<Rightarrow> assign c p v d w)"

text \<open>\<open>for x in d.iter_mut() { *x = f(*x) }\<close>: the slots from \<open>i\<close> on, \<open>n\<close> of them.\<close>

fun for_each_mut :: "('a, 'os) cfg \<Rightarrow> ('a \<Rightarrow> 'a) \<Rightarrow> nat \<Rightarrow> nat \<Rightarrow> 'a deque \<Rightarrow> ('a, 'os) world \<Rightarrow>
    fault + ('a deque \<times> ('a, 'os) world)" where
  "for_each_mut c f 0 p d w = Inr (d, w)"
| "for_each_mut c f (Suc n) p d w =
     bindE (ptr_read c (buf d) p) (\<lambda>x.
     bindE (assign c p (f x) d w) (\<lambda>(d, w).
     for_each_mut c f n (p + esize c) d w))"

text \<open>\<open>assert_eq!(\<dots>, r)\<close> on the element a call returned, which is then dropped.\<close>

definition expect :: "('a, 'os) cfg \<Rightarrow> 'a option \<Rightarrow> 'a option \<times> 'a deque \<Rightarrow> ('a, 'os) world \<Rightarrow>
    fault + ('a deque \<times> ('a, 'os) world)" where
  "expect c r res w =
     (let (v, d) = res in bindE (assert_that (v = r)) (\<lambda>_. Inr (d, drop_vals c (opt_list v) w)))"

fun returned :: "fault + (completion \<times> 's \<times> 'a deque \<times> ('a, 'os) world) \<Rightarrow> fault + ('a deque \<times> ('a, 'os) world)" where
  "returned (Inr (Returned, _, d, w)) = Inr (d, w)"
| "returned (Inr (Unwinding, _, d, w)) = panic ClosurePanicked"
| "returned (Inl f) = Inl f"

fun finished :: "fault + (completion \<times> 'a deque \<times> ('a, 'os) world) \<Rightarrow> fault + ('a deque \<times> ('a, 'os) world)" where
  "finished (Inr (Returned, d, w)) = Inr (d, w)"
| "finished (Inr (Unwinding, d, w)) = panic ClosurePanicked"
| "finished (Inl f) = Inl f"

fun do_edit :: "('a, 'os) cfg \<Rightarrow> 'a edit \<Rightarrow> 'a deque \<Rightarrow> ('a, 'os) world \<Rightarrow> fault + ('a deque \<times> ('a, 'os) world)" where
  "do_edit c (Push_Back v) d w = push_back c v d w"
| "do_edit c (Push_Front v) d w = push_front c v d w"
| "do_edit c (Pop_Back r) d w = bindE (pop_back c d) (\<lambda>res. expect c r res w)"
| "do_edit c (Pop_Front r) d w = bindE (pop_front c d) (\<lambda>res. expect c r res w)"
| "do_edit c Discard_Back d w = bindE (pop_back c d) (\<lambda>(v, d). Inr (d, drop_vals c (opt_list v) w))"
| "do_edit c Discard_Front d w = bindE (pop_front c d) (\<lambda>(v, d). Inr (d, drop_vals c (opt_list v) w))"
| "do_edit c (Assign i v) d w = assign_to c (slice_get_mut c d i) v d w"
| "do_edit c (Assign_If i v) d w =
     (case slice_get_mut c d i of None \<Rightarrow> Inr (d, w) | Some p \<Rightarrow> assign c p v d w)"
| "do_edit c (Assign_Front v) d w = assign_to c (front_mut c d) v d w"
| "do_edit c (Assign_Back v) d w = bindE (back_mut c d) (\<lambda>r. assign_to c r v d w)"
| "do_edit c (Copy_Slot i j) d w =
     bindE (slice_get c d j) (\<lambda>r.
     case r of None \<Rightarrow> panic CalledUnwrapOnNone | Some v \<Rightarrow> assign_to c (slice_get_mut c d i) v d w)"
| "do_edit c (For_Each_Mut f) d w = for_each_mut c f (elen d) (eptr d) d w"
| "do_edit c (For_Each_Slice lo hi f) d w =
     (if lo \<le> hi \<and> hi \<le> elen d then for_each_mut c f (hi - lo) (eptr d + lo * esize c) d w
      else panic IndexOutOfBounds)"
| "do_edit c (Swap_Slots i j) d w = bindE (slice_swap c i j d) (\<lambda>d. Inr (d, w))"
| "do_edit c (Truncate_To n) d w = Edit.truncate c n d w"
| "do_edit c (Truncate_Front_To n) d w = truncate_front c n d w"
| "do_edit c Clear_All d w = clear c d w"
| "do_edit c (Resize_To n v) d w = finished (resize c Some n v d w)"
| "do_edit c (Reserve_More k) d w = reserve c d k w"
| "do_edit c (Reserve_Exactly k) d w = reserve_exact c d k w"
| "do_edit c Shrink_To_Fit d w = shrink_to_fit c d w"
| "do_edit c (Retain_If P) d w = returned (retain c (\<lambda>s x. (Some (P x), s)) () d w)"
| "do_edit c (Dedup_Writing f) d w = returned (dedup_by c (bucket f) () d w)"
| "do_edit c (Dedup_By_Key key) d w = returned (dedup_by_key c (\<lambda>s x. (Some (key x), x, s)) (=) () d w)"
| "do_edit c (Dedup_Equal eq) d w = returned (dedup c eq d w)"
| "do_edit c (Extend_Items vs) d w = deque_extend c exact_hint vs d w"
| "do_edit c (Extend_Copies vs) d w = extend_copies c exact_hint vs d w"
| "do_edit c (Extend_Slice vs) d w = finished (extend_from_slice c Some vs d w)"
| "do_edit c (Resize_Default n v) d w = finished (resize_default c (Some v) n d w)"
| "do_edit c (Insert_At i v) d w = deque_insert c i v d w"
| "do_edit c (Remove_At i v) d w = bindE (remove c i d) (\<lambda>(u, d). expect c (Some v) (Some u, d) w)"
| "do_edit c (Swap_Remove_Back i r) d w = bindE (swap_remove_back c i d) (\<lambda>res. expect c r res w)"
| "do_edit c (Swap_Remove_Front i r) d w = bindE (swap_remove_front c i d) (\<lambda>res. expect c r res w)"
| "do_edit c (Drain_Range lo hi calls) d w =
     bindE (deque_drain c lo hi d) (\<lambda>(dr, d).
     bindE (run_calls c (drain_next c d) (drain_next_back c d) drain_size_hint calls dr w) (\<lambda>(dr, w).
     drain_drop c dr d w))"
| "do_edit c (Drain_Filter_If P calls) d w =
     bindE (deque_drain_filter c d) (\<lambda>(df, d).
     bindE (run_filter_calls c P calls df d w) (\<lambda>(df, d, w).
     returned (drain_filter_drop c (\<lambda>s x. (Some (P x), x, s)) df () d w)))"
| "do_edit c (Splice_Range lo hi items calls) d w =
     bindE (deque_splice c lo hi exact_hint items d) (\<lambda>(sp, d).
     bindE (run_calls c (splice_next c d) (splice_next_back c d) splice_size_hint calls sp w) (\<lambda>(sp, w).
     splice_drop c (sp_hint sp) (replace_with sp) (sp_drain sp) d w))"
| "do_edit c (Forget_Splice lo hi items) d w =
     bindE (deque_splice c lo hi exact_hint items d) (\<lambda>(sp, d). Inr (d, w))"
| "do_edit c (Forget_Back n) d w = bindE (move_tail_unchecked c d (- int n)) (\<lambda>d. Inr (d, w))"

subsection \<open>The calls on a list\<close>

text \<open>\<open>Goes xs g D\<close>: the list is \<open>xs\<close>, the capacity at least \<open>g\<close>, and \<open>D\<close> has been dropped.\<close>

datatype 'a result = Goes "'a list" nat "'a list" | Panics panic | Stuck

definition first :: "'a list \<Rightarrow> 'a option" where
  "first xs = (if xs = [] then None else Some (hd xs))"

definition final :: "'a list \<Rightarrow> 'a option" where
  "final xs = (if xs = [] then None else Some (last xs))"

definition ref_assign :: "nat \<Rightarrow> 'a \<Rightarrow> 'a list \<Rightarrow> nat \<Rightarrow> 'a result" where
  "ref_assign i v xs g = (if i < length xs then Goes (xs[i := v]) g [xs ! i] else Panics CalledUnwrapOnNone)"

definition ref_expect :: "'a option \<Rightarrow> 'a option \<Rightarrow> 'a list \<Rightarrow> nat \<Rightarrow> 'a result" where
  "ref_expect r v ys g = (if v = r then Goes ys g (opt_list v) else Panics AssertFailed)"

text \<open>What \<open>dedup_by\<close> keeps, and what it drops, from the kept element \<open>k\<close> on.\<close>

fun dedup_writing :: "('a \<Rightarrow> 'a \<Rightarrow> bool \<times> 'a \<times> 'a) \<Rightarrow> 'a \<Rightarrow> 'a list \<Rightarrow> 'a list \<times> 'a list" where
  "dedup_writing f k [] = ([k], [])"
| "dedup_writing f k (x # xs) =
     (case f x k of
        (True, a, b) \<Rightarrow> (case dedup_writing f b xs of (kept, D) \<Rightarrow> (kept, a # D))
      | (False, a, b) \<Rightarrow> (case dedup_writing f a xs of (kept, D) \<Rightarrow> (b # kept, D)))"

definition range_ok :: "range_bound \<Rightarrow> range_bound \<Rightarrow> nat \<Rightarrow> bool" where
  "range_ok lo hi n \<longleftrightarrow> range_start_of lo \<le> range_end_of hi n \<and> range_end_of hi n \<le> n"

text \<open>
  The items of a splice have a place without the tail being lost: there is no tail, or the range is
  large enough, or the capacity that is guaranteed.
\<close>

definition splice_fits :: "nat \<Rightarrow> nat \<Rightarrow> nat \<Rightarrow> nat \<Rightarrow> nat \<Rightarrow> nat \<Rightarrow> bool" where
  "splice_fits N s e n k g \<longleftrightarrow> (if e = n then s + 2 * k + 1 \<le> N else k \<le> e - s \<or> n + (k - (e - s)) \<le> g)"

fun ref_edit :: "bool \<Rightarrow> nat \<Rightarrow> 'a edit \<Rightarrow> 'a list \<Rightarrow> nat \<Rightarrow> 'a result" where
  "ref_edit nd N (Push_Back v) xs g = (if length xs < N then Goes (xs @ [v]) g [] else Stuck)"
| "ref_edit nd N (Push_Front v) xs g = (if length xs < N then Goes (v # xs) g [] else Stuck)"
| "ref_edit nd N (Pop_Back r) xs g = ref_expect r (final xs) (butlast xs) g"
| "ref_edit nd N (Pop_Front r) xs g = ref_expect r (first xs) (tl xs) g"
| "ref_edit nd N Discard_Back xs g = Goes (butlast xs) g (opt_list (final xs))"
| "ref_edit nd N Discard_Front xs g = Goes (tl xs) g (opt_list (first xs))"
| "ref_edit nd N (Assign i v) xs g = ref_assign i v xs g"
| "ref_edit nd N (Assign_If i v) xs g =
     (if i < length xs then ref_assign i v xs g else Goes xs g [])"
| "ref_edit nd N (Assign_Front v) xs g = ref_assign 0 v xs g"
| "ref_edit nd N (Assign_Back v) xs g = (if xs = [] then Panics CalledUnwrapOnNone else ref_assign (length xs - 1) v xs g)"
| "ref_edit nd N (Copy_Slot i j) xs g =
     (if j < length xs then ref_assign i (xs ! j) xs g else Panics CalledUnwrapOnNone)"
| "ref_edit nd N (For_Each_Mut f) xs g = Goes (map f xs) g xs"
| "ref_edit nd N (For_Each_Slice lo hi f) xs g =
     (if lo \<le> hi \<and> hi \<le> length xs
      then Goes (take lo xs @ map f (take (hi - lo) (drop lo xs)) @ drop hi xs) g (take (hi - lo) (drop lo xs))
      else Panics IndexOutOfBounds)"
| "ref_edit nd N (Swap_Slots i j) xs g =
     (if i < length xs \<and> j < length xs then Goes (swap_nth i j xs) g [] else Panics IndexOutOfBounds)"
| "ref_edit nd N (Truncate_To n) xs g = Goes (take n xs) g (drop n xs)"
| "ref_edit nd N (Truncate_Front_To n) xs g = Goes (drop (length xs - n) xs) g (take (length xs - n) xs)"
| "ref_edit nd N Clear_All xs g = Goes [] g xs"
| "ref_edit nd N (Resize_To n v) xs g =
     (if n \<le> length xs then Goes (take n xs) g (drop n xs @ [v])
      else if n \<le> N then Goes (xs @ replicate (n - length xs) v) 0 [v] else Stuck)"
| "ref_edit nd N (Reserve_More k) xs g =
     (if length xs + k \<le> N then Goes xs (max g (length xs + k)) [] else Stuck)"
| "ref_edit nd N (Reserve_Exactly k) xs g =
     (if length xs + k \<le> N then Goes xs (max g (length xs + k)) [] else Stuck)"
| "ref_edit nd N Shrink_To_Fit xs g =
     (if xs = [] then Goes xs g [] else if nd \<or> N < length xs then Stuck else Goes xs 0 [])"
| "ref_edit nd N (Retain_If P) xs g = Goes (filter P xs) g (filter (\<lambda>x. \<not> P x) xs)"
| "ref_edit nd N (Dedup_Writing f) xs g =
     (case xs of [] \<Rightarrow> Goes [] g [] | x # xs \<Rightarrow> (case dedup_writing f x xs of (kept, D) \<Rightarrow> Goes kept g D))"
| "ref_edit nd N (Dedup_By_Key key) xs g =
     (case xs of [] \<Rightarrow> Goes [] g []
      | x # xs \<Rightarrow> (case dedup_writing (\<lambda>a b. (key a = key b, a, b)) x xs of (kept, D) \<Rightarrow> Goes kept g D))"
| "ref_edit nd N (Dedup_Equal eq) xs g =
     (case xs of [] \<Rightarrow> Goes [] g []
      | x # xs \<Rightarrow> (case dedup_writing (\<lambda>a b. (eq a b, a, b)) x xs of (kept, D) \<Rightarrow> Goes kept g D))"
| "ref_edit nd N (Extend_Items vs) xs g =
     (if length xs + 2 * length vs + 1 \<le> N then Goes (xs @ vs) 0 [] else Stuck)"
| "ref_edit nd N (Extend_Copies vs) xs g =
     (if length xs + 2 * length vs + 1 \<le> N then Goes (xs @ vs) 0 [] else Stuck)"
| "ref_edit nd N (Extend_Slice vs) xs g =
     (if \<not> nd \<and> length xs + length vs \<le> N then Goes (xs @ vs) 0 [] else Stuck)"
| "ref_edit nd N (Resize_Default n v) xs g =
     (if n \<le> length xs then Goes (take n xs) g (drop n xs)
      else if n \<le> N then Goes (xs @ replicate (n - length xs) v) 0 [] else Stuck)"
| "ref_edit nd N (Insert_At i v) xs g =
     (if N \<le> length xs then Stuck
      else if length xs < i then Panics AssertFailed
      else if i \<le> 1 \<or> length xs div 2 < i then Goes (take i xs @ v # drop i xs) 0 [] else Stuck)"
| "ref_edit nd N (Remove_At i v) xs g =
     (if i < length xs then ref_expect (Some v) (Some (xs ! i)) (take i xs @ drop (Suc i) xs) g
      else Panics AssertFailed)"
| "ref_edit nd N (Swap_Remove_Back i r) xs g =
     (if xs = [] then ref_expect r None [] g
      else if i < length xs then ref_expect r (Some (xs ! i)) (butlast (xs[i := last xs])) g
      else Panics IndexOutOfBounds)"
| "ref_edit nd N (Swap_Remove_Front i r) xs g =
     (if xs = [] then ref_expect r None [] g
      else if i < length xs then ref_expect r (Some (xs ! i)) (tl (xs[i := hd xs])) g
      else Panics IndexOutOfBounds)"
| "ref_edit nd N (Drain_Range lo hi calls) xs g =
     (if usize_bound \<le> range_start_of lo \<or> usize_bound \<le> range_end_of hi (length xs) then Stuck
      else if \<not> range_ok lo hi (length xs) then Panics AssertFailed
      else
        (let s = range_start_of lo; e = range_end_of hi (length xs); mid = take (e - s) (drop s xs) in
         case ref_calls calls mid of
           None \<Rightarrow> Panics AssertFailed
         | Some _ \<Rightarrow> Goes (take s xs @ drop e xs) g mid))"
| "ref_edit nd N (Drain_Filter_If P calls) xs g =
     (case ref_filter_calls P calls [] xs of
        None \<Rightarrow> Panics AssertFailed
      | Some _ \<Rightarrow> Goes (filter (\<lambda>x. \<not> P x) xs) g (filter P xs))"
| "ref_edit nd N (Splice_Range lo hi items calls) xs g =
     (if usize_bound \<le> range_start_of lo \<or> usize_bound \<le> range_end_of hi (length xs) then Stuck
      else if \<not> range_ok lo hi (length xs) then Panics AssertFailed
      else
        (let s = range_start_of lo; e = range_end_of hi (length xs); mid = take (e - s) (drop s xs) in
         if \<not> splice_fits N s e (length xs) (length items) g then Stuck
         else case ref_calls calls mid of
           None \<Rightarrow> Panics AssertFailed
         | Some _ \<Rightarrow> Goes (take s xs @ items @ drop e xs) (if e = length xs then 0 else g) mid))"
| "ref_edit nd N (Forget_Splice lo hi items) xs g =
     (if usize_bound \<le> range_start_of lo \<or> usize_bound \<le> range_end_of hi (length xs) then Stuck
      else if \<not> range_ok lo hi (length xs) then Panics AssertFailed
      else Goes (take (range_start_of lo) xs) g [])"
| "ref_edit nd N (Forget_Back n) xs g = (if n \<le> length xs then Goes (take (length xs - n) xs) g [] else Stuck)"

text \<open>What a call on the model may do, given what the list says.\<close>

definition edit_outcome ::
    "('a, 'os) cfg \<Rightarrow> ('os \<Rightarrow> bool) \<Rightarrow> ('os \<Rightarrow> (nat \<times> nat) set) \<Rightarrow> 'a deque \<Rightarrow> ('a, 'os) world \<Rightarrow>
     'a result \<Rightarrow> fault + ('a deque \<times> ('a, 'os) world) \<Rightarrow> bool" where
  "edit_outcome c os_ok owned d w r m \<longleftrightarrow>
     (\<exists>p. m = panic p \<and> memory_panic p) \<or>
     (case r of
        Stuck \<Rightarrow> True
      | Panics p \<Rightarrow> m = panic p
      | Goes ys g D \<Rightarrow> \<exists>d' w'. m = Inr (d', w') \<and> holds c os_ok owned d' w' ys \<and>
          others c owned d' w' = others c owned d w \<and> g \<le> capacity d' \<and>
          mset (dropped w') = mset (dropped w) + (if needs_drop c then mset D else {#}))"

lemma edit_outcome_Stuck [simp]: "edit_outcome c os_ok owned d w Stuck m"
  by (simp add: edit_outcome_def)

lemma edit_outcome_Panics [simp]: "edit_outcome c os_ok owned d w (Panics p) (panic p)"
  by (simp add: edit_outcome_def)

lemma edit_outcome_memory [simp]: "memory_panic p \<Longrightarrow> edit_outcome c os_ok owned d w r (panic p)"
  by (simp add: edit_outcome_def)

lemma mset_dropped_drop_vals:
  "mset (dropped (drop_vals c D w)) = mset (dropped w) + (if needs_drop c then mset D else {#})"
  by (simp add: drop_vals_def)

text \<open>A call that stays in its buffer.\<close>

lemma edit_outcome_evolves:
  assumes "holds c os_ok owned d w xs" "evolves c d d' ys" "g \<le> capacity d" "mset D = mset D'"
  shows "edit_outcome c os_ok owned d w (Goes ys g D') (Inr (d', drop_vals c D w))"
  unfolding edit_outcome_def
  using holds_evolves[OF assms(1,2), of "drop_vals c D w"] assms(2-4)
  by (intro disjI2) (simp add: mset_dropped_drop_vals evolves_def)

lemma edit_outcome_evolves0:
  assumes "holds c os_ok owned d w xs" "evolves c d d' ys" "g \<le> capacity d"
  shows "edit_outcome c os_ok owned d w (Goes ys g []) (Inr (d', w))"
  using edit_outcome_evolves[OF assms, of "[]" "[]"] by simp

text \<open>A call that may move to a larger buffer.\<close>

lemma edit_outcome_grows:
  assumes "grows c os_ok owned d w ys m"
  shows "edit_outcome c os_ok owned d w (Goes ys 0 []) m"
  using assms unfolding grows_def edit_outcome_def by auto

subsection \<open>The calls refine the list\<close>

lemma assign_rep:
  assumes r: "rep c d xs" and i: "i < length xs" and v: "val_ok c v"
  obtains cs where "assign c (eptr d + i * esize c) v d w = Inr (d\<lparr>buf := (buf d)\<lparr>cells := cs\<rparr>\<rparr>, drop_vals c [xs ! i] w)"
    "evolves c d (d\<lparr>buf := (buf d)\<lparr>cells := cs\<rparr>\<rparr>) (xs[i := v])"
proof (rule rep_write[OF r i v])
  fix cs assume "ptr_write c (buf d) (eptr d + i * esize c) v = Inr ((buf d)\<lparr>cells := cs\<rparr>)"
    "evolves c d (d\<lparr>buf := (buf d)\<lparr>cells := cs\<rparr>\<rparr>) (xs[i := v])"
  then show ?thesis using that rep_read[OF r i] by (simp add: assign_def)
qed

lemma for_each_mut_rep:
  assumes r: "rep c d (ys @ zs @ us)" and v: "\<And>x. val_ok c (f x)"
  shows "\<exists>d'. for_each_mut c f (length zs) (eptr d + length ys * esize c) d w = Inr (d', drop_vals c zs w) \<and>
    evolves c d d' (ys @ map f zs @ us)"
  using r
proof (induction zs arbitrary: d ys w)
  case Nil
  then show ?case using evolves_refl[OF Nil] by simp
next
  case (Cons z zs)
  have i: "length ys < length (ys @ (z # zs) @ us)" by simp
  obtain cs where cs: "assign c (eptr d + length ys * esize c) (f z) d w
      = Inr (d\<lparr>buf := (buf d)\<lparr>cells := cs\<rparr>\<rparr>, drop_vals c [z] w)"
    "evolves c d (d\<lparr>buf := (buf d)\<lparr>cells := cs\<rparr>\<rparr>) ((ys @ [f z]) @ zs @ us)"
    using assign_rep[OF Cons.prems i v, of z w] by auto
  let ?d = "d\<lparr>buf := (buf d)\<lparr>cells := cs\<rparr>\<rparr>"
  obtain d' where "for_each_mut c f (length zs) (eptr ?d + length (ys @ [f z]) * esize c) ?d (drop_vals c [z] w)
      = Inr (d', drop_vals c zs (drop_vals c [z] w))" "evolves c ?d d' ((ys @ [f z]) @ map f zs @ us)"
    using Cons.IH[OF evolves_rep[OF cs(2)]] by blast
  then show ?case using cs(1) rep_read[OF Cons.prems i] evolves_trans[OF cs(2)] by (auto simp: ac_simps)
qed

lemma expect_outcome:
  assumes "holds c os_ok owned d w xs" "evolves c d d' ys" "g \<le> capacity d"
  shows "edit_outcome c os_ok owned d w (ref_expect r v ys g) (expect c r (v, d') w)"
  using edit_outcome_evolves[OF assms refl, of "opt_list v"]
  by (auto simp: ref_expect_def expect_def assert_that_def)

lemma assign_outcome:
  assumes h: "holds c os_ok owned d w xs" and g: "g \<le> capacity d" and v: "val_ok c v"
  shows "edit_outcome c os_ok owned d w (ref_assign i v xs g) (assign_to c (slice_get_mut c d i) v d w)"
proof (cases "i < length xs")
  case False
  then show ?thesis using rep_len[OF holds_rep[OF h]] by (simp add: ref_assign_def assign_to_def slice_get_mut_def)
next
  case True
  show ?thesis
    by (rule assign_rep[OF holds_rep[OF h] True v, of w])
      (use edit_outcome_evolves[OF h _ g refl] rep_len[OF holds_rep[OF h]] True in
        \<open>simp add: ref_assign_def assign_to_def slice_get_mut_def\<close>)
qed

lemma pops_evolve:
  assumes r: "rep c d xs"
  shows "\<exists>d'. pop_back c d = Inr (final xs, d') \<and> evolves c d d' (butlast xs)"
    "\<exists>d'. pop_front c d = Inr (first xs, d') \<and> evolves c d d' (tl xs)"
proof -
  show "\<exists>d'. pop_back c d = Inr (final xs, d') \<and> evolves c d d' (butlast xs)"
    using pop_back_rep[OF r] evolves_refl[OF r] by (cases "xs = []") (auto simp: final_def evolves_def)
  show "\<exists>d'. pop_front c d = Inr (first xs, d') \<and> evolves c d d' (tl xs)"
    using pop_front_rep[OF r] evolves_refl[OF r] by (cases "xs = []") (auto simp: first_def evolves_def)
qed

lemma retain_edit:
  assumes h: "holds c os_ok owned d w xs" and g: "g \<le> capacity d"
  shows "edit_outcome c os_ok owned d w (ref_edit nd N (Retain_If P) xs g) (do_edit c (Retain_If P) d w)"
proof -
  obtain R where R: "retain_spec (\<lambda>s x. (Some (P x), s)) () [] [] xs = (Returned, (), filter P xs, R, [])"
    "mset R = mset (filter (\<lambda>x. \<not> P x) xs)"
    using retain_spec_filter[of P "()" "[]" "[]" xs] by auto
  show ?thesis
    by (rule retain_rep[OF holds_rep[OF h] R(1), of w])
      (use edit_outcome_evolves[OF h _ g R(2)] in auto)
qed

lemma dedup_spec_writing:
  "\<exists>R'. dedup_spec (bucket f) () (K @ [k]) R xs = (Returned, (), K @ fst (dedup_writing f k xs), R', []) \<and>
     mset R' = mset R + mset (snd (dedup_writing f k xs))"
proof (induction xs arbitrary: K k R)
  case (Cons x xs)
  obtain same a b where f: "f x k = (same, a, b)" by (cases "f x k")
  show ?case
  proof (cases same)
    case True
    then show ?thesis using Cons[of K b "R @ [a]"] f by (auto simp: bucket_def split: prod.splits)
  next
    case False
    then show ?thesis using Cons[of "K @ [b]" a "rotate1 R"] f by (auto simp: bucket_def split: prod.splits)
  qed
qed simp

lemma dedup_edit:
  assumes h: "holds c os_ok owned d w xs" and g: "g \<le> capacity d" and v: "\<And>v. val_ok c v"
  shows "edit_outcome c os_ok owned d w (ref_edit nd N (Dedup_Writing f) xs g) (do_edit c (Dedup_Writing f) d w)"
proof (cases xs)
  case Nil
  then have "dedup_by c (bucket f) () d w = Inr (Returned, (), d, w)"
    using rep_wf[OF holds_rep[OF h]] rep_len[OF holds_rep[OF h]] by (simp add: dedup_by_def)
  then show ?thesis using Nil edit_outcome_evolves0[OF h evolves_refl[OF holds_rep[OF h]] g] by simp
next
  case (Cons x ys)
  obtain kept D where kd: "dedup_writing f x ys = (kept, D)" by fastforce
  obtain R where R: "dedup_spec (bucket f) () [x] [] ys = (Returned, (), kept, R, [])" "mset R = mset D"
    using dedup_spec_writing[of f "[]" x "[]" ys] kd by auto
  have ok: "bucket_ok c (bucket f)" using v by (simp add: bucket_ok_def split: prod.splits)
  show ?thesis
    by (rule dedup_by_rep[OF holds_rep[OF h, unfolded Cons] ok R(1), of w])
      (use edit_outcome_evolves[OF h _ g R(2)] Cons kd in auto)
qed

text \<open>The two that compare only.\<close>

lemma comparing_buckets:
  "key_bucket (\<lambda>s x. (Some (key x), x, s)) (=) = bucket (\<lambda>a b. (key a = key b, a, b))"
  "(\<lambda>s a b. (Some (eq a b), a, b, s)) = bucket (\<lambda>a b. (eq a b, a, b))"
  by (simp_all add: key_bucket_def bucket_def fun_eq_iff)

lemma comparing_dedup_edits:
  assumes h: "holds c os_ok owned d w xs" and g: "g \<le> capacity d" and v: "\<And>v. val_ok c v"
  shows "edit_outcome c os_ok owned d w (ref_edit nd N (Dedup_By_Key key) xs g) (do_edit c (Dedup_By_Key key) d w)"
    "edit_outcome c os_ok owned d w (ref_edit nd N (Dedup_Equal eq) xs g) (do_edit c (Dedup_Equal eq) d w)"
  using dedup_edit[OF h g v, of nd N "\<lambda>a b. (key a = key b, a, b)"] dedup_edit[OF h g v, of nd N "\<lambda>a b. (eq a b, a, b)"]
  unfolding do_edit.simps ref_edit.simps dedup_by_key_def dedup_def comparing_buckets
  by simp_all

text \<open>A call of \<open>drain\<close>: the reference says nothing, the range is refused, or it is drained.\<close>

lemma drain_call:
  assumes r: "rep c d xs"
  obtains (Huge) "usize_bound \<le> range_start_of lo \<or> usize_bound \<le> range_end_of hi (length xs)"
  | (Refused) "\<not> (usize_bound \<le> range_start_of lo \<or> usize_bound \<le> range_end_of hi (length xs))"
      "\<not> range_ok lo hi (length xs)" "deque_drain c lo hi d = panic AssertFailed"
  | (Range) s e dr where
      "\<not> (usize_bound \<le> range_start_of lo \<or> usize_bound \<le> range_end_of hi (length xs))"
      "range_start_of lo = s \<and> range_end_of hi (length xs) = e" "range_ok lo hi (length xs)"
      "deque_drain c lo hi d = Inr (dr, d\<lparr>elen := s\<rparr>)"
      "draining c (d\<lparr>elen := s\<rparr>) dr s (take s xs) (take (e - s) (drop s xs)) (drop e xs)" "tail_start dr = e"
proof -
  define s e where "s = range_start_of lo" and "e = range_end_of hi (length xs)"
  consider "usize_bound \<le> s \<or> usize_bound \<le> e" | "s < usize_bound" "e < usize_bound" "\<not> (s \<le> e \<and> e \<le> length xs)"
    | "s < usize_bound" "e < usize_bound" "s \<le> e" "e \<le> length xs" by linarith
  then show ?thesis
  proof cases
    case 1
    then show ?thesis using Huge by (simp add: s_def e_def)
  next
    case 2
    then show ?thesis using Refused deque_drain_bad_range[OF r s_def e_def 2] by (auto simp: s_def e_def range_ok_def)
  next
    case 3
    show ?thesis
      by (rule deque_drain_rep[OF r s_def e_def 3(3,4)], rule Range[of s e])
        (use 3 in \<open>simp_all add: s_def e_def range_ok_def\<close>)
  qed
qed

lemma drain_edit:
  assumes h: "holds c os_ok owned d w xs" and g: "g \<le> capacity d"
  shows "edit_outcome c os_ok owned d w (ref_edit nd N (Drain_Range lo hi calls) xs g) (do_edit c (Drain_Range lo hi calls) d w)"
proof (cases rule: drain_call[OF holds_rep[OF h], of lo hi])
  case (3 s e dr)
  let ?mid = "take (e - s) (drop s xs)" and ?d = "d\<lparr>elen := s\<rparr>"
  have run: "do_edit c (Drain_Range lo hi calls) d w
      = bindE (run_calls c (drain_next c ?d) (drain_next_back c ?d) drain_size_hint calls dr w) (\<lambda>(dr, w). drain_drop c dr ?d w)"
    using 3(4) by simp
  have ref: "ref_edit nd N (Drain_Range lo hi calls) xs g = (case ref_calls calls ?mid of
      None \<Rightarrow> Panics AssertFailed | Some _ \<Rightarrow> Goes (take s xs @ drop e xs) g ?mid)"
    using 3(1-3) by (simp add: Let_def)
  have ex: "\<exists>k. draining c ?d dr k (take s xs) ?mid (drop e xs)" using 3(5) by blast
  note calls = drain_items.run_calls_ref[where c = c and d = ?d and pre = "take s xs" and post = "drop e xs",
      OF ex, of calls w]
  show ?thesis
  proof (cases "ref_calls calls ?mid")
    case None
    then show ?thesis using calls unfolding run ref by simp
  next
    case (Some zs)
    then obtain dr' D k where d': "run_calls c (drain_next c ?d) (drain_next_back c ?d) drain_size_hint calls dr w
        = Inr (dr', drop_vals c D w)" "draining c ?d dr' k (take s xs) zs (drop e xs)" "mset ?mid = mset D + mset zs"
      using calls by auto
    obtain d2 where d2: "drain_drop c dr' ?d (drop_vals c D w) = Inr (d2, drop_vals c (D @ zs) w)"
      "evolves c ?d d2 (take s xs @ drop e xs)" using drain_drop_rep[OF d'(2), of "drop_vals c D w"] by auto
    have ev: "evolves c d d2 (take s xs @ drop e xs)" using d2(2) by (simp add: evolves_def)
    have m: "mset (D @ zs) = mset ?mid" using d'(3) by simp
    show ?thesis unfolding run ref using Some d'(1) d2(1) edit_outcome_evolves[OF h ev g m] by simp
  qed
qed auto

lemma mset_balance:
  assumes "X = F + F'" "Y = R + R'" "F' = K + R'" "X = D + K + Y"
  shows "D + R = (F :: 'b multiset)"
proof -
  have "(D + R) + (K + R') = F + (K + R')" using assms by (simp add: ac_simps)
  then show ?thesis by (rule add_right_imp_eq)
qed

lemma ref_filter_calls_kept:
  "ref_filter_calls P calls K rest = Some (K', rest') \<Longrightarrow>
   K' @ filter (\<lambda>x. \<not> P x) rest' = K @ filter (\<lambda>x. \<not> P x) rest"
proof (induction P calls K rest rule: ref_filter_calls.induct)
  case (2 P r calls K rest)
  have "filter (\<lambda>x. \<not> P x) rest = takeWhile (\<lambda>x. \<not> P x) rest @ filter (\<lambda>x. \<not> P x) (tl (dropWhile (\<lambda>x. \<not> P x) rest))"
    by (induction rest) auto
  then show ?case using 2 by (simp add: Let_def split: if_splits)
qed (auto split: if_splits)

lemma drain_filter_edit:
  assumes h: "holds c os_ok owned d w xs" and g: "g \<le> capacity d"
  shows "edit_outcome c os_ok owned d w (ref_edit nd N (Drain_Filter_If P calls) xs g) (do_edit c (Drain_Filter_If P calls) d w)"
proof -
  obtain df where df: "deque_drain_filter c d = Inr (df, d\<lparr>elen := 0\<rparr>)" "filtering c (d\<lparr>elen := 0\<rparr>) df [] [] xs"
    by (rule deque_drain_filter_rep[OF holds_rep[OF h]]) blast
  note calls = run_filter_calls_ref[OF df(2), of P calls w]
  show ?thesis
  proof (cases "ref_filter_calls P calls [] xs")
    case None
    then show ?thesis using calls df(1) by simp
  next
    case (Some Kr)
    obtain K rest where Kr: "Kr = (K, rest)" by fastforce
    from calls obtain df' d' D G where r: "run_filter_calls c P calls df (d\<lparr>elen := 0\<rparr>) w = Inr (df', d', drop_vals c D w)"
      "filtering c d' df' K G rest" "evolves c (d\<lparr>elen := 0\<rparr>) d' []" "mset xs = mset D + mset K + mset rest"
      unfolding Some Kr by auto
    have kept: "K @ filter (\<lambda>x. \<not> P x) rest = filter (\<lambda>x. \<not> P x) xs"
      using ref_filter_calls_kept[of P calls "[]" xs K rest] Some Kr by simp
    obtain G2 where G2: "filter_all (\<lambda>s x. (Some (P x), x, s)) () K G rest
        = (Returned, (), filter (\<lambda>x. \<not> P x) xs, G2, [], filter P rest)"
      using filter_all_pure[where P = P and s = "()" and K = K and G = G and rest = rest] kept by auto
    obtain d2 where d2: "drain_filter_drop c (\<lambda>s x. (Some (P x), x, s)) df' () d' (drop_vals c D w)
        = Inr (Returned, (), d2, drop_vals c (D @ filter P rest) w)" "evolves c d' d2 (filter (\<lambda>x. \<not> P x) xs)"
      by (rule drain_filter_drop_rep[OF r(2) pred_ok_pure G2, of "drop_vals c D w"]) auto
    have ev: "evolves c d d2 (filter (\<lambda>x. \<not> P x) xs)" using evolves_trans[OF r(3) d2(2)] by (simp add: evolves_def)
    have "mset xs = mset (filter P xs) + mset (filter (\<lambda>x. \<not> P x) xs)"
      "mset rest = mset (filter P rest) + mset (filter (\<lambda>x. \<not> P x) rest)"
      using multiset_partition[of "mset xs" P] multiset_partition[of "mset rest" P] by simp_all
    moreover have "mset (filter (\<lambda>x. \<not> P x) xs) = mset K + mset (filter (\<lambda>x. \<not> P x) rest)"
      using arg_cong[OF kept, of mset] by (simp only: mset_append)
    ultimately have m: "mset (D @ filter P rest) = mset (filter P xs)"
      unfolding mset_append using r(4) by (rule mset_balance)
    show ?thesis using Some df(1) r(1) d2(1) edit_outcome_evolves[OF h ev g m] by simp
  qed
qed

lemma swap_remove_out_of_range:
  assumes r: "rep c d xs" and i: "xs \<noteq> []" "\<not> i < length xs"
  shows "swap_remove_back c i d = panic IndexOutOfBounds" "swap_remove_front c i d = panic IndexOutOfBounds"
  using i rep_wf[OF r] rep_len[OF r] slice_swap_panics[OF r, of i]
  by (simp_all add: swap_remove_back_def swap_remove_front_def Suc_le_eq)

context deque_env
begin

lemma small_limit:
  assumes "fits c (2 * N)" "n \<le> N"
  shows "n < isize_max" "n < usize_bound" "fits c n" "n \<le> isize_max"
proof -
  have "n < isize_bound - 1" using fits_isize[OF assms(1)] assms(2) by (simp add: isize_bound_def)
  then show "n < isize_max" "n < usize_bound" "n \<le> isize_max" by (simp_all add: isize_max_def usize_isize_bound)
  show "fits c n" by (rule fits_mono[OF assms(1)]) (use assms(2) in simp)
qed

lemma limit_room:
  assumes f: "fits c (2 * N)" and n: "n + k \<le> N"
  shows "room c d n k"
proof -
  have "fits c (max (n + k) (2 * capacity d))" if "capacity d < n + k"
    by (rule fits_mono[OF f]) (use n that in simp)
  then show ?thesis using small_limit[OF f n] by (simp add: room_def)
qed

lemma push_edits:
  assumes h: "holds c os_ok owned d w xs" and g: "g \<le> capacity d" and v: "val_ok c v" and n: "length xs < isize_max"
  shows "edit_outcome c os_ok owned d w (Goes (xs @ [v]) g []) (push_back c v d w)"
    "edit_outcome c os_ok owned d w (Goes (v # xs) g []) (push_front c v d w)"
proof -
  show "edit_outcome c os_ok owned d w (Goes (xs @ [v]) g []) (push_back c v d w)"
    by (rule try_push_back_cases[OF h n v]) (use g in \<open>auto simp: push_back_def edit_outcome_def\<close>)
  show "edit_outcome c os_ok owned d w (Goes (v # xs) g []) (push_front c v d w)"
    by (rule try_push_front_cases[OF h n v]) (use g in \<open>auto simp: push_front_def edit_outcome_def\<close>)
qed

lemma reserve_edits:
  assumes h: "holds c os_ok owned d w xs" and g: "g \<le> capacity d" and f: "fits c (2 * N)" and n: "length xs + k \<le> N"
  shows "edit_outcome c os_ok owned d w (Goes xs (max g (length xs + k)) []) (reserve c d k w)"
    "edit_outcome c os_ok owned d w (Goes xs (max g (length xs + k)) []) (reserve_exact c d k w)"
proof -
  note r = limit_room[OF f n, of d, unfolded room_def] and s = small_limit[OF f n]
  show "edit_outcome c os_ok owned d w (Goes xs (max g (length xs + k)) []) (reserve c d k w)"
    by (rule reserve_cases[OF h, of k]) (use g r s in \<open>auto simp: edit_outcome_def\<close>)
  show "edit_outcome c os_ok owned d w (Goes xs (max g (length xs + k)) []) (reserve_exact c d k w)"
    by (rule reserve_exact_cases[OF h s(2,3)]) (use g in \<open>auto simp: edit_outcome_def\<close>)
qed

lemma resize_edit:
  assumes h: "holds c os_ok owned d w xs" and g: "g \<le> capacity d" and v: "val_ok c v" and f: "fits c (2 * N)"
  shows "edit_outcome c os_ok owned d w (ref_edit nd N (Resize_To n v) xs g) (do_edit c (Resize_To n v) d w)"
proof (cases "n \<le> length xs")
  case True
  show ?thesis
    by (rule resize_shrink[OF holds_rep[OF h] True, of Some v w])
      (use True edit_outcome_evolves[OF h _ g refl, of _ _ "drop n xs @ [v]"] in simp)
next
  case False
  show ?thesis
  proof (cases "n \<le> N")
    case True
    have k: "room c d (length xs) (n - length xs)" using False True by (intro limit_room[OF f]) simp
    show ?thesis
      using resize_grow_outcome[OF h _ k small_limit(4)[OF f True], of Some v v] False True v
      by (auto simp: queue_state_def edit_outcome_def mset_dropped_drop_vals holds_def others_def)
  qed (use False in simp)
qed

lemma shrink_edit:
  assumes h: "holds c os_ok owned d w xs" and g: "g \<le> capacity d" and f: "fits c (2 * N)" and nd: "nd = needs_drop c"
  shows "edit_outcome c os_ok owned d w (ref_edit nd N Shrink_To_Fit xs g) (do_edit c Shrink_To_Fit d w)"
proof (cases "xs = []")
  case True
  then have "shrink_to_fit c d w = Inr (d, w)"
    using rep_len[OF holds_rep[OF h]] by (simp add: shrink_to_fit_def)
  then show ?thesis using True edit_outcome_evolves0[OF h evolves_refl[OF holds_rep[OF h]] g] by simp
next
  case False
  show ?thesis
  proof (cases "nd \<or> N < length xs")
    case ok: False
    then have n: "fits c (length xs)" using small_limit(3)[OF f] by simp
    show ?thesis
      by (rule shrink_to_fit_cases[OF h False n]) (use False ok nd in \<open>auto simp: edit_outcome_def drop_vals_def others_def\<close>)
  qed (use False in auto)
qed

lemma exact_hint_bound:
  "length zs < length items \<Longrightarrow> hint_request exact_hint zs \<le> length items"
  "length zs < length items \<Longrightarrow> fst (exact_hint zs) \<le> length items"
  by (simp_all add: hint_request_def exact_hint_def)

lemma extend_edits:
  assumes h: "holds c os_ok owned d w xs" and v: "list_all (val_ok c) vs" and f: "fits c (2 * N)"
    and n: "length xs + 2 * length vs + 1 \<le> N"
  shows "edit_outcome c os_ok owned d w (Goes (xs @ vs) 0 []) (deque_extend c exact_hint vs d w)"
    "edit_outcome c os_ok owned d w (Goes (xs @ vs) 0 []) (extend_copies c exact_hint vs d w)"
proof -
  have f': "fits c (2 * (length xs + length vs + length vs + 1))" by (rule fits_mono[OF f]) (use n in simp)
  show "edit_outcome c os_ok owned d w (Goes (xs @ vs) 0 []) (deque_extend c exact_hint vs d w)"
    unfolding deque_extend_def spec_extend_def
    by (intro edit_outcome_grows extend_desugared_grows[OF h v _ f'] exact_hint_bound(1))
  show "edit_outcome c os_ok owned d w (Goes (xs @ vs) 0 []) (extend_copies c exact_hint vs d w)"
    by (intro edit_outcome_grows extend_copies_grows[OF h v _ f'] exact_hint_bound(1))
qed

lemma insert_edit:
  assumes h: "holds c os_ok owned d w xs" and v: "val_ok c v" and f: "fits c (2 * N)"
  shows "edit_outcome c os_ok owned d w (ref_edit nd N (Insert_At i v) xs g) (do_edit c (Insert_At i v) d w)"
proof (cases "length xs < N")
  case True
  then have n: "length xs < isize_max" by (intro small_limit(1)[OF f]) simp
  show ?thesis using True insert_out_of_range[OF holds_rep[OF h], of i v w]
      edit_outcome_grows[OF deque_insert_grows[OF h _ _ n v, of i]] by auto
qed simp

lemma swap_remove_edits:
  assumes h: "holds c os_ok owned d w xs" and g: "g \<le> capacity d"
  shows "edit_outcome c os_ok owned d w (ref_edit nd N (Swap_Remove_Back i r) xs g) (do_edit c (Swap_Remove_Back i r) d w)"
    "edit_outcome c os_ok owned d w (ref_edit nd N (Swap_Remove_Front i r) xs g) (do_edit c (Swap_Remove_Front i r) d w)"
proof -
  have rp: "rep c d xs" by (rule holds_rep[OF h])
  note wf = rep_wf[OF rp] and len = rep_len[OF rp]
  have empty: "swap_remove_back c i d = Inr (None, d)" "swap_remove_front c i d = Inr (None, d)" if "xs = []"
    using that wf len by (simp_all add: swap_remove_back_def swap_remove_front_def)
  note out = swap_remove_out_of_range[OF rp]
  note nil = expect_outcome[OF h evolves_refl[OF rp] g, of r None]
  show "edit_outcome c os_ok owned d w (ref_edit nd N (Swap_Remove_Back i r) xs g) (do_edit c (Swap_Remove_Back i r) d w)"
  proof (cases "i < length xs")
    case True
    show ?thesis
      by (rule swap_remove_back_rep[OF rp True]) (use True expect_outcome[OF h _ g] in auto)
  qed (use nil empty out in auto)
  show "edit_outcome c os_ok owned d w (ref_edit nd N (Swap_Remove_Front i r) xs g) (do_edit c (Swap_Remove_Front i r) d w)"
  proof (cases "i < length xs")
    case True
    show ?thesis
      by (rule swap_remove_front_rep[OF rp True]) (use True expect_outcome[OF h _ g] in auto)
  qed (use nil empty out in auto)
qed

lemma assign_edits:
  assumes h: "holds c os_ok owned d w xs" and g: "g \<le> capacity d" and v: "\<And>v. val_ok c v"
  shows "edit_outcome c os_ok owned d w (ref_edit nd N (Assign i u) xs g) (do_edit c (Assign i u) d w)"
    "edit_outcome c os_ok owned d w (ref_edit nd N (Assign_If i u) xs g) (do_edit c (Assign_If i u) d w)"
    "edit_outcome c os_ok owned d w (ref_edit nd N (Assign_Front u) xs g) (do_edit c (Assign_Front u) d w)"
    "edit_outcome c os_ok owned d w (ref_edit nd N (Assign_Back u) xs g) (do_edit c (Assign_Back u) d w)"
    "edit_outcome c os_ok owned d w (ref_edit nd N (Copy_Slot i j) xs g) (do_edit c (Copy_Slot i j) d w)"
proof -
  have r: "rep c d xs" by (rule holds_rep[OF h])
  note wf = rep_wf[OF r] and len = rep_len[OF r] and a = assign_outcome[OF h g v]
  show "edit_outcome c os_ok owned d w (ref_edit nd N (Assign i u) xs g) (do_edit c (Assign i u) d w)"
    using a[of i u] by simp
  show "edit_outcome c os_ok owned d w (ref_edit nd N (Assign_If i u) xs g) (do_edit c (Assign_If i u) d w)"
    using a[of i u] edit_outcome_evolves0[OF h evolves_refl[OF r] g] len
    by (auto simp: assign_to_def slice_get_mut_def)
  show "edit_outcome c os_ok owned d w (ref_edit nd N (Assign_Front u) xs g) (do_edit c (Assign_Front u) d w)"
    using a[of 0 u] by (simp add: front_mut_def)
  have "length xs < usize_bound" using wf_dequeD(6)[OF wf] len by (simp add: usize_isize_bound)
  then have b: "back_mut c d = Inr (slice_get_mut c d (if xs = [] then usize_max else length xs - 1))"
    using wf len wrapping_sub_le[of 1 "length xs"] by (cases xs) (simp_all add: back_mut_def wrapping_sub_def slice_get_mut_def)
  show "edit_outcome c os_ok owned d w (ref_edit nd N (Assign_Back u) xs g) (do_edit c (Assign_Back u) d w)"
    using a[of "length xs - 1" u] b len by (auto simp: slice_get_mut_def assign_to_def)
  show "edit_outcome c os_ok owned d w (ref_edit nd N (Copy_Slot i j) xs g) (do_edit c (Copy_Slot i j) d w)"
    using a[of i "xs ! j"] slice_get_rep[OF r, of j] by simp
qed

lemma pop_edits:
  assumes h: "holds c os_ok owned d w xs" and g: "g \<le> capacity d"
  shows "edit_outcome c os_ok owned d w (ref_edit nd N (Pop_Back r) xs g) (do_edit c (Pop_Back r) d w)"
    "edit_outcome c os_ok owned d w (ref_edit nd N (Pop_Front r) xs g) (do_edit c (Pop_Front r) d w)"
    "edit_outcome c os_ok owned d w (ref_edit nd N Discard_Back xs g) (do_edit c Discard_Back d w)"
    "edit_outcome c os_ok owned d w (ref_edit nd N Discard_Front xs g) (do_edit c Discard_Front d w)"
proof -
  obtain d1 d2 where d: "pop_back c d = Inr (final xs, d1)" "evolves c d d1 (butlast xs)"
    "pop_front c d = Inr (first xs, d2)" "evolves c d d2 (tl xs)" using pops_evolve[OF holds_rep[OF h]] by blast
  show "edit_outcome c os_ok owned d w (ref_edit nd N (Pop_Back r) xs g) (do_edit c (Pop_Back r) d w)"
    "edit_outcome c os_ok owned d w (ref_edit nd N (Pop_Front r) xs g) (do_edit c (Pop_Front r) d w)"
    using expect_outcome[OF h d(2) g] expect_outcome[OF h d(4) g] d by simp_all
  show "edit_outcome c os_ok owned d w (ref_edit nd N Discard_Back xs g) (do_edit c Discard_Back d w)"
    "edit_outcome c os_ok owned d w (ref_edit nd N Discard_Front xs g) (do_edit c Discard_Front d w)"
    using edit_outcome_evolves[OF h d(2) g refl] edit_outcome_evolves[OF h d(4) g refl] d by simp_all
qed

lemma local_edits:
  assumes h: "holds c os_ok owned d w xs" and g: "g \<le> capacity d" and v: "\<And>v. val_ok c v"
  shows "edit_outcome c os_ok owned d w (ref_edit nd N (For_Each_Mut f) xs g) (do_edit c (For_Each_Mut f) d w)"
    "edit_outcome c os_ok owned d w (ref_edit nd N (For_Each_Slice lo hi f) xs g) (do_edit c (For_Each_Slice lo hi f) d w)"
    "edit_outcome c os_ok owned d w (ref_edit nd N (Swap_Slots i j) xs g) (do_edit c (Swap_Slots i j) d w)"
    "edit_outcome c os_ok owned d w (ref_edit nd N (Truncate_To n) xs g) (do_edit c (Truncate_To n) d w)"
    "edit_outcome c os_ok owned d w (ref_edit nd N (Truncate_Front_To n) xs g) (do_edit c (Truncate_Front_To n) d w)"
    "edit_outcome c os_ok owned d w (ref_edit nd N Clear_All xs g) (do_edit c Clear_All d w)"
    "edit_outcome c os_ok owned d w (ref_edit nd N (Remove_At i u) xs g) (do_edit c (Remove_At i u) d w)"
    "edit_outcome c os_ok owned d w (ref_edit nd N (Forget_Back n) xs g) (do_edit c (Forget_Back n) d w)"
proof -
  have r: "rep c d xs" by (rule holds_rep[OF h])
  note e = edit_outcome_evolves[OF h _ g refl]
  show "edit_outcome c os_ok owned d w (ref_edit nd N (For_Each_Mut f) xs g) (do_edit c (For_Each_Mut f) d w)"
    using for_each_mut_rep[of c d "[]" xs "[]" f w] r v e rep_len[OF r] by auto
  show "edit_outcome c os_ok owned d w (ref_edit nd N (For_Each_Slice lo hi f) xs g) (do_edit c (For_Each_Slice lo hi f) d w)"
  proof (cases "lo \<le> hi \<and> hi \<le> length xs")
    case True
    let ?mid = "take (hi - lo) (drop lo xs)"
    have "take lo xs @ ?mid @ drop hi xs = xs" using True
      by (metis append_take_drop_id drop_drop le_add_diff_inverse2)
    then obtain d' where "for_each_mut c f (length ?mid) (eptr d + length (take lo xs) * esize c) d w
        = Inr (d', drop_vals c ?mid w)" "evolves c d d' (take lo xs @ map f ?mid @ drop hi xs)"
      using for_each_mut_rep[of c d "take lo xs" ?mid "drop hi xs" f w] r v by auto
    moreover have "min (length xs - lo) (hi - lo) = hi - lo" using True diff_le_mono[of hi "length xs" lo] by (intro min_absorb2) blast
    ultimately show ?thesis using e True rep_len[OF r] by simp
  qed (use rep_len[OF r] in auto)
  show "edit_outcome c os_ok owned d w (ref_edit nd N (Swap_Slots i j) xs g) (do_edit c (Swap_Slots i j) d w)"
  proof (cases "i < length xs \<and> j < length xs")
    case True
    then have ij: "i < length xs" "j < length xs" by simp_all
    show ?thesis by (rule slice_swap_rep[OF r ij]) (use ij edit_outcome_evolves0[OF h _ g] in simp)
  qed (use slice_swap_panics[OF r] in auto)
  show "edit_outcome c os_ok owned d w (ref_edit nd N (Truncate_To n) xs g) (do_edit c (Truncate_To n) d w)"
    by (rule truncate_back_rep[OF r, of n w]) (use e in \<open>simp add: Edit.truncate_def\<close>)
  show "edit_outcome c os_ok owned d w (ref_edit nd N (Truncate_Front_To n) xs g) (do_edit c (Truncate_Front_To n) d w)"
    by (rule truncate_front_rep[OF r, of n w]) (use e in simp)
  show "edit_outcome c os_ok owned d w (ref_edit nd N Clear_All xs g) (do_edit c Clear_All d w)"
    by (rule clear_rep[OF r, of w]) (use e in simp)
  show "edit_outcome c os_ok owned d w (ref_edit nd N (Remove_At i u) xs g) (do_edit c (Remove_At i u) d w)"
  proof (cases "i < length xs")
    case True
    show ?thesis by (rule remove_rep[OF r True]) (use True expect_outcome[OF h _ g] in simp)
  qed (use remove_out_of_range[OF r] in simp)
  show "edit_outcome c os_ok owned d w (ref_edit nd N (Forget_Back n) xs g) (do_edit c (Forget_Back n) d w)"
    using rep_drop_tail(1)[OF r, of n] edit_outcome_evolves0[OF h evolves_drop_tail[OF r, of n] g] by simp
qed

lemma copying_edits:
  assumes h: "holds c os_ok owned d w xs" and g: "g \<le> capacity d" and v: "\<And>v. val_ok c v" and f: "fits c (2 * N)"
    and nd: "nd = needs_drop c"
  shows "edit_outcome c os_ok owned d w (ref_edit nd N (Extend_Slice vs) xs g) (do_edit c (Extend_Slice vs) d w)"
    "edit_outcome c os_ok owned d w (ref_edit nd N (Resize_Default n u) xs g) (do_edit c (Resize_Default n u) d w)"
proof -
  note r = holds_rep[OF h]
  show "edit_outcome c os_ok owned d w (ref_edit nd N (Extend_Slice vs) xs g) (do_edit c (Extend_Slice vs) d w)"
  proof (cases "\<not> nd \<and> length xs + length vs \<le> N")
    case True
    then have k: "room c d (length xs) (length vs)" by (intro limit_room[OF f]) simp
    show ?thesis
      using extend_from_slice_outcome[where g = "\<lambda>v. v" and cl = Some, OF h k] True v nd
      by (auto simp: edit_outcome_def list_all_iff)
  next
    case False
    then have "ref_edit nd N (Extend_Slice vs) xs g = Stuck" by auto
    then show ?thesis by (simp only: edit_outcome_Stuck)
  qed
  show "edit_outcome c os_ok owned d w (ref_edit nd N (Resize_Default n u) xs g) (do_edit c (Resize_Default n u) d w)"
  proof (cases "n \<le> length xs")
    case True
    show ?thesis
      by (rule truncate_back_rep[OF r, of n w])
        (use True rep_wf[OF r] rep_len[OF r] edit_outcome_evolves[OF h _ g refl] in
          \<open>simp add: Edit.truncate_def resize_default_def\<close>)
  next
    case False
    show ?thesis
    proof (cases "n \<le> N")
      case True
      have k: "room c d (length xs) (n - length xs)" using False True by (intro limit_room[OF f]) simp
      have e: "replicate (n - length xs - 1) u @ [u] = replicate (n - length xs) u"
        using False by (metis Suc_diff_1 not_le replicate_Suc replicate_append_same zero_less_diff)
      have ew: "ew_next (\<lambda>_. None) (Some u) ExtendDefault = Some u" "ew_last (Some u) ExtendDefault = Some u"
        by (simp_all add: ew_next_def ew_last_def)
      show ?thesis
        using ew extend_with_outcome[of d w xs "n - length xs" "\<lambda>_. None" "Some u" ExtendDefault u u, OF h k _ _ _ v v]
          False True rep_wf[OF r] rep_len[OF r] e
        by (auto simp: edit_outcome_def resize_default_def)
    qed (use False in simp)
  qed
qed

lemma splice_edit:
  assumes h: "holds c os_ok owned d w xs" and g: "g \<le> capacity d" and v: "\<And>v. val_ok c v" and f: "fits c (2 * N)"
  shows "edit_outcome c os_ok owned d w (ref_edit nd N (Splice_Range lo hi items calls) xs g)
    (do_edit c (Splice_Range lo hi items calls) d w)"
proof (cases rule: drain_call[OF holds_rep[OF h], of lo hi])
  case (3 s e dr)
  let ?mid = "take (e - s) (drop s xs)" and ?d = "d\<lparr>elen := s\<rparr>"
  let ?sp = "\<lparr>sp_drain = dr, replace_with = items, sp_hint = exact_hint\<rparr>"
  have vs: "list_all (val_ok c) items" using v by (simp add: list_all_iff)
  have run: "do_edit c (Splice_Range lo hi items calls) d w
      = bindE (run_calls c (splice_next c ?d) (splice_next_back c ?d) splice_size_hint calls ?sp w)
          (\<lambda>(sp, w). splice_drop c (sp_hint sp) (replace_with sp) (sp_drain sp) ?d w)"
    using 3(4) by (simp add: deque_splice_def)
  have ref: "ref_edit nd N (Splice_Range lo hi items calls) xs g =
      (if \<not> splice_fits N s e (length xs) (length items) g then Stuck
       else case ref_calls calls ?mid of None \<Rightarrow> Panics AssertFailed
         | Some _ \<Rightarrow> Goes (take s xs @ items @ drop e xs) (if e = length xs then 0 else g) ?mid)"
    using 3(1-3) by (simp add: Let_def)
  have ex: "(\<exists>k. draining c ?d (sp_drain ?sp) k (take s xs) ?mid (drop e xs)) \<and> tail_start (sp_drain ?sp) = e \<and>
      replace_with ?sp = items \<and> sp_hint ?sp = exact_hint" using 3(5,6) by auto
  note calls = splice_items.run_calls_ref[where c = c and d = ?d and pre = "take s xs" and post = "drop e xs" and e = e
      and items = items and hint = exact_hint, OF ex, of calls w]
  have se: "s \<le> e" "e \<le> length xs" using 3(2,3) by (simp_all add: range_ok_def)
  show ?thesis
  proof (cases "splice_fits N s e (length xs) (length items) g")
    case fits: True
    show ?thesis
    proof (cases "ref_calls calls ?mid")
      case None
      then show ?thesis using calls fits unfolding run ref by simp
    next
      case (Some zs)
      then obtain sp' D k where sp': "run_calls c (splice_next c ?d) (splice_next_back c ?d) splice_size_hint calls ?sp w
          = Inr (sp', drop_vals c D w)" "draining c ?d (sp_drain sp') k (take s xs) zs (drop e xs)"
        "tail_start (sp_drain sp') = e" "replace_with sp' = items" "sp_hint sp' = exact_hint" "mset ?mid = mset D + mset zs"
        using calls by auto
      have m: "mset (D @ zs) = mset ?mid" using sp'(6) by simp
      have run': "do_edit c (Splice_Range lo hi items calls) d w
          = splice_drop c exact_hint items (sp_drain sp') ?d (drop_vals c D w)"
        unfolding run using sp' by simp
      show ?thesis
      proof (cases "e = length xs")
        case True
        have ev: "evolves c d ?d (take s xs)" using draining_rep[OF sp'(2)] by (simp add: evolves_def)
        have h1: "holds c os_ok owned ?d (drop_vals c D w) (take s xs)" by (rule holds_evolves[OF h ev]) simp
        have f1: "fits c (2 * (length (take s xs) + length items + length items + 1))"
          by (rule fits_mono[OF f]) (use fits True se in \<open>simp add: splice_fits_def min_def\<close>)
        have o: "others c owned ?d (drop_vals c zs (drop_vals c D w)) = others c owned d w" by (simp add: others_def)
        from splice_drop_extends[OF h1 sp'(2)[unfolded True drop_all[OF order_refl]] vs exact_hint_bound(1) f1]
        show ?thesis unfolding run' ref using fits Some True m o
          by (auto simp: grows_def edit_outcome_def mset_dropped_drop_vals simp flip: drop_vals_append)
      next
        case False
        define rest where "rest = drop (tail_start (sp_drain sp') - length (take s xs)) items"
        have r: "fst (exact_hint rest) = length rest" by (simp add: exact_hint_def)
        have "length rest = length items - (e - s)" using se sp'(3) by (auto simp: rest_def min_def)
        moreover have "length items \<le> e - s \<or> length xs + (length items - (e - s)) \<le> capacity d"
          using fits False g by (auto simp: splice_fits_def)
        ultimately have room: "tail_start (sp_drain sp') + length (drop e xs) + length rest \<le> capacity ?d"
          using se sp'(3) rep_len_le[OF holds_rep[OF h]] by auto
        obtain d2 where d2: "splice_drop c exact_hint items (sp_drain sp') ?d (drop_vals c D w)
            = Inr (d2, drop_vals c (D @ zs) w)" "evolves c ?d d2 (take s xs @ items @ drop e xs)"
          by (rule splice_drop_rep[where w = "drop_vals c D w" and hint = exact_hint and rest = rest, OF sp'(2) _ vs rest_def r room]) (use se False in auto)
        have ev: "evolves c d d2 (take s xs @ items @ drop e xs)" using d2(2) by (simp add: evolves_def)
        show ?thesis unfolding run' ref d2(1) using fits Some False edit_outcome_evolves[OF h ev g m] by simp
      qed
    qed
  next
    case False
    then show ?thesis unfolding ref by simp
  qed
qed (auto simp: deque_splice_def)

lemma forget_splice_edit:
  assumes h: "holds c os_ok owned d w xs" and g: "g \<le> capacity d"
  shows "edit_outcome c os_ok owned d w (ref_edit nd N (Forget_Splice lo hi items) xs g)
    (do_edit c (Forget_Splice lo hi items) d w)"
proof (cases rule: drain_call[OF holds_rep[OF h], of lo hi])
  case (3 s e dr)
  have "evolves c d (d\<lparr>elen := s\<rparr>) (take s xs)" using draining_rep[OF 3(5)] by (simp add: evolves_def)
  then show ?thesis using 3(1-4) edit_outcome_evolves0[OF h _ g] by (simp add: deque_splice_def)
qed (auto simp: deque_splice_def)

text \<open>Every call.\<close>

lemma do_edit_refines:
  assumes h: "holds c os_ok owned d w xs" and g: "g \<le> capacity d" and v: "\<And>v. val_ok c v"
    and f: "fits c (2 * N)" and nd: "nd = needs_drop c"
  shows "edit_outcome c os_ok owned d w (ref_edit nd N e xs g) (do_edit c e d w)"
proof -
  have vs: "list_all (val_ok c) us" for us using v by (simp add: list_all_iff)
  note push = push_edits[OF h g v small_limit(1)[OF f]]
  show ?thesis
  proof (cases e)
    case (Push_Back u)
    then show ?thesis using push(1)[of u] by (cases "length xs < N") simp_all
  next
    case (Push_Front u)
    then show ?thesis using push(2)[of u] by (cases "length xs < N") simp_all
  next
    case (Reserve_More k)
    then show ?thesis using reserve_edits(1)[OF h g f, of k] by (cases "length xs + k \<le> N") simp_all
  next
    case (Reserve_Exactly k)
    then show ?thesis using reserve_edits(2)[OF h g f, of k] by (cases "length xs + k \<le> N") simp_all
  next
    case (Extend_Items us)
    then show ?thesis using extend_edits(1)[OF h vs f, of us] by (cases "length xs + 2 * length us + 1 \<le> N") simp_all
  next
    case (Extend_Copies us)
    then show ?thesis using extend_edits(2)[OF h vs f, of us] by (cases "length xs + 2 * length us + 1 \<le> N") simp_all
  qed (simp_all only: pop_edits[OF h g] assign_edits[OF h g v] local_edits[OF h g v] swap_remove_edits[OF h g]
      resize_edit[OF h g v f] shrink_edit[OF h g f nd] retain_edit[OF h g] dedup_edit[OF h g v] comparing_dedup_edits[OF h g v] insert_edit[OF h v f]
      drain_edit[OF h g] drain_filter_edit[OF h g] copying_edits[OF h g v f nd] splice_edit[OF h g v f] forget_splice_edit[OF h g])
qed

end

subsection \<open>Assertions\<close>

text \<open>
  Assertions on what the read-only calls return. \<open>Iter_Calls\<close> are calls on \<open>iter()\<close>, the iterator of
  the slice; \<open>Slice_Is lo hi vs\<close> is \<open>assert_eq!(&d[lo..hi], vs)\<close>.
\<close>

datatype 'a check =
    Len nat | Len_At_Least nat | Is_Empty bool | Not_Full | Capacity_At_Least nat
  | Get nat "'a option" | Index nat 'a | Slice_Is nat nat "'a list"
  | Front "'a option" | Back "'a option" | Equals "'a list" | Differs "'a list"
  | Contains 'a bool | Iter_Calls "'a it_call list" | As_Slices "'a list" "'a list"
  | Prints_As "'a \<Rightarrow> string" string

datatype verdict = Passes | Fails panic | Unknown

definition slice_range :: "('a, 'os) cfg \<Rightarrow> 'a deque \<Rightarrow> nat \<Rightarrow> nat \<Rightarrow> fault + 'a list" where
  "slice_range c d lo hi =
     (if lo \<le> hi \<and> hi \<le> elen d then read_elems c (buf d) (eptr d + lo * esize c) (hi - lo)
      else panic IndexOutOfBounds)"

fun do_check :: "('a, 'os) cfg \<Rightarrow> 'a check \<Rightarrow> 'a deque \<Rightarrow> fault + unit" where
  "do_check c (Len n) d = bindE (deque_len c d) (\<lambda>k. assert_that (k = n))"
| "do_check c (Len_At_Least n) d = bindE (deque_len c d) (\<lambda>k. assert_that (n \<le> k))"
| "do_check c (Is_Empty b) d = assert_that ((elen d = 0) = b)"
| "do_check c Not_Full d = bindE (is_full c d) (\<lambda>b. assert_that (\<not> b))"
| "do_check c (Capacity_At_Least n) d = assert_that (n \<le> capacity d)"
| "do_check c (Get i r) d = bindE (slice_get c d i) (\<lambda>v. assert_that (v = r))"
| "do_check c (Index i v) d = bindE (slice_index c d i) (\<lambda>u. assert_that (u = v))"
| "do_check c (Slice_Is lo hi vs) d = bindE (slice_range c d lo hi) (\<lambda>us. assert_that (us = vs))"
| "do_check c (Front r) d = bindE (deque_front c d) (\<lambda>v. assert_that (v = r))"
| "do_check c (Back r) d = bindE (deque_back c d) (\<lambda>v. assert_that (v = r))"
| "do_check c (Equals vs) d = bindE (deque_eq_slice c (=) d vs) assert_that"
| "do_check c (Differs vs) d = bindE (deque_eq_slice c (=) d vs) (\<lambda>b. assert_that (\<not> b))"
| "do_check c (Contains v b) d = bindE (slice_elems c d) (\<lambda>us. assert_that ((v \<in> set us) = b))"
| "do_check c (Iter_Calls calls) d = bindE (slice_elems c d) (\<lambda>us. assert_that (ref_calls calls us \<noteq> None))"
| "do_check c (Prints_As show_elem s) d = bindE (deque_fmt c show_elem d) (\<lambda>t. assert_that (t = s))"
| "do_check c (As_Slices l r) d =
     (case as_slices d of ((p, n), (q, m)) \<Rightarrow>
        bindE (read_elems c (buf d) p n) (\<lambda>us.
        bindE (assert_that (us = l)) (\<lambda>_.
        bindE (read_elems c (buf d) q m) (\<lambda>us. assert_that (us = r)))))"

definition verdict :: "bool \<Rightarrow> verdict" where
  "verdict b = (if b then Passes else Fails AssertFailed)"

fun ref_check :: "'a check \<Rightarrow> 'a list \<Rightarrow> nat \<Rightarrow> verdict" where
  "ref_check (Len n) xs g = verdict (length xs = n)"
| "ref_check (Len_At_Least n) xs g = verdict (n \<le> length xs)"
| "ref_check (Is_Empty b) xs g = verdict ((xs = []) = b)"
| "ref_check Not_Full xs g = (if length xs < g then Passes else Unknown)"
| "ref_check (Capacity_At_Least n) xs g = (if n \<le> max g (length xs) then Passes else Unknown)"
| "ref_check (Get i r) xs g = verdict ((if i < length xs then Some (xs ! i) else None) = r)"
| "ref_check (Index i v) xs g = (if i < length xs then verdict (xs ! i = v) else Fails IndexOutOfBounds)"
| "ref_check (Slice_Is lo hi vs) xs g =
     (if lo \<le> hi \<and> hi \<le> length xs then verdict (take (hi - lo) (drop lo xs) = vs) else Fails IndexOutOfBounds)"
| "ref_check (Front r) xs g = verdict (first xs = r)"
| "ref_check (Back r) xs g = verdict (final xs = r)"
| "ref_check (Equals vs) xs g = verdict (xs = vs)"
| "ref_check (Differs vs) xs g = verdict (xs \<noteq> vs)"
| "ref_check (Contains v b) xs g = verdict ((v \<in> set xs) = b)"
| "ref_check (Iter_Calls calls) xs g = verdict (ref_calls calls xs \<noteq> None)"
| "ref_check (Prints_As show_elem s) xs g = verdict (debug_list show_elem xs = s)"
| "ref_check (As_Slices l r) xs g = verdict (xs = l \<and> r = [])"

definition check_outcome :: "verdict \<Rightarrow> fault + unit \<Rightarrow> bool" where
  "check_outcome v m \<longleftrightarrow> (case v of Passes \<Rightarrow> m = Inr () | Fails p \<Rightarrow> m = panic p | Unknown \<Rightarrow> True)"

lemma check_outcome_verdict [simp]: "check_outcome (verdict b) (assert_that b)"
  by (simp add: check_outcome_def verdict_def assert_that_def)

lemma do_check_refines:
  assumes r: "rep c d xs" and g: "g \<le> capacity d"
  shows "check_outcome (ref_check k xs g) (do_check c k d)"
proof -
  note wf = rep_wf[OF r] and len = rep_len[OF r] and le = rep_len_le[OF r]
  note reads = slice_elems_rep[OF r] slice_get_rep[OF r] slice_index_rep[OF r] deque_front_rep[OF r] deque_back_rep[OF r]
    deque_traits_rep(4,6)[OF r r]
  show ?thesis
  proof (cases k)
    case (Is_Empty b)
    have "(elen d = 0) = (xs = [])" using len by simp
    then show ?thesis using Is_Empty by (simp only: do_check.simps ref_check.simps check_outcome_verdict)
  next
    case Not_Full
    then show ?thesis using wf len g by (auto simp: check_outcome_def assert_that_def)
  next
    case (Capacity_At_Least n)
    then show ?thesis using g le by (auto simp: check_outcome_def assert_that_def)
  next
    case (Slice_Is lo hi vs)
    then show ?thesis using read_elems_rep[OF r, of lo "hi - lo"] len
      by (auto simp: slice_range_def check_outcome_def[of "Fails _"])
  next
    case (As_Slices l u)
    have "read_elems c (buf d) (eptr d) (length xs) = Inr xs" using read_elems_rep[OF r, of 0 "length xs"] by simp
    then show ?thesis using As_Slices len
      by (auto simp: as_slices_def as_slice_def check_outcome_def verdict_def assert_that_def)
  next
    case (Index i v)
    then show ?thesis using reads by (auto simp: check_outcome_def[of "Fails _"])
  qed (use reads wf len in \<open>simp_all add: first_def final_def\<close>)
qed

subsection \<open>Deques that come into being\<close>

datatype 'a source =
    New | With_Capacity nat | Default | Sdeq "'a list" | Sdeq_Elem 'a nat | Collect "'a list"

definition made :: "fault + ('a deque option \<times> ('a, 'os) world) \<Rightarrow> fault + ('a deque \<times> ('a, 'os) world)" where
  "made m = bindE m (\<lambda>(r, w). case r of None \<Rightarrow> panic ClosurePanicked | Some d \<Rightarrow> Inr (d, w))"

fun do_source :: "('a, 'os) cfg \<Rightarrow> 'a source \<Rightarrow> ('a, 'os) world \<Rightarrow> fault + ('a deque \<times> ('a, 'os) world)" where
  "do_source c New w = Inr (deque_new c, w)"
| "do_source c (With_Capacity n) w = with_capacity c n w"
| "do_source c Default w = Inr (deque_default c, w)"
| "do_source c (Sdeq vs) w = (if vs = [] then Inr (sdeq_empty c, w) else sdeq_list c vs w)"
| "do_source c (Sdeq_Elem v n) w = made (sdeq_elem c Some v n w)"
| "do_source c (Collect vs) w = deque_from_iter c exact_hint vs w"

fun ref_source :: "nat \<Rightarrow> 'a source \<Rightarrow> 'a result" where
  "ref_source N New = Goes [] 0 []"
| "ref_source N (With_Capacity n) = (if n \<le> N then Goes [] n [] else Stuck)"
| "ref_source N Default = Goes [] 0 []"
| "ref_source N (Sdeq vs) = (if length vs \<le> N then Goes vs 0 [] else Stuck)"
| "ref_source N (Sdeq_Elem v n) = (if n \<le> N then Goes (replicate n v) 0 [v] else Stuck)"
| "ref_source N (Collect vs) = (if 2 * length vs + 1 \<le> N then Goes vs 0 [] else Stuck)"

definition source_outcome ::
    "('a, 'os) cfg \<Rightarrow> ('os \<Rightarrow> bool) \<Rightarrow> ('os \<Rightarrow> (nat \<times> nat) set) \<Rightarrow> ('a, 'os) world \<Rightarrow>
     'a result \<Rightarrow> fault + ('a deque \<times> ('a, 'os) world) \<Rightarrow> bool" where
  "source_outcome c os_ok owned w r m \<longleftrightarrow>
     (\<exists>p. m = panic p \<and> memory_panic p) \<or>
     (case r of
        Stuck \<Rightarrow> True
      | Panics p \<Rightarrow> m = panic p
      | Goes ys g D \<Rightarrow> \<exists>d' w'. m = Inr (d', w') \<and> holds c os_ok owned d' w' ys \<and>
          others c owned d' w' = owned (os w) \<and> g \<le> capacity d' \<and>
          mset (dropped w') = mset (dropped w) + (if needs_drop c then mset D else {#}))"

context deque_env
begin

lemma do_source_refines:
  assumes w: "os_ok (os w)" and v: "\<And>v. val_ok c v" and f: "fits c (2 * N)"
  shows "source_outcome c os_ok owned w (ref_source N s) (do_source c s w)"
proof -
  have vs: "list_all (val_ok c) us" for us using v by (simp add: list_all_iff)
  show ?thesis
  proof (cases s)
    case (With_Capacity n)
    show ?thesis
    proof (cases "n \<le> N")
      case True
      show ?thesis
        by (rule with_capacity_cases[OF w small_limit(3)[OF f True]])
          (use With_Capacity True in \<open>auto simp: source_outcome_def others_def\<close>)
    qed (use With_Capacity in \<open>simp add: source_outcome_def\<close>)
  next
    case (Sdeq us)
    have "source_outcome c os_ok owned w (Goes us 0 []) (sdeq_list c us w)" if n: "length us \<le> N"
    proof -
      have "room c (deque_new c) 0 (length us)" using n by (intro limit_room[OF f]) simp
      from sdeq_list_grows[OF w this vs] show ?thesis
        unfolding source_outcome_def grows_def others_new by (elim disjE exE conjE) simp_all
    qed
    then show ?thesis using Sdeq new_holds[OF w] by (auto simp: source_outcome_def sdeq_empty_def)
  next
    case (Sdeq_Elem u n)
    show ?thesis
    proof (cases "n \<le> N")
      case True
      show ?thesis
        using sdeq_elem_outcome[where cl = Some, OF w small_limit(3,4)[OF f True] refl v[of u]] Sdeq_Elem True
        by (auto simp: source_outcome_def made_def mset_dropped_drop_vals holds_def others_def)
    qed (use Sdeq_Elem in \<open>simp add: source_outcome_def\<close>)
  next
    case (Collect us)
    have "source_outcome c os_ok owned w (Goes us 0 []) (deque_from_iter c exact_hint us w)" if n: "2 * length us + 1 \<le> N"
    proof -
      have "fits c (2 * (length us + length us + 1))" by (rule fits_mono[OF f]) (use n in simp)
      from from_iter_default_fresh[OF w vs exact_hint_bound this, simplified] show ?thesis
        unfolding source_outcome_def deque_from_iter_def spec_from_iter_def by (elim disjE exE conjE) simp_all
    qed
    then show ?thesis using Collect by (auto simp: source_outcome_def)
  qed (use new_holds[OF w] in \<open>auto simp: source_outcome_def deque_default_def\<close>)
qed

end

end
