(* ===== verification/Iter_Views.thy ===== *)
theory Iter_Views
  imports Client
begin

text \<open>
  What the consuming iterator shows of itself besides its items: \<open>as_slice\<close>, \<open>as_mut_slice\<close> and its
  \<open>Debug\<close> implementation (\<open>src/lib.rs\<close>), the latter without flags like \<open>{:#?}\<close>.
\<close>

subsection \<open>Views of the consuming iterator\<close>

definition ii_as_mut_slice :: "('a, 'os) cfg \<Rightarrow> 'a into_iter \<Rightarrow> nat \<times> nat" where
  "ii_as_mut_slice c it = (ii_ptr it, fst (ii_size_hint c it))"

definition ii_slice_elems :: "('a, 'os) cfg \<Rightarrow> 'a into_iter \<Rightarrow> fault + 'a list" where
  "ii_slice_elems c it = (let (p, n) = ii_as_slice c it in read_elems c (ii_buffer it) p n)"

text \<open>\<open>it.as_mut_slice()[i] = v\<close>\<close>

definition ii_put :: "('a, 'os) cfg \<Rightarrow> nat \<Rightarrow> 'a \<Rightarrow> 'a into_iter \<Rightarrow> ('a, 'os) world \<Rightarrow>
    fault + ('a into_iter \<times> ('a, 'os) world)" where
  "ii_put c i v it w =
     (let (p, n) = ii_as_mut_slice c it in
      if i < n then
        bindE (ptr_read c (ii_buffer it) (p + i * esize c)) (\<lambda>old.
        bindE (ptr_write c (ii_buffer it) (p + i * esize c) v) (\<lambda>b.
        Inr (it\<lparr>ii_mem := cells b\<rparr>, drop_vals c [old] w)))
      else panic IndexOutOfBounds)"

subsection \<open>Debug\<close>

definition ii_fmt :: "('a, 'os) cfg \<Rightarrow> ('a \<Rightarrow> string) \<Rightarrow> 'a into_iter \<Rightarrow> fault + string" where
  "ii_fmt c show_elem it =
     bindE (ii_slice_elems c it) (\<lambda>xs. Inr (''IntoIter('' @ debug_list show_elem xs @ '')''))"

subsection \<open>What they see\<close>

lemma iterates_read:
  assumes it: "iterates c it d k ys" and i: "i < length ys"
  shows "ptr_read c (ii_buffer it) (ii_ptr it + i * esize c) = Inr (ys ! i)"
proof (cases "esize c = 0")
  case True
  then have "zval c = ys ! i" using it i by (simp add: iterates_def val_ok_def list_all_length)
  then show ?thesis using True by (simp add: ptr_read_def)
next
  case False
  then have "ii_ptr it + i * esize c = eptr d + (k + i) * esize c"
    using it by (simp add: iterates_def step_of_def add_mult_distrib)
  then show ?thesis using iterates_slot[OF it i] False by simp
qed

lemma iterates_read_elems:
  assumes it: "iterates c it d k ys" and n: "j + n \<le> length ys"
  shows "read_elems c (ii_buffer it) (ii_ptr it + j * esize c) n = Inr (take n (drop j ys))"
  using n
proof (induction n arbitrary: j)
  case (Suc n)
  have "read_elems c (ii_buffer it) (ii_ptr it + j * esize c + esize c) n = Inr (take n (drop (Suc j) ys))"
    using Suc.IH[of "Suc j"] Suc.prems by (simp add: ac_simps)
  then show ?case using Suc.prems iterates_read[OF it, of j] by (simp add: Cons_nth_drop_Suc[symmetric])
qed simp

lemma ii_views:
  assumes it: "iterates c it d k ys"
  shows "ii_slice_elems c it = Inr ys" "ii_as_mut_slice c it = ii_as_slice c it"
    "ii_fmt c show_elem it = Inr (''IntoIter('' @ debug_list show_elem ys @ '')'')"
proof -
  show s: "ii_slice_elems c it = Inr ys"
    using iterates_read_elems[OF it, of 0 "length ys"] ii_size_hint_rep[OF it]
    by (simp add: ii_slice_elems_def ii_as_slice_def)
  show "ii_as_mut_slice c it = ii_as_slice c it" by (simp add: ii_as_mut_slice_def ii_as_slice_def)
  show "ii_fmt c show_elem it = Inr (''IntoIter('' @ debug_list show_elem ys @ '')'')"
    using s by (simp add: ii_fmt_def)
qed

lemma cells_inject: "(b :: 'a buffer)\<lparr>cells := x\<rparr> = b\<lparr>cells := y\<rparr> \<longleftrightarrow> x = y"
  by (cases b) simp

text \<open>Writing through the slice changes what the iterator will give.\<close>

lemma ii_put_rep:
  assumes it: "iterates c it d k ys" and i: "i < length ys" and v: "val_ok c v"
  obtains cs where "ii_put c i v it w = Inr (it\<lparr>ii_mem := cs\<rparr>, drop_vals c [ys ! i] w)"
    "iterates c (it\<lparr>ii_mem := cs\<rparr>) (d\<lparr>buf := (buf d)\<lparr>cells := cs\<rparr>\<rparr>) k (ys[i := v])"
    "regions c ((buf d)\<lparr>cells := cs\<rparr>) = regions c (buf d)"
proof -
  have w: "wf_deque c d" and le: "k + length ys \<le> capacity d" and b: "ii_buf it = bptr (buf d)" "ii_mem it = cells (buf d)"
    and p: "ii_ptr it = eptr d + k * step_of c"
    using it by (simp_all add: iterates_def)
  note wd = wf_dequeD[OF w]
  have j: "k + i < blen (buf d) div 2" using le i by (simp add: capacity_def)
  obtain cs where cs: "ptr_write c (buf d) (eptr d + (k + i) * esize c) v = Inr ((buf d)\<lparr>cells := cs\<rparr>)"
    "length cs = length (cells (buf d))"
    "view c ((buf d)\<lparr>cells := cs\<rparr>) (eptr d) = (view c (buf d) (eptr d))[k + i := enc (esize c) v]"
    using view_write[OF wd(1-3) j] .
  let ?d = "d\<lparr>buf := (buf d)\<lparr>cells := cs\<rparr>\<rparr>"
  have "ptr_write c (ii_buffer it) (ii_ptr it + i * esize c) v
      = Inr ((ii_buffer it)\<lparr>cells := cs\<rparr>)"
  proof (cases "esize c = 0")
    case True
    then have "cells (buf d) = cells ((buf d)\<lparr>cells := cs\<rparr>)" using cs(1) unfolding ptr_write_def by (metis (full_types) sum.inject(2))
    then show ?thesis using True b by (simp add: ptr_write_def ii_buffer_def)
  next
    case False
    then have "ii_ptr it + i * esize c = eptr d + (k + i) * esize c" using p by (simp add: step_of_def add_mult_distrib)
    moreover have "in_mapping (ii_buffer it) a n = in_mapping (buf d) a n" for a n
      using b by (simp add: in_mapping_def ii_buffer_def)
    ultimately show ?thesis using cs(1) b False
      by (auto simp: ptr_write_def ii_buffer_def cells_inject split: if_splits)
  qed
  then have run: "ii_put c i v it w = Inr (it\<lparr>ii_mem := cs\<rparr>, drop_vals c [ys ! i] w)"
    using i iterates_read[OF it i] ii_size_hint_rep[OF it] by (simp add: ii_put_def ii_as_mut_slice_def)
  have wf: "wf_deque c ?d" by (rule wf_update_buf[OF w cs(2)])
  have upd: "dview c ?d = (dview c d)[k + i := enc (esize c) v]" using cs(3) by (simp add: dview_def)
  have "dview c ?d ! (k + j) = enc (esize c) (ys[i := v] ! j)" if "j < length ys" for j
  proof -
    have "k + j < length (dview c d)" using that le by (simp add: dview_def view_def capacity_def)
    then show ?thesis using that it unfolding upd by (cases "i = j") (simp_all add: iterates_def)
  qed
  moreover have "list_all (val_ok c) (ys[i := v])"
    using it v by (auto simp: iterates_def list_all_iff dest!: set_update_subset_insert[THEN subsetD])
  ultimately have "iterates c (it\<lparr>ii_mem := cs\<rparr>) ?d k (ys[i := v])"
    using it wf by (simp add: iterates_def capacity_def)
  moreover have "regions c ((buf d)\<lparr>cells := cs\<rparr>) = regions c (buf d)"
    using cs(2) by (simp add: regions_def half_bytes_def)
  ultimately show ?thesis using that run by blast
qed

subsection \<open>Calls on a consuming iterator\<close>

text \<open>The calls of \<open>it_call\<close>; assertions on \<open>as_slice\<close>; an assignment through \<open>as_mut_slice\<close>; \<open>format!\<close>.\<close>

datatype 'a view_call = Plain "'a it_call" | Rest_Is "'a list" | Put nat 'a | Prints "'a \<Rightarrow> string" string

fun run_views :: "('a, 'os) cfg \<Rightarrow> 'a view_call list \<Rightarrow> 'a into_iter \<Rightarrow> ('a, 'os) world \<Rightarrow>
    fault + ('a into_iter \<times> ('a, 'os) world)" where
  "run_views c [] it w = Inr (it, w)"
| "run_views c (Plain k # calls) it w =
     bindE (run_calls c (ii_next c) (ii_next_back c) (ii_size_hint c) [k] it w) (\<lambda>(it, w). run_views c calls it w)"
| "run_views c (Rest_Is vs # calls) it w =
     bindE (ii_slice_elems c it) (\<lambda>us.
     bindE (assert_that (us = vs)) (\<lambda>_. run_views c calls it w))"
| "run_views c (Put i v # calls) it w = bindE (ii_put c i v it w) (\<lambda>(it, w). run_views c calls it w)"
| "run_views c (Prints show_elem s # calls) it w =
     bindE (ii_fmt c show_elem it) (\<lambda>t.
     bindE (assert_that (t = s)) (\<lambda>_. run_views c calls it w))"

text \<open>What is left to give and what has been dropped, or the panic.\<close>

fun taken :: "'a it_call \<Rightarrow> 'a list \<Rightarrow> 'a list" where
  "taken (Next r) ys = opt_list (first ys)"
| "taken (Next_Back r) ys = opt_list (final ys)"
| "taken (Hint n) ys = []"

fun ref_views :: "'a view_call list \<Rightarrow> 'a list \<Rightarrow> 'a list \<Rightarrow> panic + ('a list \<times> 'a list)" where
  "ref_views [] ys D = Inr (ys, D)"
| "ref_views (Plain k # calls) ys D =
     (case ref_calls [k] ys of None \<Rightarrow> Inl AssertFailed | Some zs \<Rightarrow> ref_views calls zs (D @ taken k ys))"
| "ref_views (Rest_Is vs # calls) ys D = (if ys = vs then ref_views calls ys D else Inl AssertFailed)"
| "ref_views (Put i v # calls) ys D =
     (if i < length ys then ref_views calls (ys[i := v]) (D @ [ys ! i]) else Inl IndexOutOfBounds)"
| "ref_views (Prints show_elem s # calls) ys D =
     (if ''IntoIter('' @ debug_list show_elem ys @ '')'' = s then ref_views calls ys D else Inl AssertFailed)"

lemma run_call_ref:
  assumes it: "iterates c it d k ys"
  shows "case ref_calls [j] ys of
      None \<Rightarrow> run_calls c (ii_next c) (ii_next_back c) (ii_size_hint c) [j] it w = panic AssertFailed
    | Some zs \<Rightarrow> \<exists>it' k'. run_calls c (ii_next c) (ii_next_back c) (ii_size_hint c) [j] it w
        = Inr (it', drop_vals c (taken j ys) w) \<and> iterates c it' d k' zs"
proof (cases j)
  case (Next r)
  obtain it' k' where "ii_next c it = Inr (first ys, it')" "iterates c it' d k' (tl ys)"
    using into_iter_items.nx[where c = c and d = d] it unfolding first_def by blast
  then show ?thesis using Next by (auto simp: first_def assert_that_def)
next
  case (Next_Back r)
  obtain it' k' where "ii_next_back c it = Inr (final ys, it')" "iterates c it' d k' (butlast ys)"
    using into_iter_items.nb[where c = c and d = d] it unfolding final_def by blast
  then show ?thesis using Next_Back by (auto simp: final_def assert_that_def)
next
  case (Hint n)
  then show ?thesis using it ii_size_hint_rep[OF it] by (auto simp: assert_that_def)
qed

lemma run_views_looks:
  assumes "iterates c it d k ys"
  shows "run_views c (Rest_Is vs # calls) it w = (if ys = vs then run_views c calls it w else panic AssertFailed)"
    "run_views c (Prints show_elem s # calls) it w =
      (if ''IntoIter('' @ debug_list show_elem ys @ '')'' = s then run_views c calls it w else panic AssertFailed)"
  using ii_views[OF assms] by (simp_all add: assert_that_def)

lemma run_views_ref:
  assumes "iterates c it d k ys" "\<And>v. val_ok c v"
  shows "case ref_views calls ys D of
      Inl p \<Rightarrow> run_views c calls it (drop_vals c D w) = panic p
    | Inr (zs, D') \<Rightarrow> \<exists>it' d' k'. run_views c calls it (drop_vals c D w) = Inr (it', drop_vals c D' w) \<and>
        iterates c it' d' k' zs \<and> regions c (buf d') = regions c (buf d)"
  using assms(1)
proof (induction calls arbitrary: it d k ys D)
  case (Cons a calls)
  show ?case
  proof (cases a)
    case (Plain j)
    show ?thesis
    proof (cases "ref_calls [j] ys")
      case None
      then show ?thesis using run_call_ref[OF Cons.prems, of j "drop_vals c D w"] Plain by (simp del: run_calls.simps ref_calls.simps)
    next
      case (Some zs)
      then obtain it' k' where "run_calls c (ii_next c) (ii_next_back c) (ii_size_hint c) [j] it (drop_vals c D w)
          = Inr (it', drop_vals c (D @ taken j ys) w)" "iterates c it' d k' zs"
        using run_call_ref[OF Cons.prems, of j "drop_vals c D w"] by (auto simp del: run_calls.simps ref_calls.simps)
      moreover from this have "run_views c (a # calls) it (drop_vals c D w) = run_views c calls it' (drop_vals c (D @ taken j ys) w)"
        using Plain by (simp del: run_calls.simps)
      moreover have "ref_views (a # calls) ys D = ref_views calls zs (D @ taken j ys)"
        using Plain Some by (simp del: ref_calls.simps)
      ultimately show ?thesis using Cons.IH[of it' d k' zs "D @ taken j ys"] by (simp only:)
    qed
  next
    case (Rest_Is vs)
    show ?thesis using Cons.IH[OF Cons.prems, of D]
      unfolding Rest_Is run_views_looks[OF Cons.prems] ref_views.simps by (cases "ys = vs") simp_all
  next
    case (Prints show_elem s)
    show ?thesis using Cons.IH[OF Cons.prems, of D]
      unfolding Prints run_views_looks[OF Cons.prems] ref_views.simps
      by (cases "''IntoIter('' @ debug_list show_elem ys @ '')'' = s") simp_all
  next
    case (Put i v)
    show ?thesis
    proof (cases "i < length ys")
      case False
      then show ?thesis using Put ii_size_hint_rep[OF Cons.prems] by (simp add: ii_put_def ii_as_mut_slice_def)
    next
      case True
      obtain cs where cs: "ii_put c i v it (drop_vals c D w) = Inr (it\<lparr>ii_mem := cs\<rparr>, drop_vals c (D @ [ys ! i]) w)"
        "iterates c (it\<lparr>ii_mem := cs\<rparr>) (d\<lparr>buf := (buf d)\<lparr>cells := cs\<rparr>\<rparr>) k (ys[i := v])"
        "regions c ((buf d)\<lparr>cells := cs\<rparr>) = regions c (buf d)"
        by (rule ii_put_rep[OF Cons.prems True assms(2), of v "drop_vals c D w"]) auto
      have "run_views c (a # calls) it (drop_vals c D w) = run_views c calls (it\<lparr>ii_mem := cs\<rparr>) (drop_vals c (D @ [ys ! i]) w)"
        using Put cs(1) by simp
      moreover have "ref_views (a # calls) ys D = ref_views calls (ys[i := v]) (D @ [ys ! i])" using Put True by simp
      moreover have "regions c (buf (d\<lparr>buf := (buf d)\<lparr>cells := cs\<rparr>\<rparr>)) = regions c (buf d)"
        using cs(3) by simp
      ultimately show ?thesis using Cons.IH[OF cs(2), of "D @ [ys ! i]"] by (simp only:)
    qed
  qed
qed auto

end
