(* ===== verification/Programs.thy ===== *)
theory Programs
  imports Iter_Views
begin

text \<open>
  Programs over any number of deques, held in variables: what the test functions of the repository
  are. A program runs on the model (\<open>run\<close>) in a store of deques and a world, and on the reference
  (\<open>play\<close>) in a store of lists. \<open>arena\<close> relates the two: every deque represents its list, no two own
  the same region, and what the process owns is what it owned at the start and the regions of the
  deques that are alive.
\<close>

subsection \<open>Commands\<close>

datatype 'a cmd =
    Make string "'a source"
  | Let_Clone string string
  | Let_Split_Off string string nat
  | Do string "'a edit"
  | Assert string "'a check"
  | Append_All string string
  | Extend_Moved string string
  | Extend_Refs string string
  | Move_Items string string bool
  | Drain_Items string string range_bound range_bound bool
  | Inspect string "'a view_call list"
  | Assert_Eq string string bool
  | Assert_Cmp string string "'a \<Rightarrow> 'a \<Rightarrow> ordering option" "ordering option \<Rightarrow> bool"
  | Assert_Hash_Eq string string "nat \<Rightarrow> nat \<Rightarrow> nat" "'a \<Rightarrow> nat \<Rightarrow> nat" nat
  | Drop string
  | Assert_Dropped "'a \<Rightarrow> bool" nat

abbreviation Iterate :: "string \<Rightarrow> 'a it_call list \<Rightarrow> 'a cmd" where
  "Iterate x calls \<equiv> Inspect x (map Plain calls)"

type_synonym ('a, 'os) state = "(string \<Rightarrow> 'a deque option) \<times> ('a, 'os) world"

text \<open>A name that is not bound is rejected by the compiler; here it is stuck.\<close>

definition lookup :: "(string \<Rightarrow> 'd option) \<Rightarrow> string \<Rightarrow> ('d \<Rightarrow> fault + 'b) \<Rightarrow> fault + 'b" where
  "lookup m x f = (case m x of None \<Rightarrow> undef UninitRead | Some d \<Rightarrow> f d)"

text \<open>\<open>for v in it { y.push_back(v) }\<close>, at most \<open>n\<close> calls of \<open>next\<close>.\<close>

fun pour :: "('i \<Rightarrow> fault + ('a option \<times> 'i)) \<Rightarrow> ('a \<Rightarrow> 'd \<Rightarrow> 'w \<Rightarrow> fault + ('d \<times> 'w)) \<Rightarrow> nat \<Rightarrow>
    'i \<Rightarrow> 'd \<Rightarrow> 'w \<Rightarrow> fault + ('i \<times> 'd \<times> 'w)" where
  "pour nx push 0 it e w = Inr (it, e, w)"
| "pour nx push (Suc n) it e w =
     bindE (nx it) (\<lambda>(r, it).
     case r of
       None \<Rightarrow> Inr (it, e, w)
     | Some v \<Rightarrow> bindE (push v e w) (\<lambda>(e, w). pour nx push n it e w))"

text \<open>The items an iterator gives until it is exhausted, at most \<open>n\<close>.\<close>

fun items_of :: "('i \<Rightarrow> fault + ('a option \<times> 'i)) \<Rightarrow> nat \<Rightarrow> 'i \<Rightarrow> fault + ('a list \<times> 'i)" where
  "items_of nx 0 it = Inr ([], it)"
| "items_of nx (Suc n) it =
     bindE (nx it) (\<lambda>(r, it).
     case r of
       None \<Rightarrow> Inr ([], it)
     | Some v \<Rightarrow> bindE (items_of nx n it) (\<lambda>(vs, it). Inr (v # vs, it)))"

fun do_cmd :: "('a, 'os) cfg \<Rightarrow> 'a cmd \<Rightarrow> ('a, 'os) state \<Rightarrow> fault + ('a, 'os) state" where
  "do_cmd c (Make x s) (m, w) = bindE (do_source c s w) (\<lambda>(d, w). Inr (m(x \<mapsto> d), w))"
| "do_cmd c (Let_Clone x y) (m, w) =
     lookup m y (\<lambda>e. bindE (made (deque_clone c Some e w)) (\<lambda>(d, w). Inr (m(x \<mapsto> d), w)))"
| "do_cmd c (Let_Split_Off x y i) (m, w) =
     lookup m y (\<lambda>e. bindE (split_off c i e w) (\<lambda>(e, d, w). Inr (m(y \<mapsto> e, x \<mapsto> d), w)))"
| "do_cmd c (Do x k) (m, w) = lookup m x (\<lambda>d. bindE (do_edit c k d w) (\<lambda>(d, w). Inr (m(x \<mapsto> d), w)))"
| "do_cmd c (Assert x k) (m, w) = lookup m x (\<lambda>d. bindE (do_check c k d) (\<lambda>_. Inr (m, w)))"
| "do_cmd c (Append_All x y) (m, w) =
     lookup m x (\<lambda>d. lookup m y (\<lambda>e. bindE (append c d e w) (\<lambda>(d, e, w). Inr (m(x \<mapsto> d, y \<mapsto> e), w))))"
| "do_cmd c (Extend_Moved x y) (m, w) =
     lookup m x (\<lambda>d. lookup m y (\<lambda>e.
     bindE (deque_into_iter c e) (\<lambda>it.
     bindE (items_of (ii_next c) (Suc (ii_count c it)) it) (\<lambda>(vs, it).
     bindE (deque_extend c exact_hint vs d w) (\<lambda>(d, w).
     bindE (ii_drop c it w) (\<lambda>w. Inr ((m(x \<mapsto> d))(y := None), w)))))))"
| "do_cmd c (Extend_Refs x y) (m, w) =
     lookup m x (\<lambda>d. lookup m y (\<lambda>e.
     bindE (slice_elems c e) (\<lambda>vs.
     bindE (extend_copies c exact_hint vs d w) (\<lambda>(d, w). Inr (m(x \<mapsto> d), w)))))"
| "do_cmd c (Move_Items x y rv) (m, w) =
     lookup m x (\<lambda>d. lookup m y (\<lambda>e.
     bindE (deque_into_iter c d) (\<lambda>it.
     bindE (pour (if rv then ii_next_back c else ii_next c) (push_back c) (Suc (ii_count c it)) it e w) (\<lambda>(it, e, w).
     bindE (ii_drop c it w) (\<lambda>w. Inr ((m(y \<mapsto> e))(x := None), w))))))"
| "do_cmd c (Drain_Items x y lo hi rv) (m, w) =
     lookup m x (\<lambda>d. lookup m y (\<lambda>e.
     bindE (deque_drain c lo hi d) (\<lambda>(dr, d).
     bindE (pour (if rv then drain_next_back c d else drain_next c d) (push_back c) (Suc (it_len dr)) dr e w) (\<lambda>(dr, e, w).
     bindE (drain_drop c dr d w) (\<lambda>(d, w). Inr (m(x \<mapsto> d, y \<mapsto> e), w))))))"
| "do_cmd c (Inspect x calls) (m, w) =
     lookup m x (\<lambda>d.
     bindE (deque_into_iter c d) (\<lambda>it.
     bindE (run_views c calls it w) (\<lambda>(it, w).
     bindE (ii_drop c it w) (\<lambda>w. Inr (m(x := None), w)))))"
| "do_cmd c (Assert_Eq x y b) (m, w) =
     lookup m x (\<lambda>d. lookup m y (\<lambda>e.
     bindE (deque_eq c c (=) d e) (\<lambda>r. bindE (assert_that (r = b)) (\<lambda>_. Inr (m, w)))))"
| "do_cmd c (Assert_Cmp x y cmp P) (m, w) =
     lookup m x (\<lambda>d. lookup m y (\<lambda>e.
     bindE (deque_partial_cmp c cmp d e) (\<lambda>r. bindE (assert_that (P r)) (\<lambda>_. Inr (m, w)))))"
| "do_cmd c (Assert_Hash_Eq x y wu hash s) (m, w) =
     lookup m x (\<lambda>d. lookup m y (\<lambda>e.
     bindE (deque_hash c wu hash d s) (\<lambda>h.
     bindE (deque_hash c wu hash e s) (\<lambda>h'. bindE (assert_that (h = h')) (\<lambda>_. Inr (m, w))))))"
| "do_cmd c (Drop x) (m, w) = lookup m x (\<lambda>d. bindE (deque_drop c d w) (\<lambda>w. Inr (m(x := None), w)))"
| "do_cmd c (Assert_Dropped P n) (m, w) =
     bindE (assert_that (length (filter P (dropped w)) = n)) (\<lambda>_. Inr (m, w))"

fun run :: "('a, 'os) cfg \<Rightarrow> 'a cmd list \<Rightarrow> ('a, 'os) state \<Rightarrow> fault + ('a, 'os) state" where
  "run c [] st = Inr st"
| "run c (k # ks) st = bindE (do_cmd c k st) (run c ks)"

subsection \<open>The reference\<close>

text \<open>A store of lists, each with the capacity that is guaranteed, and the values dropped so far.\<close>

type_synonym 'a store = "(string \<Rightarrow> ('a list \<times> nat) option) \<times> 'a list"

datatype 'a progress = Continue "'a store" | Abort panic | Undetermined

fun settle :: "string \<Rightarrow> 'a store \<Rightarrow> 'a result \<Rightarrow> 'a progress" where
  "settle x (st, log) (Goes xs g D) = Continue (st(x \<mapsto> (xs, g)), log @ D)"
| "settle x s (Panics p) = Abort p"
| "settle x s Stuck = Undetermined"

fun judge :: "'a store \<Rightarrow> verdict \<Rightarrow> 'a progress" where
  "judge s Passes = Continue s"
| "judge s (Fails p) = Abort p"
| "judge s Unknown = Undetermined"

definition given :: "'a store \<Rightarrow> string \<Rightarrow> ('a list \<Rightarrow> nat \<Rightarrow> 'a progress) \<Rightarrow> 'a progress" where
  "given s x f = (case fst s x of None \<Rightarrow> Undetermined | Some (xs, g) \<Rightarrow> f xs g)"

definition given2 :: "'a store \<Rightarrow> string \<Rightarrow> string \<Rightarrow> ('a list \<Rightarrow> nat \<Rightarrow> 'a list \<Rightarrow> nat \<Rightarrow> 'a progress) \<Rightarrow> 'a progress" where
  "given2 s x y f = given s x (\<lambda>xs g. given s y (\<lambda>ys h. if x = y then Undetermined else f xs g ys h))"

fun ref_cmd :: "bool \<Rightarrow> nat \<Rightarrow> 'a cmd \<Rightarrow> 'a store \<Rightarrow> 'a progress" where
  "ref_cmd nd N (Make x k) s = (if Option.is_none (fst s x) then settle x s (ref_source N k) else Undetermined)"
| "ref_cmd nd N (Let_Clone x y) s =
     given s y (\<lambda>ys h. if Option.is_none (fst s x) \<and> length ys \<le> N then settle x s (Goes ys 0 []) else Undetermined)"
| "ref_cmd nd N (Let_Split_Off x y i) s =
     given s y (\<lambda>ys h. if length ys < i then Abort AssertFailed
       else if Option.is_none (fst s x) \<and> length ys \<le> N
       then Continue ((fst s)(y \<mapsto> (take i ys, h), x \<mapsto> (drop i ys, 0)), snd s) else Undetermined)"
| "ref_cmd nd N (Do x k) s = given s x (\<lambda>xs g. settle x s (ref_edit nd N k xs g))"
| "ref_cmd nd N (Assert x k) s = given s x (\<lambda>xs g. judge s (ref_check k xs g))"
| "ref_cmd nd N (Append_All x y) s =
     given2 s x y (\<lambda>xs g ys h. if length xs + length ys \<le> N
       then Continue ((fst s)(x \<mapsto> (xs @ ys, 0), y \<mapsto> ([], h)), snd s) else Undetermined)"
| "ref_cmd nd N (Extend_Moved x y) s =
     given2 s x y (\<lambda>xs g ys h. if length xs + 2 * length ys + 1 \<le> N
       then Continue (((fst s)(x \<mapsto> (xs @ ys, 0)))(y := None), snd s) else Undetermined)"
| "ref_cmd nd N (Extend_Refs x y) s =
     given2 s x y (\<lambda>xs g ys h. if length xs + 2 * length ys + 1 \<le> N
       then Continue ((fst s)(x \<mapsto> (xs @ ys, 0)), snd s) else Undetermined)"
| "ref_cmd nd N (Move_Items x y rv) s =
     given2 s x y (\<lambda>xs g ys h. if length xs + length ys \<le> N
       then Continue (((fst s)(y \<mapsto> (ys @ (if rv then rev xs else xs), 0)))(x := None), snd s) else Undetermined)"
| "ref_cmd nd N (Drain_Items x y lo hi rv) s =
     given2 s x y (\<lambda>xs g ys h.
       if usize_bound \<le> range_start_of lo \<or> usize_bound \<le> range_end_of hi (length xs) \<or> N < length xs + length ys then Undetermined
       else if \<not> range_ok lo hi (length xs) then Abort AssertFailed
       else let s' = range_start_of lo; e = range_end_of hi (length xs); mid = take (e - s') (drop s' xs) in
         Continue ((fst s)(x \<mapsto> (take s' xs @ drop e xs, g), y \<mapsto> (ys @ (if rv then rev mid else mid), 0)), snd s))"
| "ref_cmd nd N (Inspect x calls) s =
     given s x (\<lambda>xs g. case ref_views calls xs [] of
       Inl p \<Rightarrow> Abort p | Inr (zs, D) \<Rightarrow> Continue ((fst s)(x := None), snd s @ (D @ zs)))"
| "ref_cmd nd N (Assert_Eq x y b) s = given s x (\<lambda>xs g. given s y (\<lambda>ys h. judge s (verdict ((xs = ys) = b))))"
| "ref_cmd nd N (Assert_Cmp x y cmp P) s =
     given s x (\<lambda>xs g. given s y (\<lambda>ys h. judge s (verdict (P (slice_partial_cmp cmp xs ys)))))"
| "ref_cmd nd N (Assert_Hash_Eq x y wu hash h0) s =
     given s x (\<lambda>xs g. given s y (\<lambda>ys h. judge s (verdict (slice_hash wu hash xs h0 = slice_hash wu hash ys h0))))"
| "ref_cmd nd N (Drop x) s = given s x (\<lambda>xs g. Continue ((fst s)(x := None), snd s @ xs))"
| "ref_cmd nd N (Assert_Dropped P n) s =
     (if nd then judge s (verdict (length (filter P (snd s)) = n)) else Undetermined)"

fun play :: "bool \<Rightarrow> nat \<Rightarrow> 'a cmd list \<Rightarrow> 'a store \<Rightarrow> 'a progress" where
  "play nd N [] s = Continue s"
| "play nd N (k # ks) s = (case ref_cmd nd N k s of Continue s \<Rightarrow> play nd N ks s | r \<Rightarrow> r)"

subsection \<open>The relation\<close>

definition arena ::
    "('a, 'os) cfg \<Rightarrow> ('os \<Rightarrow> bool) \<Rightarrow> ('os \<Rightarrow> (nat \<times> nat) set) \<Rightarrow> (nat \<times> nat) set \<Rightarrow> 'a store \<Rightarrow> ('a, 'os) state \<Rightarrow> bool" where
  "arena c os_ok owned F s st \<longleftrightarrow>
     (let (m, w) = st in
      os_ok (os w) \<and> dom m = dom (fst s) \<and>
      (\<forall>x d xs g. m x = Some d \<longrightarrow> fst s x = Some (xs, g) \<longrightarrow>
         rep c d xs \<and> g \<le> capacity d \<and> regions c (buf d) \<inter> F = {} \<and>
         (\<forall>y e. m y = Some e \<longrightarrow> x \<noteq> y \<longrightarrow> regions c (buf d) \<inter> regions c (buf e) = {})) \<and>
      owned (os w) = F \<union> (\<Union>d \<in> ran m. regions c (buf d)) \<and>
      (needs_drop c \<longrightarrow> mset (dropped w) = mset (snd s)))"

lemma arena_start: "os_ok (os w) \<Longrightarrow> arena c os_ok owned (owned (os w)) (Map.empty, dropped w) (Map.empty, w)"
  by (simp add: arena_def)

lemma arena_Some:
  assumes "arena c os_ok owned F s (m, w)" "fst s x = Some (xs, g)"
  obtains d where "m x = Some d" "holds c os_ok owned d w xs" "g \<le> capacity d" "regions c (buf d) \<inter> F = {}"
proof -
  have "x \<in> dom m" using assms by (auto simp: arena_def)
  then obtain d where d: "m x = Some d" by auto
  then have "rep c d xs" "g \<le> capacity d" "regions c (buf d) \<inter> F = {}"
    using assms by (simp_all add: arena_def)
  moreover have "os_ok (os w)" "regions c (buf d) \<subseteq> owned (os w)"
    using assms(1) d by (auto simp: arena_def ran_def)
  ultimately show ?thesis using that d by (simp add: holds_def)
qed

lemma arena_dom: "arena c os_ok owned F s (m, w) \<Longrightarrow> dom m = dom (fst s)"
  by (simp add: arena_def)

lemma arena_None:
  assumes "arena c os_ok owned F s (m, w)" "fst s x = None" shows "m x = None"
  using arena_dom[OF assms(1)] assms(2) by (metis domIff)

lemma ran_split: "m x = Some d \<Longrightarrow> ran m = insert d (ran (m(x := None)))"
  using ran_map_upd[of "m(x := None)" x d] by (simp add: fun_upd_idem)

lemma arena_others:
  assumes a: "arena c os_ok owned F s (m, w)" and x: "m x = Some d"
  shows "others c owned d w = F \<union> (\<Union>e \<in> ran (m(x := None)). regions c (buf e))"
proof -
  have "x \<in> dom (fst s)" using arena_dom[OF a] x by auto
  then obtain xs g where "fst s x = Some (xs, g)" by auto
  then have "regions c (buf d) \<inter> F = {}" "\<And>y e. m y = Some e \<Longrightarrow> x \<noteq> y \<Longrightarrow> regions c (buf d) \<inter> regions c (buf e) = {}"
    using a x by (auto simp: arena_def)
  then have "regions c (buf d) \<inter> (F \<union> (\<Union>e \<in> ran (m(x := None)). regions c (buf e))) = {}"
    by (subst Int_Un_distrib, subst Int_UN_distrib) (auto simp: ran_def split: if_splits)
  moreover have "ran m = insert d (ran (m(x := None)))" using x by (rule ran_split)
  moreover have "owned (os w) = F \<union> (\<Union>d \<in> ran m. regions c (buf d))" using a by (simp add: arena_def)
  ultimately show ?thesis unfolding others_def by (simp add: Un_Diff Diff_triv Int_commute) blast
qed

lemma arena_update:
  assumes a: "arena c os_ok owned F (st, log) (m, w)" and x: "m x = Some d"
    and h: "holds c os_ok owned d' w' ys" "others c owned d' w' = others c owned d w" "g \<le> capacity d'"
    and l: "needs_drop c \<Longrightarrow> mset (dropped w') = mset (dropped w) + mset D"
  shows "arena c os_ok owned F (st(x \<mapsto> (ys, g)), log @ D) (m(x \<mapsto> d'), w')"
proof -
  note o = arena_others[OF a x]
  have r: "regions c (buf d') \<subseteq> owned (os w')" "rep c d' ys" "os_ok (os w')" using h(1) by (simp_all add: holds_def)
  have own: "owned (os w') = regions c (buf d') \<union> (F \<union> (\<Union>e \<in> ran (m(x := None)). regions c (buf e)))"
    using r(1) h(2) unfolding o by (auto simp: others_def)
  have dis: "regions c (buf d') \<inter> (F \<union> (\<Union>e \<in> ran (m(x := None)). regions c (buf e))) = {}"
    unfolding o[symmetric] h(2)[symmetric] by (auto simp: others_def)
  have disj: "regions c (buf d') \<inter> regions c (buf e) = {}" if "m y = Some e" "y \<noteq> x" for y e
    using dis that by (fastforce simp: ran_def)
  have dom: "dom m = dom st" using a by (simp add: arena_def)
  have old: "rep c e xs \<and> k \<le> capacity e \<and> regions c (buf e) \<inter> F = {} \<and>
      (\<forall>z e'. m z = Some e' \<longrightarrow> y \<noteq> z \<longrightarrow> regions c (buf e) \<inter> regions c (buf e') = {})"
    if "m y = Some e" "st y = Some (xs, k)" for y e xs k
    using a that unfolding arena_def by auto
  have ranm: "ran (m(x \<mapsto> d')) = insert d' (ran (m(x := None)))"
    using ran_split[of "m(x \<mapsto> d')" x d'] by simp
  show ?thesis
    unfolding arena_def case_prod_conv Let_def fst_conv snd_conv
  proof (intro conjI allI impI)
    show "owned (os w') = F \<union> (\<Union>d \<in> ran (m(x \<mapsto> d')). regions c (buf d))" using own ranm by auto
    show "mset (dropped w') = mset (log @ D)" if "needs_drop c"
      using a l that by (simp add: arena_def)
    show "dom (m(x \<mapsto> d')) = dom (st(x \<mapsto> (ys, g)))" using dom by simp
    fix y e xs k assume y: "(m(x \<mapsto> d')) y = Some e" "(st(x \<mapsto> (ys, g))) y = Some (xs, k)"
    show "rep c e xs" "k \<le> capacity e" "regions c (buf e) \<inter> F = {}"
      using y old r h(3) dis by (auto split: if_splits)
    fix z e' assume z: "(m(x \<mapsto> d')) z = Some e'" "y \<noteq> z"
    show "regions c (buf e) \<inter> regions c (buf e') = {}"
      using y z old disj by (auto split: if_splits dest: disj)
  qed (rule r(3))
qed

text \<open>A deque that comes into being owns a region of its own.\<close>

lemma arena_new:
  assumes a: "arena c os_ok owned F (st, log) (m, w)" and x: "st x = None"
    and h: "holds c os_ok owned d' w' ys" "others c owned d' w' = owned (os w)" "g \<le> capacity d'"
    and l: "needs_drop c \<Longrightarrow> mset (dropped w') = mset (dropped w) + mset D"
  shows "arena c os_ok owned F (st(x \<mapsto> (ys, g)), log @ D) (m(x \<mapsto> d'), w')"
proof -
  have mx: "m x = None" using arena_None[OF a] x by simp
  have r: "regions c (buf d') \<subseteq> owned (os w')" "rep c d' ys" "os_ok (os w')" using h(1) by (simp_all add: holds_def)
  have o: "owned (os w) = F \<union> (\<Union>d \<in> ran m. regions c (buf d))" using a by (simp add: arena_def)
  have dis: "regions c (buf d') \<inter> (F \<union> (\<Union>d \<in> ran m. regions c (buf d))) = {}"
    unfolding o[symmetric] h(2)[symmetric] by (auto simp: others_def)
  have disj: "regions c (buf d') \<inter> regions c (buf e) = {}" if "m y = Some e" for y e
    using dis that by (fastforce simp: ran_def)
  have old: "rep c e xs \<and> k \<le> capacity e \<and> regions c (buf e) \<inter> F = {} \<and>
      (\<forall>z e'. m z = Some e' \<longrightarrow> y \<noteq> z \<longrightarrow> regions c (buf e) \<inter> regions c (buf e') = {})"
    if "m y = Some e" "st y = Some (xs, k)" for y e xs k
    using a that unfolding arena_def by auto
  show ?thesis
    unfolding arena_def case_prod_conv Let_def fst_conv snd_conv
  proof (intro conjI allI impI)
    show "owned (os w') = F \<union> (\<Union>d \<in> ran (m(x \<mapsto> d')). regions c (buf d))"
      using r(1) h(2) mx unfolding o by (auto simp: others_def)
    show "mset (dropped w') = mset (log @ D)" if "needs_drop c" using a l that by (simp add: arena_def)
    show "dom (m(x \<mapsto> d')) = dom (st(x \<mapsto> (ys, g)))" using arena_dom[OF a] by simp
    fix y e xs k assume y: "(m(x \<mapsto> d')) y = Some e" "(st(x \<mapsto> (ys, g))) y = Some (xs, k)"
    show "rep c e xs" "k \<le> capacity e" "regions c (buf e) \<inter> F = {}"
      using y old r h(3) dis by (auto split: if_splits)
    fix z e' assume z: "(m(x \<mapsto> d')) z = Some e'" "y \<noteq> z"
    show "regions c (buf e) \<inter> regions c (buf e') = {}"
      using y z old disj by (auto split: if_splits dest: disj)
  qed (rule r(3))
qed

text \<open>A deque that is gone has given its region back.\<close>

lemma arena_gone:
  assumes a: "arena c os_ok owned F (st, log) (m, w)" and x: "m x = Some d"
    and w': "os_ok (os w')" "owned (os w') = others c owned d w"
    and l: "needs_drop c \<Longrightarrow> mset (dropped w') = mset (dropped w) + mset D"
  shows "arena c os_ok owned F (st(x := None), log @ D) (m(x := None), w')"
  unfolding arena_def case_prod_conv Let_def fst_conv snd_conv
proof (intro conjI allI impI)
  show "owned (os w') = F \<union> (\<Union>d \<in> ran (m(x := None)). regions c (buf d))"
    using w'(2) arena_others[OF a x] by simp
  show "mset (dropped w') = mset (log @ D)" if "needs_drop c" using a l that by (simp add: arena_def)
  show "dom (m(x := None)) = dom (st(x := None))" using arena_dom[OF a] by simp
  have old: "rep c e xs \<and> k \<le> capacity e \<and> regions c (buf e) \<inter> F = {} \<and>
      (\<forall>z e'. m z = Some e' \<longrightarrow> y \<noteq> z \<longrightarrow> regions c (buf e) \<inter> regions c (buf e') = {})"
    if "m y = Some e" "st y = Some (xs, k)" for y e xs k
    using a that unfolding arena_def by auto
  fix y e xs k assume y: "(m(x := None)) y = Some e" "(st(x := None)) y = Some (xs, k)"
  show "rep c e xs" "k \<le> capacity e" "regions c (buf e) \<inter> F = {}"
    using y old by (auto split: if_splits)
  fix z e' assume z: "(m(x := None)) z = Some e'" "y \<noteq> z"
  show "regions c (buf e) \<inter> regions c (buf e') = {}"
    using y z old by (auto split: if_splits)
qed (rule w'(1))

text \<open>What a program may do, given what the reference says.\<close>

definition progress_outcome ::
    "('a, 'os) cfg \<Rightarrow> ('os \<Rightarrow> bool) \<Rightarrow> ('os \<Rightarrow> (nat \<times> nat) set) \<Rightarrow> (nat \<times> nat) set \<Rightarrow>
     'a progress \<Rightarrow> fault + ('a, 'os) state \<Rightarrow> bool" where
  "progress_outcome c os_ok owned F r res \<longleftrightarrow>
     (\<exists>p. res = panic p \<and> memory_panic p) \<or>
     (case r of
        Undetermined \<Rightarrow> True
      | Abort p \<Rightarrow> res = panic p
      | Continue s \<Rightarrow> \<exists>st. res = Inr st \<and> arena c os_ok owned F s st)"

lemma progress_outcome_simps [simp]:
  "progress_outcome c os_ok owned F Undetermined res"
  "progress_outcome c os_ok owned F (Abort p) (panic p)"
  "memory_panic p \<Longrightarrow> progress_outcome c os_ok owned F r (panic p)"
  "progress_outcome c os_ok owned F (Continue s) (Inr st) = arena c os_ok owned F s st"
  by (simp_all add: progress_outcome_def)

lemma progress_given:
  assumes a: "arena c os_ok owned F s (m, w)"
    and "\<And>d xs g. m x = Some d \<Longrightarrow> fst s x = Some (xs, g) \<Longrightarrow> holds c os_ok owned d w xs \<Longrightarrow> g \<le> capacity d \<Longrightarrow>
      progress_outcome c os_ok owned F (f xs g) (h d)"
  shows "progress_outcome c os_ok owned F (given s x f) (lookup m x h)"
proof (cases "fst s x")
  case None
  then show ?thesis by (simp add: given_def)
next
  case (Some xg)
  obtain xs g where xg: "xg = (xs, g)" by fastforce
  show ?thesis by (rule arena_Some[OF a Some[unfolded xg]]) (use assms(2) Some xg in \<open>simp add: given_def lookup_def\<close>)
qed

lemma progress_given2:
  assumes a: "arena c os_ok owned F s (m, w)"
    and f: "\<And>d xs g e ys k. m x = Some d \<Longrightarrow> fst s x = Some (xs, g) \<Longrightarrow> holds c os_ok owned d w xs \<Longrightarrow> g \<le> capacity d \<Longrightarrow>
      m y = Some e \<Longrightarrow> fst s y = Some (ys, k) \<Longrightarrow> holds c os_ok owned e w ys \<Longrightarrow> k \<le> capacity e \<Longrightarrow> x \<noteq> y \<Longrightarrow>
      progress_outcome c os_ok owned F (f xs g ys k) (h d e)"
  shows "progress_outcome c os_ok owned F (given2 s x y f) (lookup m x (\<lambda>d. lookup m y (h d)))"
  unfolding given2_def by (intro progress_given[OF a]) (simp add: f)

lemma progress_judge:
  assumes "arena c os_ok owned F s st" "check_outcome v m"
  shows "progress_outcome c os_ok owned F (judge s v) (bindE m (\<lambda>_. Inr st))"
  using assms by (cases v) (auto simp: check_outcome_def)

lemma progress_settle:
  assumes a: "arena c os_ok owned F s (m, w)" and x: "m x = Some d" and e: "edit_outcome c os_ok owned d w r res"
  shows "progress_outcome c os_ok owned F (settle x s r) (bindE res (\<lambda>(d, w). Inr (m(x \<mapsto> d), w)))"
proof (cases r)
  case (Goes xs g D)
  obtain st log where s: "s = (st, log)" by fastforce
  from e[unfolded edit_outcome_def Goes result.case] show ?thesis
  proof (elim disjE exE conjE)
    fix d' w' assume 1: "res = Inr (d', w')" and h: "holds c os_ok owned d' w' xs"
      "others c owned d' w' = others c owned d w" "g \<le> capacity d'"
      and l: "mset (dropped w') = mset (dropped w) + (if needs_drop c then mset D else {#})"
    show ?thesis using arena_update[OF a[unfolded s] x h, of D] 1 s l Goes by simp
  qed simp
qed (use e in \<open>cases s; auto simp: edit_outcome_def\<close>)+

lemma progress_make:
  assumes a: "arena c os_ok owned F s (m, w)" and x: "fst s x = None" and e: "source_outcome c os_ok owned w r res"
  shows "progress_outcome c os_ok owned F (settle x s r) (bindE res (\<lambda>(d, w). Inr (m(x \<mapsto> d), w)))"
proof (cases r)
  case (Goes xs g D)
  obtain st log where s: "s = (st, log)" by fastforce
  from e[unfolded source_outcome_def Goes result.case] show ?thesis
  proof (elim disjE exE conjE)
    fix d' w' assume 1: "res = Inr (d', w')" and h: "holds c os_ok owned d' w' xs"
      "others c owned d' w' = owned (os w)" "g \<le> capacity d'"
      and l: "mset (dropped w') = mset (dropped w) + (if needs_drop c then mset D else {#})"
    show ?thesis using arena_new[OF a[unfolded s] _ h, of x D] x 1 s l Goes by simp
  qed simp
qed (use e in \<open>cases s; auto simp: source_outcome_def\<close>)+

subsection \<open>Every command refines the reference\<close>

context item_source
begin

lemma pour_forward:
  assumes "gives it ys"
  shows "\<exists>it'. gives it' [] \<and> (\<forall>e w. pour nx push (Suc (length ys)) it e w =
    bindE (push_all push ys e w) (\<lambda>(e, w). Inr (it', e, w)))"
  using assms
proof (induction ys arbitrary: it)
  case Nil
  then show ?case using nx[OF Nil] by auto
next
  case (Cons y ys)
  obtain it1 where 1: "nx it = Inr (Some y, it1)" "gives it1 ys" using nx[OF Cons.prems] by auto
  obtain it' where "gives it' []" "\<And>e w. pour nx push (Suc (length ys)) it1 e w =
      bindE (push_all push ys e w) (\<lambda>(e, w). Inr (it', e, w))" using Cons.IH[OF 1(2)] by blast
  then show ?case using 1(1)
    by (intro exI[of _ it']) (auto simp: bindE_assoc simp del: pour.simps(2) simp add: pour.simps(2)[of _ _ "Suc _"] intro!: bindE_cong)
qed

lemma pour_backward:
  assumes "gives it ys"
  shows "\<exists>it'. gives it' [] \<and> (\<forall>e w. pour nb push (Suc (length ys)) it e w =
    bindE (push_all push (rev ys) e w) (\<lambda>(e, w). Inr (it', e, w)))"
  using assms
proof (induction ys arbitrary: it rule: rev_induct)
  case Nil
  then show ?case using nb[OF Nil] by auto
next
  case (snoc y ys)
  obtain it1 where 1: "nb it = Inr (Some y, it1)" "gives it1 ys" using nb[OF snoc.prems] by auto
  obtain it' where "gives it' []" "\<And>e w. pour nb push (Suc (length ys)) it1 e w =
      bindE (push_all push (rev ys) e w) (\<lambda>(e, w). Inr (it', e, w))" using snoc.IH[OF 1(2)] by blast
  then show ?case using 1(1)
    by (intro exI[of _ it']) (auto simp: bindE_assoc simp del: pour.simps(2) simp add: pour.simps(2)[of _ _ "Suc _"] intro!: bindE_cong)
qed

lemma items_of_all:
  assumes "gives it ys"
  shows "\<exists>it'. items_of nx (Suc (length ys)) it = Inr (ys, it') \<and> gives it' []"
  using assms
proof (induction ys arbitrary: it)
  case Nil
  then show ?case using nx[OF Nil] by auto
next
  case (Cons y ys)
  obtain it1 where 1: "nx it = Inr (Some y, it1)" "gives it1 ys" using nx[OF Cons.prems] by auto
  then show ?case using Cons.IH[OF 1(2)]
    by (auto simp del: items_of.simps(2) simp add: items_of.simps(2)[of _ "Suc _"])
qed

end

lemma arena_os_ok: "arena c os_ok owned F s (m, w) \<Longrightarrow> os_ok (os w)"
  by (simp add: arena_def)

lemma arena_region: "arena c os_ok owned F s (m, w) \<Longrightarrow> m x = Some d \<Longrightarrow> regions c (buf d) \<subseteq> owned (os w)"
  by (auto simp: arena_def ran_def)

context deque_env
begin

lemma clone_cmd:
  assumes a: "arena c os_ok owned F s (m, w)" and v: "\<And>v. val_ok c v" and f: "fits c (2 * N)"
  shows "progress_outcome c os_ok owned F (ref_cmd nd N (Let_Clone x y) s) (do_cmd c (Let_Clone x y) (m, w))"
  unfolding ref_cmd.simps do_cmd.simps
proof (rule progress_given[OF a])
  fix e ys k assume h: "holds c os_ok owned e w ys"
  have vs: "list_all (val_ok c) (map (\<lambda>v. v) ys)" using v by (simp add: list_all_iff)
  have "source_outcome c os_ok owned w (Goes ys 0 []) (made (deque_clone c Some e w))" if "length ys \<le> N"
    using from_slice_fresh[OF arena_os_ok[OF a] small_limit(3)[OF f that], of Some "\<lambda>v. v"] vs
      deque_clone_from_slice[OF holds_rep[OF h], of Some w]
    by (auto simp: fresh_deque_def source_outcome_def made_def)
  then show "progress_outcome c os_ok owned F
      (if Option.is_none (fst s x) \<and> length ys \<le> N then settle x s (Goes ys 0 []) else Undetermined)
      (bindE (made (deque_clone c Some e w)) (\<lambda>(d, w). Inr (m(x \<mapsto> d), w)))"
    using progress_make[OF a, of x "Goes ys 0 []" "made (deque_clone c Some e w)"] by (simp add: Option.is_none_def)
qed

lemma split_off_cmd:
  assumes a: "arena c os_ok owned F s (m, w)" and f: "fits c (2 * N)"
  shows "progress_outcome c os_ok owned F (ref_cmd nd N (Let_Split_Off x y i) s) (do_cmd c (Let_Split_Off x y i) (m, w))"
  unfolding ref_cmd.simps do_cmd.simps
proof (rule progress_given[OF a], goal_cases)
  case (1 e ys k)
  obtain st log where s: "s = (st, log)" by fastforce
  show ?case
  proof (cases "Option.is_none (fst s x) \<and> i \<le> length ys \<and> length ys \<le> N")
    case True
    then have x: "st x = None" and i: "i \<le> length ys" and n: "length ys - i \<le> N"
      by (auto simp: s Option.is_none_def)
    show ?thesis
    proof (cases rule: split_off_cases[OF 1(3) i small_limit(3)[OF f n]])
      case (1 e)
      then show ?thesis by simp
    next
      case (2 e' d s')
      have "x \<noteq> y" using x 1(2) s by auto
      have o: "others c owned d (w\<lparr>os := s'\<rparr>) = owned (os w)" using 2(5,6) by (auto simp: others_def)
      have a1: "arena c os_ok owned F (st(x \<mapsto> (drop i ys, 0)), log @ []) (m(x \<mapsto> d), w\<lparr>os := s'\<rparr>)"
        by (rule arena_new[OF a[unfolded s] x 2(3) o]) simp_all
      have y1: "(m(x \<mapsto> d)) y = Some e" using 1(1) \<open>x \<noteq> y\<close> by simp
      have oe: "others c owned e' (w\<lparr>os := s'\<rparr>) = others c owned e (w\<lparr>os := s'\<rparr>)" using 2(4) by (simp add: others_def)
      have k: "k \<le> capacity e'" using 1(4) 2(4) by (simp add: capacity_def)
      have "arena c os_ok owned F (st(x \<mapsto> (drop i ys, 0), y \<mapsto> (take i ys, k)), (log @ []) @ [])
          (m(x \<mapsto> d, y \<mapsto> e'), w\<lparr>os := s'\<rparr>)"
        by (rule arena_update[OF a1 y1 2(2) oe k]) simp
      then show ?thesis using True 2(1) \<open>x \<noteq> y\<close> by (simp add: s fun_upd_twist)
    qed
  next
    case False
    have "split_off c i e w = panic AssertFailed" if "length ys < i"
      using that rep_wf[OF holds_rep[OF 1(3)]] rep_len[OF holds_rep[OF 1(3)]] by (simp add: split_off_def)
    then show ?thesis using False by auto
  qed
qed

lemma append_cmd:
  assumes a: "arena c os_ok owned F s (m, w)" and f: "fits c (2 * N)"
  shows "progress_outcome c os_ok owned F (ref_cmd nd N (Append_All x y) s) (do_cmd c (Append_All x y) (m, w))"
  unfolding ref_cmd.simps do_cmd.simps
proof (rule progress_given2[OF a], goal_cases)
  case (1 d xs g e ys k)
  obtain st log where s: "s = (st, log)" by fastforce
  show ?case
  proof (cases "length xs + length ys \<le> N")
    case True
    have dis: "regions c (buf d) \<inter> regions c (buf e) = {}"
      using a 1(1,2,5,9) unfolding arena_def by auto
    show ?thesis
    proof (cases rule: append_cases[OF 1(3,7) dis limit_room[OF f True]])
      case (1 e)
      then show ?thesis by simp
    next
      case (2 d' e' s')
      have a1: "arena c os_ok owned F (st(x \<mapsto> (xs @ ys, 0)), log @ []) (m(x \<mapsto> d'), w\<lparr>os := s'\<rparr>)"
        by (rule arena_update[OF a[unfolded s] 1(1) 2(2) 2(5)]) simp_all
      have y1: "(m(x \<mapsto> d')) y = Some e" using 1(5,9) by simp
      have oe: "others c owned e' (w\<lparr>os := s'\<rparr>) = others c owned e (w\<lparr>os := s'\<rparr>)" using 2(4) by (simp add: others_def)
      have k: "k \<le> capacity e'" using 1(8) 2(4) by (simp add: capacity_def)
      have "arena c os_ok owned F (st(x \<mapsto> (xs @ ys, 0), y \<mapsto> ([], k)), (log @ []) @ []) (m(x \<mapsto> d', y \<mapsto> e'), w\<lparr>os := s'\<rparr>)"
        by (rule arena_update[OF a1 y1 2(3) oe k]) simp
      then show ?thesis using True 2(1) by (simp add: s)
    qed
  qed simp
qed

lemma drop_cmd:
  assumes a: "arena c os_ok owned F s (m, w)"
  shows "progress_outcome c os_ok owned F (ref_cmd nd N (Drop x) s) (do_cmd c (Drop x) (m, w))"
  unfolding ref_cmd.simps do_cmd.simps
proof (rule progress_given[OF a], goal_cases)
  case (1 d xs g)
  obtain st log where s: "s = (st, log)" by fastforce
  show ?case
  proof (rule deque_drop_ok[OF 1(3)])
    fix s' assume d: "deque_drop c d w = Inr ((drop_vals c xs w)\<lparr>os := s'\<rparr>)" "os_ok s'" "owned s' = others c owned d w"
    show ?thesis using arena_gone[OF a[unfolded s] 1(1), of "(drop_vals c xs w)\<lparr>os := s'\<rparr>" xs] d
      by (simp add: s drop_vals_def)
  qed
qed

text \<open>An iterator that has given everything gives its region back and drops nothing.\<close>

lemma exhausted_gone:
  assumes a: "arena c os_ok owned F (st, log) (m, w)" and x: "m x = Some d" and it: "iterates c it d k []"
  obtains s where "ii_drop c it w = Inr (w\<lparr>os := s\<rparr>)"
    "arena c os_ok owned F (st(x := None), log) (m(x := None), w\<lparr>os := s\<rparr>)"
proof (rule ii_drop_ok[OF it arena_os_ok[OF a] arena_region[OF a x]])
  fix s assume s: "ii_drop c it w = Inr ((drop_vals c [] w)\<lparr>os := s\<rparr>)" "os_ok s" "owned s = owned (os w) - regions c (buf d)"
  have "arena c os_ok owned F (st(x := None), log @ []) (m(x := None), w\<lparr>os := s\<rparr>)"
    by (rule arena_gone[OF a x]) (use s in \<open>simp_all add: others_def\<close>)
  then show thesis using that s(1) by simp
qed

lemma extend_cmds:
  assumes a: "arena c os_ok owned F s (m, w)" and v: "\<And>v. val_ok c v" and f: "fits c (2 * N)"
  shows "progress_outcome c os_ok owned F (ref_cmd nd N (Extend_Moved x y) s) (do_cmd c (Extend_Moved x y) (m, w))"
    "progress_outcome c os_ok owned F (ref_cmd nd N (Extend_Refs x y) s) (do_cmd c (Extend_Refs x y) (m, w))"
proof -
  have vs: "list_all (val_ok c) us" for us using v by (simp add: list_all_iff)
  obtain st log where s: "s = (st, log)" by fastforce
  show "progress_outcome c os_ok owned F (ref_cmd nd N (Extend_Refs x y) s) (do_cmd c (Extend_Refs x y) (m, w))"
    unfolding ref_cmd.simps do_cmd.simps
  proof (rule progress_given2[OF a], goal_cases)
    case (1 d xs g e ys k)
    then show ?case
      using extend_edits(2)[OF 1(3) vs f, of ys] slice_elems_rep[OF holds_rep[OF 1(7)]]
        progress_settle[OF a 1(1), of "Goes (xs @ ys) 0 []" "extend_copies c exact_hint ys d w"]
      by (simp add: s)
  qed
  show "progress_outcome c os_ok owned F (ref_cmd nd N (Extend_Moved x y) s) (do_cmd c (Extend_Moved x y) (m, w))"
    unfolding ref_cmd.simps do_cmd.simps
  proof (rule progress_given2[OF a], goal_cases)
    case (1 d xs g e ys k)
    obtain it where it: "deque_into_iter c e = Inr it" "iterates c it e 0 ys"
      using deque_into_iter_rep[OF holds_rep[OF 1(7)]] by metis
    have ex: "\<exists>k. iterates c it e k ys" using it(2) by blast
    obtain it' j where it': "items_of (ii_next c) (Suc (length ys)) it = Inr (ys, it')" "iterates c it' e j []"
      using into_iter_items.items_of_all[where c = c and d = e, OF ex] by blast
    have n: "ii_count c it = length ys" using ii_size_hint_rep[OF it(2)] by (simp add: ii_count_def)
    show ?case
    proof (cases "length xs + 2 * length ys + 1 \<le> N")
      case True
      from extend_edits(1)[OF 1(3) vs f True, unfolded edit_outcome_def result.case] show ?thesis
      proof (elim disjE exE conjE)
        fix p assume "deque_extend c exact_hint ys d w = panic p" "memory_panic p"
        then show ?thesis using True it(1) it'(1) n by (simp add: s del: items_of.simps)
      next
        fix d' w' assume e: "deque_extend c exact_hint ys d w = Inr (d', w')" and h: "holds c os_ok owned d' w' (xs @ ys)"
          "others c owned d' w' = others c owned d w" "0 \<le> capacity d'"
          and l: "mset (dropped w') = mset (dropped w) + (if needs_drop c then mset [] else {#})"
        have a1: "arena c os_ok owned F (st(x \<mapsto> (xs @ ys, 0)), log @ []) (m(x \<mapsto> d'), w')"
          by (rule arena_update[OF a[unfolded s] 1(1) h]) (use l in simp)
        have y1: "(m(x \<mapsto> d')) y = Some e" using 1(5,9) by simp
        obtain s' where "ii_drop c it' w' = Inr (w'\<lparr>os := s'\<rparr>)"
          "arena c os_ok owned F (st(x \<mapsto> (xs @ ys, 0), y := None), log @ []) (m(x \<mapsto> d', y := None), w'\<lparr>os := s'\<rparr>)"
          using exhausted_gone[OF a1 _ it'(2), of y] y1 by blast
        then show ?thesis using True it(1) it'(1) n e by (simp add: s del: items_of.simps)
      qed
    qed simp
  qed
qed

lemma move_items_cmd:
  assumes a: "arena c os_ok owned F s (m, w)" and v: "\<And>v. val_ok c v" and f: "fits c (2 * N)"
  shows "progress_outcome c os_ok owned F (ref_cmd nd N (Move_Items x y rv) s) (do_cmd c (Move_Items x y rv) (m, w))"
  unfolding ref_cmd.simps do_cmd.simps
proof (rule progress_given2[OF a], goal_cases)
  case (1 d xs g e ys k)
  obtain st log where s: "s = (st, log)" by fastforce
  obtain it where it: "deque_into_iter c d = Inr it" "iterates c it d 0 xs"
    using deque_into_iter_rep[OF holds_rep[OF 1(3)]] by metis
  have ex: "\<exists>k. iterates c it d k xs" using it(2) by blast
  let ?zs = "if rv then rev xs else xs"
  obtain it' j where it': "iterates c it' d j []"
    "pour (if rv then ii_next_back c else ii_next c) (push_back c) (Suc (length xs)) it e w
       = bindE (push_all (push_back c) ?zs e w) (\<lambda>(e, w). Inr (it', e, w))"
    using into_iter_items.pour_forward[where c = c and d = d, OF ex, of "push_back c"]
      into_iter_items.pour_backward[where c = c and d = d, OF ex, of "push_back c"]
    by (cases rv) (auto simp del: pour.simps)
  have n: "ii_count c it = length xs" using ii_size_hint_rep[OF it(2)] by (simp add: ii_count_def)
  show ?case
  proof (cases "length xs + length ys \<le> N")
    case True
    have vs: "list_all (val_ok c) ?zs" using v by (simp add: list_all_iff)
    have le: "length ys + length ?zs \<le> isize_max" using small_limit(4)[OF f True] by (cases rv) simp_all
    have "push_outcome (push_all (push_back c) ?zs e w)
        (\<lambda>d' w'. queue_state c os_ok owned (others c owned e w, dropped w) d' w' (ys @ ?zs))"
      by (rule ends.push_all_back[OF holds_queue_state[OF 1(7)] vs le])
    then show ?thesis unfolding push_outcome_def
    proof (elim disjE exE conjE)
      fix p assume "push_all (push_back c) ?zs e w = panic (AllocationFailed p)"
      then show ?thesis using True it(1) it'(2) n by (simp add: s del: pour.simps)
    next
      fix e' w' assume e: "push_all (push_back c) ?zs e w = Inr (e', w')"
        and q: "queue_state c os_ok owned (others c owned e w, dropped w) e' w' (ys @ ?zs)"
      have a1: "arena c os_ok owned F (st(y \<mapsto> (ys @ ?zs, 0)), log @ []) (m(y \<mapsto> e'), w')"
        by (rule arena_update[OF a[unfolded s] 1(5)]) (use q in \<open>simp_all add: queue_state_def\<close>)
      have x1: "(m(y \<mapsto> e')) x = Some d" using 1(1,9) by simp
      obtain s' where "ii_drop c it' w' = Inr (w'\<lparr>os := s'\<rparr>)"
        "arena c os_ok owned F (st(y \<mapsto> (ys @ ?zs, 0), x := None), log @ []) (m(y \<mapsto> e', x := None), w'\<lparr>os := s'\<rparr>)"
        using exhausted_gone[OF a1 _ it'(1), of x] x1 by blast
      then show ?thesis using True it(1) it'(2) n e by (simp add: s del: pour.simps)
    qed
  qed simp
qed

lemma inspect_cmd:
  assumes a: "arena c os_ok owned F s (m, w)" and v: "\<And>v. val_ok c v"
  shows "progress_outcome c os_ok owned F (ref_cmd nd N (Inspect x calls) s) (do_cmd c (Inspect x calls) (m, w))"
  unfolding ref_cmd.simps do_cmd.simps
proof (rule progress_given[OF a], goal_cases)
  case (1 d xs g)
  obtain st log where s: "s = (st, log)" by fastforce
  obtain it where it: "deque_into_iter c d = Inr it" "iterates c it d 0 xs"
    using deque_into_iter_rep[OF holds_rep[OF 1(3)]] by metis
  note calls = run_views_ref[OF it(2) v, of calls "[]" w]
  show ?case
  proof (cases "ref_views calls xs []")
    case (Inl p)
    then show ?thesis using calls it(1) by simp
  next
    case (Inr r)
    obtain zs D where r: "r = (zs, D)" by fastforce
    from calls obtain it' d' k where t: "run_views c calls it w = Inr (it', drop_vals c D w)"
      "iterates c it' d' k zs" "regions c (buf d') = regions c (buf d)" unfolding Inr r by auto
    have w: "os_ok (os (drop_vals c D w))" "regions c (buf d') \<subseteq> owned (os (drop_vals c D w))"
      using arena_os_ok[OF a] arena_region[OF a 1(1)] t(3) by simp_all
    show ?thesis
    proof (rule ii_drop_ok[OF t(2) w])
      fix s' assume d: "ii_drop c it' (drop_vals c D w) = Inr ((drop_vals c zs (drop_vals c D w))\<lparr>os := s'\<rparr>)" "os_ok s'"
        "owned s' = owned (os (drop_vals c D w)) - regions c (buf d')"
      have "arena c os_ok owned F (st(x := None), log @ (D @ zs)) (m(x := None), (drop_vals c (D @ zs) w)\<lparr>os := s'\<rparr>)"
        by (rule arena_gone[OF a[unfolded s] 1(1)]) (use d t(3) in \<open>simp_all add: others_def drop_vals_def\<close>)
      then show ?thesis using Inr r it(1) t(1) d(1) by (simp add: s)
    qed
  qed
qed

lemma drain_items_cmd:
  assumes a: "arena c os_ok owned F s (m, w)" and v: "\<And>v. val_ok c v" and f: "fits c (2 * N)"
  shows "progress_outcome c os_ok owned F (ref_cmd nd N (Drain_Items x y lo hi rv) s) (do_cmd c (Drain_Items x y lo hi rv) (m, w))"
  unfolding ref_cmd.simps do_cmd.simps
proof (rule progress_given2[OF a], goal_cases)
  case (1 d xs g e ys k)
  obtain st log where s: "s = (st, log)" by fastforce
  define b t where "b = range_start_of lo" and "t = range_end_of hi (length xs)"
  have r: "rep c d xs" by (rule holds_rep[OF 1(3)])
  consider "usize_bound \<le> b \<or> usize_bound \<le> t \<or> N < length xs + length ys"
    | "b < usize_bound" "t < usize_bound" "length xs + length ys \<le> N" "\<not> (b \<le> t \<and> t \<le> length xs)"
    | "b < usize_bound" "t < usize_bound" "length xs + length ys \<le> N" "b \<le> t" "t \<le> length xs" by linarith
  then show ?case
  proof cases
    case 1
    then show ?thesis by (auto simp: b_def t_def)
  next
    case 2
    then show ?thesis using deque_drain_bad_range[OF r b_def t_def 2(1,2,4)]
      by (auto simp: b_def t_def range_ok_def)
  next
    case 3
    let ?mid = "take (t - b) (drop b xs)" and ?d = "d\<lparr>elen := b\<rparr>"
    let ?zs = "if rv then rev ?mid else ?mid"
    obtain dr where dr: "deque_drain c lo hi d = Inr (dr, ?d)"
      "draining c ?d dr b (take b xs) ?mid (drop t xs)" using deque_drain_rep[OF r b_def t_def 3(4,5)] by metis
    have ex: "\<exists>k. draining c ?d dr k (take b xs) ?mid (drop t xs)" using dr(2) by blast
    note pours = drain_items.pour_forward[where c = c and d = ?d and pre = "take b xs" and post = "drop t xs",
        OF ex, of "push_back c"] drain_items.pour_backward[where c = c and d = ?d and pre = "take b xs" and
        post = "drop t xs", OF ex, of "push_back c"]
    obtain dr' j where dr': "draining c ?d dr' j (take b xs) [] (drop t xs)"
      "pour (if rv then drain_next_back c ?d else drain_next c ?d) (push_back c) (Suc (length ?mid)) dr e w
         = bindE (push_all (push_back c) ?zs e w) (\<lambda>(e, w). Inr (dr', e, w))"
      using pours by (cases rv) (auto simp del: pour.simps)
    have n: "it_len dr = length ?mid" by (rule draining_it_len[OF dr(2)])
    have ev1: "evolves c d ?d (take b xs)" using draining_rep[OF dr(2)] by (simp add: evolves_def)
    have a1: "arena c os_ok owned F (st(x \<mapsto> (take b xs, g)), log @ []) (m(x \<mapsto> ?d), w)"
      by (rule arena_update[OF a[unfolded s] 1(1) holds_evolves[OF 1(3) ev1 refl]]) (use 1(4) in simp_all)
    have y1: "(m(x \<mapsto> ?d)) y = Some e" using 1(5,9) by simp
    have vs: "list_all (val_ok c) ?zs" using v by (simp add: list_all_iff)
    have len: "length ?zs = t - b" using 3(4,5) by simp
    have le: "length ys + length ?zs \<le> isize_max"
      unfolding len using small_limit(4)[OF f 3(3)] 3(4,5) by linarith
    have push: "push_outcome (push_all (push_back c) ?zs e w)
        (\<lambda>d' w'. queue_state c os_ok owned (others c owned e w, dropped w) d' w' (ys @ ?zs))"
      by (rule ends.push_all_back[OF holds_queue_state[OF 1(7)] vs le])
    have ref: "(if usize_bound \<le> range_start_of lo \<or> usize_bound \<le> range_end_of hi (length xs) \<or> N < length xs + length ys then Undetermined
       else if \<not> range_ok lo hi (length xs) then Abort AssertFailed
       else let s' = range_start_of lo; e = range_end_of hi (length xs); mid = take (e - s') (drop s' xs) in
         Continue ((fst s)(x \<mapsto> (take s' xs @ drop e xs, g), y \<mapsto> (ys @ (if rv then rev mid else mid), 0)), snd s))
      = Continue (st(x \<mapsto> (take b xs @ drop t xs, g), y \<mapsto> (ys @ ?zs, 0)), log)"
      using 3 by (simp add: range_ok_def b_def[symmetric] t_def[symmetric] Let_def s)
    from push[unfolded push_outcome_def] show ?thesis
    proof (elim disjE exE conjE)
      fix p assume "push_all (push_back c) ?zs e w = panic (AllocationFailed p)"
      then show ?thesis unfolding ref using dr(1) dr'(2) n by (simp del: pour.simps)
    next
      fix e' w' assume e: "push_all (push_back c) ?zs e w = Inr (e', w')"
        and q: "queue_state c os_ok owned (others c owned e w, dropped w) e' w' (ys @ ?zs)"
      have a2: "arena c os_ok owned F (st(x \<mapsto> (take b xs, g), y \<mapsto> (ys @ ?zs, 0)), (log @ []) @ []) (m(x \<mapsto> ?d, y \<mapsto> e'), w')"
        by (rule arena_update[OF a1 y1]) (use q in \<open>simp_all add: queue_state_def\<close>)
      obtain d2 where d2: "drain_drop c dr' ?d w' = Inr (d2, drop_vals c [] w')" "evolves c ?d d2 (take b xs @ drop t xs)"
        by (rule drain_drop_rep[OF dr'(1), of w'])
      have x2: "(m(x \<mapsto> ?d, y \<mapsto> e')) x = Some ?d" using 1(9) by simp
      have h2: "holds c os_ok owned ?d w' (take b xs)"
        by (rule arena_Some[OF a2, of x "take b xs" g]) (use 1(9) x2 in auto)
      have g2: "g \<le> capacity d2" using 1(4) d2(2) by (simp add: evolves_def)
      have "arena c os_ok owned F (st(x \<mapsto> (take b xs, g), y \<mapsto> (ys @ ?zs, 0), x \<mapsto> (take b xs @ drop t xs, g)), ((log @ []) @ []) @ [])
          (m(x \<mapsto> ?d, y \<mapsto> e', x \<mapsto> d2), w')"
        by (rule arena_update[OF a2 x2 holds_evolves[OF h2 d2(2) refl] g2]) simp
      moreover have "(st(x \<mapsto> (take b xs, g), y \<mapsto> (ys @ ?zs, 0), x \<mapsto> (take b xs @ drop t xs, g)))
          = st(x \<mapsto> (take b xs @ drop t xs, g), y \<mapsto> (ys @ ?zs, 0))"
        "(m(x \<mapsto> ?d, y \<mapsto> e', x \<mapsto> d2)) = m(x \<mapsto> d2, y \<mapsto> e')" using 1(9) by (auto simp: fun_eq_iff)
      ultimately show ?thesis unfolding ref using dr(1) dr'(2) n e d2(1) by (simp del: pour.simps)
    qed
  qed
qed

lemma compare_cmds:
  assumes a: "arena c os_ok owned F s (m, w)"
  shows "progress_outcome c os_ok owned F (ref_cmd nd N (Assert_Eq x y b) s) (do_cmd c (Assert_Eq x y b) (m, w))"
    "progress_outcome c os_ok owned F (ref_cmd nd N (Assert_Cmp x y cmp P) s) (do_cmd c (Assert_Cmp x y cmp P) (m, w))"
    "progress_outcome c os_ok owned F (ref_cmd nd N (Assert_Hash_Eq x y wu hash h0) s) (do_cmd c (Assert_Hash_Eq x y wu hash h0) (m, w))"
proof -
  have j: "progress_outcome c os_ok owned F (judge s (verdict b')) (bindE (assert_that b') (\<lambda>_. Inr (m, w)))" for b'
    by (rule progress_judge[OF a check_outcome_verdict])
  show "progress_outcome c os_ok owned F (ref_cmd nd N (Assert_Eq x y b) s) (do_cmd c (Assert_Eq x y b) (m, w))"
    unfolding ref_cmd.simps do_cmd.simps
  proof (intro progress_given[OF a], goal_cases)
    case (1 d xs g e ys k)
    then show ?case using deque_traits_rep[OF holds_rep[OF 1(3)] holds_rep[OF 1(7)]] j by simp
  qed
  show "progress_outcome c os_ok owned F (ref_cmd nd N (Assert_Cmp x y cmp P) s) (do_cmd c (Assert_Cmp x y cmp P) (m, w))"
    unfolding ref_cmd.simps do_cmd.simps
  proof (intro progress_given[OF a], goal_cases)
    case (1 d xs g e ys k)
    then show ?case using deque_traits_rep[OF holds_rep[OF 1(3)] holds_rep[OF 1(7)]] j by simp
  qed
  show "progress_outcome c os_ok owned F (ref_cmd nd N (Assert_Hash_Eq x y wu hash h0) s) (do_cmd c (Assert_Hash_Eq x y wu hash h0) (m, w))"
    unfolding ref_cmd.simps do_cmd.simps
  proof (intro progress_given[OF a], goal_cases)
    case (1 d xs g e ys k)
    show ?case
      unfolding deque_traits_rep(3)[OF holds_rep[OF 1(3)] holds_rep[OF 1(3)]]
        deque_traits_rep(3)[OF holds_rep[OF 1(7)] holds_rep[OF 1(7)]] bindE_simps by (rule j)
  qed
qed

lemma do_cmd_refines:
  assumes a: "arena c os_ok owned F s (m, w)" and v: "\<And>v. val_ok c v" and f: "fits c (2 * N)"
    and nd: "nd = needs_drop c"
  shows "progress_outcome c os_ok owned F (ref_cmd nd N k s) (do_cmd c k (m, w))"
proof (cases k)
  case (Make x k)
  then show ?thesis
    using progress_make[OF a _ do_source_refines[OF arena_os_ok[OF a] v f], of x k] by (simp add: Option.is_none_def)
next
  case (Do x k)
  have "progress_outcome c os_ok owned F (given s x (\<lambda>xs g. settle x s (ref_edit nd N k xs g)))
      (lookup m x (\<lambda>d. bindE (do_edit c k d w) (\<lambda>(d, w). Inr (m(x \<mapsto> d), w))))"
  proof (rule progress_given[OF a], goal_cases)
    case (1 d xs g)
    show ?case by (rule progress_settle[OF a 1(1) do_edit_refines[OF 1(3,4) v f nd]])
  qed
  then show ?thesis using Do by simp
next
  case (Assert x k)
  have "progress_outcome c os_ok owned F (given s x (\<lambda>xs g. judge s (ref_check k xs g)))
      (lookup m x (\<lambda>d. bindE (do_check c k d) (\<lambda>_. Inr (m, w))))"
  proof (rule progress_given[OF a], goal_cases)
    case (1 d xs g)
    show ?case by (rule progress_judge[OF a do_check_refines[OF holds_rep[OF 1(3)] 1(4)]])
  qed
  then show ?thesis using Assert by simp
next
  case (Assert_Dropped P n)
  have "length (filter P (dropped w)) = length (filter P (snd s))" if nd
  proof -
    have "mset (filter P (dropped w)) = mset (filter P (snd s))" using a that nd by (simp add: arena_def mset_filter)
    then show ?thesis by (rule mset_eq_length)
  qed
  then show ?thesis using progress_judge[OF a check_outcome_verdict] Assert_Dropped by auto
qed (simp_all only: clone_cmd[OF a v f] split_off_cmd[OF a f] append_cmd[OF a f] extend_cmds[OF a v f]
    move_items_cmd[OF a v f] drain_items_cmd[OF a v f] inspect_cmd[OF a v] compare_cmds[OF a] drop_cmd[OF a])

text \<open>Every program.\<close>

lemma run_refines:
  assumes "arena c os_ok owned F s st" and v: "\<And>v. val_ok c v" and f: "fits c (2 * N)"
  shows "progress_outcome c os_ok owned F (play (needs_drop c) N ks s) (run c ks st)"
  using assms(1)
proof (induction ks arbitrary: s st)
  case (Cons k ks)
  obtain m w where st: "st = (m, w)" by fastforce
  have one: "progress_outcome c os_ok owned F (ref_cmd (needs_drop c) N k s) (do_cmd c k (m, w))"
    by (rule do_cmd_refines[OF Cons.prems[unfolded st] v f refl])
  show ?case
  proof (cases "ref_cmd (needs_drop c) N k s")
    case (Continue s')
    from one[unfolded this progress_outcome_def progress.case] show ?thesis
    proof (elim disjE exE conjE)
      fix t assume "do_cmd c k (m, w) = Inr t" "arena c os_ok owned F s' t"
      then show ?thesis using Cons.IH[of s' t] Continue by (simp add: st)
    qed (simp add: st Continue progress_outcome_def)
  qed (use one in \<open>auto simp: st progress_outcome_def\<close>)
qed simp

end

text \<open>The relation spelled out, for the properties.\<close>

lemma arena_spelled:
  assumes a: "arena c os_ok owned F (st, log) (m, w)"
  shows "\<forall>x. rel_option (\<lambda>d (xs, g). holds c os_ok owned d w xs \<and> g \<le> capacity d) (m x) (st x)"
    "\<forall>x y d e. m x = Some d \<longrightarrow> m y = Some e \<longrightarrow> x \<noteq> y \<longrightarrow> regions c (buf d) \<inter> regions c (buf e) = {}"
    "owned (os w) = F \<union> (\<Union>d \<in> ran m. regions c (buf d))"
    "needs_drop c \<longrightarrow> mset (dropped w) = mset log"
proof -
  show "\<forall>x. rel_option (\<lambda>d (xs, g). holds c os_ok owned d w xs \<and> g \<le> capacity d) (m x) (st x)"
  proof
    fix x
    show "rel_option (\<lambda>d (xs, g). holds c os_ok owned d w xs \<and> g \<le> capacity d) (m x) (st x)"
    proof (cases "st x")
      case None
      then show ?thesis using arena_None[OF a, of x] by simp
    next
      case (Some xg)
      obtain xs g where xg: "xg = (xs, g)" by fastforce
      obtain d where "m x = Some d" "holds c os_ok owned d w xs" "g \<le> capacity d"
        by (rule arena_Some[OF a, of x xs g]) (use Some xg in auto)
      then show ?thesis using Some xg by simp
    qed
  qed
  have all: "\<forall>x d xs g. m x = Some d \<longrightarrow> st x = Some (xs, g) \<longrightarrow>
      (\<forall>y e. m y = Some e \<longrightarrow> x \<noteq> y \<longrightarrow> regions c (buf d) \<inter> regions c (buf e) = {})"
    using a by (simp add: arena_def)
  show "\<forall>x y d e. m x = Some d \<longrightarrow> m y = Some e \<longrightarrow> x \<noteq> y \<longrightarrow> regions c (buf d) \<inter> regions c (buf e) = {}"
  proof (intro allI impI)
    fix x y d e assume 1: "m x = Some d" "m y = Some e" "x \<noteq> y"
    then have "x \<in> dom st" using a by (auto simp: arena_def)
    then obtain xs g where "st x = Some (xs, g)" by auto
    then show "regions c (buf d) \<inter> regions c (buf e) = {}" using all[rule_format, OF 1(1) _ 1(2,3)] by blast
  qed
qed (use a in \<open>simp_all add: arena_def\<close>)

lemma progress_outcome_spelled:
  assumes "progress_outcome c os_ok owned F r res"
  shows "case r of
      Continue (st', log) \<Rightarrow>
        (\<exists>q. res = panic q \<and> memory_panic q) \<or>
        (\<exists>m w'. res = Inr (m, w') \<and>
           (\<forall>x. rel_option (\<lambda>d (xs, g). holds c os_ok owned d w' xs \<and> g \<le> capacity d) (m x) (st' x)) \<and>
           (\<forall>x y d e. m x = Some d \<longrightarrow> m y = Some e \<longrightarrow> x \<noteq> y \<longrightarrow> regions c (buf d) \<inter> regions c (buf e) = {}) \<and>
           owned (os w') = F \<union> (\<Union>d \<in> ran m. regions c (buf d)) \<and>
           (needs_drop c \<longrightarrow> mset (dropped w') = mset log))
    | Abort p \<Rightarrow> \<exists>q. res = panic q \<and> (q = p \<or> memory_panic q)
    | Undetermined \<Rightarrow> True"
proof (cases r)
  case (Continue s)
  obtain st' log where s: "s = (st', log)" by fastforce
  consider (Memory) q where "res = panic q" "memory_panic q"
    | (Done) m w' where "res = Inr (m, w')" "arena c os_ok owned F (st', log) (m, w')"
    using assms by (auto simp: progress_outcome_def Continue s)
  then show ?thesis
  proof cases
    case Memory
    then show ?thesis by (simp add: Continue s)
  next
    case Done
    show ?thesis unfolding Continue s progress.case prod.case
      by (rule disjI2, rule exI[of _ m], rule exI[of _ w'], intro conjI Done(1) arena_spelled[OF Done(2)])
  qed
qed (use assms in \<open>auto simp: progress_outcome_def\<close>)

end
