(* ===== verification/Scripts.thy ===== *)
theory Scripts
  imports Programs
begin

text \<open>
  Blocks, loops and verdicts of programs. A block drops the variables that are still bound at its
  end, the last bound first. \<open>passes\<close> evaluates a program on the reference: no assertion fails, it
  does not panic, and nothing is left bound. \<open>passes_runs\<close> and \<open>aborts_runs\<close> carry the verdict over to
  the model of the library.
\<close>

subsection \<open>Blocks\<close>

fun binds :: "'a cmd \<Rightarrow> string list" where
  "binds (Make x k) = [x]"
| "binds (Let_Clone x y) = [x]"
| "binds (Let_Split_Off x y i) = [x]"
| "binds _ = []"

fun moves_out :: "'a cmd \<Rightarrow> string list" where
  "moves_out (Extend_Moved x y) = [y]"
| "moves_out (Move_Items x y rv) = [x]"
| "moves_out (Inspect x calls) = [x]"
| "moves_out (Drop x) = [x]"
| "moves_out _ = []"

fun live :: "string list \<Rightarrow> 'a cmd list \<Rightarrow> string list" where
  "live vs [] = vs"
| "live vs (k # ks) = live (binds k @ filter (\<lambda>v. v \<notin> set (moves_out k)) vs) ks"

definition block :: "'a cmd list \<Rightarrow> 'a cmd list" where
  "block ks = ks @ map Drop (live [] ks)"

text \<open>\<open>for i in lo..hi { \<dots> }\<close>\<close>

definition for_range :: "nat \<Rightarrow> nat \<Rightarrow> (nat \<Rightarrow> 'a cmd list) \<Rightarrow> 'a cmd list" where
  "for_range lo hi body = concat (map body [lo..<hi])"

definition for_range_rev :: "nat \<Rightarrow> nat \<Rightarrow> (nat \<Rightarrow> 'a cmd list) \<Rightarrow> 'a cmd list" where
  "for_range_rev lo hi body = concat (map body (rev [lo..<hi]))"

text \<open>Everything an iterator gives, from the front and from the back.\<close>

definition gives :: "'a list \<Rightarrow> 'a it_call list" where
  "gives vs = map (\<lambda>v. Next (Some v)) vs @ [Next None]"

definition gives_back :: "'a list \<Rightarrow> 'a it_call list" where
  "gives_back vs = map (\<lambda>v. Next_Back (Some v)) vs @ [Next_Back None]"

definition quiet :: "'a cmd list \<Rightarrow> bool" where
  "quiet ks \<longleftrightarrow> list_all (\<lambda>k. binds k = [] \<and> moves_out k = []) ks"

lemma live_append: "live vs (ks @ ls) = live (live vs ks) ls"
  by (induction ks arbitrary: vs) simp_all

lemma live_quiet: "quiet ks \<Longrightarrow> live vs ks = vs"
  by (induction ks arbitrary: vs) (simp_all add: quiet_def)

lemma quiet_simps [simp]:
  "quiet []" "quiet (k # ks) \<longleftrightarrow> binds k = [] \<and> moves_out k = [] \<and> quiet ks"
  "quiet (ks @ ls) \<longleftrightarrow> quiet ks \<and> quiet ls"
  by (auto simp: quiet_def)

lemma quiet_for_range [simp]:
  "(\<And>i. quiet (body i)) \<Longrightarrow> quiet (for_range lo hi body)" "(\<And>i. quiet (body i)) \<Longrightarrow> quiet (for_range_rev lo hi body)"
  by (auto simp: for_range_def for_range_rev_def quiet_def list_all_iff)

subsection \<open>Verdicts\<close>

definition passes :: "bool \<Rightarrow> nat \<Rightarrow> 'a cmd list \<Rightarrow> bool" where
  "passes nd N t \<longleftrightarrow>
     (case play nd N t (Map.empty, []) of
        Continue s \<Rightarrow> list_all (\<lambda>x. Option.is_none (fst s x)) (concat (map binds t))
      | _ \<Rightarrow> False)"

definition aborts :: "bool \<Rightarrow> nat \<Rightarrow> panic \<Rightarrow> 'a cmd list \<Rightarrow> bool" where
  "aborts nd N p t \<longleftrightarrow> (case play nd N t (Map.empty, []) of Abort q \<Rightarrow> q = p | _ \<Rightarrow> False)"

lemma play_append:
  "play nd N (ks @ ls) s = (case play nd N ks s of Continue s \<Rightarrow> play nd N ls s | r \<Rightarrow> r)"
  by (induction ks arbitrary: s) (auto split: progress.splits)

lemma play_loop:
  assumes "\<And>i. lo \<le> i \<Longrightarrow> i < hi \<Longrightarrow> play nd N (body i) (S i) = Continue (S (Suc i))" "lo \<le> hi"
  shows "play nd N (for_range lo hi body) (S lo) = Continue (S hi)"
  using assms(2,1)
proof (induction hi rule: dec_induct)
  case base
  then show ?case by (simp add: for_range_def)
next
  case (step n)
  have "play nd N (for_range lo n body) (S lo) = Continue (S n)" by (rule step.IH) (simp add: step.prems)
  then show ?case using step.hyps step.prems[of n] by (simp add: for_range_def play_append)
qed

text \<open>A loop of assertions that hold.\<close>

lemma play_checks:
  assumes "\<And>i. lo \<le> i \<Longrightarrow> i < hi \<Longrightarrow> play nd N (body i) s = Continue s"
  shows "play nd N (for_range lo hi body) s = Continue s"
proof (cases "lo \<le> hi")
  case True
  then show ?thesis using play_loop[of lo hi nd N body "\<lambda>_. s"] assms by simp
qed (simp add: for_range_def)

lemma passesI: "play nd N t (Map.empty, []) = Continue (Map.empty, log) \<Longrightarrow> passes nd N t"
  by (simp add: passes_def list_all_iff)

text \<open>What a program does to the variables, whatever it drops.\<close>

definition reaches ::
    "bool \<Rightarrow> nat \<Rightarrow> 'a cmd list \<Rightarrow> (string \<Rightarrow> ('a list \<times> nat) option) \<Rightarrow> (string \<Rightarrow> ('a list \<times> nat) option) \<Rightarrow> bool" where
  "reaches nd N ks st st' \<longleftrightarrow> (\<forall>log. \<exists>log'. play nd N ks (st, log) = Continue (st', log'))"

lemma reachesI: "(\<And>log. \<exists>log'. play nd N ks (st, log) = Continue (st', log')) \<Longrightarrow> reaches nd N ks st st'"
  by (simp add: reaches_def)

lemma reaches_append: "reaches nd N ks st st' \<Longrightarrow> reaches nd N ls st' st'' \<Longrightarrow> reaches nd N (ks @ ls) st st''"
  unfolding reaches_def play_append by (metis (no_types, lifting) progress.case(1))

lemma reaches_loop:
  assumes "\<And>i. lo \<le> i \<Longrightarrow> i < hi \<Longrightarrow> reaches nd N (body i) (S i) (S (Suc i))" "lo \<le> hi"
  shows "reaches nd N (for_range lo hi body) (S lo) (S hi)"
  using assms(2,1)
proof (induction hi rule: dec_induct)
  case base
  then show ?case by (simp add: for_range_def reaches_def)
next
  case (step n)
  have "reaches nd N (for_range lo n body) (S lo) (S n)" by (rule step.IH) (simp add: step.prems)
  from reaches_append[OF this step.prems[OF step.hyps(1)]] show ?case
    using step.hyps by (simp add: for_range_def)
qed

lemma reaches_loop_rev:
  assumes "\<And>i. i < n \<Longrightarrow> reaches nd N (body i) (S (Suc i)) (S i)"
  shows "reaches nd N (for_range_rev 0 n body) (S n) (S 0)"
  using assms
proof (induction n)
  case (Suc n)
  from reaches_append[OF Suc.prems[of n] Suc.IH] Suc.prems show ?case by (simp add: for_range_rev_def)
qed (simp add: for_range_rev_def reaches_def)

lemma reaches_checks:
  assumes "\<And>i. lo \<le> i \<Longrightarrow> i < hi \<Longrightarrow> reaches nd N (body i) st st"
  shows "reaches nd N (for_range lo hi body) st st"
proof (cases "lo \<le> hi")
  case True
  then show ?thesis using reaches_loop[of lo hi nd N body "\<lambda>_. st"] assms by simp
qed (simp add: for_range_def reaches_def)

text \<open>The variables of a block are dropped at its end.\<close>

lemma play_drops:
  "distinct vs \<Longrightarrow> dom st = set vs \<Longrightarrow> \<exists>log'. play nd N (map Drop vs) (st, log) = Continue (Map.empty, log')"
proof (induction vs arbitrary: st log)
  case (Cons v vs)
  obtain xs g where "st v = Some (xs, g)" using Cons.prems(2) by (metis domD list.set_intros(1) surj_pair)
  moreover have "\<exists>log'. play nd N (map Drop vs) (st(v := None), log @ xs) = Continue (Map.empty, log')"
  proof (rule Cons.IH)
    show "dom (st(v := None)) = set vs" using Cons.prems by (simp only: dom_fun_upd if_True) auto
  qed (use Cons.prems in simp)
  ultimately show ?case by (simp add: given_def)
qed simp

lemma block_passes:
  assumes "reaches nd N ks Map.empty st" "distinct (live [] ks)" "dom st = set (live [] ks)"
  shows "passes nd N (block ks)"
proof -
  obtain log where 1: "play nd N ks (Map.empty, []) = Continue (st, log)" using assms(1) by (auto simp: reaches_def)
  obtain log' where "play nd N (map Drop (live [] ks)) (st, log) = Continue (Map.empty, log')"
    using play_drops[OF assms(2,3)] by blast
  with 1 show ?thesis by (intro passesI) (simp add: block_def play_append)
qed

text \<open>A command binds no more than the names it binds.\<close>

lemma given_Continue: "given s x f = Continue s' \<Longrightarrow> (\<And>xs g. fst s x = Some (xs, g) \<Longrightarrow> f xs g = Continue s' \<Longrightarrow> P) \<Longrightarrow> P"
  by (auto simp: given_def split: option.splits)

lemma settle_Continue: "settle x s r = Continue s' \<Longrightarrow> dom (fst s') \<subseteq> insert x (dom (fst s))"
  by (cases "(x, s, r)" rule: settle.cases) auto

lemma judge_Continue: "judge s v = Continue s' \<Longrightarrow> s' = s"
  by (cases v) auto

lemma ref_cmd_binds:
  assumes "ref_cmd nd N k s = Continue s'"
  shows "dom (fst s') \<subseteq> dom (fst s) \<union> set (binds k)"
  using assms
  by (cases k)
    (auto simp: given2_def Let_def split: if_splits sum.splits prod.splits
      elim!: given_Continue dest!: settle_Continue judge_Continue subsetD)

lemma play_binds:
  assumes "play nd N ks s = Continue s'"
  shows "dom (fst s') \<subseteq> dom (fst s) \<union> set (concat (map binds ks))"
  using assms
proof (induction ks arbitrary: s)
  case (Cons k ks)
  then obtain s1 where s1: "ref_cmd nd N k s = Continue s1" "play nd N ks s1 = Continue s'"
    by (auto split: progress.splits)
  show ?case using ref_cmd_binds[OF s1(1)] Cons.IH[OF s1(2)]
    unfolding list.map concat.simps set_append by blast
qed simp

lemma passes_play:
  assumes "passes nd N t"
  obtains log where "play nd N t (Map.empty, []) = Continue (Map.empty, log)"
proof -
  obtain s where s: "play nd N t (Map.empty, []) = Continue s" "\<And>x. x \<in> set (concat (map binds t)) \<Longrightarrow> fst s x = None"
    using assms by (auto simp: passes_def list_all_iff Option.is_none_def split: progress.splits)
  have "fst s x = None" for x
    using play_binds[OF s(1)] s(2)[of x] by (cases "fst s x") auto
  then have "fst s = Map.empty" by blast
  then show ?thesis using that s(1) by (cases s) simp
qed

lemma aborts_play: "aborts nd N p t \<Longrightarrow> play nd N t (Map.empty, []) = Abort p"
  by (auto simp: aborts_def split: progress.splits)

subsection \<open>Runs of the model\<close>

text \<open>
  A clean run ends with no deque left and every region given back, or panics because memory ran
  out. A run that should panic does, with the panic that is meant, or because memory ran out.
\<close>

definition clean_run ::
    "('a, 'os) cfg \<Rightarrow> ('os \<Rightarrow> (nat \<times> nat) set) \<Rightarrow> ('a, 'os) world \<Rightarrow> 'a cmd list \<Rightarrow> bool" where
  "clean_run c owned w t \<longleftrightarrow>
     (\<exists>p. run c t (Map.empty, w) = panic p \<and> memory_panic p) \<or>
     (\<exists>w'. run c t (Map.empty, w) = Inr (Map.empty, w') \<and> owned (os w') = owned (os w))"

definition panics_as :: "('a, 'os) cfg \<Rightarrow> ('a, 'os) world \<Rightarrow> panic \<Rightarrow> 'a cmd list \<Rightarrow> bool" where
  "panics_as c w p t \<longleftrightarrow> (\<exists>q. run c t (Map.empty, w) = panic q \<and> (q = p \<or> memory_panic q))"

context deque_env
begin

lemma run_start:
  assumes "os_ok (os w)" "dropped w = []" "\<And>v. val_ok c v" "fits c (2 * N)"
  shows "progress_outcome c os_ok owned (owned (os w)) (play (needs_drop c) N t (Map.empty, [])) (run c t (Map.empty, w))"
proof -
  have "arena c os_ok owned (owned (os w)) (Map.empty, dropped w) (Map.empty, w)" by (rule arena_start) (rule assms(1))
  from run_refines[OF this assms(3,4), of t] show ?thesis using assms(2) by simp
qed

lemma passes_runs:
  assumes start: "os_ok (os w)" "dropped w = []" "\<And>v. val_ok c v" "fits c (2 * N)" and t: "passes (needs_drop c) N t"
  shows "clean_run c owned w t"
proof -
  obtain log where p: "play (needs_drop c) N t (Map.empty, []) = Continue (Map.empty, log)" by (rule passes_play[OF t])
  have "progress_outcome c os_ok owned (owned (os w)) (Continue (Map.empty, log)) (run c t (Map.empty, w))"
    using run_start[OF start, of t] unfolding p .
  from this[unfolded progress_outcome_def progress.case] show ?thesis
  proof (elim disjE exE conjE)
    fix st assume "run c t (Map.empty, w) = Inr st" "arena c os_ok owned (owned (os w)) (Map.empty, log) st"
    then show ?thesis by (cases st) (auto simp: arena_def clean_run_def)
  qed (auto simp: clean_run_def)
qed

lemma aborts_runs:
  assumes start: "os_ok (os w)" "dropped w = []" "\<And>v. val_ok c v" "fits c (2 * N)" and t: "aborts (needs_drop c) N p t"
  shows "panics_as c w p t"
  using run_start[OF start, of t] unfolding aborts_play[OF t] progress_outcome_def panics_as_def by auto

end

end
