(* ===== verification/Typing.thy ===== *)
theory Typing
  imports Scripts
begin

text \<open>
  What safe Rust accepts. The typing rules follow the compiler: a variable is bound before it is
  used, not used after it was moved, not bound twice, and the two deques a call borrows are
  different; no unsafe call (\<open>Forget_Back\<close>) is made. Beyond the compiler's rules a type carries a
  bound on the length, so that all sizes stay below \<open>N\<close>, and some safe calls are refused because they
  are unsound in the code (see the properties about them): \<open>insert\<close> beyond index 1, which may hit the
  front half, and \<open>shrink_to_fit\<close> of elements with a destructor; so are two that are only sound under
  a condition: \<open>extend_from_slice\<close> of elements with a destructor, and a splice that inserts before a
  tail. A typed program never ends in
  undefined behaviour.
\<close>

subsection \<open>The rules\<close>

type_synonym env = "string \<Rightarrow> nat option"

fun edit_bound :: "bool \<Rightarrow> nat \<Rightarrow> 'a edit \<Rightarrow> nat \<Rightarrow> nat option" where
  "edit_bound nd N (Push_Back v) n = (if n < N then Some (Suc n) else None)"
| "edit_bound nd N (Push_Front v) n = (if n < N then Some (Suc n) else None)"
| "edit_bound nd N (Truncate_To k) n = Some (min n k)"
| "edit_bound nd N (Truncate_Front_To k) n = Some (min n k)"
| "edit_bound nd N Clear_All n = Some 0"
| "edit_bound nd N (Resize_To k v) n = (if k \<le> N then Some k else None)"
| "edit_bound nd N (Reserve_More k) n = (if n + k \<le> N then Some n else None)"
| "edit_bound nd N (Reserve_Exactly k) n = (if n + k \<le> N then Some n else None)"
| "edit_bound nd N Shrink_To_Fit n = (if nd \<or> N < n then None else Some n)"
| "edit_bound nd N (Extend_Items vs) n = (if n + 2 * length vs + 1 \<le> N then Some (n + length vs) else None)"
| "edit_bound nd N (Extend_Copies vs) n = (if n + 2 * length vs + 1 \<le> N then Some (n + length vs) else None)"
| "edit_bound nd N (Extend_Slice vs) n = (if \<not> nd \<and> n + length vs \<le> N then Some (n + length vs) else None)"
| "edit_bound nd N (Resize_Default k v) n = (if k \<le> N then Some k else None)"
| "edit_bound nd N (Insert_At i v) n = (if n < N \<and> i \<le> 1 then Some (Suc n) else None)"
| "edit_bound nd N (Drain_Range lo hi calls) n =
     (if range_start_of lo < usize_bound \<and> range_end_of hi n < usize_bound then Some n else None)"
| "edit_bound nd N (Splice_Range lo hi items calls) n =
     (if range_start_of lo < usize_bound \<and> range_end_of hi n < usize_bound \<and>
         (items = [] \<and> n < N \<or> hi = Unbounded \<and> n + 2 * length items + 1 \<le> N)
      then Some (n + length items) else None)"
| "edit_bound nd N (Forget_Splice lo hi items) n =
     (if range_start_of lo < usize_bound \<and> range_end_of hi n < usize_bound then Some n else None)"
| "edit_bound nd N (Forget_Back k) n = None"
| "edit_bound nd N _ n = Some n"

fun check_typed :: "'a check \<Rightarrow> bool" where
  "check_typed Not_Full = False"
| "check_typed (Capacity_At_Least n) = False"
| "check_typed _ = True"

fun source_bound :: "nat \<Rightarrow> 'a source \<Rightarrow> nat option" where
  "source_bound N New = Some 0"
| "source_bound N (With_Capacity k) = (if k \<le> N then Some 0 else None)"
| "source_bound N Default = Some 0"
| "source_bound N (Sdeq vs) = (if length vs \<le> N then Some (length vs) else None)"
| "source_bound N (Sdeq_Elem v k) = (if k \<le> N then Some k else None)"
| "source_bound N (Collect vs) = (if 2 * length vs + 1 \<le> N then Some (length vs) else None)"

text \<open>The types of one and of two variables a command uses.\<close>

definition using1 :: "env \<Rightarrow> string \<Rightarrow> (nat \<Rightarrow> env option) \<Rightarrow> env option" where
  "using1 \<Gamma> x f = (case \<Gamma> x of None \<Rightarrow> None | Some n \<Rightarrow> f n)"

definition using2 :: "env \<Rightarrow> string \<Rightarrow> string \<Rightarrow> (nat \<Rightarrow> nat \<Rightarrow> env option) \<Rightarrow> env option" where
  "using2 \<Gamma> x y f = using1 \<Gamma> x (\<lambda>n. using1 \<Gamma> y (\<lambda>m. if x = y then None else f n m))"

fun cmd_type :: "bool \<Rightarrow> nat \<Rightarrow> 'a cmd \<Rightarrow> env \<Rightarrow> env option" where
  "cmd_type nd N (Make x k) \<Gamma> =
     (if Option.is_none (\<Gamma> x) then map_option (\<lambda>n. \<Gamma>(x \<mapsto> n)) (source_bound N k) else None)"
| "cmd_type nd N (Let_Clone x y) \<Gamma> =
     using1 \<Gamma> y (\<lambda>m. if Option.is_none (\<Gamma> x) \<and> m \<le> N then Some (\<Gamma>(x \<mapsto> m)) else None)"
| "cmd_type nd N (Let_Split_Off x y i) \<Gamma> =
     using1 \<Gamma> y (\<lambda>m. if Option.is_none (\<Gamma> x) \<and> m \<le> N then Some (\<Gamma>(x \<mapsto> m)) else None)"
| "cmd_type nd N (Do x k) \<Gamma> = using1 \<Gamma> x (\<lambda>n. map_option (\<lambda>n. \<Gamma>(x \<mapsto> n)) (edit_bound nd N k n))"
| "cmd_type nd N (Assert x k) \<Gamma> = using1 \<Gamma> x (\<lambda>n. if check_typed k then Some \<Gamma> else None)"
| "cmd_type nd N (Append_All x y) \<Gamma> =
     using2 \<Gamma> x y (\<lambda>n m. if n + m \<le> N then Some (\<Gamma>(x \<mapsto> n + m, y \<mapsto> 0)) else None)"
| "cmd_type nd N (Extend_Moved x y) \<Gamma> =
     using2 \<Gamma> x y (\<lambda>n m. if n + 2 * m + 1 \<le> N then Some ((\<Gamma>(x \<mapsto> n + m))(y := None)) else None)"
| "cmd_type nd N (Extend_Refs x y) \<Gamma> =
     using2 \<Gamma> x y (\<lambda>n m. if n + 2 * m + 1 \<le> N then Some (\<Gamma>(x \<mapsto> n + m)) else None)"
| "cmd_type nd N (Move_Items x y rv) \<Gamma> =
     using2 \<Gamma> x y (\<lambda>n m. if n + m \<le> N then Some ((\<Gamma>(y \<mapsto> m + n))(x := None)) else None)"
| "cmd_type nd N (Drain_Items x y lo hi rv) \<Gamma> =
     using2 \<Gamma> x y (\<lambda>n m. if range_start_of lo < usize_bound \<and> range_end_of hi n < usize_bound \<and> n + m \<le> N
       then Some (\<Gamma>(x \<mapsto> n, y \<mapsto> m + n)) else None)"
| "cmd_type nd N (Inspect x calls) \<Gamma> = using1 \<Gamma> x (\<lambda>n. Some (\<Gamma>(x := None)))"
| "cmd_type nd N (Assert_Eq x y b) \<Gamma> = using1 \<Gamma> x (\<lambda>n. using1 \<Gamma> y (\<lambda>m. Some \<Gamma>))"
| "cmd_type nd N (Assert_Cmp x y cmp P) \<Gamma> = using1 \<Gamma> x (\<lambda>n. using1 \<Gamma> y (\<lambda>m. Some \<Gamma>))"
| "cmd_type nd N (Assert_Hash_Eq x y wu hash h0) \<Gamma> = using1 \<Gamma> x (\<lambda>n. using1 \<Gamma> y (\<lambda>m. Some \<Gamma>))"
| "cmd_type nd N (Drop x) \<Gamma> = using1 \<Gamma> x (\<lambda>n. Some (\<Gamma>(x := None)))"
| "cmd_type nd N (Assert_Dropped P n) \<Gamma> = (if nd then Some \<Gamma> else None)"

fun program_type :: "bool \<Rightarrow> nat \<Rightarrow> 'a cmd list \<Rightarrow> env \<Rightarrow> env option" where
  "program_type nd N [] \<Gamma> = Some \<Gamma>"
| "program_type nd N (k # ks) \<Gamma> = Option.bind (cmd_type nd N k \<Gamma>) (program_type nd N ks)"

subsection \<open>Typed programs are determined\<close>

definition has_env :: "(string \<Rightarrow> ('a list \<times> nat) option) \<Rightarrow> env \<Rightarrow> bool" where
  "has_env st \<Gamma> \<longleftrightarrow> (\<forall>x. rel_option (\<lambda>(xs, g) n. length xs \<le> n) (st x) (\<Gamma> x))"

lemma has_env_upd: "has_env st \<Gamma> \<Longrightarrow> length xs \<le> n \<Longrightarrow> has_env (st(x \<mapsto> (xs, g))) (\<Gamma>(x \<mapsto> n))"
  by (simp add: has_env_def)

lemma has_env_del: "has_env st \<Gamma> \<Longrightarrow> has_env (st(x := None)) (\<Gamma>(x := None))"
  by (simp add: has_env_def)

lemma has_env_same: "has_env st \<Gamma> \<Longrightarrow> \<Gamma> x = Some n \<Longrightarrow> length xs \<le> n \<Longrightarrow> has_env (st(x \<mapsto> (xs, g))) \<Gamma>"
  using has_env_upd[of st \<Gamma> xs n x g] by (simp add: fun_upd_idem)

lemma has_env_Some:
  assumes "has_env st \<Gamma>" "\<Gamma> x = Some n" obtains xs g where "st x = Some (xs, g)" "length xs \<le> n"
proof -
  have "rel_option (\<lambda>(xs, g) n. length xs \<le> n) (st x) (Some n)" using assms by (metis has_env_def)
  then show ?thesis using that by (cases "st x") auto
qed

lemma has_env_None:
  assumes "has_env st \<Gamma>" "\<Gamma> x = None" shows "st x = None"
proof -
  have "rel_option (\<lambda>(xs, g) n. length xs \<le> n) (st x) None" using assms by (metis has_env_def)
  then show ?thesis by simp
qed

lemma length_dedup_writing: "length (fst (dedup_writing f k xs)) \<le> Suc (length xs)"
  by (induction f k xs rule: dedup_writing.induct) (auto simp: le_SucI split: prod.splits bool.splits)

definition result_typed :: "nat \<Rightarrow> 'a result \<Rightarrow> bool" where
  "result_typed n r \<longleftrightarrow> (case r of Goes ys h D \<Rightarrow> length ys \<le> n | Panics p \<Rightarrow> True | Stuck \<Rightarrow> False)"

lemma result_typed_simps [simp]:
  "result_typed n (Goes ys h D) \<longleftrightarrow> length ys \<le> n" "result_typed n (Panics p)" "\<not> result_typed n Stuck"
  by (simp_all add: result_typed_def)

lemma dedup_typed:
  assumes "length xs \<le> n"
  shows "result_typed n (case xs of [] \<Rightarrow> Goes [] g []
    | x # xs \<Rightarrow> (case dedup_writing f x xs of (kept, D) \<Rightarrow> Goes kept g D))"
proof (cases xs)
  case (Cons x ys)
  obtain kept D where kd: "dedup_writing f x ys = (kept, D)" by fastforce
  then have "length kept \<le> length xs" using length_dedup_writing[of f x ys] Cons by simp
  then show ?thesis using assms Cons kd by simp
qed simp

lemma range_end_mono: "n \<le> m \<Longrightarrow> range_end_of hi n \<le> range_end_of hi m"
  by (cases hi) (simp_all add: range_end_of_def)

lemma edit_bound_sound:
  assumes "edit_bound nd N k n = Some m" "length xs \<le> n"
  shows "result_typed m (ref_edit nd N k xs g)"
proof (cases k)
  case (Drain_Range lo hi calls)
  then show ?thesis using assms range_end_mono[OF assms(2), of hi]
    by (auto simp: Let_def range_ok_def split: if_splits option.splits)
next
  case (Splice_Range lo hi items calls)
  have "length (take s xs @ items @ drop e xs) \<le> n + length items" if "s \<le> e" for s e
    using that assms(2) by auto
  then show ?thesis using assms range_end_mono[OF assms(2), of hi] Splice_Range
    by (auto simp: Let_def range_ok_def splice_fits_def range_end_of_def split: if_splits option.splits)
next
  case (Forget_Splice lo hi items)
  then show ?thesis using assms range_end_mono[OF assms(2), of hi]
    by (auto simp: range_ok_def split: if_splits)
next
  case (Dedup_Writing f)
  then show ?thesis using assms dedup_typed[OF assms(2), where f=f] by simp
next
  case (Dedup_By_Key key)
  then show ?thesis using assms dedup_typed[OF assms(2), where f="\<lambda>a b. (key a = key b, a, b)"] by simp
next
  case (Dedup_Equal eq)
  then show ?thesis using assms dedup_typed[OF assms(2), where f="\<lambda>a b. (eq a b, a, b)"] by simp
next
  case (Retain_If P)
  then show ?thesis using assms le_trans[OF length_filter_le] by auto
next
  case (Drain_Filter_If P calls)
  then show ?thesis using assms le_trans[OF length_filter_le] by (auto split: option.splits)
qed (use assms in \<open>auto simp: ref_expect_def ref_assign_def min_def swap_nth_def split: if_splits\<close>)

lemma check_typed_sound: "check_typed k \<Longrightarrow> ref_check k xs g \<noteq> Unknown"
  by (cases k) (auto simp: verdict_def)

lemma source_bound_sound: "source_bound N k = Some m \<Longrightarrow> result_typed m (ref_source N k)"
  by (cases k) (auto split: if_splits)

text \<open>The reference of a typed command goes on in the environment the rules give, or panics.\<close>

definition progress_typed :: "env \<Rightarrow> 'a progress \<Rightarrow> bool" where
  "progress_typed \<Gamma> r \<longleftrightarrow> (case r of Continue s \<Rightarrow> has_env (fst s) \<Gamma> | Abort p \<Rightarrow> True | Undetermined \<Rightarrow> False)"

lemma progress_typed_simps [simp]:
  "progress_typed \<Gamma> (Continue s) \<longleftrightarrow> has_env (fst s) \<Gamma>" "progress_typed \<Gamma> (Abort p)"
  "\<not> progress_typed \<Gamma> Undetermined"
  by (simp_all add: progress_typed_def)

lemma progress_typed_judge: "has_env (fst s) \<Gamma> \<Longrightarrow> v \<noteq> Unknown \<Longrightarrow> progress_typed \<Gamma> (judge s v)"
  by (cases v) auto

lemma verdict_known [simp]: "verdict b \<noteq> Unknown"
  by (simp add: verdict_def)

lemma progress_typed_settle:
  "has_env (fst s) \<Gamma> \<Longrightarrow> result_typed n r \<Longrightarrow> progress_typed (\<Gamma>(x \<mapsto> n)) (settle x s r)"
  by (cases r; cases s) (auto intro: has_env_upd)

lemma using1_given:
  assumes "has_env (fst s) \<Gamma>" "using1 \<Gamma> x f = Some \<Gamma>'"
    and "\<And>xs g n. fst s x = Some (xs, g) \<Longrightarrow> length xs \<le> n \<Longrightarrow> \<Gamma> x = Some n \<Longrightarrow> f n = Some \<Gamma>' \<Longrightarrow> progress_typed \<Gamma>' (h xs g)"
  shows "progress_typed \<Gamma>' (given s x h)"
proof -
  obtain n where n: "\<Gamma> x = Some n" "f n = Some \<Gamma>'" using assms(2) by (auto simp: using1_def split: option.splits)
  obtain xs g where "fst s x = Some (xs, g)" "length xs \<le> n" by (rule has_env_Some[OF assms(1) n(1)])
  then show ?thesis using assms(3) n by (simp add: given_def)
qed

lemma using2_given:
  assumes "has_env (fst s) \<Gamma>" "using2 \<Gamma> x y f = Some \<Gamma>'"
    and "\<And>xs g n ys h m. fst s x = Some (xs, g) \<Longrightarrow> length xs \<le> n \<Longrightarrow> fst s y = Some (ys, h) \<Longrightarrow> length ys \<le> m \<Longrightarrow>
      \<Gamma> x = Some n \<Longrightarrow> \<Gamma> y = Some m \<Longrightarrow> x \<noteq> y \<Longrightarrow> f n m = Some \<Gamma>' \<Longrightarrow> progress_typed \<Gamma>' (k xs g ys h)"
  shows "progress_typed \<Gamma>' (given2 s x y k)"
  unfolding given2_def
  by (rule using1_given[OF assms(1) assms(2)[unfolded using2_def]], rule using1_given[OF assms(1)])
    (auto intro: assms(3) split: if_splits)

lemma cmd_type_sound:
  assumes h: "has_env (fst s) \<Gamma>" and t: "cmd_type nd N k \<Gamma> = Some \<Gamma>'"
  shows "progress_typed \<Gamma>' (ref_cmd nd N k s)"
proof (cases k)
  case (Make x k)
  then obtain n where "\<Gamma> x = None" "source_bound N k = Some n" "\<Gamma>' = \<Gamma>(x \<mapsto> n)"
    using t by (auto simp: Option.is_none_def split: if_splits)
  then show ?thesis using Make progress_typed_settle[OF h source_bound_sound] has_env_None[OF h] by simp
next
  case (Let_Clone x y)
  show ?thesis unfolding Let_Clone ref_cmd.simps
    by (rule using1_given[OF h t[unfolded Let_Clone cmd_type.simps]])
      (use has_env_None[OF h] in \<open>auto simp: Option.is_none_def intro!: progress_typed_settle[OF h] split: if_splits\<close>)
next
  case (Let_Split_Off x y i)
  show ?thesis unfolding Let_Split_Off ref_cmd.simps
  proof (rule using1_given[OF h t[unfolded Let_Split_Off cmd_type.simps]], goal_cases)
    case (1 ys g m)
    then have x: "\<Gamma> x = None" "m \<le> N" "\<Gamma>' = \<Gamma>(x \<mapsto> m)" by (auto simp: Option.is_none_def split: if_splits)
    have "has_env ((fst s)(y \<mapsto> (take i ys, g), x \<mapsto> (drop i ys, 0))) \<Gamma>'"
      unfolding x by (intro has_env_upd has_env_same[OF h 1(3)]) (use 1(2) in auto)
    then show ?case using has_env_None[OF h x(1)] 1(2) x(2) by auto
  qed
next
  case (Do x k)
  show ?thesis unfolding Do ref_cmd.simps
    by (rule using1_given[OF h t[unfolded Do cmd_type.simps]])
      (auto intro: progress_typed_settle[OF h edit_bound_sound])
next
  case (Assert x k)
  show ?thesis unfolding Assert ref_cmd.simps
    by (rule using1_given[OF h t[unfolded Assert cmd_type.simps]])
      (use h in \<open>auto intro: progress_typed_judge[OF _ check_typed_sound] split: if_splits\<close>)
next
  case (Append_All x y)
  show ?thesis unfolding Append_All ref_cmd.simps
    by (rule using2_given[OF h t[unfolded Append_All cmd_type.simps]]) (auto intro!: has_env_upd h split: if_splits)
next
  case (Extend_Moved x y)
  show ?thesis unfolding Extend_Moved ref_cmd.simps
    by (rule using2_given[OF h t[unfolded Extend_Moved cmd_type.simps]])
      (auto intro!: has_env_upd has_env_del h split: if_splits)
next
  case (Extend_Refs x y)
  show ?thesis unfolding Extend_Refs ref_cmd.simps
    by (rule using2_given[OF h t[unfolded Extend_Refs cmd_type.simps]]) (auto intro!: has_env_upd h split: if_splits)
next
  case (Move_Items x y rv)
  show ?thesis unfolding Move_Items ref_cmd.simps
    by (rule using2_given[OF h t[unfolded Move_Items cmd_type.simps]])
      (auto intro!: has_env_upd has_env_del h split: if_splits)
next
  case (Drain_Items x y lo hi rv)
  show ?thesis unfolding Drain_Items ref_cmd.simps
  proof (rule using2_given[OF h t[unfolded Drain_Items cmd_type.simps]], goal_cases)
    case (1 xs g n ys k m)
    have "range_end_of hi (length xs) < usize_bound \<and> range_start_of lo < usize_bound \<and> length xs + length ys \<le> N"
      using 1(2,4,8) range_end_mono[OF 1(2), of hi] by (auto split: if_splits)
    moreover have "\<Gamma>' = \<Gamma>(x \<mapsto> n, y \<mapsto> m + n)" using 1(8) by (simp split: if_splits)
    moreover have "length (take a xs @ drop b xs) \<le> n" if "a \<le> b" for a b using 1(2) that by simp
    ultimately show ?case using 1(2,4)
      by (auto simp: Let_def range_ok_def not_le[symmetric] intro!: has_env_upd h)
  qed
next
  case (Inspect x calls)
  show ?thesis unfolding Inspect ref_cmd.simps
    by (rule using1_given[OF h t[unfolded Inspect cmd_type.simps]]) (auto intro: has_env_del[OF h] split: sum.splits prod.splits)
next
  case (Assert_Eq x y b)
  show ?thesis unfolding Assert_Eq ref_cmd.simps
    by (rule using1_given[OF h t[unfolded Assert_Eq cmd_type.simps]], rule using1_given[OF h])
      (use h in \<open>auto intro: progress_typed_judge\<close>)
next
  case (Assert_Cmp x y cmp P)
  show ?thesis unfolding Assert_Cmp ref_cmd.simps
    by (rule using1_given[OF h t[unfolded Assert_Cmp cmd_type.simps]], rule using1_given[OF h])
      (use h in \<open>auto intro: progress_typed_judge\<close>)
next
  case (Assert_Hash_Eq x y wu hash h0)
  show ?thesis unfolding Assert_Hash_Eq ref_cmd.simps
    by (rule using1_given[OF h t[unfolded Assert_Hash_Eq cmd_type.simps]], rule using1_given[OF h])
      (use h in \<open>auto intro: progress_typed_judge\<close>)
next
  case (Drop x)
  show ?thesis unfolding Drop ref_cmd.simps
    by (rule using1_given[OF h t[unfolded Drop cmd_type.simps]]) (auto intro: has_env_del[OF h])
next
  case (Assert_Dropped P n)
  then show ?thesis using t progress_typed_judge[OF h] by (auto split: if_splits)
qed

lemma program_type_sound:
  assumes "has_env (fst s) \<Gamma>" "program_type nd N ks \<Gamma> = Some \<Gamma>'"
  shows "progress_typed \<Gamma>' (play nd N ks s)"
  using assms
proof (induction ks arbitrary: s \<Gamma>)
  case (Cons k ks)
  obtain \<Gamma>1 where g: "cmd_type nd N k \<Gamma> = Some \<Gamma>1" "program_type nd N ks \<Gamma>1 = Some \<Gamma>'"
    using Cons.prems(2) by (auto simp: bind_eq_Some_conv)
  show ?case using cmd_type_sound[OF Cons.prems(1) g(1)] Cons.IH[OF _ g(2)]
    by (cases "ref_cmd nd N k s") auto
qed simp

subsection \<open>Typed programs run\<close>

text \<open>The deques of a state have the types of an environment.\<close>

definition deques_typed :: "('a, 'os) cfg \<Rightarrow> env \<Rightarrow> (string \<Rightarrow> 'a deque option) \<Rightarrow> bool" where
  "deques_typed c \<Gamma> m \<longleftrightarrow> (\<forall>x. rel_option (\<lambda>d n. wf_deque c d \<and> elen d \<le> n) (m x) (\<Gamma> x))"

lemma arena_typed:
  assumes a: "arena c os_ok owned F s (m, w)" and h: "has_env (fst s) \<Gamma>"
  shows "deques_typed c \<Gamma> m"
  unfolding deques_typed_def
proof
  fix x
  show "rel_option (\<lambda>d n. wf_deque c d \<and> elen d \<le> n) (m x) (\<Gamma> x)"
  proof (cases "\<Gamma> x")
    case None
    then show ?thesis using arena_None[OF a has_env_None[OF h None]] by simp
  next
    case (Some n)
    obtain xs g where xs: "fst s x = Some (xs, g)" "length xs \<le> n" by (rule has_env_Some[OF h Some])
    obtain d where "m x = Some d" "holds c os_ok owned d w xs" by (rule arena_Some[OF a xs(1)])
    then show ?thesis using Some xs(2) rep_wf rep_len holds_rep by fastforce
  qed
qed

context deque_env
begin

lemma typed_program_runs:
  assumes start: "os_ok (os w)" "\<And>v. val_ok c v" "fits c (2 * N)" and t: "program_type (needs_drop c) N ks Map.empty = Some \<Gamma>"
  shows "(\<exists>p. run c ks (Map.empty, w) = panic p) \<or>
    (\<exists>m w'. run c ks (Map.empty, w) = Inr (m, w') \<and> deques_typed c \<Gamma> m \<and>
       owned (os w') = owned (os w) \<union> (\<Union>d \<in> ran m. regions c (buf d)))"
proof -
  have a: "arena c os_ok owned (owned (os w)) (Map.empty, dropped w) (Map.empty, w)" by (rule arena_start) (rule start(1))
  have t: "progress_typed \<Gamma> (play (needs_drop c) N ks (Map.empty, dropped w))"
    by (rule program_type_sound[OF _ t]) (simp add: has_env_def)
  from run_refines[OF a start(2,3), of ks, unfolded progress_outcome_def] show ?thesis
  proof (elim disjE exE conjE)
    assume r: "case play (needs_drop c) N ks (Map.empty, dropped w) of
        Continue s \<Rightarrow> \<exists>st. run c ks (Map.empty, w) = Inr st \<and> arena c os_ok owned (owned (os w)) s st
      | Abort p \<Rightarrow> run c ks (Map.empty, w) = panic p | Undetermined \<Rightarrow> True"
    show ?thesis
    proof (cases "play (needs_drop c) N ks (Map.empty, dropped w)")
      case (Continue s)
      then obtain m w' where 1: "run c ks (Map.empty, w) = Inr (m, w')" "arena c os_ok owned (owned (os w)) s (m, w')"
        using r by auto
      then show ?thesis using arena_typed[OF 1(2)] t Continue by (auto simp: arena_def)
    qed (use r t in auto)
  qed blast
qed

end

end
