(* ===== verification/Unit_Tests.thy ===== *)
theory Unit_Tests
  imports Scripts
begin

text \<open>
  The unit tests of \<open>src/lib.rs\<close> on integers, in the order of the file, and the sanitizer run
  \<open>san/src/main.rs\<close>. A variable that shadows another gets a prime; a temporary is dropped where its
  statement ends; \<open>collect\<close> into a \<open>Vec\<close> that is compared with one is the sequence of items. An
  \<open>unwrap\<close> inside an assertion is part of the assertion. Tests of what \<open>Drop\<close> counts let the element
  be its own counter.
\<close>

subsection \<open>The basic interface\<close>

definition test_get :: "int cmd list" where
  "test_get = block
     [Make ''deq'' New,
      Do ''deq'' (Push_Back 3),
      Do ''deq'' (Push_Back 4),
      Do ''deq'' (Push_Back 5),
      Assert ''deq'' (Get 1 (Some 4))]"

definition test_get_mut :: "int cmd list" where
  "test_get_mut = block
     [Make ''deq'' New,
      Do ''deq'' (Push_Back 3),
      Do ''deq'' (Push_Back 4),
      Do ''deq'' (Push_Back 5),
      Assert ''deq'' (Get 1 (Some 4)),
      Do ''deq'' (Assign_If 1 7),
      Assert ''deq'' (Index 1 7)]"

definition test_is_empty :: "int cmd list" where
  "test_is_empty = block
     [Make ''deq'' New,
      Assert ''deq'' (Is_Empty True),
      Do ''deq'' (Push_Back 4),
      Assert ''deq'' (Is_Empty False),
      Do ''deq'' Discard_Front,
      Assert ''deq'' (Is_Empty True)]"

definition test_default :: "int cmd list" where
  "test_default = block
     [Make ''d'' Default,
      Make ''r'' New,
      Assert_Eq ''d'' ''r'' True]"

definition test_iter :: "int cmd list" where
  "test_iter = block
     [Make ''deq'' New,
      Do ''deq'' (Push_Back 5),
      Do ''deq'' (Push_Back 3),
      Do ''deq'' (Push_Back 4),
      Assert ''deq'' (Iter_Calls (gives [5, 3, 4]))]"

definition test_iter_mut :: "int cmd list" where
  "test_iter_mut = block
     [Make ''deq'' New,
      Do ''deq'' (Push_Back 5),
      Do ''deq'' (Push_Back 3),
      Do ''deq'' (Push_Back 4),
      Do ''deq'' (For_Each_Mut (\<lambda>num. num - 2)),
      Assert ''deq'' (Iter_Calls (gives [3, 1, 2]))]"

definition int_cmp :: "int \<Rightarrow> int \<Rightarrow> ordering option" where
  "int_cmp x y = Some (if x < y then Less else if x = y then Equal else Greater)"

abbreviation Assert_Lt :: "string \<Rightarrow> string \<Rightarrow> int cmd" where
  "Assert_Lt x y \<equiv> Assert_Cmp x y int_cmp (\<lambda>r. r = Some Less)"

abbreviation Assert_Gt :: "string \<Rightarrow> string \<Rightarrow> int cmd" where
  "Assert_Gt x y \<equiv> Assert_Cmp x y int_cmp (\<lambda>r. r = Some Greater)"

definition test_partial_ord_eq :: "int cmd list" where
  "test_partial_ord_eq = block
     [Make ''a'' New,
      Do ''a'' (Push_Back 1),
      Do ''a'' (Push_Back 2),
      Do ''a'' (Push_Back 3),
      Assert_Eq ''a'' ''a'' True,
      Assert_Eq ''a'' ''a'' True,
      Make ''b'' New,
      Do ''b'' (Push_Back 1),
      Do ''b'' (Push_Back 3),
      Do ''b'' (Push_Back 2),
      Assert_Lt ''a'' ''b'',
      Assert_Gt ''b'' ''a'',
      Assert_Eq ''a'' ''b'' False,
      Make ''c'' New,
      Do ''c'' (Push_Back 2),
      Assert_Gt ''c'' ''a'',
      Assert_Lt ''a'' ''c'']"

subsection \<open>The tests taken over from \<open>Vec\<close>\<close>

definition test_vec_double_drop :: "int cmd list" where
  "test_vec_double_drop = block
     [Make ''tv.x'' New,
      Make ''tv.y'' New,
      Do ''tv.x'' (Push_Back 0),
      Do ''tv.y'' (Push_Back 1),
      Drop ''tv.x''] @
     [Assert_Dropped ((=) 0) 1,
      Assert_Dropped ((=) 1) 1]"

text \<open>From the first \<open>reserve\<close> on; the capacity 0 before it is in the definition of \<open>new\<close>.\<close>

definition test_vec_reserve :: "int cmd list" where
  "test_vec_reserve = block (
     [Make ''v'' New,
      Do ''v'' (Reserve_More 2),
      Assert ''v'' (Capacity_At_Least 2)] @
     for_range 0 16 (\<lambda>i. [Do ''v'' (Push_Back (int i))]) @
     [Assert ''v'' (Capacity_At_Least 16),
      Do ''v'' (Reserve_More 16),
      Assert ''v'' (Capacity_At_Least 32),
      Do ''v'' (Push_Back 16),
      Do ''v'' (Reserve_More 16),
      Assert ''v'' (Capacity_At_Least 33)])"

definition test_vec_extend :: "int cmd list" where
  "test_vec_extend = block (
     [Make ''v'' New,
      Make ''w'' New,
      Let_Clone ''w.clone'' ''w'',
      Extend_Moved ''v'' ''w.clone'',
      Assert ''v'' (Equals []),
      Do ''v'' (Extend_Items [0..2])] @
     for_range 0 3 (\<lambda>i. [Do ''w'' (Push_Back (int i))]) @
     [Assert_Eq ''v'' ''w'' True,
      Do ''v'' (Extend_Items [3..9])] @
     for_range 3 10 (\<lambda>i. [Do ''w'' (Push_Back (int i))]) @
     [Assert_Eq ''v'' ''w'' True,
      Let_Clone ''w.clone'' ''w'',
      Extend_Moved ''v'' ''w.clone'',
      Assert ''w'' (Iter_Calls (gives [0..9])),
      Assert ''v'' (Iter_Calls (gives ([0..9] @ [0..9])))])"

definition test_vec_extend_double_drop :: "int cmd list" where
  "test_vec_extend_double_drop = block
     [Make ''x'' New,
      Make ''y'' New,
      Do ''y'' (Push_Back 0),
      Extend_Moved ''x'' ''y''] @
     [Assert_Dropped (\<lambda>_. True) 1]"

definition test_vec_extend_ref :: "int cmd list" where
  "test_vec_extend_ref = block
     [Make ''v'' New,
      Do ''v'' (Push_Back 1),
      Do ''v'' (Push_Back 2),
      Do ''v'' (Extend_Copies [3, 4, 5]),
      Assert ''v'' (Len 5),
      Assert ''v'' (Equals [1, 2, 3, 4, 5]),
      Make ''w'' New,
      Do ''w'' (Push_Back 6),
      Do ''w'' (Push_Back 7),
      Extend_Refs ''v'' ''w'',
      Assert ''v'' (Len 7),
      Assert ''v'' (Equals [1, 2, 3, 4, 5, 6, 7])]"

definition test_vec_slice_from_mut :: "int cmd list" where
  "test_vec_slice_from_mut = block
     [Make ''values'' (Sdeq [1, 2, 3, 4, 5]),
      Assert ''values'' (Slice_Is 2 5 [3, 4, 5]),
      Do ''values'' (For_Each_Slice 2 5 (\<lambda>p. p + 2)),
      Assert ''values'' (Equals [1, 2, 5, 6, 7])]"

definition test_vec_slice_to_mut :: "int cmd list" where
  "test_vec_slice_to_mut = block
     [Make ''values'' (Sdeq [1, 2, 3, 4, 5]),
      Assert ''values'' (Slice_Is 0 2 [1, 2]),
      Do ''values'' (For_Each_Slice 0 2 (\<lambda>p. p + 1)),
      Assert ''values'' (Equals [2, 3, 3, 4, 5])]"

definition test_vec_split_at_mut :: "int cmd list" where
  "test_vec_split_at_mut = block
     [Make ''values'' (Sdeq [1, 2, 3, 4, 5]),
      Assert ''values'' (Slice_Is 0 2 [1, 2]),
      Do ''values'' (For_Each_Slice 0 2 (\<lambda>p. p + 1)),
      Assert ''values'' (Slice_Is 2 5 [3, 4, 5]),
      Do ''values'' (For_Each_Slice 2 5 (\<lambda>p. p + 2)),
      Assert ''values'' (Equals [2, 3, 5, 6, 7])]"

text \<open>Without the last line, which compares addresses.\<close>

definition test_vec_clone :: "int cmd list" where
  "test_vec_clone = block
     [Make ''v'' (Sdeq []),
      Make ''w'' (Sdeq [1, 2, 3]),
      Let_Clone ''v.clone'' ''v'',
      Assert_Eq ''v'' ''v.clone'' True,
      Drop ''v.clone'',
      Let_Clone ''z'' ''w'',
      Assert_Eq ''w'' ''z'' True]"

definition test_vec_retain :: "int cmd list" where
  "test_vec_retain = block
     [Make ''deq'' (Sdeq [1, 2, 3, 4]),
      Do ''deq'' (Retain_If (\<lambda>x. x mod 2 = 0)),
      Assert ''deq'' (Equals [2, 4])]"

definition test_vec_dedup :: "int cmd list" where
  "test_vec_dedup =
     (let test_case = \<lambda>a b. block
        [Make ''a'' (Sdeq a),
         Make ''b'' (Sdeq b),
         Do ''a'' (Dedup_Equal (=)),
         Assert_Eq ''a'' ''b'' True] in
      test_case [] [] @
      test_case [1] [1] @
      test_case [1, 1] [1] @
      test_case [1, 2, 3] [1, 2, 3] @
      test_case [1, 1, 2, 3] [1, 2, 3] @
      test_case [1, 2, 2, 3] [1, 2, 3] @
      test_case [1, 2, 3, 3] [1, 2, 3] @
      test_case [1, 1, 2, 2, 2, 3, 3] [1, 2, 3])"

definition test_vec_dedup_by_key :: "int cmd list" where
  "test_vec_dedup_by_key =
     (let test_case = \<lambda>a b. block
        [Make ''a'' (Sdeq a),
         Make ''b'' (Sdeq b),
         Do ''a'' (Dedup_By_Key (\<lambda>i. i div 10)),
         Assert_Eq ''a'' ''b'' True] in
      test_case [] [] @
      test_case [10] [10] @
      test_case [10, 11] [10] @
      test_case [10, 20, 30] [10, 20, 30] @
      test_case [10, 11, 20, 30] [10, 20, 30] @
      test_case [10, 20, 21, 30] [10, 20, 30] @
      test_case [10, 20, 30, 31] [10, 20, 30] @
      test_case [10, 11, 20, 21, 22, 30, 31] [10, 20, 30])"

definition test_vec_dedup_unique :: "int cmd list" where
  "test_vec_dedup_unique = block
     [Make ''v0'' (Sdeq [1, 1, 2, 3]),
      Do ''v0'' (Dedup_Equal (=)),
      Make ''v1'' (Sdeq [1, 2, 2, 3]),
      Do ''v1'' (Dedup_Equal (=)),
      Make ''v2'' (Sdeq [1, 2, 3, 3]),
      Do ''v2'' (Dedup_Equal (=))]"

definition test_vec_truncate_drop :: "int cmd list" where
  "test_vec_truncate_drop = block
     [Make ''v'' (Sdeq [1, 2, 3, 4, 5]),
      Assert_Dropped (\<lambda>_. True) 0,
      Do ''v'' (Truncate_To 3),
      Assert_Dropped (\<lambda>_. True) 2,
      Do ''v'' (Truncate_To 0),
      Assert_Dropped (\<lambda>_. True) 5]"

definition test_vec_truncate_front_drop :: "int cmd list" where
  "test_vec_truncate_front_drop = block
     [Make ''v'' (Sdeq [1, 2, 3, 4, 5]),
      Assert_Dropped (\<lambda>_. True) 0,
      Do ''v'' (Truncate_Front_To 3),
      Assert_Dropped (\<lambda>_. True) 2,
      Do ''v'' (Truncate_Front_To 0),
      Assert_Dropped (\<lambda>_. True) 5]"

definition test_vec_index :: "int cmd list" where
  "test_vec_index = block
     [Make ''deq'' (Sdeq [1, 2, 3]),
      Assert ''deq'' (Index 1 2)]"

definition test_vec_swap_remove_empty :: "int cmd list" where
  "test_vec_swap_remove_empty = block
     [Make ''deq'' New,
      Do ''deq'' (Swap_Remove_Back 0 None)]"

definition test_vec_move_items :: "int cmd list" where
  "test_vec_move_items = block
     [Make ''deq'' (Sdeq [1, 2, 3]),
      Make ''deq2'' (Sdeq []),
      Move_Items ''deq'' ''deq2'' False,
      Assert ''deq2'' (Equals [1, 2, 3])]"

definition test_vec_move_items_reverse :: "int cmd list" where
  "test_vec_move_items_reverse = block
     [Make ''deq'' (Sdeq [1, 2, 3]),
      Make ''deq2'' (Sdeq []),
      Move_Items ''deq'' ''deq2'' True,
      Assert ''deq2'' (Equals [3, 2, 1])]"

definition test_vec_drain_items :: "int cmd list" where
  "test_vec_drain_items = block
     [Make ''deq'' (Sdeq [1, 2, 3]),
      Make ''deq2'' (Sdeq []),
      Drain_Items ''deq'' ''deq2'' Unbounded Unbounded False,
      Assert ''deq'' (Equals []),
      Assert ''deq2'' (Equals [1, 2, 3])]"

definition test_vec_drain_items_reverse :: "int cmd list" where
  "test_vec_drain_items_reverse = block
     [Make ''deq'' (Sdeq [1, 2, 3]),
      Make ''deq2'' (Sdeq []),
      Drain_Items ''deq'' ''deq2'' Unbounded Unbounded True,
      Assert ''deq'' (Equals []),
      Assert ''deq2'' (Equals [3, 2, 1])]"

definition test_vec_append :: "int cmd list" where
  "test_vec_append = block
     [Make ''deq'' (Sdeq [1, 2, 3]),
      Make ''deq2'' (Sdeq [4, 5, 6]),
      Append_All ''deq'' ''deq2'',
      Assert ''deq'' (Equals [1, 2, 3, 4, 5, 6]),
      Assert ''deq2'' (Equals [])]"

definition test_vec_split_off :: "int cmd list" where
  "test_vec_split_off = block
     [Make ''deq'' (Sdeq [1, 2, 3, 4, 5, 6]),
      Let_Split_Off ''deq2'' ''deq'' 4,
      Assert ''deq'' (Equals [1, 2, 3, 4]),
      Assert ''deq2'' (Equals [5, 6])]"

text \<open>\<open>count\<close> of the consuming iterator is its size hint.\<close>

definition test_vec_into_iter_count :: "int cmd list" where
  "test_vec_into_iter_count = block
     [Make ''deq'' (Sdeq [1, 2, 3]),
      Iterate ''deq'' [Hint 3]]"

text \<open>The deque a splice is collected into is only compared: the sequence of items again.\<close>

definition test_vec_splice_unbounded :: "int cmd list" where
  "test_vec_splice_unbounded = block
     [Make ''deq'' (Sdeq [1, 2, 3, 4, 5]),
      Do ''deq'' (Splice_Range Unbounded Unbounded [] (gives [1, 2, 3, 4, 5])),
      Assert ''deq'' (Equals [])]"

definition test_vec_splice_forget :: "int cmd list" where
  "test_vec_splice_forget = block
     [Make ''v'' (Sdeq [1, 2, 3, 4, 5]),
      Do ''v'' (Forget_Splice (Included 2) (Excluded 4) [10, 11, 12]),
      Assert ''v'' (Equals [1, 2])]"

subsection \<open>\<open>drain_filter\<close>\<close>

definition test_drain_filter_empty :: "int cmd list" where
  "test_drain_filter_empty = block
     [Make ''deq'' (Sdeq []),
      Do ''deq'' (Drain_Filter_If (\<lambda>_. True) [Upper 0, Next_Match None, Upper 0, Next_Match None, Upper 0]),
      Assert ''deq'' (Len 0),
      Make ''empty'' (Sdeq []),
      Assert_Eq ''deq'' ''empty'' True]"

text \<open>The loops over the iterator are unrolled: \<open>count\<close> is the number of items given.\<close>

definition test_drain_filter_false :: "int cmd list" where
  "test_drain_filter_false = block
     [Make ''deq'' (Sdeq [1, 2, 3, 4, 5, 6, 7, 8, 9, 10]),
      Assert ''deq'' (Len 10),
      Do ''deq'' (Drain_Filter_If (\<lambda>_. False) [Upper 10, Next_Match None, Upper 0, Next_Match None, Upper 0]),
      Assert ''deq'' (Len 10),
      Make ''full'' (Sdeq [1, 2, 3, 4, 5, 6, 7, 8, 9, 10]),
      Assert_Eq ''deq'' ''full'' True]"

definition test_drain_filter_true :: "int cmd list" where
  "test_drain_filter_true = block
     [Make ''deq'' (Sdeq [1, 2, 3, 4, 5, 6, 7, 8, 9, 10]),
      Assert ''deq'' (Len 10),
      Do ''deq'' (Drain_Filter_If (\<lambda>_. True)
        ([Upper 10] @
         concat (map (\<lambda>count. [Next_Match (Some count), Upper (10 - nat count)]) [1..10]) @
         [Next_Match None, Upper 0, Next_Match None, Upper 0])),
      Assert ''deq'' (Len 0),
      Make ''empty'' (Sdeq []),
      Assert_Eq ''deq'' ''empty'' True]"

text \<open>The removed items are compared as they come instead of being collected first.\<close>

definition test_drain_filter_complex :: "int cmd list" where
  "test_drain_filter_complex =
     (let test_case = \<lambda>deq removed kept. block
        [Make ''deq'' (Sdeq deq),
         Do ''deq'' (Drain_Filter_If (\<lambda>x. x mod 2 = 0) (map (\<lambda>x. Next_Match (Some x)) removed @ [Next_Match None])),
         Assert ''deq'' (Len (length kept)),
         Make ''kept'' (Sdeq kept),
         Assert_Eq ''deq'' ''kept'' True] in
      test_case
        [1, 2, 4, 6, 7, 9, 11, 13, 15, 17, 18, 20, 22, 24, 26, 27, 29, 31, 33, 34, 35, 36, 37, 39]
        [2, 4, 6, 18, 20, 22, 24, 26, 34, 36]
        [1, 7, 9, 11, 13, 15, 17, 27, 29, 31, 33, 35, 37, 39] @
      test_case
        [2, 4, 6, 7, 9, 11, 13, 15, 17, 18, 20, 22, 24, 26, 27, 29, 31, 33, 34, 35, 36, 37, 39]
        [2, 4, 6, 18, 20, 22, 24, 26, 34, 36]
        [7, 9, 11, 13, 15, 17, 27, 29, 31, 33, 35, 37, 39] @
      test_case
        [2, 4, 6, 7, 9, 11, 13, 15, 17, 18, 20, 22, 24, 26, 27, 29, 31, 33, 34, 35, 36]
        [2, 4, 6, 18, 20, 22, 24, 26, 34, 36]
        [7, 9, 11, 13, 15, 17, 27, 29, 31, 33, 35] @
      test_case
        [2, 4, 6, 8, 10, 12, 14, 16, 18, 20, 1, 3, 5, 7, 9, 11, 13, 15, 17, 19]
        [2, 4, 6, 8, 10, 12, 14, 16, 18, 20]
        [1, 3, 5, 7, 9, 11, 13, 15, 17, 19] @
      test_case
        [1, 3, 5, 7, 9, 11, 13, 15, 17, 19, 2, 4, 6, 8, 10, 12, 14, 16, 18, 20]
        [2, 4, 6, 8, 10, 12, 14, 16, 18, 20]
        [1, 3, 5, 7, 9, 11, 13, 15, 17, 19])"

subsection \<open>The tests taken over from \<open>VecDeque\<close>\<close>

definition test_vecdeque_simple :: "int cmd list" where
  "test_vecdeque_simple = block
     [Make ''d'' New,
      Assert ''d'' (Len 0),
      Do ''d'' (Push_Front 17),
      Do ''d'' (Push_Front 42),
      Do ''d'' (Push_Back 137),
      Assert ''d'' (Len 3),
      Do ''d'' (Push_Back 137),
      Assert ''d'' (Len 4),
      Assert ''d'' (Front (Some 42)),
      Assert ''d'' (Back (Some 137)),
      Do ''d'' (Pop_Front (Some 42)),
      Do ''d'' (Pop_Back (Some 137)),
      Do ''d'' (Pop_Back (Some 137)),
      Do ''d'' (Pop_Back (Some 17)),
      Assert ''d'' (Len 0),
      Do ''d'' (Push_Back 3),
      Assert ''d'' (Len 1),
      Do ''d'' (Push_Front 2),
      Assert ''d'' (Len 2),
      Do ''d'' (Push_Back 4),
      Assert ''d'' (Len 3),
      Do ''d'' (Push_Front 1),
      Assert ''d'' (Len 4),
      Assert ''d'' (Index 0 1),
      Assert ''d'' (Index 1 2),
      Assert ''d'' (Index 2 3),
      Assert ''d'' (Index 3 4)]"

definition test_vecdeque_push_front_grow :: "int cmd list" where
  "test_vecdeque_push_front_grow = block (
     [Make ''deq'' New] @
     for_range 0 66 (\<lambda>i. [Do ''deq'' (Push_Front (int i))]) @
     [Assert ''deq'' (Len 66)] @
     for_range 0 66 (\<lambda>i. [Assert ''deq'' (Index i (65 - int i))]) @
     [Make ''deq1'' New] @
     for_range 0 66 (\<lambda>i. [Do ''deq1'' (Push_Back (int i))]) @
     for_range 0 66 (\<lambda>i. [Assert ''deq1'' (Index i (int i))]))"

definition test_vecdeque_index :: "int cmd list" where
  "test_vecdeque_index = block (
     [Make ''deq'' New] @
     for_range 1 4 (\<lambda>i. [Do ''deq'' (Push_Front (int i))]) @
     [Assert ''deq'' (Index 1 2)])"

definition test_vecdeque_with_capacity :: "int cmd list" where
  "test_vecdeque_with_capacity = block
     [Make ''d'' (With_Capacity 0),
      Do ''d'' (Push_Back 1),
      Assert ''d'' (Len 1),
      Make ''d1'' (With_Capacity 50),
      Do ''d1'' (Push_Back 1),
      Assert ''d1'' (Len 1)]"

definition test_vecdeque_with_capacity_non_power_two :: "int cmd list" where
  "test_vecdeque_with_capacity_non_power_two = block
     [Make ''d3'' (With_Capacity 3),
      Do ''d3'' (Push_Back 1),
      Do ''d3'' (Pop_Front (Some 1)),
      Assert ''d3'' (Front None),
      Do ''d3'' (Push_Back 3),
      Do ''d3'' (Push_Back 6),
      Do ''d3'' (Pop_Front (Some 3)),
      Do ''d3'' (Push_Back 9),
      Do ''d3'' (Push_Back 12),
      Do ''d3'' (Push_Back 15),
      Do ''d3'' (Pop_Front (Some 6)),
      Assert ''d3'' (Front (Some 9))]"

definition test_vecdeque_reserve_exact :: "int cmd list" where
  "test_vecdeque_reserve_exact = block
     [Make ''d'' New,
      Do ''d'' (Push_Back 0),
      Do ''d'' (Reserve_Exactly 50),
      Assert ''d'' (Capacity_At_Least 51)]"

definition test_vecdeque_reserve :: "int cmd list" where
  "test_vecdeque_reserve = block
     [Make ''d'' New,
      Do ''d'' (Push_Back 0),
      Do ''d'' (Reserve_More 50),
      Assert ''d'' (Capacity_At_Least 51)]"

definition test_vecdeque_swap :: "int cmd list" where
  "test_vecdeque_swap = block
     [Make ''d'' (Collect [0..4]),
      Do ''d'' Discard_Front,
      Do ''d'' (Swap_Slots 0 3),
      Assert ''d'' (Iter_Calls (gives [4, 2, 3, 1]))]"

definition test_vecdeque_iter :: "int cmd list" where
  "test_vecdeque_iter = block (
     [Make ''d'' New,
      Assert ''d'' (Iter_Calls [Next None]),
      Assert ''d'' (Iter_Calls [Hint 0])] @
     for_range 0 5 (\<lambda>i. [Do ''d'' (Push_Back (int i))]) @
     [Assert ''d'' (Iter_Calls (gives [0, 1, 2, 3, 4]))] @
     for_range 6 9 (\<lambda>i. [Do ''d'' (Push_Front (int i))]) @
     [Assert ''d'' (Iter_Calls (gives [8, 7, 6, 0, 1, 2, 3, 4])),
      Assert ''d'' (Len 8),
      Assert ''d'' (Iter_Calls
        [Next (Some 8), Hint 7, Next (Some 7), Hint 6, Next (Some 6), Hint 5, Next (Some 0), Hint 4,
         Next (Some 1), Hint 3, Next (Some 2), Hint 2, Next (Some 3), Hint 1, Next (Some 4), Hint 0, Next None])])"

definition test_vecdeque_rev_iter :: "int cmd list" where
  "test_vecdeque_rev_iter = block (
     [Make ''d'' New,
      Assert ''d'' (Iter_Calls [Next_Back None])] @
     for_range 0 5 (\<lambda>i. [Do ''d'' (Push_Back (int i))]) @
     [Assert ''d'' (Iter_Calls (gives_back [4, 3, 2, 1, 0]))] @
     for_range 6 9 (\<lambda>i. [Do ''d'' (Push_Front (int i))]) @
     [Assert ''d'' (Iter_Calls (gives_back [4, 3, 2, 1, 0, 6, 7, 8]))])"

definition test_vecdeque_mut_rev_iter_wrap :: "int cmd list" where
  "test_vecdeque_mut_rev_iter_wrap = block
     [Make ''d'' (With_Capacity 3),
      Assert ''d'' (Iter_Calls [Next_Back None]),
      Do ''d'' (Push_Back 1),
      Do ''d'' (Push_Back 2),
      Do ''d'' (Push_Back 3),
      Do ''d'' (Pop_Front (Some 1)),
      Do ''d'' (Push_Back 4),
      Assert ''d'' (Iter_Calls (gives_back [4, 3, 2]))]"

definition test_vecdeque_mut_iter :: "int cmd list" where
  "test_vecdeque_mut_iter = block (
     [Make ''d'' New,
      Assert ''d'' (Iter_Calls [Next None])] @
     for_range 0 3 (\<lambda>i. [Do ''d'' (Push_Front (int i))]) @
     for_range 0 3 (\<lambda>i. [Assert ''d'' (Get i (Some (2 - int i))), Do ''d'' (Assign i (int i))]) @
     [Assert ''d'' (Iter_Calls [Next (Some 0), Next (Some 1), Next (Some 2), Next None])])"

definition test_vecdeque_mut_rev_iter :: "int cmd list" where
  "test_vecdeque_mut_rev_iter = block (
     [Make ''d'' New,
      Assert ''d'' (Iter_Calls [Next_Back None])] @
     for_range 0 3 (\<lambda>i. [Do ''d'' (Push_Front (int i))]) @
     for_range 0 3 (\<lambda>i. [Assert ''d'' (Get (2 - i) (Some (int i))), Do ''d'' (Assign (2 - i) (int i))]) @
     [Assert ''d'' (Iter_Calls [Next_Back (Some 0), Next_Back (Some 1), Next_Back (Some 2), Next_Back None])])"

definition test_vecdeque_into_iter :: "int cmd list" where
  "test_vecdeque_into_iter =
     block
       [Make ''d'' New,
        Iterate ''d'' [Hint 0, Next None, Hint 0]] @
     block (
       [Make ''d'' New] @
       for_range 0 5 (\<lambda>i. [Do ''d'' (Push_Back (int i))]) @
       [Iterate ''d'' (gives [0, 1, 2, 3, 4])]) @
     block (
       [Make ''d'' New] @
       for_range 0 5 (\<lambda>i. [Do ''d'' (Push_Back (int i))]) @
       for_range 6 9 (\<lambda>i. [Do ''d'' (Push_Front (int i))]) @
       [Iterate ''d'' (gives [8, 7, 6, 0, 1, 2, 3, 4])]) @
     block (
       [Make ''d'' New] @
       for_range 0 5 (\<lambda>i. [Do ''d'' (Push_Back (int i))]) @
       for_range 6 9 (\<lambda>i. [Do ''d'' (Push_Front (int i))]) @
       [Iterate ''d'' [Hint 8, Next (Some 8), Hint 7, Next_Back (Some 4), Hint 6, Next (Some 7), Hint 5]])"

definition test_vecdeque_drain :: "int cmd list" where
  "test_vecdeque_drain =
     block
       [Make ''d'' New,
        Do ''d'' (Drain_Range Unbounded Unbounded [Hint 0, Next None, Hint 0]),
        Assert ''d'' (Is_Empty True)] @
     block (
       [Make ''d'' New] @
       for_range 0 5 (\<lambda>i. [Do ''d'' (Push_Back (int i))]) @
       [Do ''d'' (Drain_Range Unbounded Unbounded (gives [0, 1, 2, 3, 4])),
        Assert ''d'' (Is_Empty True)]) @
     block (
       [Make ''d'' New] @
       for_range 0 5 (\<lambda>i. [Do ''d'' (Push_Back (int i))]) @
       for_range 6 9 (\<lambda>i. [Do ''d'' (Push_Front (int i))]) @
       [Do ''d'' (Drain_Range Unbounded Unbounded (gives [8, 7, 6, 0, 1, 2, 3, 4])),
        Assert ''d'' (Is_Empty True)]) @
     block (
       [Make ''d'' New] @
       for_range 0 5 (\<lambda>i. [Do ''d'' (Push_Back (int i))]) @
       for_range 6 9 (\<lambda>i. [Do ''d'' (Push_Front (int i))]) @
       [Do ''d'' (Drain_Range Unbounded Unbounded
          [Hint 8, Next (Some 8), Hint 7, Next_Back (Some 4), Hint 6, Next (Some 7), Hint 5]),
        Assert ''d'' (Is_Empty True)])"

definition test_vecdeque_from_iter :: "int cmd list" where
  "test_vecdeque_from_iter = block
     [Make ''deq'' (Collect [1, 2, 3, 4, 5, 6, 7]),
      Assert ''deq'' (Iter_Calls (gives [1, 2, 3, 4, 5, 6, 7])),
      Make ''deq1'' (Collect (map (\<lambda>i. 2 * int i) [0..<256])),
      Assert ''deq1'' (Iter_Calls (gives (map (\<lambda>i. 2 * int i) [0..<256]))),
      Assert ''deq1'' (Len 256)]"

text \<open>The loop runs until \<open>d\<close> is empty; \<open>e\<close> has to give what \<open>d\<close> gives.\<close>

definition test_vecdeque_clone :: "int cmd list" where
  "test_vecdeque_clone = block (
     [Make ''d'' New,
      Do ''d'' (Push_Front 17),
      Do ''d'' (Push_Front 42),
      Do ''d'' (Push_Back 137),
      Do ''d'' (Push_Back 137),
      Assert ''d'' (Len 4),
      Let_Clone ''e'' ''d'',
      Assert ''e'' (Len 4)] @
     concat (map (\<lambda>v.
       [Assert ''d'' (Is_Empty False),
        Do ''d'' (Pop_Back (Some v)),
        Do ''e'' (Pop_Back (Some v))]) [137, 137, 17, 42]) @
     [Assert ''d'' (Is_Empty True),
      Assert ''d'' (Len 0),
      Assert ''e'' (Len 0)])"

definition test_vecdeque_eq :: "int cmd list" where
  "test_vecdeque_eq = block
     [Make ''d'' New,
      Make ''other'' (With_Capacity 0),
      Assert_Eq ''d'' ''other'' True,
      Drop ''other'',
      Do ''d'' (Push_Front 137),
      Do ''d'' (Push_Front 17),
      Do ''d'' (Push_Front 42),
      Do ''d'' (Push_Back 137),
      Make ''e'' (With_Capacity 0),
      Do ''e'' (Push_Back 42),
      Do ''e'' (Push_Back 17),
      Do ''e'' (Push_Back 137),
      Do ''e'' (Push_Back 137),
      Assert_Eq ''e'' ''d'' True,
      Do ''e'' Discard_Back,
      Do ''e'' (Push_Back 0),
      Assert_Eq ''e'' ''d'' False,
      Do ''e'' Clear_All,
      Make ''other'' New,
      Assert_Eq ''e'' ''other'' True,
      Drop ''other'']"

definition test_vecdeque_ord :: "int cmd list" where
  "test_vecdeque_ord = block
     [Make ''x'' New,
      Make ''y'' New,
      Do ''y'' (Push_Back 1),
      Do ''y'' (Push_Back 2),
      Do ''y'' (Push_Back 3),
      Assert_Lt ''x'' ''y'',
      Assert_Gt ''y'' ''x'',
      Assert_Cmp ''x'' ''x'' int_cmp (\<lambda>r. r = Some Less \<or> r = Some Equal),
      Assert_Cmp ''x'' ''x'' int_cmp (\<lambda>r. r = Some Greater \<or> r = Some Equal)]"

definition test_vecdeque_drop :: "int cmd list" where
  "test_vecdeque_drop = block
     [Make ''ring'' New,
      Do ''ring'' (Push_Back 0),
      Do ''ring'' (Push_Front 1),
      Do ''ring'' (Push_Back 2),
      Do ''ring'' (Push_Front 3),
      Drop ''ring'',
      Assert_Dropped (\<lambda>_. True) 4]"

definition test_vecdeque_drop_with_pop :: "int cmd list" where
  "test_vecdeque_drop_with_pop = block
     [Make ''ring'' New,
      Do ''ring'' (Push_Back 0),
      Do ''ring'' (Push_Front 0),
      Do ''ring'' (Push_Back 0),
      Do ''ring'' (Push_Front 0),
      Do ''ring'' Discard_Back,
      Do ''ring'' Discard_Front,
      Assert_Dropped (\<lambda>_. True) 2,
      Drop ''ring'',
      Assert_Dropped (\<lambda>_. True) 4]"

definition test_vecdeque_drop_clear :: "int cmd list" where
  "test_vecdeque_drop_clear = block
     [Make ''ring'' New,
      Do ''ring'' (Push_Back 0),
      Do ''ring'' (Push_Front 0),
      Do ''ring'' (Push_Back 0),
      Do ''ring'' (Push_Front 0),
      Do ''ring'' Clear_All,
      Assert_Dropped (\<lambda>_. True) 4,
      Drop ''ring'',
      Assert_Dropped (\<lambda>_. True) 4]"

definition test_vecdeque_reserve_grow :: "int cmd list" where
  "test_vecdeque_reserve_grow = block (
     [Make ''ring'' (With_Capacity 4)] @
     for_range 0 3 (\<lambda>i. [Do ''ring'' (Push_Back (int i))]) @
     [Do ''ring'' (Reserve_More 7)] @
     for_range 0 3 (\<lambda>i. [Do ''ring'' (Pop_Front (Some (int i)))]) @
     [Make ''ring1'' (With_Capacity 4)] @
     for_range 0 1 (\<lambda>i. [Do ''ring1'' (Push_Back (int i)), Do ''ring1'' (Pop_Front (Some (int i)))]) @
     for_range 0 3 (\<lambda>i. [Do ''ring1'' (Push_Back (int i))]) @
     [Do ''ring1'' (Reserve_More 7)] @
     for_range 0 3 (\<lambda>i. [Do ''ring1'' (Pop_Front (Some (int i)))]) @
     [Make ''ring2'' (With_Capacity 4)] @
     for_range 0 3 (\<lambda>i. [Do ''ring2'' (Push_Back (int i)), Do ''ring2'' (Pop_Front (Some (int i)))]) @
     for_range 0 3 (\<lambda>i. [Do ''ring2'' (Push_Back (int i))]) @
     [Do ''ring2'' (Reserve_More 7)] @
     for_range 0 3 (\<lambda>i. [Do ''ring2'' (Pop_Front (Some (int i)))]))"

definition test_vecdeque_get :: "int cmd list" where
  "test_vecdeque_get = block
     [Make ''ring'' New,
      Do ''ring'' (Push_Back 0),
      Assert ''ring'' (Get 0 (Some 0)),
      Assert ''ring'' (Get 1 None),
      Do ''ring'' (Push_Back 1),
      Assert ''ring'' (Get 0 (Some 0)),
      Assert ''ring'' (Get 1 (Some 1)),
      Assert ''ring'' (Get 2 None),
      Do ''ring'' (Push_Back 2),
      Assert ''ring'' (Get 0 (Some 0)),
      Assert ''ring'' (Get 1 (Some 1)),
      Assert ''ring'' (Get 2 (Some 2)),
      Assert ''ring'' (Get 3 None),
      Do ''ring'' (Pop_Front (Some 0)),
      Assert ''ring'' (Get 0 (Some 1)),
      Assert ''ring'' (Get 1 (Some 2)),
      Assert ''ring'' (Get 2 None),
      Do ''ring'' (Pop_Front (Some 1)),
      Assert ''ring'' (Get 0 (Some 2)),
      Assert ''ring'' (Get 1 None),
      Do ''ring'' (Pop_Front (Some 2)),
      Assert ''ring'' (Get 0 None),
      Assert ''ring'' (Get 1 None)]"

definition test_vecdeque_get_mut :: "int cmd list" where
  "test_vecdeque_get_mut = block (
     [Make ''ring'' New] @
     for_range 0 3 (\<lambda>i. [Do ''ring'' (Push_Back (int i))]) @
     [Do ''ring'' (Assign_If 1 (- 1)),
      Assert ''ring'' (Get 0 (Some 0)),
      Assert ''ring'' (Get 1 (Some (- 1))),
      Assert ''ring'' (Get 2 (Some 2)),
      Assert ''ring'' (Get 3 None),
      Do ''ring'' (Pop_Front (Some 0)),
      Assert ''ring'' (Get 0 (Some (- 1))),
      Assert ''ring'' (Get 1 (Some 2)),
      Assert ''ring'' (Get 2 None)])"

definition test_vecdeque_front :: "int cmd list" where
  "test_vecdeque_front = block
     [Make ''ring'' New,
      Do ''ring'' (Push_Back 10),
      Do ''ring'' (Push_Back 20),
      Assert ''ring'' (Front (Some 10)),
      Do ''ring'' Discard_Front,
      Assert ''ring'' (Front (Some 20)),
      Do ''ring'' Discard_Front,
      Assert ''ring'' (Front None)]"

definition test_vecdeque_append :: "int cmd list" where
  "test_vecdeque_append = block
     [Make ''a'' (Collect [1, 2, 3]),
      Make ''b'' (Collect [4, 5, 6]),
      Append_All ''a'' ''b'',
      Assert ''a'' (Iter_Calls (gives [1, 2, 3, 4, 5, 6])),
      Assert ''b'' (Iter_Calls (gives [])),
      Append_All ''a'' ''b'',
      Assert ''a'' (Iter_Calls (gives [1, 2, 3, 4, 5, 6])),
      Assert ''b'' (Iter_Calls (gives [])),
      Append_All ''b'' ''a'',
      Assert ''b'' (Iter_Calls (gives [1, 2, 3, 4, 5, 6])),
      Assert ''a'' (Iter_Calls (gives []))]"

definition test_vecdeque_retain :: "int cmd list" where
  "test_vecdeque_retain = block
     [Make ''buf'' New,
      Do ''buf'' (Extend_Items [1..4]),
      Do ''buf'' (Retain_If (\<lambda>x. x mod 2 = 0)),
      Iterate ''buf'' (gives [2, 4])]"

definition test_vecdeque_extend_ref :: "int cmd list" where
  "test_vecdeque_extend_ref = block
     [Make ''v'' New,
      Do ''v'' (Push_Back 1),
      Do ''v'' (Extend_Copies [2, 3, 4]),
      Assert ''v'' (Len 4),
      Assert ''v'' (Index 0 1),
      Assert ''v'' (Index 1 2),
      Assert ''v'' (Index 2 3),
      Assert ''v'' (Index 3 4),
      Make ''w'' New,
      Do ''w'' (Push_Back 5),
      Do ''w'' (Push_Back 6),
      Extend_Refs ''v'' ''w'',
      Assert ''v'' (Len 6),
      Assert ''v'' (Index 0 1),
      Assert ''v'' (Index 1 2),
      Assert ''v'' (Index 2 3),
      Assert ''v'' (Index 3 4),
      Assert ''v'' (Index 4 5),
      Assert ''v'' (Index 5 6)]"

definition test_vecdeque_contains :: "int cmd list" where
  "test_vecdeque_contains = block
     [Make ''v'' New,
      Do ''v'' (Extend_Copies [2, 3, 4]),
      Assert ''v'' (Contains 3 True),
      Assert ''v'' (Contains 1 False),
      Do ''v'' Clear_All,
      Assert ''v'' (Contains 3 False)]"

text \<open>\<open>is_empty\<close> of an iterator with an exact size compares its length with zero.\<close>

definition test_vecdeque_is_empty :: "int cmd list" where
  "test_vecdeque_is_empty = block (
     [Make ''v'' New,
      Assert ''v'' (Is_Empty True),
      Assert ''v'' (Iter_Calls [Hint 0]),
      Assert ''v'' (Iter_Calls [Hint 0]),
      Do ''v'' (Extend_Copies [2, 3, 4]),
      Assert ''v'' (Is_Empty False),
      Assert ''v'' (Iter_Calls [Hint 3]),
      Assert ''v'' (Iter_Calls [Hint 3])] @
     for_range 0 3 (\<lambda>i.
       [Do ''v'' (Pop_Front (Some (int i + 2))),
        Assert ''v'' (Is_Empty (i = 2)),
        Assert ''v'' (Len (2 - i)),
        Assert ''v'' (Iter_Calls [Hint (2 - i)]),
        Assert ''v'' (Iter_Calls [Hint (2 - i)])]) @
     [Do ''v'' (Pop_Front None),
      Assert ''v'' (Is_Empty True),
      Assert ''v'' (Iter_Calls [Hint 0]),
      Assert ''v'' (Iter_Calls [Hint 0]),
      Iterate ''v'' [Hint 0]])"

text \<open>How an integer prints with \<open>{:?}\<close>. The half of the test with words is in \<open>Generic_Tests\<close>.\<close>

fun show_nat :: "nat \<Rightarrow> string" where
  "show_nat n = (if n < 10 then [''0123456789'' ! n] else show_nat (n div 10) @ [''0123456789'' ! (n mod 10)])"

definition show_int :: "int \<Rightarrow> string" where
  "show_int i = (if i < 0 then ''-'' @ show_nat (nat (- i)) else show_nat (nat i))"

definition test_vecdeque_show :: "int cmd list" where
  "test_vecdeque_show = block
     [Make ''ringbuf'' (Collect [0..9]),
      Assert ''ringbuf'' (Prints_As show_int ''[0, 1, 2, 3, 4, 5, 6, 7, 8, 9]'')]"

subsection \<open>The sanitizer run\<close>

text \<open>\<open>main\<close> up to the loops that run until the capacity changes.\<close>

definition san_main :: "int cmd list" where
  "san_main = block
     [Make ''deq'' (With_Capacity 10),
      Assert ''deq'' (Capacity_At_Least 10),
      Assert ''deq'' Not_Full,
      Assert ''deq'' (Is_Empty True),
      Assert ''deq'' (Len 0),
      Do ''deq'' (Push_Back 3),
      Assert ''deq'' (Len 1),
      Assert ''deq'' Not_Full,
      Assert ''deq'' (Is_Empty False),
      Make ''deq2'' (Sdeq [4, 5, 6]),
      Append_All ''deq'' ''deq2'',
      Assert ''deq'' (Equals [3, 4, 5, 6]),
      Assert ''deq2'' (Equals []),
      Assert ''deq'' (Front (Some 3)),
      Do ''deq'' (Push_Front 3),
      Assert ''deq'' (Front (Some 3)),
      Do ''deq'' (Assign_Front 2),
      Assert ''deq'' (Front (Some 2)),
      Assert ''deq'' (Back (Some 6)),
      Do ''deq'' (Push_Front 3),
      Assert ''deq'' (Back (Some 6)),
      Do ''deq'' (Assign_Back 3),
      Assert ''deq'' (Back (Some 3)),
      Do ''deq'' (Pop_Front (Some 3)),
      Do ''deq'' (Pop_Front (Some 2)),
      Do ''deq'' (Pop_Front (Some 3)),
      Do ''deq'' (Push_Back 7),
      Assert ''deq'' (Equals [4, 5, 3, 7])]"

subsection \<open>Tests that should panic\<close>

text \<open>\<open>!0\<close> is the largest \<open>usize\<close>. What an index out of bounds would be compared with is irrelevant.\<close>

definition test_vec_index_out_of_bounds :: "int cmd list" where
  "test_vec_index_out_of_bounds = block
     [Make ''deq'' (Sdeq [1, 2, 3]),
      Assert ''deq'' (Index 3 0)]"

definition test_vec_slice_out_of_bounds_1 :: "int cmd list" where
  "test_vec_slice_out_of_bounds_1 = block
     [Make ''x'' (Sdeq [1, 2, 3, 4, 5]),
      Assert ''x'' (Slice_Is (usize_bound - 1) 5 [])]"

definition test_vec_slice_out_of_bounds_2 :: "int cmd list" where
  "test_vec_slice_out_of_bounds_2 = block
     [Make ''x'' (Sdeq [1, 2, 3, 4, 5]),
      Assert ''x'' (Slice_Is 0 6 [])]"

definition test_vec_slice_out_of_bounds_3 :: "int cmd list" where
  "test_vec_slice_out_of_bounds_3 = block
     [Make ''x'' (Sdeq [1, 2, 3, 4, 5]),
      Assert ''x'' (Slice_Is (usize_bound - 1) 4 [])]"

definition test_vec_slice_out_of_bounds_4 :: "int cmd list" where
  "test_vec_slice_out_of_bounds_4 = block
     [Make ''x'' (Sdeq [1, 2, 3, 4, 5]),
      Assert ''x'' (Slice_Is 1 6 [])]"

definition test_vec_slice_out_of_bounds_5 :: "int cmd list" where
  "test_vec_slice_out_of_bounds_5 = block
     [Make ''x'' (Sdeq [1, 2, 3, 4, 5]),
      Assert ''x'' (Slice_Is 3 2 [])]"

definition test_vecdeque_index_out_of_bounds :: "int cmd list" where
  "test_vecdeque_index_out_of_bounds = block (
     [Make ''deq'' New] @
     for_range 1 4 (\<lambda>i. [Do ''deq'' (Push_Front (int i))]) @
     [Assert ''deq'' (Index 3 0)])"

definition test_vec_drain_out_of_bounds :: "int cmd list" where
  "test_vec_drain_out_of_bounds = block
     [Make ''v'' (Sdeq [1, 2, 3, 4, 5]),
      Do ''v'' (Drain_Range (Included 5) (Excluded 6) [])]"

definition test_vec_drain_inclusive_out_of_bounds :: "int cmd list" where
  "test_vec_drain_inclusive_out_of_bounds = block
     [Make ''v'' (Sdeq [1, 2, 3, 4, 5]),
      Do ''v'' (Drain_Range (Included 5) (Included 5) [])]"

definition test_vec_splice_out_of_bounds :: "int cmd list" where
  "test_vec_splice_out_of_bounds = block
     [Make ''v'' (Sdeq [1, 2, 3, 4, 5]),
      Do ''v'' (Splice_Range (Included 5) (Excluded 6) [10, 11, 12] [])]"

definition test_vec_splice_inclusive_out_of_bounds :: "int cmd list" where
  "test_vec_splice_inclusive_out_of_bounds = block
     [Make ''v'' (Sdeq [1, 2, 3, 4, 5]),
      Do ''v'' (Splice_Range (Included 5) (Included 5) [10, 11, 12] [])]"

subsection \<open>The suites\<close>

text \<open>Tests without a range, with a range, tests that count destructor calls, tests that panic.\<close>

definition plain_tests :: "int cmd list list" where
  "plain_tests =
     [test_get, test_get_mut, test_is_empty, test_default, test_iter, test_iter_mut, test_partial_ord_eq,
      test_vec_reserve, test_vec_extend, test_vec_extend_ref, test_vec_slice_from_mut, test_vec_slice_to_mut,
      test_vec_split_at_mut, test_vec_clone, test_vec_retain, test_vec_dedup, test_vec_dedup_by_key,
      test_vec_index, test_vec_swap_remove_empty, test_vec_move_items, test_vec_move_items_reverse,
      test_vec_append, test_vec_split_off,
      test_vec_into_iter_count, test_drain_filter_empty, test_drain_filter_false, test_drain_filter_true,
      test_drain_filter_complex, test_vecdeque_simple, test_vecdeque_push_front_grow, test_vecdeque_index,
      test_vecdeque_with_capacity, test_vecdeque_with_capacity_non_power_two, test_vecdeque_reserve_exact,
      test_vecdeque_reserve, test_vecdeque_swap, test_vecdeque_iter, test_vecdeque_rev_iter,
      test_vecdeque_mut_rev_iter_wrap, test_vecdeque_mut_iter, test_vecdeque_mut_rev_iter,
      test_vecdeque_into_iter, test_vecdeque_from_iter, test_vecdeque_clone,
      test_vecdeque_eq, test_vecdeque_ord, test_vecdeque_reserve_grow, test_vecdeque_get,
      test_vecdeque_get_mut, test_vecdeque_front, test_vecdeque_append, test_vecdeque_retain,
      test_vecdeque_extend_ref, test_vecdeque_contains, test_vecdeque_is_empty, test_vecdeque_show, san_main]"

definition drain_tests :: "int cmd list list" where
  "drain_tests =
     [test_vec_drain_items, test_vec_drain_items_reverse, test_vecdeque_drain, test_vec_splice_unbounded,
      test_vec_splice_forget]"

definition drop_tests :: "int cmd list list" where
  "drop_tests =
     [test_vec_double_drop, test_vec_extend_double_drop, test_vec_dedup_unique, test_vec_truncate_drop,
      test_vec_truncate_front_drop, test_vecdeque_drop, test_vecdeque_drop_with_pop, test_vecdeque_drop_clear]"

definition index_panic_tests :: "int cmd list list" where
  "index_panic_tests =
     [test_vec_index_out_of_bounds, test_vec_slice_out_of_bounds_1, test_vec_slice_out_of_bounds_2,
      test_vec_slice_out_of_bounds_3, test_vec_slice_out_of_bounds_4, test_vec_slice_out_of_bounds_5,
      test_vecdeque_index_out_of_bounds]"

definition range_panic_tests :: "int cmd list list" where
  "range_panic_tests =
     [test_vec_drain_out_of_bounds, test_vec_drain_inclusive_out_of_bounds, test_vec_splice_out_of_bounds,
      test_vec_splice_inclusive_out_of_bounds]"

text \<open>
  600 is above every size the tests reach, counting twice what they hand to \<open>extend\<close>. The tests are
  evaluated, those that compare with the bound of \<open>usize\<close> by rewriting.
\<close>

lemma plain_tests_pass: "list_all (passes nd 600) plain_tests"
  by code_simp

lemma drop_tests_pass: "list_all (passes True 600) drop_tests"
  by code_simp

lemmas play_simps = passes_def aborts_def block_def for_range_def gives_def given_def given2_def verdict_def
  ref_expect_def first_def final_def splice_fits_def range_ok_def range_start_of_def range_end_of_def Option.is_none_def usize_bound_def Let_def upt_conv_Cons

lemma drain_tests_pass: "list_all (passes nd 600) drain_tests"
proof -
  have "passes nd 600 test_vec_drain_items" "passes nd 600 test_vec_drain_items_reverse"
    by (simp_all add: test_vec_drain_items_def test_vec_drain_items_reverse_def play_simps)
  moreover have "passes nd 600 test_vecdeque_drain" by (simp add: test_vecdeque_drain_def play_simps)
  moreover have "passes nd 600 test_vec_splice_unbounded" "passes nd 600 test_vec_splice_forget"
    by (simp_all add: test_vec_splice_unbounded_def test_vec_splice_forget_def play_simps)
  ultimately show ?thesis by (simp add: drain_tests_def)
qed

lemma panic_tests_abort:
  "list_all (aborts nd 600 IndexOutOfBounds) index_panic_tests" "list_all (aborts nd 600 AssertFailed) range_panic_tests"
  by (simp_all add: index_panic_tests_def range_panic_tests_def test_vec_index_out_of_bounds_def
      test_vec_slice_out_of_bounds_1_def test_vec_slice_out_of_bounds_2_def test_vec_slice_out_of_bounds_3_def
      test_vec_slice_out_of_bounds_4_def test_vec_slice_out_of_bounds_5_def test_vecdeque_index_out_of_bounds_def
      test_vec_drain_out_of_bounds_def test_vec_drain_inclusive_out_of_bounds_def
      test_vec_splice_out_of_bounds_def test_vec_splice_inclusive_out_of_bounds_def play_simps)

end
