(* ===== verification/Sized_Tests.thy ===== *)
theory Sized_Tests
  imports Scripts
begin

text \<open>
  The unit tests of \<open>src/lib.rs\<close> that run for several sizes, for as many rounds as the deque has
  capacity, or on elements of several types. Here the size, the number of rounds and the elements
  are parameters, and the tests pass for all of them. \<open>v.len()\<close> in the bound of a loop is the length
  that the assertion before it has established.
\<close>

subsection \<open>Helpers of the tests\<close>

definition linear_usize_deque :: "string \<Rightarrow> nat \<Rightarrow> nat cmd list" where
  "linear_usize_deque v sz =
     [Make v New] @
     for_range 0 sz (\<lambda>i.
       [Do v (Push_Back i),
        Assert v (Len (i + 1))] @
       for_range 0 (i + 1) (\<lambda>j. [Assert v (Get j (Some j))])) @
     [Assert v (Len sz)] @
     for_range 0 sz (\<lambda>i. [Assert v (Get i (Some i))])"

definition constant_deque :: "string \<Rightarrow> nat \<Rightarrow> 'a \<Rightarrow> 'a cmd list" where
  "constant_deque v sz val =
     [Make v (With_Capacity sz)] @
     for_range 0 sz (\<lambda>i.
       [Do v (Push_Back val),
        Assert v (Len (i + 1))]) @
     [Assert v (Len sz)]"

lemma linear_usize_deque_plays:
  assumes "sz \<le> N" "st v = None"
  shows "play nd N (linear_usize_deque v sz) (st, log) = Continue (st(v \<mapsto> ([0..<sz], 0)), log)"
proof -
  let ?S = "\<lambda>i. (st(v \<mapsto> ([0..<i], 0)), log)"
  have get: "play nd N (for_range 0 n (\<lambda>j. [Assert v (Get j (Some j))])) (?S n) = Continue (?S n)" for n
    by (rule play_checks) (simp add: given_def verdict_def)
  have "play nd N (for_range 0 sz (\<lambda>i. [Do v (Push_Back i), Assert v (Len (i + 1))] @
      for_range 0 (i + 1) (\<lambda>j. [Assert v (Get j (Some j))]))) (?S 0) = Continue (?S sz)"
    by (rule play_loop[where S = ?S]) (use assms(1) get[of "Suc _"] in \<open>simp_all add: play_append given_def verdict_def\<close>)
  then show ?thesis using get[of sz] assms
    by (simp add: linear_usize_deque_def play_append given_def verdict_def Option.is_none_def)
qed

lemma constant_deque_plays:
  assumes "sz \<le> N" "st v = None"
  shows "play nd N (constant_deque v sz val) (st, log) = Continue (st(v \<mapsto> (replicate sz val, sz)), log)"
proof -
  let ?S = "\<lambda>i. (st(v \<mapsto> (replicate i val, sz)), log)"
  have "play nd N (for_range 0 sz (\<lambda>i. [Do v (Push_Back val), Assert v (Len (i + 1))])) (?S 0) = Continue (?S sz)"
    by (rule play_loop[where S = ?S]) (use assms(1) in \<open>simp_all add: given_def verdict_def replicate_append_same\<close>)
  then show ?thesis using assms
    by (simp add: constant_deque_def play_append given_def verdict_def Option.is_none_def)
qed

lemma live_helpers [simp]:
  "live vs (linear_usize_deque v sz) = v # vs" "live vs (constant_deque v sz val) = v # vs"
  by (simp_all add: linear_usize_deque_def constant_deque_def live_append live_quiet)

subsection \<open>The tests\<close>

definition test_push_pop_front :: "nat \<Rightarrow> nat cmd list" where
  "test_push_pop_front sz = block (
     [Make ''v'' New] @
     for_range 0 sz (\<lambda>i.
       [Do ''v'' (Push_Front i),
        Assert ''v'' (Len (i + 1))] @
       for_range 0 (i + 1) (\<lambda>j. [Assert ''v'' (Get (i + 1 - j - 1) (Some j))])) @
     [Assert ''v'' (Len sz)] @
     for_range 0 sz (\<lambda>i. [Assert ''v'' (Get i (Some (sz - i - 1)))]) @
     for_range 0 sz (\<lambda>i.
       [Assert ''v'' (Len (sz - i)),
        Do ''v'' Discard_Front] @
       for_range 0 (sz - i - 1) (\<lambda>j. [Assert ''v'' (Get (sz - i - 1 - j - 1) (Some j))])) @
     [Assert ''v'' (Len 0)])"

definition test_push_pop_back :: "nat \<Rightarrow> nat cmd list" where
  "test_push_pop_back sz = block (
     linear_usize_deque ''v'' sz @
     for_range 0 sz (\<lambda>i.
       [Assert ''v'' (Len (sz - i)),
        Do ''v'' Discard_Back] @
       for_range 0 (sz - i - 1) (\<lambda>j. [Assert ''v'' (Get j (Some j))])) @
     [Assert ''v'' (Len 0)])"

text \<open>\<open>rounds\<close> is six times the capacity in the code.\<close>

definition test_all_head_tails :: "nat \<Rightarrow> nat \<Rightarrow> nat cmd list" where
  "test_all_head_tails rounds sz = block (
     linear_usize_deque ''v'' sz @
     for_range 0 rounds (\<lambda>_.
       [Do ''v'' (Push_Back 0)] @
       for_range_rev 0 sz (\<lambda>j. [Do ''v'' (Copy_Slot (j + 1) j)]) @
       [Do ''v'' Discard_Front,
        Assert ''v'' (Len sz)] @
       for_range 0 sz (\<lambda>k. [Assert ''v'' (Get k (Some k))])) @
     for_range 0 rounds (\<lambda>_.
       [Do ''v'' (Push_Front 0)] @
       for_range 0 sz (\<lambda>j. [Do ''v'' (Copy_Slot j (j + 1))]) @
       [Do ''v'' Discard_Back,
        Assert ''v'' (Len sz)] @
       for_range 0 sz (\<lambda>k. [Assert ''v'' (Get k (Some k))])))"

definition test_drop :: "nat \<Rightarrow> 'a \<Rightarrow> 'a cmd list" where
  "test_drop sz val =
     block (constant_deque ''_v'' sz val) @
     [Assert_Dropped (\<lambda>_. True) sz]"

definition test_clear :: "nat \<Rightarrow> 'a \<Rightarrow> 'a cmd list" where
  "test_clear sz val = block (
     [Assert_Dropped (\<lambda>_. True) 0] @
     constant_deque ''v'' sz val @
     [Assert_Dropped (\<lambda>_. True) 0,
      Do ''v'' Clear_All,
      Assert_Dropped (\<lambda>_. True) sz,
      Assert ''v'' (Len 0)])"

definition test_resize :: "nat \<Rightarrow> nat cmd list" where
  "test_resize sz = block (
     linear_usize_deque ''v'' sz @
     linear_usize_deque ''v_ref'' (sz div 2) @
     [Do ''v'' (Resize_To (sz div 2) 0),
      Assert ''v'' (Len (sz div 2)),
      Assert_Eq ''v'' ''v_ref'' True] @
     for_range (sz div 2) sz (\<lambda>_. [Do ''v_ref'' (Push_Back 3)]) @
     [Do ''v'' (Resize_To sz 3),
      Assert ''v'' (Len sz),
      Assert ''v_ref'' (Len sz),
      Assert_Eq ''v'' ''v_ref'' True,
      Do ''v'' (Resize_To 0 3),
      Assert ''v'' (Len 0),
      Do ''v'' (Resize_To sz 3)] @
     constant_deque ''v_ref1'' sz 3 @
     [Assert ''v'' (Len sz),
      Assert ''v_ref1'' (Len sz),
      Assert_Eq ''v'' ''v_ref1'' True])"

subsection \<open>They pass\<close>

lemmas ref_simps = given_def given2_def verdict_def first_def final_def ref_expect_def ref_assign_def

lemma linear_usize_deque_reaches:
  "sz \<le> N \<Longrightarrow> st v = None \<Longrightarrow> reaches nd N (linear_usize_deque v sz) st (st(v \<mapsto> ([0..<sz], 0)))"
  by (simp add: reaches_def linear_usize_deque_plays)

lemma push_pop_front_passes:
  assumes "sz \<le> N" shows "passes nd N (test_push_pop_front sz)"
proof -
  let ?S = "\<lambda>i. [''v'' \<mapsto> (rev [0..<i], 0)]"
  have get: "reaches nd N (for_range 0 n (\<lambda>j. [Assert ''v'' (Get (n - j - 1) (Some j))])) (?S m) (?S m)"
    "reaches nd N (for_range 0 n (\<lambda>i. [Assert ''v'' (Get i (Some (n - i - 1)))])) (?S m) (?S m)" if "m = n" for n m
    unfolding that by (rule reaches_checks; simp add: reaches_def ref_simps rev_nth)+
  have len: "reaches nd N [Assert ''v'' (Len n)] (?S n) (?S n)" for n by (simp add: reaches_def ref_simps)
  have new: "reaches nd N [Make ''v'' New] Map.empty (?S 0)" by (simp add: reaches_def)
  have push: "reaches nd N (for_range 0 sz (\<lambda>i. [Do ''v'' (Push_Front i), Assert ''v'' (Len (i + 1))] @
      for_range 0 (i + 1) (\<lambda>j. [Assert ''v'' (Get (i + 1 - j - 1) (Some j))]))) (?S 0) (?S sz)"
  proof (rule reaches_loop[where S = ?S])
    fix i assume "i < sz"
    then have "reaches nd N [Do ''v'' (Push_Front i), Assert ''v'' (Len (i + 1))] (?S i) (?S (Suc i))"
      using assms by (simp add: reaches_def ref_simps)
    then show "reaches nd N ([Do ''v'' (Push_Front i), Assert ''v'' (Len (i + 1))] @
      for_range 0 (i + 1) (\<lambda>j. [Assert ''v'' (Get (i + 1 - j - 1) (Some j))])) (?S i) (?S (Suc i))"
      by (rule reaches_append[OF _ get(1)]) simp
  qed simp
  have pop: "reaches nd N (for_range 0 sz (\<lambda>i. [Assert ''v'' (Len (sz - i)), Do ''v'' Discard_Front] @
      for_range 0 (sz - i - 1) (\<lambda>j. [Assert ''v'' (Get (sz - i - 1 - j - 1) (Some j))]))) (?S (sz - 0)) (?S (sz - sz))"
  proof (rule reaches_loop[where S = "\<lambda>i. ?S (sz - i)"])
    fix i assume i: "i < sz"
    then have n: "sz - i = Suc (sz - Suc i)" by simp
    have "reaches nd N [Assert ''v'' (Len (sz - i)), Do ''v'' Discard_Front] (?S (sz - i)) (?S (sz - Suc i))"
      unfolding n by (simp add: reaches_def ref_simps)
    then show "reaches nd N ([Assert ''v'' (Len (sz - i)), Do ''v'' Discard_Front] @
        for_range 0 (sz - i - 1) (\<lambda>j. [Assert ''v'' (Get (sz - i - 1 - j - 1) (Some j))])) (?S (sz - i)) (?S (sz - Suc i))"
      by (rule reaches_append[OF _ get(1)]) simp
  qed simp
  from reaches_append[OF new reaches_append[OF push reaches_append[OF len reaches_append[OF get(2)[OF refl]
      reaches_append[OF pop[unfolded diff_zero diff_self_eq_0] len[of 0]]]]]]
  show ?thesis unfolding test_push_pop_front_def
    by (rule block_passes) (simp_all add: live_append live_quiet)
qed

lemma push_pop_back_passes:
  assumes "sz \<le> N" shows "passes nd N (test_push_pop_back sz)"
proof -
  let ?S = "\<lambda>i. [''v'' \<mapsto> ([0..<i], 0)]"
  have get: "reaches nd N (for_range 0 n (\<lambda>j. [Assert ''v'' (Get j (Some j))])) (?S m) (?S m)" if "m = n" for n m
    unfolding that by (rule reaches_checks) (simp add: reaches_def ref_simps)
  have len: "reaches nd N [Assert ''v'' (Len n)] (?S n) (?S n)" for n by (simp add: reaches_def ref_simps)
  have pop: "reaches nd N (for_range 0 sz (\<lambda>i. [Assert ''v'' (Len (sz - i)), Do ''v'' Discard_Back] @
      for_range 0 (sz - i - 1) (\<lambda>j. [Assert ''v'' (Get j (Some j))]))) (?S (sz - 0)) (?S (sz - sz))"
  proof (rule reaches_loop[where S = "\<lambda>i. ?S (sz - i)"])
    fix i assume i: "i < sz"
    then have n: "sz - i = Suc (sz - Suc i)" by simp
    have "reaches nd N [Assert ''v'' (Len (sz - i)), Do ''v'' Discard_Back] (?S (sz - i)) (?S (sz - Suc i))"
      unfolding n by (simp add: reaches_def ref_simps)
    then show "reaches nd N ([Assert ''v'' (Len (sz - i)), Do ''v'' Discard_Back] @
        for_range 0 (sz - i - 1) (\<lambda>j. [Assert ''v'' (Get j (Some j))])) (?S (sz - i)) (?S (sz - Suc i))"
      by (rule reaches_append[OF _ get]) simp
  qed simp
  from reaches_append[OF linear_usize_deque_reaches[OF assms refl]
      reaches_append[OF pop[unfolded diff_zero diff_self_eq_0] len[of 0]]]
  show ?thesis unfolding test_push_pop_back_def
    by (rule block_passes) (simp_all add: live_append live_quiet)
qed

text \<open>Shifting by one: the copy from the right end down, and from the left end up.\<close>

lemma shift_right_reaches:
  "reaches nd N (for_range_rev 0 sz (\<lambda>j. [Do ''v'' (Copy_Slot (j + 1) j)])) [''v'' \<mapsto> ([0..<sz] @ [0], g)] [''v'' \<mapsto> (0 # [0..<sz], g)]"
proof -
  let ?A = "\<lambda>j. map (\<lambda>k. if k \<le> j then (if k < sz then k else 0) else k - 1) [0..<Suc sz]"
  have "reaches nd N (for_range_rev 0 sz (\<lambda>j. [Do ''v'' (Copy_Slot (j + 1) j)])) [''v'' \<mapsto> (?A sz, g)] [''v'' \<mapsto> (?A 0, g)]"
  proof (rule reaches_loop_rev[where S = "\<lambda>j. [''v'' \<mapsto> (?A j, g)]"])
    fix j assume j: "j < sz"
    have "(?A (Suc j))[Suc j := ?A (Suc j) ! j] = ?A j"
      using j by (intro nth_equalityI) (auto simp: nth_list_update simp del: upt_Suc)
    then show "reaches nd N [Do ''v'' (Copy_Slot (j + 1) j)] [''v'' \<mapsto> (?A (Suc j), g)] [''v'' \<mapsto> (?A j, g)]"
      using j by (simp add: reaches_def ref_simps del: upt_Suc)
  qed
  moreover have "?A sz = [0..<sz] @ [0]" "?A 0 = 0 # [0..<sz]"
    by (intro nth_equalityI; auto simp: nth_append nth_Cons' simp del: upt_Suc)+
  ultimately show ?thesis by metis
qed

lemma shift_left_reaches:
  "\<exists>x. reaches nd N (for_range 0 sz (\<lambda>j. [Do ''v'' (Copy_Slot j (j + 1))])) [''v'' \<mapsto> (0 # [0..<sz], g)] [''v'' \<mapsto> ([0..<sz] @ [x], g)]"
proof -
  let ?B = "\<lambda>j. map (\<lambda>k. if k < j then k else k - 1) [0..<Suc sz]"
  have "reaches nd N (for_range 0 sz (\<lambda>j. [Do ''v'' (Copy_Slot j (j + 1))])) [''v'' \<mapsto> (?B 0, g)] [''v'' \<mapsto> (?B sz, g)]"
  proof (rule reaches_loop[where S = "\<lambda>j. [''v'' \<mapsto> (?B j, g)]"])
    fix j assume j: "j < sz"
    have "(?B j)[j := ?B j ! Suc j] = ?B (Suc j)"
      using j by (intro nth_equalityI) (auto simp: nth_list_update simp del: upt_Suc)
    then show "reaches nd N [Do ''v'' (Copy_Slot j (j + 1))] [''v'' \<mapsto> (?B j, g)] [''v'' \<mapsto> (?B (Suc j), g)]"
      using j by (simp add: reaches_def ref_simps del: upt_Suc)
  qed simp
  moreover have "?B sz = [0..<sz] @ [sz - 1]" "?B 0 = 0 # [0..<sz]"
    by (intro nth_equalityI; auto simp: nth_append nth_Cons' simp del: upt_Suc)+
  ultimately show ?thesis by metis
qed

lemma all_head_tails_passes:
  assumes "sz < N" shows "passes nd N (test_all_head_tails rounds sz)"
proof -
  let ?s = "\<lambda>xs. [''v'' \<mapsto> (xs, 0)]"
  have get: "reaches nd N (for_range 0 sz (\<lambda>k. [Assert ''v'' (Get k (Some k))])) (?s [0..<sz]) (?s [0..<sz])"
    by (rule reaches_checks) (simp add: reaches_def ref_simps)
  have right: "reaches nd N [Do ''v'' (Push_Back 0)] (?s [0..<sz]) (?s ([0..<sz] @ [0]))"
    "reaches nd N [Do ''v'' Discard_Front, Assert ''v'' (Len sz)] (?s (0 # [0..<sz])) (?s [0..<sz])"
    and left: "reaches nd N [Do ''v'' (Push_Front 0)] (?s [0..<sz]) (?s (0 # [0..<sz]))"
    "reaches nd N [Do ''v'' Discard_Back, Assert ''v'' (Len sz)] (?s ([0..<sz] @ [x])) (?s [0..<sz])" for x
    using assms by (simp_all add: reaches_def ref_simps)
  obtain x where x: "reaches nd N (for_range 0 sz (\<lambda>j. [Do ''v'' (Copy_Slot j (j + 1))])) (?s (0 # [0..<sz])) (?s ([0..<sz] @ [x]))"
    using shift_left_reaches by blast
  note lin = linear_usize_deque_reaches[OF less_imp_le[OF assms] refl]
  from reaches_append[OF lin reaches_append[OF
      reaches_checks[OF reaches_append[OF right(1) reaches_append[OF shift_right_reaches reaches_append[OF right(2) get]]]]
      reaches_checks[OF reaches_append[OF left(1) reaches_append[OF x reaches_append[OF left(2) get]]]]]]
  show ?thesis unfolding test_all_head_tails_def
    by (rule block_passes) (simp_all add: live_append live_quiet)
qed

lemma drop_counts:
  assumes "sz \<le> N"
  shows "passes True N (test_drop sz val)" "passes True N (test_clear sz val)"
proof -
  note con = constant_deque_plays[OF assms, of Map.empty _ True val "[]"]
  show "passes True N (test_drop sz val)"
    by (rule passesI) (simp add: test_drop_def block_def play_append con ref_simps)
  show "passes True N (test_clear sz val)"
    by (rule passesI) (simp add: test_clear_def block_def play_append con ref_simps live_append)
qed

lemma upd_under [simp]: "x \<noteq> y \<Longrightarrow> (f(x := a, y := b))(x := c) = f(x := c, y := b)"
  by (simp add: fun_upd_twist)

lemma resize_passes:
  assumes "sz \<le> N" shows "passes nd N (test_resize sz)"
proof -
  let ?half = "[0..<sz div 2]" and ?n = "sz - sz div 2"
  let ?s = "\<lambda>xs ys. [''v'' \<mapsto> (xs, 0), ''v_ref'' \<mapsto> (ys, 0)]"
  have half: "sz div 2 \<le> N" "sz div 2 \<le> sz" using assms by linarith+
  note lin = linear_usize_deque_reaches[OF assms, of Map.empty "''v''"]
    linear_usize_deque_reaches[OF half(1), of "[''v'' \<mapsto> ([0..<sz], 0)]" "''v_ref''"]
  have refs: "[''v'' \<mapsto> ([0..<sz], 0)] ''v_ref'' = None" by simp
  have shrink: "reaches nd N [Do ''v'' (Resize_To (sz div 2) 0), Assert ''v'' (Len (sz div 2)), Assert_Eq ''v'' ''v_ref'' True]
      (?s [0..<sz] ?half) (?s ?half ?half)"
    using half by (simp add: reaches_def ref_simps take_upt)
  have push: "reaches nd N (for_range (sz div 2) sz (\<lambda>_. [Do ''v_ref'' (Push_Back 3)]))
      (?s ?half (?half @ replicate (sz div 2 - sz div 2) 3)) (?s ?half (?half @ replicate ?n 3))"
  proof (rule reaches_loop[where S = "\<lambda>i. ?s ?half (?half @ replicate (i - sz div 2) 3)"])
    fix i assume "sz div 2 \<le> i" "i < sz"
    then show "reaches nd N [Do ''v_ref'' (Push_Back 3)] (?s ?half (?half @ replicate (i - sz div 2) 3))
        (?s ?half (?half @ replicate (Suc i - sz div 2) 3))"
      using assms by (simp add: reaches_def ref_simps Suc_diff_le replicate_append_same)
  qed (use half in simp)
  have mid: "reaches nd N [Do ''v'' (Resize_To sz 3), Assert ''v'' (Len sz), Assert ''v_ref'' (Len sz),
       Assert_Eq ''v'' ''v_ref'' True, Do ''v'' (Resize_To 0 3), Assert ''v'' (Len 0), Do ''v'' (Resize_To sz 3)]
      (?s ?half (?half @ replicate ?n 3)) (?s (replicate sz 3) (?half @ replicate ?n 3))"
    using assms half by (cases "sz = 0") (auto simp: reaches_def ref_simps)
  have con: "reaches nd N (constant_deque ''v_ref1'' sz 3) (?s (replicate sz 3) ys)
      ((?s (replicate sz 3) ys)(''v_ref1'' \<mapsto> (replicate sz 3, sz)))" for ys
    using constant_deque_plays[OF assms, of "?s (replicate sz 3) ys" "''v_ref1''"] by (simp add: reaches_def)
  have last: "reaches nd N [Assert ''v'' (Len sz), Assert ''v_ref1'' (Len sz), Assert_Eq ''v'' ''v_ref1'' True]
      ((?s (replicate sz 3) ys)(''v_ref1'' \<mapsto> (replicate sz 3, sz))) ((?s (replicate sz 3) ys)(''v_ref1'' \<mapsto> (replicate sz 3, sz)))" for ys
    by (simp add: reaches_def ref_simps)
  from reaches_append[OF lin(1)[OF refl] reaches_append[OF lin(2)[OF refs] reaches_append[OF shrink
      reaches_append[OF push[unfolded diff_self_eq_0 replicate_0 append_Nil2] reaches_append[OF mid reaches_append[OF con last]]]]]]
  show ?thesis unfolding test_resize_def
    by (rule block_passes) (auto simp: live_append live_quiet)
qed

end
