(* ===== verification/Generic_Tests.thy ===== *)
theory Generic_Tests
  imports Sized_Tests
begin

text \<open>
  The unit tests of \<open>src/lib.rs\<close> on zero-sized elements, on strings, characters and tagged values,
  and those with a number of rounds: the elements and the numbers are parameters.
\<close>

subsection \<open>Zero-sized elements\<close>

text \<open>\<open>u\<close> is the one value of the type.\<close>

definition test_vec_extend_zst :: "'a \<Rightarrow> 'a cmd list" where
  "test_vec_extend_zst u = block
     [Make ''a'' New,
      Make ''b'' (Sdeq [u, u]),
      Extend_Moved ''a'' ''b'',
      Assert ''a'' (Equals [u, u])]"

definition test_zero_sized_values :: "'a \<Rightarrow> 'a cmd list" where
  "test_zero_sized_values u = block
     [Make ''v'' New,
      Assert ''v'' (Len 0),
      Do ''v'' (Push_Back u),
      Assert ''v'' (Len 1),
      Do ''v'' (Push_Back u),
      Assert ''v'' (Len 2),
      Do ''v'' (Pop_Back (Some u)),
      Do ''v'' (Pop_Back (Some u)),
      Do ''v'' (Pop_Back None),
      Assert ''v'' (Iter_Calls (gives [])),
      Do ''v'' (Push_Back u),
      Assert ''v'' (Iter_Calls (gives [u])),
      Do ''v'' (Push_Back u),
      Assert ''v'' (Iter_Calls (gives [u, u])),
      Assert ''v'' (Iter_Calls (gives [u, u])),
      Assert ''v'' (Iter_Calls (gives [u, u])),
      Do ''v'' (Push_Back u),
      Assert ''v'' (Iter_Calls (gives [u, u, u])),
      Do ''v'' (Push_Back u),
      Assert ''v'' (Iter_Calls (gives [u, u, u, u])),
      Assert ''v'' (Iter_Calls (gives [u, u, u, u])),
      Do ''v'' (Forget_Back 4),
      Assert ''v'' (Iter_Calls (gives []))]"

definition test_vec_move_items_zero_sized :: "'a \<Rightarrow> 'a cmd list" where
  "test_vec_move_items_zero_sized u = block
     [Make ''deq'' (Sdeq [u, u, u]),
      Make ''deq2'' (Sdeq []),
      Move_Items ''deq'' ''deq2'' False,
      Assert ''deq2'' (Equals [u, u, u])]"

definition test_vec_drain_items_zero_sized :: "'a \<Rightarrow> 'a cmd list" where
  "test_vec_drain_items_zero_sized u = block
     [Make ''deq'' (Sdeq [u, u, u]),
      Make ''deq2'' (Sdeq []),
      Drain_Items ''deq'' ''deq2'' Unbounded Unbounded False,
      Assert ''deq'' (Equals []),
      Assert ''deq2'' (Equals [u, u, u])]"

definition test_vec_drain_range_zst :: "'a \<Rightarrow> 'a cmd list" where
  "test_vec_drain_range_zst u = block
     [Make ''v'' (Sdeq_Elem u 5),
      Do ''v'' (Drain_Range (Included 1) (Excluded 4) (gives_back [u, u, u])),
      Assert ''v'' (Equals [u, u])]"

definition test_drain_filter_zst :: "'a \<Rightarrow> 'a cmd list" where
  "test_drain_filter_zst u = block
     [Make ''deq'' (Sdeq [u, u, u, u, u]),
      Assert ''deq'' (Len 5),
      Do ''deq'' (Drain_Filter_If (\<lambda>_. True)
        [Upper 5, Next_Match (Some u), Upper 4, Next_Match (Some u), Upper 3, Next_Match (Some u), Upper 2,
         Next_Match (Some u), Upper 1, Next_Match (Some u), Upper 0, Next_Match None, Upper 0,
         Next_Match None, Upper 0]),
      Assert ''deq'' (Len 0),
      Make ''empty'' (Sdeq []),
      Assert_Eq ''deq'' ''empty'' True]"

definition test_vecdeque_drop_zst :: "'a \<Rightarrow> 'a cmd list" where
  "test_vecdeque_drop_zst u = block
     [Make ''ring'' New,
      Do ''ring'' (Push_Back u),
      Do ''ring'' (Push_Front u),
      Do ''ring'' (Push_Back u),
      Do ''ring'' (Push_Front u),
      Drop ''ring'',
      Assert_Dropped (\<lambda>_. True) 4]"

definition test_vecdeque_drop_with_pop_zst :: "'a \<Rightarrow> 'a cmd list" where
  "test_vecdeque_drop_with_pop_zst u = block
     [Make ''ring'' New,
      Do ''ring'' (Push_Back u),
      Do ''ring'' (Push_Front u),
      Do ''ring'' (Push_Back u),
      Do ''ring'' (Push_Front u),
      Do ''ring'' Discard_Back,
      Do ''ring'' Discard_Front,
      Assert_Dropped (\<lambda>_. True) 2,
      Drop ''ring'',
      Assert_Dropped (\<lambda>_. True) 4]"

definition test_vecdeque_drop_clear_zst :: "'a \<Rightarrow> 'a cmd list" where
  "test_vecdeque_drop_clear_zst u = block
     [Make ''ring'' New,
      Do ''ring'' (Push_Back u),
      Do ''ring'' (Push_Front u),
      Do ''ring'' (Push_Back u),
      Do ''ring'' (Push_Front u),
      Do ''ring'' Clear_All,
      Assert_Dropped (\<lambda>_. True) 4,
      Drop ''ring'',
      Assert_Dropped (\<lambda>_. True) 4]"

subsection \<open>Other element types\<close>

text \<open>\<open>str i\<close> is \<open>i\<close> itself in the first block and \<open>i.to_string()\<close> in the others.\<close>

definition test_vec_drain_range :: "(nat \<Rightarrow> 'a) \<Rightarrow> 'a cmd list" where
  "test_vec_drain_range str = block
     [Make ''v'' (Sdeq (map str [1, 2, 3, 4, 5])),
      Do ''v'' (Drain_Range (Included 4) Unbounded (gives [str 5])),
      Assert ''v'' (Equals (map str [1, 2, 3, 4])),
      Make ''v1'' (Collect (map str [1, 2, 3, 4, 5])),
      Do ''v1'' (Drain_Range (Included 1) (Excluded 4) (gives [str 2, str 3, str 4])),
      Assert ''v1'' (Equals [str 1, str 5]),
      Make ''v2'' (Collect (map str [1, 2, 3, 4, 5])),
      Do ''v2'' (Drain_Range (Included 1) (Excluded 4) (gives_back [str 4, str 3, str 2])),
      Assert ''v2'' (Equals [str 1, str 5])]"

text \<open>\<open>str 0\<close> to \<open>str 4\<close> are the letters of the first block.\<close>

definition test_vec_drain_inclusive_range :: "(nat \<Rightarrow> 'a) \<Rightarrow> 'a cmd list" where
  "test_vec_drain_inclusive_range str = block
     [Make ''v'' (Sdeq (map str [0, 1, 2, 3, 4])),
      Do ''v'' (Drain_Range (Included 1) (Included 3) (gives [str 1, str 2, str 3])),
      Assert ''v'' (Equals [str 0, str 4]),
      Make ''v1'' (Collect (map str [0, 1, 2, 3, 4, 5])),
      Do ''v1'' (Drain_Range (Included 1) (Included 5) (gives (map str [1, 2, 3, 4, 5]))),
      Assert ''v1'' (Equals [str 0]),
      Make ''v2'' (Collect (map str [0, 1, 2, 3, 4, 5])),
      Do ''v2'' (Drain_Range (Included 0) (Included 5) (gives (map str [0, 1, 2, 3, 4, 5]))),
      Make ''empty'' New,
      Assert_Eq ''v2'' ''empty'' True,
      Drop ''empty'',
      Make ''v3'' (Collect (map str [0, 1, 2, 3, 4, 5])),
      Do ''v3'' (Drain_Range (Included 0) (Included 3) (gives (map str [0, 1, 2, 3]))),
      Assert ''v3'' (Equals [str 4, str 5]),
      Make ''v4'' (Collect (map str [0, 1])),
      Do ''v4'' (Drain_Range Unbounded (Included 0) (gives [str 0])),
      Assert ''v4'' (Equals [str 1])]"

definition vecdeque_parameterized :: "'a \<Rightarrow> 'a \<Rightarrow> 'a \<Rightarrow> 'a \<Rightarrow> 'a cmd list" where
  "vecdeque_parameterized a b c d = block
     [Make ''deq'' New,
      Assert ''deq'' (Len 0),
      Do ''deq'' (Push_Front a),
      Do ''deq'' (Push_Front b),
      Do ''deq'' (Push_Back c),
      Assert ''deq'' (Len 3),
      Do ''deq'' (Push_Back d),
      Assert ''deq'' (Len 4),
      Assert ''deq'' (Front (Some b)),
      Assert ''deq'' (Back (Some d)),
      Do ''deq'' (Pop_Front (Some b)),
      Do ''deq'' (Pop_Back (Some d)),
      Do ''deq'' (Pop_Back (Some c)),
      Do ''deq'' (Pop_Back (Some a)),
      Assert ''deq'' (Len 0),
      Do ''deq'' (Push_Back c),
      Assert ''deq'' (Len 1),
      Do ''deq'' (Push_Front b),
      Assert ''deq'' (Len 2),
      Do ''deq'' (Push_Back d),
      Assert ''deq'' (Len 3),
      Do ''deq'' (Push_Front a),
      Assert ''deq'' (Len 4),
      Assert ''deq'' (Index 0 a),
      Assert ''deq'' (Index 1 b),
      Assert ''deq'' (Index 2 c),
      Assert ''deq'' (Index 3 d)]"

text \<open>\<open>a\<close> and \<open>b\<close> stand for the letters.\<close>

text \<open>The element types the deque is tested with.\<close>

datatype taggy = One int | Two int int | Three int int int

datatype 'a taggypar = Onepar 'a | Twopar 'a 'a | Threepar 'a 'a 'a

record rec_cy =
  rc_x :: int
  rc_y :: int
  rc_t :: taggy

definition test_vecdeque_param_int :: "int cmd list" where
  "test_vecdeque_param_int = vecdeque_parameterized 5 72 64 175"

definition test_vecdeque_param_taggy :: "taggy cmd list" where
  "test_vecdeque_param_taggy = vecdeque_parameterized (One 1) (Two 1 2) (Three 1 2 3) (Two 17 42)"

definition test_vecdeque_param_taggypar :: "int taggypar cmd list" where
  "test_vecdeque_param_taggypar = vecdeque_parameterized (Onepar 1) (Twopar 1 2) (Threepar 1 2 3) (Twopar 17 42)"

definition test_vecdeque_param_reccy :: "rec_cy cmd list" where
  "test_vecdeque_param_reccy =
     (let reccy1 = \<lparr>rc_x = 1, rc_y = 2, rc_t = One 1\<rparr>;
          reccy2 = \<lparr>rc_x = 345, rc_y = 2, rc_t = Two 1 2\<rparr>;
          reccy3 = \<lparr>rc_x = 1, rc_y = 777, rc_t = Three 1 2 3\<rparr>;
          reccy4 = \<lparr>rc_x = 19, rc_y = 252, rc_t = Two 17 42\<rparr>
      in vecdeque_parameterized reccy1 reccy2 reccy3 reccy4)"

definition test_vecdeque_partial_eq_array :: "'a \<Rightarrow> 'a \<Rightarrow> 'a cmd list" where
  "test_vecdeque_partial_eq_array a b = block
     [Make ''d'' New,
      Assert ''d'' (Equals []),
      Make ''d1'' New,
      Do ''d1'' (Push_Front a),
      Assert ''d1'' (Equals [a]),
      Make ''d2'' New,
      Do ''d2'' (Push_Back a),
      Assert ''d2'' (Equals [a]),
      Make ''d3'' New,
      Do ''d3'' (Push_Back a),
      Do ''d3'' (Push_Back b),
      Assert ''d3'' (Equals [a, b])]"

subsection \<open>Hashing, for any hasher\<close>

definition test_vecdeque_hash :: "(nat \<Rightarrow> nat \<Rightarrow> nat) \<Rightarrow> (int \<Rightarrow> nat \<Rightarrow> nat) \<Rightarrow> nat \<Rightarrow> int cmd list" where
  "test_vecdeque_hash write_usize hash seed = block
     [Make ''x'' New,
      Make ''y'' New,
      Do ''x'' (Push_Back 1),
      Do ''x'' (Push_Back 2),
      Do ''x'' (Push_Back 3),
      Do ''y'' (Push_Back 0),
      Do ''y'' (Push_Back 1),
      Do ''y'' Discard_Front,
      Do ''y'' (Push_Back 2),
      Do ''y'' (Push_Back 3),
      Assert_Hash_Eq ''x'' ''y'' write_usize hash seed]"

text \<open>\<open>rounds\<close> is the capacity in the code.\<close>

definition rotate_by_one :: "string \<Rightarrow> int cmd list" where
  "rotate_by_one ring =
     [Do ring Discard_Front,
      Do ring (For_Each_Mut (\<lambda>elt. elt - 1)),
      Do ring (Push_Back 27)]"

definition test_vecdeque_hash_after_rotation ::
    "(nat \<Rightarrow> nat \<Rightarrow> nat) \<Rightarrow> (int \<Rightarrow> nat \<Rightarrow> nat) \<Rightarrow> nat \<Rightarrow> nat \<Rightarrow> int cmd list" where
  "test_vecdeque_hash_after_rotation write_usize hash seed rounds = block (
     [Make ''ring'' (Collect [0..27]),
      Let_Clone ''orig'' ''ring''] @
     for_range 0 rounds (\<lambda>_.
       rotate_by_one ''ring'' @
       [Assert_Hash_Eq ''orig'' ''ring'' write_usize hash seed,
        Assert_Eq ''orig'' ''ring'' True,
        Assert_Eq ''ring'' ''orig'' True]))"

definition test_vecdeque_eq_after_rotation :: "nat \<Rightarrow> int cmd list" where
  "test_vecdeque_eq_after_rotation rounds = block (
     [Make ''ring'' (Collect [0..27]),
      Let_Clone ''shifted'' ''ring''] @
     for_range 0 10 (\<lambda>_. rotate_by_one ''ring'') @
     for_range 0 rounds (\<lambda>_.
       rotate_by_one ''shifted'' @
       [Assert_Eq ''shifted'' ''ring'' True,
        Assert_Eq ''ring'' ''shifted'' True]))"

subsection \<open>Rounds\<close>

text \<open>\<open>cap\<close> is the capacity in the code; the assertion that it has not changed is left out.\<close>

definition test_vecdeque_as_slices :: "nat \<Rightarrow> int cmd list" where
  "test_vecdeque_as_slices cap =
     (let first = cap div 2; last = cap - first in block (
     [Make ''ring'' (With_Capacity 127)] @
     for_range 0 first (\<lambda>i.
       [Do ''ring'' (Push_Back (int i)),
        Assert ''ring'' (As_Slices (map int [0..<i + 1]) [])]) @
     for_range 0 last (\<lambda>k.
       [Do ''ring'' (Push_Front (int k - int last)),
        Assert ''ring'' (As_Slices (rev (map (\<lambda>j. int j - int last) [0..<k + 1]) @ map int [0..<first]) [])]) @
     [Assert ''ring'' (Len cap)]))"

text \<open>The same calls; \<open>as_mut_slices\<close> gives the same two slices.\<close>

definition test_vecdeque_as_mut_slices :: "nat \<Rightarrow> int cmd list" where
  "test_vecdeque_as_mut_slices cap =
     (let first = cap div 2; last = cap - first in block (
     [Make ''ring'' (With_Capacity 127)] @
     for_range 0 first (\<lambda>i.
       [Do ''ring'' (Push_Back (int i)),
        Assert ''ring'' (As_Slices (map int [0..<i + 1]) [])]) @
     for_range 0 last (\<lambda>k.
       [Do ''ring'' (Push_Front (int k - int last)),
        Assert ''ring'' (As_Slices (rev (map (\<lambda>j. int j - int last) [0..<k + 1]) @ map int [0..<first]) [])]) @
     [Assert ''ring'' (Len cap)]))"

text \<open>
  The constants of the test, and the length at the start of each round, which decides whether the
  round refills the buffer. \<open>cur_len - 10\<close> overflows below 10: the assertion on the length stands for
  the panic.
\<close>

definition MAX_SAMPLES_PER_FRAME :: nat where
  "MAX_SAMPLES_PER_FRAME = 1152 * 2"

definition BUFFER_SIZE :: nat where
  "BUFFER_SIZE = MAX_SAMPLES_PER_FRAME * 15"

definition REFILL_TRIGGER :: nat where
  "REFILL_TRIGGER = MAX_SAMPLES_PER_FRAME * 8"

fun issue_45_len :: "nat \<Rightarrow> nat" where
  "issue_45_len 0 = 0"
| "issue_45_len (Suc i) =
     (let n = issue_45_len i in (if n < REFILL_TRIGGER then n + MAX_SAMPLES_PER_FRAME * 5 else n) - 10)"

definition issue_45_round :: "'a \<Rightarrow> nat \<Rightarrow> 'a cmd list" where
  "issue_45_round zero i =
     (let n = issue_45_len i;
          cur_len = (if n < REFILL_TRIGGER then n + MAX_SAMPLES_PER_FRAME * 5 else n)
      in [Assert ''buf'' (Len n)] @
         (if n < REFILL_TRIGGER
          then [Do ''buf'' (Extend_Copies (replicate (MAX_SAMPLES_PER_FRAME * 5) zero))] else []) @
         [Assert ''buf'' (Len_At_Least 10),
          Do ''buf'' (Truncate_Front_To (cur_len - 10))])"

definition test_issue_45 :: "'a \<Rightarrow> 'a cmd list" where
  "test_issue_45 zero = block (
     [Make ''buf'' (With_Capacity BUFFER_SIZE)] @
     for_range 0 10000 (issue_45_round zero))"

definition test_issue_47 :: "nat \<Rightarrow> 'a \<Rightarrow> 'a cmd list" where
  "test_issue_47 page_size zero = block
     [Make ''sdq'' New,
      Do ''sdq'' (Extend_Items (replicate (page_size + 1) zero))]"

definition test_issue_57 :: "'a \<Rightarrow> 'a cmd list" where
  "test_issue_57 c = block (
     [Make ''deque'' New] @
     for_range 0 918 (\<lambda>_. [Do ''deque'' (Push_Front c)]) @
     for_range 0 237 (\<lambda>_.
       [Do ''deque'' (Pop_Front (Some c)),
        Assert ''deque'' (Is_Empty False),
        Assert ''deque'' (Back (Some c))]))"

definition test_drop_count :: "'a \<Rightarrow> 'a cmd list" where
  "test_drop_count foo = block (
     [Make ''deque'' New] @
     for_range 0 10 (\<lambda>_.
       [Do ''deque'' (Push_Back foo),
        Do ''deque'' Discard_Front])) @
     [Assert_Dropped (\<lambda>_. True) 10]"

text \<open>The length is 8 from the eighth round on, which the assertion confirms.\<close>

definition test_issue_57_2 :: "'a \<Rightarrow> 'a cmd list" where
  "test_issue_57_2 test = block (
     [Make ''deque'' New] @
     for_range 0 30000 (\<lambda>i.
       [Do ''deque'' (Push_Back test)] @
       (if i < 7 then [Assert ''deque'' (Len (i + 1))]
        else
         [Assert ''deque'' (Len 8),
          Do ''deque'' Discard_Front])))"

text \<open>Without the assertion that the capacity is the largest \<open>isize\<close>.\<close>

definition test_zst :: "'a \<Rightarrow> 'a cmd list" where
  "test_zst a = block (
     [Make ''s'' New,
      Assert ''s'' (Len 0)] @
     for_range 0 10 (\<lambda>_. [Do ''s'' (Push_Back a)]) @
     [Assert ''s'' (Len 10)])"

definition test_vec_splice_items_zero_sized :: "'a \<Rightarrow> 'a cmd list" where
  "test_vec_splice_items_zero_sized u = block
     [Make ''deq'' (Sdeq [u, u, u]),
      Make ''deq2'' (Sdeq []),
      Do ''deq'' (Splice_Range (Included 1) (Excluded 2) [] (gives [u])),
      Assert ''deq'' (Equals [u, u])]"

subsection \<open>Characters and words\<close>

text \<open>The views of the consuming iterator; \<open>unwrap\<close> of an item is the assertion that it is there.\<close>

definition test_vec_into_iter_as_slice :: "char cmd list" where
  "test_vec_into_iter_as_slice = block
     [Make ''deq'' (Sdeq ''abc''),
      Inspect ''deq''
        [Rest_Is ''abc'',
         Plain (Next (Some CHR ''a'')),
         Rest_Is ''bc'',
         Plain (Next (Some CHR ''b'')),
         Plain (Next (Some CHR ''c'')),
         Rest_Is []]]"

definition test_vec_into_iter_as_mut_slice :: "char cmd list" where
  "test_vec_into_iter_as_mut_slice = block
     [Make ''deq'' (Sdeq ''abc''),
      Inspect ''deq''
        [Rest_Is ''abc'',
         Put 0 (CHR ''x''),
         Put 1 (CHR ''y''),
         Plain (Next (Some CHR ''x'')),
         Rest_Is ''yc'']]"

definition quote :: string where
  "quote = [CHR 0x27]"

definition test_vec_into_iter_debug :: "char cmd list" where
  "test_vec_into_iter_debug = block
     [Make ''deq'' (Sdeq ''abc''),
      Inspect ''deq''
        [Prints (\<lambda>ch. quote @ [ch] @ quote)
           (''IntoIter(['' @ quote @ ''a'' @ quote @ '', '' @ quote @ ''b'' @ quote @ '', '' @ quote @ ''c'' @ quote @ ''])'')]]"

text \<open>Words without a character that has to be escaped.\<close>

definition show_word :: "string \<Rightarrow> string" where
  "show_word s = [CHR 0x22] @ s @ [CHR 0x22]"

definition test_vecdeque_show_words :: "string cmd list" where
  "test_vecdeque_show_words = block
     [Make ''ringbuf'' (Collect [''just'', ''one'', ''test'', ''more'']),
      Assert ''ringbuf'' (Prints_As show_word
        (''['' @ show_word ''just'' @ '', '' @ show_word ''one'' @ '', '' @ show_word ''test'' @ '', '' @ show_word ''more'' @ '']''))]"

definition ascii_lower :: "char \<Rightarrow> char" where
  "ascii_lower ch = (let n = of_char ch :: nat in if 65 \<le> n \<and> n \<le> 90 then char_of (n + 32) else ch)"

definition eq_ignore_ascii_case :: "string \<Rightarrow> string \<Rightarrow> bool" where
  "eq_ignore_ascii_case a b \<longleftrightarrow> map ascii_lower a = map ascii_lower b"

text \<open>The two halves of the test of \<open>dedup_by\<close>; the closure of the second writes to the kept element.\<close>

definition test_vec_dedup_by_words :: "string cmd list" where
  "test_vec_dedup_by_words = block
     [Make ''deq'' (Sdeq [''foo'', ''bar'', ''Bar'', ''baz'', ''bar'']),
      Do ''deq'' (Dedup_By eq_ignore_ascii_case),
      Assert ''deq'' (Equals [''foo'', ''bar'', ''baz'', ''bar''])]"

definition test_vec_dedup_by_sums :: "(string \<times> int) cmd list" where
  "test_vec_dedup_by_sums = block
     [Make ''deq'' (Sdeq [(''foo'', 1), (''foo'', 2), (''bar'', 3), (''bar'', 4), (''bar'', 5)]),
      Do ''deq'' (Dedup_Writing (\<lambda>a b. if fst a = fst b then (True, a, (fst b, snd b + snd a)) else (False, a, b))),
      Assert ''deq'' (Equals [(''foo'', 3), (''bar'', 12)])]"

subsection \<open>They pass\<close>

lemmas script_simps = passes_def block_def ref_simps gives_def gives_back_def range_ok_def range_start_of_def
  range_end_of_def Option.is_none_def usize_bound_def Let_def

lemma zst_tests_pass:
  assumes "1000 \<le> N"
  shows "passes nd N (test_vec_extend_zst u)" "passes nd N (test_zero_sized_values u)"
    "passes nd N (test_vec_move_items_zero_sized u)" "passes nd N (test_vec_drain_items_zero_sized u)"
    "passes nd N (test_vec_drain_range_zst u)" "passes nd N (test_drain_filter_zst u)"
    "passes nd N (test_zst u)" "passes nd N (test_vec_splice_items_zero_sized u)"
proof -
  have five: "replicate 5 u = [u, u, u, u, u]" by (simp add: numeral_eq_Suc)
  show "passes nd N (test_vec_extend_zst u)" using assms by (simp add: test_vec_extend_zst_def script_simps)
  show "passes nd N (test_zero_sized_values u)" using assms by (simp add: test_zero_sized_values_def script_simps)
  show "passes nd N (test_vec_move_items_zero_sized u)"
    using assms by (simp add: test_vec_move_items_zero_sized_def script_simps)
  show "passes nd N (test_vec_drain_items_zero_sized u)"
    using assms by (simp add: test_vec_drain_items_zero_sized_def script_simps)
  show "passes nd N (test_vec_drain_range_zst u)"
    using assms by (simp add: test_vec_drain_range_zst_def script_simps five)
  show "passes nd N (test_drain_filter_zst u)" using assms by (simp add: test_drain_filter_zst_def script_simps)
  show "passes nd N (test_zst u)" using assms by (simp add: test_zst_def script_simps for_range_def upt_conv_Cons)
  show "passes nd N (test_vec_splice_items_zero_sized u)"
    using assms by (simp add: test_vec_splice_items_zero_sized_def script_simps splice_fits_def)
qed

lemma zst_drop_tests_pass:
  assumes "1000 \<le> N"
  shows "passes True N (test_vecdeque_drop_zst u)" "passes True N (test_vecdeque_drop_with_pop_zst u)"
    "passes True N (test_vecdeque_drop_clear_zst u)"
  using assms
  by (simp_all add: test_vecdeque_drop_zst_def test_vecdeque_drop_with_pop_zst_def test_vecdeque_drop_clear_zst_def
      script_simps)

lemma typed_tests_pass:
  assumes "1000 \<le> N"
  shows "passes nd N (test_vec_drain_range str)" "passes nd N (test_vec_drain_inclusive_range str)"
    "passes nd N (vecdeque_parameterized a b c d)" "passes nd N (test_vecdeque_partial_eq_array a b)"
  using assms
  by (simp_all add: test_vec_drain_range_def test_vec_drain_inclusive_range_def vecdeque_parameterized_def
      test_vecdeque_partial_eq_array_def script_simps)

text \<open>The tests of the other element types; \<open>passes_runs\<close> carries them to every platform.\<close>

lemma param_tests_pass:
  assumes "1000 \<le> N"
  shows "passes nd N test_vecdeque_param_int" "passes nd N test_vecdeque_param_taggy"
    "passes nd N test_vecdeque_param_taggypar" "passes nd N test_vecdeque_param_reccy"
  using typed_tests_pass[OF assms]
  by (simp_all add: test_vecdeque_param_int_def test_vecdeque_param_taggy_def test_vecdeque_param_taggypar_def
      test_vecdeque_param_reccy_def Let_def)

lemma word_tests_pass:
  "passes nd 600 test_vec_into_iter_as_slice" "passes nd 600 test_vec_into_iter_as_mut_slice"
  "passes nd 600 test_vec_into_iter_debug" "passes nd 600 test_vecdeque_show_words"
  "passes nd 600 test_vec_dedup_by_words" "passes nd 600 test_vec_dedup_by_sums"
  by code_simp+

lemma rotate_reaches:
  assumes "1000 \<le> N" "st ring = Some ([0..27], g)"
  shows "reaches nd N (rotate_by_one ring) st st"
proof -
  have "map (\<lambda>x. x - 1) (tl [0..27]) @ [27] = [0..27 :: int]" "length [0..27 :: int] = 28" by code_simp+
  then show ?thesis using assms
    by (simp add: reaches_def rotate_by_one_def ref_simps fun_upd_idem)
qed

lemma hash_tests_pass:
  assumes "1000 \<le> N"
  shows "passes nd N (test_vecdeque_hash write_usize hash seed)"
    "passes nd N (test_vecdeque_hash_after_rotation write_usize hash seed rounds)"
    "passes nd N (test_vecdeque_eq_after_rotation rounds)"
proof -
  show "passes nd N (test_vecdeque_hash write_usize hash seed)"
    using assms by (simp add: test_vecdeque_hash_def script_simps)
  have len: "length [0..27 :: int] = 28" by code_simp
  let ?st = "\<lambda>x y. [x \<mapsto> ([0..27 :: int], 0), y \<mapsto> ([0..27], 0)]"
  have start: "reaches nd N [Make x (Collect [0..27]), Let_Clone y x] Map.empty (?st x y)" if "x \<noteq> y" for x y
    using assms that len by (simp add: reaches_def ref_simps Option.is_none_def)
  have checks: "reaches nd N [Assert_Hash_Eq x y write_usize hash seed, Assert_Eq x y True, Assert_Eq y x True] st st"
    "reaches nd N [Assert_Eq x y True, Assert_Eq y x True] st st"
    if "st x = Some (vs, g)" "st y = Some (vs, h)" for x y st vs g h
    using that by (simp_all add: reaches_def ref_simps)
  show "passes nd N (test_vecdeque_hash_after_rotation write_usize hash seed rounds)"
    unfolding test_vecdeque_hash_after_rotation_def
    by (rule block_passes, rule reaches_append[OF start], simp, rule reaches_checks,
        rule reaches_append[OF rotate_reaches[OF assms] checks(1)])
      (simp_all add: live_append live_quiet rotate_by_one_def)
  show "passes nd N (test_vecdeque_eq_after_rotation rounds)"
    unfolding test_vecdeque_eq_after_rotation_def
    by (rule block_passes, rule reaches_append[OF start], simp,
        rule reaches_append[OF reaches_checks[OF rotate_reaches[OF assms]] reaches_checks[OF
          reaches_append[OF rotate_reaches[OF assms] checks(2)]]])
      (simp_all add: live_append live_quiet rotate_by_one_def)
qed

lemma as_slices_passes:
  assumes "1000 \<le> N" "cap \<le> N" shows "passes nd N (test_vecdeque_as_slices cap)"
proof -
  define first last where "first = cap div 2" and "last = cap - first"
  have cap: "first + last = cap" by (simp add: first_def last_def)
  let ?f = "\<lambda>i. [''ring'' \<mapsto> (map int [0..<i], 127)]"
    and ?l = "\<lambda>k. [''ring'' \<mapsto> (rev (map (\<lambda>j. int j - int last) [0..<k]) @ map int [0..<first], 127)]"
  have make: "reaches nd N [Make ''ring'' (With_Capacity 127)] Map.empty (?f 0)"
    using assms by (simp add: reaches_def Option.is_none_def)
  have behind: "reaches nd N (for_range 0 first (\<lambda>i. [Do ''ring'' (Push_Back (int i)),
      Assert ''ring'' (As_Slices (map int [0..<i + 1]) [])])) (?f 0) (?f first)"
    by (rule reaches_loop[where S = ?f]) (use assms cap in \<open>auto simp: reaches_def ref_simps\<close>)
  have before: "reaches nd N (for_range 0 last (\<lambda>k. [Do ''ring'' (Push_Front (int k - int last)),
      Assert ''ring'' (As_Slices (rev (map (\<lambda>j. int j - int last) [0..<k + 1]) @ map int [0..<first]) [])])) (?l 0) (?l last)"
    by (rule reaches_loop[where S = ?l]) (use assms cap in \<open>auto simp: reaches_def ref_simps\<close>)
  have len: "reaches nd N [Assert ''ring'' (Len cap)] (?l last) (?l last)"
    using cap by (simp add: reaches_def ref_simps)
  have seam: "?l 0 = ?f first" by simp
  from reaches_append[OF make reaches_append[OF behind reaches_append[OF before[unfolded seam] len]]]
  show ?thesis unfolding test_vecdeque_as_slices_def Let_def first_def[symmetric] last_def[symmetric]
    by (rule block_passes) (simp_all add: live_append live_quiet)
qed

lemma as_mut_slices_passes:
  assumes "1000 \<le> N" "cap \<le> N" shows "passes nd N (test_vecdeque_as_mut_slices cap)"
  using as_slices_passes[OF assms] by (simp only: test_vecdeque_as_mut_slices_def test_vecdeque_as_slices_def)

lemma issue_45_constants:
  "10 \<le> MAX_SAMPLES_PER_FRAME" "BUFFER_SIZE = 15 * MAX_SAMPLES_PER_FRAME" "REFILL_TRIGGER = 8 * MAX_SAMPLES_PER_FRAME"
  by (simp_all add: MAX_SAMPLES_PER_FRAME_def BUFFER_SIZE_def REFILL_TRIGGER_def)

lemma issue_45_len_bound: "issue_45_len i \<le> 13 * MAX_SAMPLES_PER_FRAME"
  by (induction i) (use issue_45_constants in \<open>auto simp: Let_def\<close>)

lemma issue_45_round_reaches:
  assumes "18 * MAX_SAMPLES_PER_FRAME + 1 \<le> N"
  shows "reaches nd N (issue_45_round zero i)
    [''buf'' \<mapsto> (replicate (issue_45_len i) zero, if i = 0 then BUFFER_SIZE else 0)]
    [''buf'' \<mapsto> (replicate (issue_45_len (Suc i)) zero, 0)]"
  using assms issue_45_constants issue_45_len_bound[of i]
  by (auto simp: issue_45_round_def reaches_def ref_simps Let_def simp flip: replicate_add)

lemma issue_45_passes:
  assumes "18 * MAX_SAMPLES_PER_FRAME + 1 \<le> N" shows "passes nd N (test_issue_45 zero)"
proof -
  let ?S = "\<lambda>i. [''buf'' \<mapsto> (replicate (issue_45_len i) zero, if i = 0 then BUFFER_SIZE else 0)]"
  have "reaches nd N [Make ''buf'' (With_Capacity BUFFER_SIZE)] Map.empty (?S 0)"
    using assms issue_45_constants by (simp add: reaches_def Option.is_none_def)
  moreover have "reaches nd N (for_range 0 10000 (issue_45_round zero)) (?S 0) (?S 10000)"
  proof (rule reaches_loop[where S = ?S])
    show "reaches nd N (issue_45_round zero i) (?S i) (?S (Suc i))" for i
      unfolding if_not_P[OF nat.distinct(2)] by (rule issue_45_round_reaches[OF assms])
  qed simp
  ultimately show ?thesis unfolding test_issue_45_def
    by (rule block_passes[OF reaches_append]) (simp_all add: live_append live_quiet issue_45_round_def Let_def)
qed

lemma issue_47_passes:
  assumes "2 * page_size + 3 \<le> N" shows "passes nd N (test_issue_47 page_size zero)"
  using assms by (simp add: test_issue_47_def script_simps)

lemma issue_57_passes:
  assumes "1000 \<le> N" shows "passes nd N (test_issue_57 v)"
proof -
  let ?S = "\<lambda>i. [''deque'' \<mapsto> (replicate i v, 0)]"
  have new: "reaches nd N [Make ''deque'' New] Map.empty (?S 0)" by (simp add: reaches_def Option.is_none_def)
  have push: "reaches nd N (for_range 0 918 (\<lambda>_. [Do ''deque'' (Push_Front v)])) (?S 0) (?S 918)"
    by (rule reaches_loop[where S = ?S]) (use assms in \<open>simp_all add: reaches_def ref_simps\<close>)
  have pop: "reaches nd N (for_range 0 237 (\<lambda>_. [Do ''deque'' (Pop_Front (Some v)), Assert ''deque'' (Is_Empty False),
      Assert ''deque'' (Back (Some v))])) (?S (918 - 0)) (?S (918 - 237))"
  proof (rule reaches_loop[where S = "\<lambda>i. ?S (918 - i)"])
    fix i :: nat assume "i < 237"
    then have n: "918 - i = Suc (918 - Suc i)" "918 - Suc i \<noteq> 0" by simp_all
    show "reaches nd N [Do ''deque'' (Pop_Front (Some v)), Assert ''deque'' (Is_Empty False), Assert ''deque'' (Back (Some v))]
        (?S (918 - i)) (?S (918 - Suc i))"
      using n(2) unfolding n(1) by (simp add: reaches_def ref_simps)
  qed simp
  from reaches_append[OF new reaches_append[OF push pop[unfolded diff_zero]]]
  show ?thesis unfolding test_issue_57_def
    by (rule block_passes) (simp_all add: live_append live_quiet)
qed

lemma drop_count_passes: "1000 \<le> N \<Longrightarrow> passes True N (test_drop_count foo)"
  by (simp add: test_drop_count_def script_simps for_range_def upt_conv_Cons)

lemma issue_57_2_passes:
  assumes "1000 \<le> N" shows "passes nd N (test_issue_57_2 test)"
proof -
  let ?S = "\<lambda>i. [''deque'' \<mapsto> (replicate (min i 7) test, 0)]"
  have "reaches nd N [Make ''deque'' New] Map.empty (?S 0)" by (simp add: reaches_def Option.is_none_def)
  moreover have "reaches nd N (for_range 0 30000 (\<lambda>i. [Do ''deque'' (Push_Back test)] @
       (if i < 7 then [Assert ''deque'' (Len (i + 1))] else [Assert ''deque'' (Len 8), Do ''deque'' Discard_Front])))
      (?S 0) (?S 30000)"
  proof (rule reaches_loop[where S = ?S])
    fix i :: nat
    show "reaches nd N ([Do ''deque'' (Push_Back test)] @
       (if i < 7 then [Assert ''deque'' (Len (i + 1))] else [Assert ''deque'' (Len 8), Do ''deque'' Discard_Front])) (?S i) (?S (Suc i))"
      using assms by (cases "i < 7") (auto simp: reaches_def ref_simps replicate_append_same min_def numeral_eq_Suc)
  qed simp
  ultimately show ?thesis unfolding test_issue_57_2_def
    by (rule block_passes[OF reaches_append]) (simp_all add: live_append live_quiet)
qed

end
