(* ===== verification/Spec2Isabelle.thy ===== *)
theory Spec2Isabelle
  imports Linux_Instance Sysv Winapi Macos Lifecycle Retain Drain Into_Iter Wraparound History Slice_Traits Byte_Buf Construction Tiny_Ascii
    Diagnostics Typing Unit_Tests Generic_Tests
begin

text \<open>
  \<^bold>\<open>slice_deque, verified.\<close> The crate is a double-ended queue whose elements always form one slice: the
  buffer of the deque is mapped twice, one copy behind the other, so that a run of elements that
  wraps around the end of the first mapping continues in the second. The development models
  \<open>src/lib.rs\<close> with most of its unit tests, \<open>src/macros.rs\<close> and \<open>src/mirrored/\<close> for a 64-bit target,
  debug and release builds alike, and the start of the sanitizer run \<open>san/src/main.rs\<close>.

  \<^bold>\<open>How the parts fit.\<close> \<open>SliceDeque\<close> keeps a pointer and a length (\<open>elems_\<close>) into a \<open>Buffer\<close>; the buffer
  asks the allocator of the target for a mirrored region and gives it back when dropped; everything
  else moves the two ends of the slice and copies bytes. An operation takes the configuration
  (\<open>cfg\<close>: platform, build profile, size, alignment and drop glue of the element type), the deque and
  the process (\<open>world\<close>: the state of the operating system and the log of dropped values), and returns
  \<open>fault + result\<close>: a panic or undefined behaviour, or the result with the new deque and world.

  \<^bold>\<open>Theories and code.\<close>
  \<^item> \<open>Prelude\<close>: failures, their sequencing, \<open>assert!\<close> and \<open>debug_assert!\<close>, \<open>usize\<close> and \<open>isize\<close>
    arithmetic that panics in a debug and wraps in a release build.
  \<^item> \<open>Memory\<close>: bytes of a region as cells; an element of \<open>n\<close> bytes is \<open>n\<close> fragments, a read that does
    not find all of them is \<open>UninitRead\<close>; address \<open>a + half\<close> is the same cell as \<open>a\<close>.
  \<^item> \<open>Platform\<close>, \<open>Mirroring\<close>: the interface of \<open>mirrored/mod.rs\<close> as a record, its contract
    (\<open>mirrored_platform\<close>), and how an allocator over an address space provides it
    (\<open>mirroring_allocator\<close>).
  \<^item> \<open>Linux\<close>, \<open>Sysv\<close>, \<open>Winapi\<close>, \<open>Macos\<close> (\<open>Attachments\<close> is shared by the middle two): the four
    allocators, call by call. The system calls are fields of a record, their documented behaviour is
    a locale (\<open>linux_kernel\<close>, \<open>sysv_kernel\<close>, \<open>win_kernel\<close>, \<open>mach_kernel\<close>); a concrete simulated system
    interprets each (\<open>Linux_Instance\<close> for Linux, also the configuration of the examples).
  \<^item> \<open>Buffer\<close>: \<open>mirrored/buffer.rs\<close>, and the raw-pointer operations (\<open>ptr::read\<close>, \<open>write\<close>, \<open>copy\<close>,
    \<open>copy_nonoverlapping\<close>) with the bounds of the mapping checked.
  \<^item> \<open>Deque\<close>: the struct, its slices, \<open>move_head\<close>, \<open>move_tail\<close>; \<open>Reserve\<close>: \<open>reserve\<close> and its variants, the
    growth policy; \<open>Ends\<close>: pushes and pops; \<open>Lifecycle\<close>: \<open>with_capacity\<close>, \<open>Drop\<close>, \<open>shrink_to_fit\<close>.
  \<^item> \<open>Edit\<close>, \<open>Bulk\<close>: truncation, \<open>insert\<close>, \<open>remove\<close>, swap-removal, \<open>append\<close>, \<open>split_off\<close>,
    \<open>steal_from_slice\<close>; \<open>Retain\<close>: \<open>retain\<close> and the dedup family; \<open>Extend\<close>: \<open>extend\<close>, \<open>clone\<close>, \<open>resize\<close>,
    \<open>extend_from_slice\<close>, \<open>from_elem\<close>; \<open>Drain\<close>: \<open>Drain\<close>, \<open>Splice\<close>, \<open>DrainFilter\<close>; \<open>Into_Iter\<close>: the
    consuming iterator; \<open>Slice_Traits\<close>, \<open>Byte_Buf\<close>, \<open>Construction\<close>: comparison, hashing and
    \<open>Debug\<close>, the traits of the crate \<open>bytes\<close>, \<open>sdeq!\<close> and \<open>Buffer::clone\<close>; \<open>Iter_Views\<close>: the slices and
    the \<open>Debug\<close> output of \<open>IntoIter\<close>; \<open>Tiny_Ascii\<close>: \<open>macros.rs\<close>; \<open>Diagnostics\<close>: what the allocators
    print.
  \<^item> \<open>Queue_Interface\<close>: the queue a client sees (locale \<open>double_ended\<close>), provided by \<open>Ends\<close>.
    \<open>Wraparound\<close> and \<open>History\<close> hold results that span components.
  \<^item> \<open>Item_Calls\<close>, \<open>Client\<close>, \<open>Programs\<close>: programs as a client writes them, over any number of deques in
    variables: calls on an iterator (locale \<open>item_source\<close>, interpreted by \<open>Drain\<close>, \<open>Splice\<close> and
    \<open>IntoIter\<close>), calls on one deque, commands on several; each runs on the model and is read on lists.
    \<open>Scripts\<close> has blocks, loops and verdicts, \<open>Typing\<close> the rules of the compiler with bounds on sizes.
  \<^item> \<open>Unit_Tests\<close>, \<open>Sized_Tests\<close>, \<open>Generic_Tests\<close>: the tests of \<open>src/lib.rs\<close> as such programs, under their
    own names with the prefix \<open>test_\<close>; what a test does for some sizes, rounds or elements is a
    parameter where it does not matter.

  \<^bold>\<open>Specification and lemmas.\<close> \<open>rep c d xs\<close>: the deque is well formed and its slice holds the list
  \<open>xs\<close>. \<open>holds\<close> adds that the process owns the region; \<open>others\<close> are the regions it owns besides.
  The lemmas of a component say what each operation does to \<open>xs\<close>, to the regions and to the log of
  dropped values, on every branch (\<open>\<dots>_rep\<close> where memory cannot run out, \<open>\<dots>_cases\<close> and \<open>\<dots>_outcome\<close>
  where it can). They are proved in the locale \<open>deque_env\<close>, for any platform with the contract. Every
  success includes that no assertion of the debug build fails and that nothing undefined happens.

  \<^bold>\<open>The properties\<close> are in this theory: programs over many deques refine their reading on lists, and
  those that are well typed never end in undefined behaviour; the invariant of all histories of
  calls and of a whole lifetime; the unit tests pass on every platform with the contract; the two
  primitives, both ends, growth and the buffer's round trip; the allocators; each operation against
  its list function; what callers' panicking closures leave behind; comparison and \<open>BufMut\<close>. The last group shows defects of the code as it is, each on a concrete instance
  (\<open>insert\<close> in the front half, \<open>shrink_to_fit\<close>, \<open>extend_from_slice\<close>, a splice that grows,
  \<open>drain_filter\<close> with a panicking predicate, \<open>IntoIter::clone\<close>, an unchecked multiplication in a
  release build, and the handle and region leaks among the allocators).

  \<^bold>\<open>Loops and bounds.\<close> Loops over a list or an index range are structural recursions. The others
  carry the rounds that are left, and the bound is the code's own: \<open>it_len\<close> for a drain, the size hint
  for \<open>IntoIter\<close>, \<open>old_len - idx\<close> for \<open>DrainFilter\<close>, \<open>new_len - len\<close> for \<open>resize\<close>, 10 rounds for System V
  and 11 for Windows (their loop tests \<open>no_iters > 10\<close> before it counts). Each lemma about them covers
  the run to the end, so none of the bounds cuts a loop short. \<open>fits\<close> and \<open>room\<close> bound sizes by the
  address space; outside them \<open>Wraparound\<close> shows what happens.

  \<^bold>\<open>Assumptions.\<close> The kernel locales, which state documented behaviour only; as much address space
  below a region as one element takes (\<open>head_room\<close>: it follows from the contract for elements that
  fit into a page, for larger ones nobody documents it, and \<open>low_region_head_wraps\<close> shows what the
  code does without it); element types whose size is a multiple of their alignment, with
  sizes that leave room in the address space (\<open>cfg_ok\<close>); for a zero-sized type all values are the one
  value \<open>zval\<close>. Iterators are the list of what they give with an arbitrary size hint, clones and
  defaults are functions that may panic (\<open>None\<close>), predicates thread a state of their own.

  In programs closures do not panic, and a bound \<open>N\<close> limits all sizes (\<open>fits c (2 * N)\<close>); where the
  documentation promises nothing (a capacity beyond the one asked for) or a call is unsound, the
  reading on lists is undetermined.

  \<^bold>\<open>Not modelled.\<close> Threads other than through the freedom the kernel locales leave between two system
  calls; when the allocators print; marker traits; unwinding out of destructors; the benchmarks and
  the simulator script, which only run other code. Of the tests: those that compare capacities or
  addresses for equality, splices that insert before a tail (they pass only because a region is a
  whole page), clones and collections of an \<open>IntoIter\<close>, raw moves of the ends, the crate \<open>bytes\<close>,
  files, hash maps, \<open>partition\<close> and \<open>unzip\<close>, \<open>clone_from\<close>, a destructor that panics and one that writes
  to the memory of its value (\<open>non_fitting_elem_type\<close>).
\<close>

section \<open>A starting point\<close>

text \<open>An empty deque in a process that owns nothing.\<close>

definition fresh_world :: "(nat, sim \<times> (nat \<times> nat) set) world" where
  "fresh_world = world_at 100"

lemma fresh_state: "queue_state cfg1 sim_tracked sim_owned ({}, []) (deque_new cfg1) fresh_world []"
  using deque_env.new_holds[OF env1, of fresh_world] sim_start_ok[of 100]
  by (simp add: queue_state_def fresh_world_def world_at_def others_def isize_bound_def regions_def)

section \<open>The ring: moving the head and the tail\<close>

text \<open>
  C9: \<open>move_head_unchecked\<close> by \<open>n\<close> elements, with or without a wrap of the head over the seam of
  the two regions, succeeds with every assertion of the debug build, keeps the deque well formed,
  and leaves a deque whose slice is the old one without its first \<open>n\<close> elements.
\<close>

theorem move_head_drops_prefix:
  assumes "rep c d xs" "n \<le> length xs"
  shows "\<exists>d'. move_head_unchecked c d (int n) = Inr d' \<and> buf d' = buf d \<and> wf_deque c d' \<and>
    rep c d' (drop n xs)"
  using evolves_drop_head[OF assms] by (metis evolves_rep rep_wf)

theorem move_head_drops_prefix_witness:
  "\<exists>d'. move_head_unchecked (small_cfg True 1) wrapped_deque (int 1) = Inr d' \<and>
    buf d' = buf wrapped_deque \<and> wf_deque (small_cfg True 1) d' \<and>
    rep (small_cfg True 1) d' (drop 1 [10, 20])"
  by (rule move_head_drops_prefix[OF wrapped_rep]) simp

section \<open>Both ends of the queue\<close>

text \<open>
  C8: \<open>try_push_back\<close> and \<open>try_push_front\<close>, in any environment that keeps the platform's contract:
  either memory ran out, and then the value comes back, the deque is the very same and the process
  owns the regions it owned before; or the list has the new element at that end, whether or not the
  head had to step back over the seam, and nothing outside the deque's region changed.
\<close>

theorem try_pushes_refine:
  assumes "deque_env c os_ok owned" "holds c os_ok owned d w xs" "length xs < isize_max" "val_ok c v"
  shows "((\<exists>e s. try_push_back c v d w = Inr (Inl (v, e), d, w\<lparr>os := s\<rparr>) \<and>
            holds c os_ok owned d (w\<lparr>os := s\<rparr>) xs \<and> owned s = owned (os w)) \<or>
    (\<exists>d' s. try_push_back c v d w = Inr (Inr (), d', w\<lparr>os := s\<rparr>) \<and>
            holds c os_ok owned d' (w\<lparr>os := s\<rparr>) (xs @ [v]) \<and> capacity d \<le> capacity d' \<and>
            others c owned d' (w\<lparr>os := s\<rparr>) = others c owned d w)) \<and>
   ((\<exists>e s. try_push_front c v d w = Inr (Inl (v, e), d, w\<lparr>os := s\<rparr>) \<and>
            holds c os_ok owned d (w\<lparr>os := s\<rparr>) xs \<and> owned s = owned (os w)) \<or>
    (\<exists>d' s. try_push_front c v d w = Inr (Inr (), d', w\<lparr>os := s\<rparr>) \<and>
            holds c os_ok owned d' (w\<lparr>os := s\<rparr>) (v # xs) \<and> capacity d \<le> capacity d' \<and>
            others c owned d' (w\<lparr>os := s\<rparr>) = others c owned d w))"
  by (rule conjI; (rule deque_env.try_push_back_cases[OF assms] deque_env.try_push_front_cases[OF assms]); blast)

theorem try_pushes_refine_witness:
  "((\<exists>e s. try_push_back cfg1 30 wrapped_deque world1 = Inr (Inl (30, e), wrapped_deque, world1\<lparr>os := s\<rparr>) \<and>
        sim_holds wrapped_deque (world1\<lparr>os := s\<rparr>) [10, 20] \<and> sim_owned s = sim_owned (os world1)) \<or>
   (\<exists>d' s. try_push_back cfg1 30 wrapped_deque world1 = Inr (Inr (), d', world1\<lparr>os := s\<rparr>) \<and>
        sim_holds d' (world1\<lparr>os := s\<rparr>) ([10, 20] @ [30]) \<and> capacity wrapped_deque \<le> capacity d' \<and>
        others cfg1 sim_owned d' (world1\<lparr>os := s\<rparr>) = others cfg1 sim_owned wrapped_deque world1)) \<and>
   ((\<exists>e s. try_push_front cfg1 30 wrapped_deque world1 = Inr (Inl (30, e), wrapped_deque, world1\<lparr>os := s\<rparr>) \<and>
        sim_holds wrapped_deque (world1\<lparr>os := s\<rparr>) [10, 20] \<and> sim_owned s = sim_owned (os world1)) \<or>
   (\<exists>d' s. try_push_front cfg1 30 wrapped_deque world1 = Inr (Inr (), d', world1\<lparr>os := s\<rparr>) \<and>
        sim_holds d' (world1\<lparr>os := s\<rparr>) (30 # [10, 20]) \<and> capacity wrapped_deque \<le> capacity d' \<and>
        others cfg1 sim_owned d' (world1\<lparr>os := s\<rparr>) = others cfg1 sim_owned wrapped_deque world1))"
  by (rule try_pushes_refine[OF env1 holds1]) (simp_all add: isize_bound_def isize_max_def)

text \<open>
  Both pops. On an empty deque they return \<open>None\<close> and change nothing; otherwise they move the
  first (last) element out, and what is left is the list without it. They touch neither the
  buffer nor the rest of the process.
\<close>

lemma pops_refine:
  assumes "rep c d xs"
  shows "(\<exists>d'. pop_front c d = Inr (if xs = [] then None else Some (hd xs), d') \<and>
            buf d' = buf d \<and> rep c d' (tl xs)) \<and>
         (\<exists>d'. pop_back c d = Inr (if xs = [] then None else Some (last xs), d') \<and>
            buf d' = buf d \<and> eptr d' = eptr d \<and> rep c d' (butlast xs))"
proof (cases "xs = []")
  case True
  then show ?thesis using pop_front_rep(1)[OF assms] pop_back_rep(1)[OF assms] assms by auto
next
  case False
  obtain p where "pop_front c d = Inr (Some (hd xs), d\<lparr>eptr := p, elen := length xs - 1\<rparr>)"
    "rep c (d\<lparr>eptr := p, elen := length xs - 1\<rparr>) (tl xs)" using pop_front_rep(2)[OF assms False] by blast
  then show ?thesis using pop_back_rep(2)[OF assms False] False by simp
qed

text \<open>
  C10: The queue as its client sees it. Values pushed at the back of an empty deque, however
  often that makes it grow, come out of the front in the order they went in and out of the back
  in the reverse order; the deque is empty again and the frame (the other regions of the process,
  the log of dropped values) is untouched.
\<close>

theorem queue_order:
  assumes "deque_env c os_ok owned" "queue_state c os_ok owned fr d w []"
    and "list_all (val_ok c) vs" "length vs \<le> isize_max"
  shows "push_outcome (push_all (push_back c) vs d w) (\<lambda>d1 w1.
      \<exists>d2. pop_n (pop_front c) (length vs) d1 = Inr (vs, d2) \<and> queue_state c os_ok owned fr d2 w1 []) \<and>
    push_outcome (push_all (push_back c) vs d w) (\<lambda>d1 w1.
      \<exists>d2. pop_n (pop_back c) (length vs) d1 = Inr (rev vs, d2) \<and> queue_state c os_ok owned fr d2 w1 [])"
  using deque_env.queue_order_back[OF assms] by blast

theorem queue_order_witness:
  "push_outcome (push_all (push_back cfg1) [1, 2] (deque_new cfg1) fresh_world) (\<lambda>d1 w1.
      \<exists>d2. pop_n (pop_front cfg1) (length [1, 2 :: nat]) d1 = Inr ([1, 2], d2) \<and>
           queue_state cfg1 sim_tracked sim_owned ({}, []) d2 w1 []) \<and>
   push_outcome (push_all (push_back cfg1) [1, 2] (deque_new cfg1) fresh_world) (\<lambda>d1 w1.
      \<exists>d2. pop_n (pop_back cfg1) (length [1, 2 :: nat]) d1 = Inr (rev [1, 2], d2) \<and>
           queue_state cfg1 sim_tracked sim_owned ({}, []) d2 w1 [])"
  by (rule queue_order[OF env1 fresh_state]) (simp_all add: isize_max_def isize_bound_def)

section \<open>Capacity and ownership\<close>

text \<open>
  C11: \<open>try_reserve\<close> for \<open>k\<close> more elements. Either it reports the allocation error, with the deque
  and the owned regions unchanged, and only when there was no room; or there is room for \<open>k\<close>
  more, the elements are the same, and a deque that had to grow has at least doubled.
\<close>

theorem try_reserve_guarantees:
  assumes "deque_env c os_ok owned" "holds c os_ok owned d w xs" "room c d (length xs) k"
  shows "(\<exists>e s. try_reserve c d k w = Inr (Inl e, d, w\<lparr>os := s\<rparr>) \<and> capacity d < length xs + k \<and>
            holds c os_ok owned d (w\<lparr>os := s\<rparr>) xs \<and> owned s = owned (os w)) \<or>
    (\<exists>d' s. try_reserve c d k w = Inr (Inr (), d', w\<lparr>os := s\<rparr>) \<and>
            holds c os_ok owned d' (w\<lparr>os := s\<rparr>) xs \<and>
            others c owned d' (w\<lparr>os := s\<rparr>) = others c owned d w \<and>
            max (capacity d) (length xs + k) \<le> capacity d' \<and>
            (esize c = 0 \<or> length xs + k \<le> capacity d \<or> 2 * capacity d \<le> capacity d'))"
proof -
  have k: "length xs + k < usize_bound"
    "capacity d < length xs + k \<longrightarrow> fits c (max (length xs + k) (2 * capacity d))"
    "esize c = 0 \<longrightarrow> length xs + k \<le> isize_max" using assms(3) by (simp_all add: room_def)
  show ?thesis
    by (rule deque_env.try_reserve_cases[OF assms(1,2) k]) (fastforce simp: not_le)+
qed

theorem try_reserve_guarantees_witness:
  "(\<exists>e s. try_reserve cfg1 wrapped_deque 3 world1 = Inr (Inl e, wrapped_deque, world1\<lparr>os := s\<rparr>) \<and>
        capacity wrapped_deque < length [10, 20 :: nat] + 3 \<and>
        sim_holds wrapped_deque (world1\<lparr>os := s\<rparr>) [10, 20] \<and> sim_owned s = sim_owned (os world1)) \<or>
   (\<exists>d' s. try_reserve cfg1 wrapped_deque 3 world1 = Inr (Inr (), d', world1\<lparr>os := s\<rparr>) \<and>
        sim_holds d' (world1\<lparr>os := s\<rparr>) [10, 20] \<and>
        others cfg1 sim_owned d' (world1\<lparr>os := s\<rparr>) = others cfg1 sim_owned wrapped_deque world1 \<and>
        max (capacity wrapped_deque) (length [10, 20 :: nat] + 3) \<le> capacity d' \<and>
        (esize cfg1 = 0 \<or> length [10, 20 :: nat] + 3 \<le> capacity wrapped_deque \<or>
         2 * capacity wrapped_deque \<le> capacity d'))"
  by (rule try_reserve_guarantees[OF env1 holds1])
    (simp add: room_def fits_def usize_bound_def)

text \<open>
  C12: A buffer asked for \<open>n\<close> elements (an even number, as the deque asks). Either the platform has
  failed and the process owns what it owned; or the buffer has at least \<open>n\<close> slots and dropping
  it hands exactly its region back: the size the destructor recomputes from the capacity is the
  size that was mapped.
\<close>

theorem buffer_roundtrip:
  assumes "deque_env c os_ok owned" "os_ok (os w)" "even n" "n * esize c + 2 * ag c < usize_bound"
  shows "(\<exists>e s. uninitialized c n w = Inr (Inl e, w\<lparr>os := s\<rparr>) \<and> owned s = owned (os w)) \<or>
    (\<exists>b s s'. uninitialized c n w = Inr (Inr b, w\<lparr>os := s\<rparr>) \<and> (esize c = 0 \<or> n \<le> blen b) \<and>
       owned s = owned (os w) \<union> regions c b \<and> regions c b \<inter> owned (os w) = {} \<and>
       buffer_drop c b (w\<lparr>os := s\<rparr>) = Inr (w\<lparr>os := s'\<rparr>) \<and> owned s' = owned (os w))"
proof -
  note c = deque_env.cfg[OF assms(1)] and pl = deque_env.platform[OF assms(1)]
  show ?thesis
  proof (rule mirrored_platform.uninitialized_cases[OF pl c refl deque_env.below[OF assms(1)] assms(3,4,2)], goal_cases)
    case (1 e s)
    then show ?case by blast
  next
    case (2 b s)
    have own: "os_ok (os (w\<lparr>os := s\<rparr>))" "regions c b \<subseteq> owned (os (w\<lparr>os := s\<rparr>))" using 2 by auto
    obtain s' where "buffer_drop c b (w\<lparr>os := s\<rparr>) = Inr (w\<lparr>os := s'\<rparr>)" "owned s' = owned s - regions c b"
      using mirrored_platform.buffer_drop_ok[OF pl c refl 2(3) own] by auto
    moreover from this(2) have "owned s' = owned (os w)" using 2(4,5) by blast
    ultimately show ?case using 2 by blast
  qed
qed

theorem buffer_roundtrip_witness:
  "(\<exists>e s. uninitialized (small_cfg True 3) 2 fresh_world = Inr (Inl e, fresh_world\<lparr>os := s\<rparr>) \<and>
       sim_owned s = sim_owned (os fresh_world)) \<or>
   (\<exists>b s s'. uninitialized (small_cfg True 3) 2 fresh_world = Inr (Inr b, fresh_world\<lparr>os := s\<rparr>) \<and>
       (esize (small_cfg True 3) = 0 \<or> 2 \<le> blen b) \<and>
       sim_owned s = sim_owned (os fresh_world) \<union> regions (small_cfg True 3) b \<and>
       regions (small_cfg True 3) b \<inter> sim_owned (os fresh_world) = {} \<and>
       buffer_drop (small_cfg True 3) b (fresh_world\<lparr>os := s\<rparr>) = Inr (fresh_world\<lparr>os := s'\<rparr>) \<and>
       sim_owned s' = sim_owned (os fresh_world))"
  by (rule buffer_roundtrip[OF small_env])
    (simp_all add: fresh_world_def world_at_def sim_start_ok isize_bound_def usize_bound_def)

text \<open>
  C35: \<open>shrink_to_fit\<close> of a non-empty deque, by the outcome of its request for a deque of the same
  length. If that panics, so does the call; if what it gets is not smaller, nothing has changed;
  but if it is smaller, the call ends with the elements in the new buffer \<^emph>\<open>after all of them
  have been dropped\<close>: the old deque, elements included, is the local variable that goes out of
  scope. The result owns values that no longer exist, and dropping it drops them again.
\<close>

theorem shrink_to_fit_drops_live_elements:
  assumes "deque_env c os_ok owned" "holds c os_ok owned d w xs" "xs \<noteq> []" "fits c (length xs)"
  shows "case with_capacity c (length xs) w of
      Inl f \<Rightarrow> shrink_to_fit c d w = Inl f
    | Inr (d1, w1) \<Rightarrow>
        (\<exists>d' s. if capacity d1 < capacity d
          then shrink_to_fit c d w = Inr (d', (drop_vals c xs w)\<lparr>os := s\<rparr>) \<and> capacity d' < capacity d \<and>
               holds c os_ok owned d' ((drop_vals c xs w)\<lparr>os := s\<rparr>) xs
          else shrink_to_fit c d w = Inr (d, w\<lparr>os := s\<rparr>) \<and> holds c os_ok owned d (w\<lparr>os := s\<rparr>) xs \<and>
               owned s = owned (os w))"
  by (rule deque_env.shrink_to_fit_cases[OF assms]) auto

theorem shrink_to_fit_drops_live_elements_witness:
  "\<exists>d' s. shrink_to_fit cfg1 quad_deque quad_world
      = Inr (d', (drop_vals cfg1 [1, 2, 3, 4] quad_world)\<lparr>os := s\<rparr>) \<and> capacity d' < capacity quad_deque \<and>
    sim_holds d' ((drop_vals cfg1 [1, 2, 3, 4] quad_world)\<lparr>os := s\<rparr>) [1, 2, 3, 4]"
proof -
  have l: "length [1, 2, 3, 4 :: nat] = 4" by simp
  obtain d1 w1 where wc: "with_capacity cfg1 (length [1, 2, 3, 4 :: nat]) quad_world = Inr (d1, w1)"
    "capacity d1 < capacity quad_deque" using quad_with_capacity unfolding l by fastforce
  have "fits cfg1 (length [1, 2, 3, 4 :: nat])" by (simp add: fits_def usize_bound_def)
  from shrink_to_fit_drops_live_elements[OF env1 quad_holds _ this] wc show ?thesis
    by (simp only: sum.case prod.case if_True list.distinct not_False_eq_True)
qed

section \<open>Editing\<close>

text \<open>
  C18: \<open>insert\<close> at index 0 or 1, or anywhere in the back half, of a deque that has to grow or not:
  it panics because memory ran out, or the list has the new element at the index and is otherwise
  the same. Past the end it panics with the assertion.
\<close>

theorem insert_refines:
  assumes "deque_env c os_ok owned" "holds c os_ok owned d w xs" "length xs < isize_max" "val_ok c v"
    and "i \<le> 1 \<or> length xs div 2 < i"
  shows "if i \<le> length xs
    then grows c os_ok owned d w (take i xs @ v # drop i xs) (deque_insert c i v d w)
    else deque_insert c i v d w = panic AssertFailed"
  using deque_env.deque_insert_grows[OF assms(1,2) _ assms(5,3,4)]
    insert_out_of_range[OF holds_rep[OF assms(2)], of i v w] by auto

theorem insert_refines_witness:
  "if 3 \<le> length [1, 2, 3, 4 :: nat]
   then grows cfg1 sim_tracked sim_owned quad_deque quad_world (take 3 [1, 2, 3, 4] @ 9 # drop 3 [1, 2, 3, 4])
          (deque_insert cfg1 3 9 quad_deque quad_world)
   else deque_insert cfg1 3 9 quad_deque quad_world = panic AssertFailed"
  by (rule insert_refines[OF env1 quad_holds]) (simp_all add: isize_max_def isize_bound_def)

text \<open>
  C36: \<open>insert\<close> in the rest of the front half, \<open>2 \<le> i \<le> len / 2\<close>, without a reallocation. The head
  steps back by one but the copy moves the elements from \<open>i\<close> on instead of those before \<open>i\<close>, so
  the new first slot is never written: when it held nothing, the very next \<open>pop_front\<close> (or any
  read of element 0) is undefined behaviour.
\<close>

theorem insert_front_half_reads_uninit:
  assumes "rep c d xs" "2 \<le> i" "i \<le> length xs div 2" "length xs < capacity d" "0 < esize c"
    and "move_head_unchecked c d (- 1) = Inr d0" "bslot c (buf d) (eptr d0) = replicate (esize c) Uninit"
  shows "\<exists>d'. deque_insert c i v d w = Inr (d', w) \<and> pop_front c d' = undef UninitRead"
proof -
  obtain p d1 b where i: "open_gap c i (length xs) d = Inr (p, d1)" "ptr_write c (buf d1) p v = Inr b"
    "wf_deque c (d1\<lparr>buf := b\<rparr>)" "elen d1 = Suc (length xs)"
    "dview c (d1\<lparr>buf := b\<rparr>) ! 0 = bslot c (buf d) (eptr d0)"
    using insert_front_wrong[OF assms(1-4), of v] assms(6) by (metis sum.inject(2))
  have "pop_front c (d1\<lparr>buf := b\<rparr>) = undef UninitRead"
    using pop_front_uninit[OF i(3)] i(4,5) assms(5,7) by simp
  then show ?thesis using insert_no_growth[OF assms(1) _ assms(4) i(1,2)] assms(3) by auto
qed

theorem insert_front_half_reads_uninit_witness:
  "\<exists>d'. deque_insert cfg1 2 9 quad_deque quad_world = Inr (d', quad_world) \<and> pop_front cfg1 d' = undef UninitRead"
  by (rule insert_front_half_reads_uninit[OF quad_rep, where ?d0.0 = "quad_deque\<lparr>eptr := 23, elen := 5\<rparr>"])
    (simp_all add: quad_step_back[simplified])

text \<open>
  C19: Removal at an index. \<open>remove\<close> returns the element, from either half, and closes the gap; with
  \<open>swap_remove_back\<close> and \<open>swap_remove_front\<close> the last and the first element takes its place. Past the
  end \<open>remove\<close> panics with the assertion, the other two with the index.
\<close>

theorem removals_refine:
  assumes "rep c d xs"
  shows "if i < length xs
    then (\<exists>d'. remove c i d = Inr (xs ! i, d') \<and> evolves c d d' (take i xs @ drop (Suc i) xs)) \<and>
         (\<exists>d'. swap_remove_back c i d = Inr (Some (xs ! i), d') \<and> evolves c d d' (butlast (xs[i := last xs]))) \<and>
         (\<exists>d'. swap_remove_front c i d = Inr (Some (xs ! i), d') \<and> evolves c d d' (tl (xs[i := hd xs])))
    else remove c i d = panic AssertFailed \<and>
         (xs \<noteq> [] \<longrightarrow> swap_remove_back c i d = panic IndexOutOfBounds \<and> swap_remove_front c i d = panic IndexOutOfBounds)"
proof (cases "i < length xs")
  case True
  have "\<exists>d'. remove c i d = Inr (xs ! i, d') \<and> evolves c d d' (take i xs @ drop (Suc i) xs)"
    by (rule remove_rep[OF assms True]) blast
  moreover have "\<exists>d'. swap_remove_back c i d = Inr (Some (xs ! i), d') \<and> evolves c d d' (butlast (xs[i := last xs]))"
    by (rule swap_remove_back_rep[OF assms True]) blast
  moreover have "\<exists>d'. swap_remove_front c i d = Inr (Some (xs ! i), d') \<and> evolves c d d' (tl (xs[i := hd xs]))"
    by (rule swap_remove_front_rep[OF assms True]) blast
  ultimately show ?thesis using True by simp
next
  case False
  then show ?thesis
    using remove_out_of_range[OF assms, of i] swap_remove_out_of_range[OF assms _ False] by simp
qed

theorem removals_refine_witness:
  "if 1 < length [1, 2, 3, 4 :: nat]
   then (\<exists>d'. remove cfg1 1 quad_deque = Inr ([1, 2, 3, 4] ! 1, d') \<and>
           evolves cfg1 quad_deque d' (take 1 [1, 2, 3, 4] @ drop (Suc 1) [1, 2, 3, 4])) \<and>
        (\<exists>d'. swap_remove_back cfg1 1 quad_deque = Inr (Some ([1, 2, 3, 4] ! 1), d') \<and>
           evolves cfg1 quad_deque d' (butlast ([1, 2, 3, 4][1 := last [1, 2, 3, 4]]))) \<and>
        (\<exists>d'. swap_remove_front cfg1 1 quad_deque = Inr (Some ([1, 2, 3, 4] ! 1), d') \<and>
           evolves cfg1 quad_deque d' (tl ([1, 2, 3, 4][1 := hd [1, 2, 3, 4]])))
   else remove cfg1 1 quad_deque = panic AssertFailed \<and>
        ([1, 2, 3, 4 :: nat] \<noteq> [] \<longrightarrow> swap_remove_back cfg1 1 quad_deque = panic IndexOutOfBounds \<and>
          swap_remove_front cfg1 1 quad_deque = panic IndexOutOfBounds)"
  by (rule removals_refine[OF quad_rep])

text \<open>
  C20: Truncation at either end keeps the elements on the other side and drops exactly the rest, in
  order; \<open>clear\<close> drops everything. The capacity and the region stay.
\<close>

theorem truncate_refines:
  assumes "rep c d xs"
  shows "(\<exists>d'. truncate_back c n d w = Inr (d', drop_vals c (drop n xs) w) \<and> evolves c d d' (take n xs)) \<and>
    (\<exists>d'. truncate_front c n d w = Inr (d', drop_vals c (take (length xs - n) xs) w) \<and>
          evolves c d d' (drop (length xs - n) xs)) \<and>
    (\<exists>d'. clear c d w = Inr (d', drop_vals c xs w) \<and> evolves c d d' [])"
  by (intro conjI; (rule truncate_back_rep[OF assms, of n w] truncate_front_rep[OF assms, of n w] clear_rep[OF assms, of w]);
      blast)

theorem truncate_refines_witness:
  "(\<exists>d'. truncate_back cfg1 1 wrapped_deque world1 = Inr (d', drop_vals cfg1 (drop 1 [10, 20]) world1) \<and>
      evolves cfg1 wrapped_deque d' (take 1 [10, 20])) \<and>
   (\<exists>d'. truncate_front cfg1 1 wrapped_deque world1
        = Inr (d', drop_vals cfg1 (take (length [10, 20 :: nat] - 1) [10, 20]) world1) \<and>
      evolves cfg1 wrapped_deque d' (drop (length [10, 20 :: nat] - 1) [10, 20])) \<and>
   (\<exists>d'. clear cfg1 wrapped_deque world1 = Inr (d', drop_vals cfg1 [10, 20] world1) \<and>
      evolves cfg1 wrapped_deque d' [])"
  by (rule truncate_refines[OF wrapped_rep])

text \<open>
  C21: Two deques. \<open>append\<close> moves the elements of another deque behind those of this one; the other
  is empty afterwards and keeps its region. \<open>split_off\<close> at \<open>i\<close> is the way back: the deque keeps the
  first \<open>i\<close> elements in its own region and a new deque holds the others in a region of its own.
  Memory running out is a panic, and no element is dropped.
\<close>

theorem append_split_off_refine:
  assumes "deque_env c os_ok owned" "holds c os_ok owned d w xs"
  shows "(holds c os_ok owned other w ys \<and> regions c (buf d) \<inter> regions c (buf other) = {} \<and>
      room c d (length xs) (length ys) \<longrightarrow>
      (\<exists>e. append c d other w = panic (CalledUnwrapOnErr e)) \<or>
      (\<exists>d' other' s. append c d other w = Inr (d', other', w\<lparr>os := s\<rparr>) \<and>
         holds c os_ok owned d' (w\<lparr>os := s\<rparr>) (xs @ ys) \<and> holds c os_ok owned other' (w\<lparr>os := s\<rparr>) [] \<and>
         buf other' = buf other \<and> others c owned d' (w\<lparr>os := s\<rparr>) = others c owned d w)) \<and>
    (i \<le> length xs \<and> fits c (length xs - i) \<longrightarrow>
      (\<exists>e. split_off c i d w = panic (AllocationFailed e)) \<or>
      (\<exists>d' other s. split_off c i d w = Inr (d', other, w\<lparr>os := s\<rparr>) \<and>
         holds c os_ok owned d' (w\<lparr>os := s\<rparr>) (take i xs) \<and> holds c os_ok owned other (w\<lparr>os := s\<rparr>) (drop i xs) \<and>
         buf d' = buf d \<and> regions c (buf other) \<inter> owned (os w) = {} \<and>
         owned s = owned (os w) \<union> regions c (buf other)))"
proof (intro conjI impI, goal_cases)
  case 1
  then show ?case by (elim conjE) (rule deque_env.append_cases[OF assms, of other ys]; blast)
next
  case 2
  then show ?case by (elim conjE) (rule deque_env.split_off_cases[OF assms, of i]; blast)
qed

theorem append_split_off_refine_witness:
  "((\<exists>e. append cfg1 wrapped_deque (deque_new cfg1) world1 = panic (CalledUnwrapOnErr e)) \<or>
    (\<exists>d' other' s. append cfg1 wrapped_deque (deque_new cfg1) world1 = Inr (d', other', world1\<lparr>os := s\<rparr>) \<and>
      sim_holds d' (world1\<lparr>os := s\<rparr>) ([10, 20] @ []) \<and> sim_holds other' (world1\<lparr>os := s\<rparr>) [] \<and>
      buf other' = buf (deque_new cfg1) \<and>
      others cfg1 sim_owned d' (world1\<lparr>os := s\<rparr>) = others cfg1 sim_owned wrapped_deque world1)) \<and>
   ((\<exists>e. split_off cfg1 1 wrapped_deque world1 = panic (AllocationFailed e)) \<or>
    (\<exists>d' other s. split_off cfg1 1 wrapped_deque world1 = Inr (d', other, world1\<lparr>os := s\<rparr>) \<and>
      sim_holds d' (world1\<lparr>os := s\<rparr>) (take 1 [10, 20]) \<and> sim_holds other (world1\<lparr>os := s\<rparr>) (drop 1 [10, 20]) \<and>
      buf d' = buf wrapped_deque \<and> regions cfg1 (buf other) \<inter> sim_owned (os world1) = {} \<and>
      sim_owned s = sim_owned (os world1) \<union> regions cfg1 (buf other)))"
proof -
  have "sim_holds (deque_new cfg1) world1 []"
    using deque_env.new_holds[OF env1, of world1] holds1 by (simp add: holds_def)
  moreover have "regions cfg1 (buf wrapped_deque) \<inter> regions cfg1 (buf (deque_new cfg1)) = {}"
    using deque_env.new_holds[OF env1, of world1] holds1 by (simp add: holds_def)
  moreover have "room cfg1 wrapped_deque (length [10, 20 :: nat]) (length ([] :: nat list))" "fits cfg1 (length [10, 20 :: nat] - 1)"
    "1 \<le> length [10, 20 :: nat]"
    by (simp_all add: room_def fits_def usize_bound_def)
  ultimately show ?thesis
    using append_split_off_refine[OF env1 holds1, of "deque_new cfg1" "[]" 1] by blast
qed

section \<open>Filtering in place\<close>

text \<open>
  C22: \<open>retain\<close> with a predicate keeps the elements that satisfy it, in their order, and drops exactly
  the others, each once.
\<close>

theorem retain_filters:
  assumes "rep c d xs"
  shows "\<exists>d' R. retain c (\<lambda>s x. (Some (P x), s)) s d w = Inr (Returned, s, d', drop_vals c R w) \<and>
    evolves c d d' (filter P xs) \<and> mset R = mset (filter (\<lambda>x. \<not> P x) xs)"
proof -
  obtain R where R: "retain_spec (\<lambda>s x. (Some (P x), s)) s [] [] xs = (Returned, s, filter P xs, R, [])"
    "mset R = mset (filter (\<lambda>x. \<not> P x) xs)"
    using retain_spec_filter[of P s "[]" "[]" xs] by auto
  show ?thesis by (rule retain_rep[OF assms R(1), of w]) (use R(2) in auto)
qed

theorem retain_filters_witness:
  "\<exists>d' R. retain cfg1 (\<lambda>s x. (Some (even x), s)) () quad_deque quad_world
      = Inr (Returned, (), d', drop_vals cfg1 R quad_world) \<and>
    evolves cfg1 quad_deque d' (filter even [1, 2, 3, 4]) \<and>
    mset R = mset (filter (\<lambda>x. \<not> even x) [1, 2, 3, 4 :: nat])"
  by (rule retain_filters[OF quad_rep])

text \<open>
  C23: \<open>retain\<close> with any closure, which may keep a state and may panic at any element: the deque is
  still well formed afterwards, and every element is either still in it or has been dropped, once.
\<close>

theorem retain_exception_safe:
  assumes "rep c d xs"
  shows "\<exists>e s' d' R ys. retain c f s d w = Inr (e, s', d', drop_vals c R w) \<and> evolves c d d' ys \<and>
    mset ys + mset R = mset xs"
proof -
  obtain e s' K R rest where spec: "retain_spec f s [] [] xs = (e, s', K, R, rest)" by (metis prod_cases5)
  note m = retain_spec_mset[OF spec]
  show ?thesis
  proof (rule retain_rep[OF assms spec, of w], goal_cases)
    case (1 d')
    then have "rest = []" using retain_spec_Returned spec by metis
    then show ?case using 1 m by auto
  next
    case (2 d')
    moreover have "mset (K @ R @ rest) + mset [] = mset xs" using m by (simp add: add.assoc)
    ultimately show ?case by (metis drop_vals_Nil)
  qed
qed

theorem retain_exception_safe_witness:
  "\<exists>e s' d' R ys. retain cfg1 (\<lambda>s x. if x = 3 then (None, s) else (Some (even x), Suc s)) 0 quad_deque quad_world
      = Inr (e, s', d', drop_vals cfg1 R quad_world) \<and> evolves cfg1 quad_deque d' ys \<and>
    mset ys + mset R = mset [1, 2, 3, 4]"
  by (rule retain_exception_safe[OF quad_rep])

text \<open>
  C24: \<open>dedup_by\<close> with a comparison that leaves the elements alone: every run of elements that equal
  the last one kept is reduced to its first, the others are dropped once each, and afterwards no
  element equals the one before it.
\<close>

theorem dedup_removes_runs:
  assumes "rep c d (x # xs)"
  shows "\<exists>d' R. dedup c eq d w = Inr (Returned, (), d', drop_vals c R w) \<and>
    evolves c d d' (dedup_list eq x xs) \<and> mset (dedup_list eq x xs) + mset R = mset (x # xs) \<and>
    successively (\<lambda>a b. \<not> eq b a) (dedup_list eq x xs)"
proof -
  obtain R where R: "dedup_spec (\<lambda>s a b. (Some (eq a b), a, b, s)) () [x] [] xs
      = (Returned, (), dedup_list eq x xs, R, [])" "mset (dedup_list eq x xs) + mset R = mset (x # xs)"
    using dedup_spec_list[of eq "()" "[]" x "[]" xs] by auto
  show ?thesis unfolding dedup_def
    by (rule dedup_by_rep[OF assms bucket_ok_pure R(1), of w])
      (use R(2) dedup_list_distinct_neighbours[of eq x xs] in auto)
qed

theorem dedup_removes_runs_witness:
  "\<exists>d' R. dedup cfg1 (\<lambda>a b. a div 2 = b div 2) quad_deque quad_world
      = Inr (Returned, (), d', drop_vals cfg1 R quad_world) \<and>
    evolves cfg1 quad_deque d' (dedup_list (\<lambda>a b. a div 2 = b div 2) 1 [2, 3, 4]) \<and>
    mset (dedup_list (\<lambda>a b. a div 2 = b div 2) 1 [2, 3, 4]) + mset R = mset (1 # [2, 3, 4]) \<and>
    successively (\<lambda>a b. \<not> (\<lambda>a b. a div 2 = b div 2) b a) (dedup_list (\<lambda>a b. a div 2 = b div 2) (1 :: nat) [2, 3, 4])"
  by (rule dedup_removes_runs[OF quad_rep])

section \<open>Adding many elements\<close>

text \<open>
  C25: \<open>extend\<close> (the default \<open>spec_extend\<close>) with an iterator whose size hints may be wrong but are
  bounded: it panics because memory ran out, or all the items have been appended.
\<close>

theorem extend_refines:
  assumes "deque_env c os_ok owned" "holds c os_ok owned d w xs" "list_all (val_ok c) items"
    and "\<And>zs. length zs < length items \<Longrightarrow> hint_request hint zs \<le> B"
    and "fits c (2 * (length xs + length items + B + 1))"
  shows "grows c os_ok owned d w (xs @ items) (extend_desugared c hint items d w)"
  by (rule deque_env.extend_desugared_grows[OF assms])

theorem extend_refines_witness:
  "grows cfg1 sim_tracked sim_owned wrapped_deque world1 ([10, 20] @ [1, 2, 3])
     (extend_desugared cfg1 (\<lambda>zs. (0, Some 7)) [1, 2, 3] wrapped_deque world1)"
  by (rule extend_refines[OF env1 holds1, where B = 7])
    (simp_all add: hint_request_def fits_def usize_bound_def)

text \<open>
  C26: \<open>clone\<close> with an element \<open>clone\<close> that succeeds: memory runs out (a panic), or a new deque with
  the clones in order, in a region of its own; the original is not touched.
\<close>

theorem clone_refines:
  assumes "deque_env c os_ok owned" "holds c os_ok owned d w xs" "fits c (length xs)"
    and "\<And>v. v \<in> set xs \<Longrightarrow> cl v = Some (g v)" "list_all (val_ok c) (map g xs)"
  shows "(\<exists>e. deque_clone c cl d w = panic (AllocationFailed e)) \<or>
    (\<exists>d' w'. deque_clone c cl d w = Inr (Some d', w') \<and> holds c os_ok owned d' w' (map g xs) \<and>
       others c owned d' w' = owned (os w) \<and> dropped w' = dropped w)"
  using deque_env.from_slice_fresh[OF assms(1) _ assms(3-5), of w] assms(2)
    deque_env.deque_clone_from_slice[OF assms(1) holds_rep[OF assms(2)], of cl w]
  by (simp add: fresh_deque_def holds_def)

theorem clone_refines_witness:
  "(\<exists>e. deque_clone cfg1 (\<lambda>v. Some (v + 100)) wrapped_deque world1 = panic (AllocationFailed e)) \<or>
   (\<exists>d' w'. deque_clone cfg1 (\<lambda>v. Some (v + 100)) wrapped_deque world1 = Inr (Some d', w') \<and>
      sim_holds d' w' (map (\<lambda>v. v + 100) [10, 20]) \<and>
      others cfg1 sim_owned d' w' = sim_owned (os world1) \<and> dropped w' = dropped world1)"
  by (rule clone_refines[OF env1 holds1]) (simp_all add: fits_def usize_bound_def)

text \<open>
  C27: \<open>resize\<close>. Shrinking keeps the first \<open>new_len\<close> elements and drops the rest and then the value;
  growing panics because memory ran out, or appends clones of the value and drops it at the end.
\<close>

theorem resize_refines:
  assumes "deque_env c os_ok owned" "holds c os_ok owned d w xs" "new_len \<le> isize_max"
    and "room c d (length xs) (new_len - length xs)" "cl value = Some u" "val_ok c u"
  shows "if new_len \<le> length xs
    then \<exists>d'. resize c cl new_len value d w = Inr (Returned, d', drop_vals c (drop new_len xs @ [value]) w) \<and>
              evolves c d d' (take new_len xs)
    else (\<exists>p. resize c cl new_len value d w = panic p \<and> memory_panic p) \<or>
         (\<exists>d' w'. resize c cl new_len value d w = Inr (Returned, d', drop_vals c [value] w') \<and>
            queue_state c os_ok owned (others c owned d w, dropped w) d' w' (xs @ replicate (new_len - length xs) u))"
proof (cases "new_len \<le> length xs")
  case True
  then show ?thesis
    by (simp add: True) (rule resize_shrink[OF holds_rep[OF assms(2)] True], blast)
next
  case False
  then show ?thesis using deque_env.resize_grow_outcome[of c os_ok owned d w xs new_len cl "value" u] assms by simp
qed

theorem resize_refines_witness:
  "if 5 \<le> length [10, 20 :: nat]
   then \<exists>d'. resize cfg1 Some 5 7 wrapped_deque world1 = Inr (Returned, d', drop_vals cfg1 (drop 5 [10, 20] @ [7]) world1) \<and>
             evolves cfg1 wrapped_deque d' (take 5 [10, 20])
   else (\<exists>p. resize cfg1 Some 5 7 wrapped_deque world1 = panic p \<and> memory_panic p) \<or>
        (\<exists>d' w'. resize cfg1 Some 5 7 wrapped_deque world1 = Inr (Returned, d', drop_vals cfg1 [7] w') \<and>
           queue_state cfg1 sim_tracked sim_owned (others cfg1 sim_owned wrapped_deque world1, dropped world1) d' w'
             ([10, 20] @ replicate (5 - length [10, 20 :: nat]) 7))"
  by (rule resize_refines[OF env1 holds1])
    (simp_all add: room_def fits_def usize_bound_def isize_max_def isize_bound_def)

text \<open>
  \<open>extend_from_slice\<close> for an element type without drop glue: memory runs out, or the clones of
  the slice have been appended.
\<close>

lemma extend_from_slice_refines:
  assumes "deque_env c os_ok owned" "holds c os_ok owned d w xs" "room c d (length xs) (length vs)"
    and "\<not> needs_drop c" "\<And>v. v \<in> set vs \<Longrightarrow> cl v = Some (g v)" "list_all (val_ok c) (map g vs)"
  shows "(\<exists>e. extend_from_slice c cl vs d w = panic (CalledUnwrapOnErr e)) \<or>
    (\<exists>d' s. extend_from_slice c cl vs d w = Inr (Returned, d', w\<lparr>os := s\<rparr>) \<and>
       holds c os_ok owned d' (w\<lparr>os := s\<rparr>) (xs @ map g vs) \<and>
       others c owned d' (w\<lparr>os := s\<rparr>) = others c owned d w)"
  by (rule deque_env.extend_from_slice_outcome[OF assms])

text \<open>
  C37: The same call for an element type that needs dropping, into room that is already there and was
  never written: \<open>clone_from_slice\<close> drops what is in the destination first, and so reads
  uninitialised memory.
\<close>

theorem extend_from_slice_drops_garbage:
  assumes "deque_env c os_ok owned" "holds c os_ok owned d w xs" "length xs + length (v # vs) \<le> capacity d"
    and "needs_drop c" "0 < esize c" "cl v = Some u" "dview c d ! length xs = replicate (esize c) Uninit"
  shows "extend_from_slice c cl (v # vs) d w = undef UninitRead"
  using assms by (intro deque_env.extend_from_slice_reads_uninit[where u = u])

theorem extend_from_slice_drops_garbage_witness:
  "extend_from_slice cfg1 Some (5 # [6]) quad_deque quad_world = undef UninitRead"
  by (rule extend_from_slice_drops_garbage[OF env1 quad_holds])
    (simp_all add: dview_def view_def bslot_def quad_deque_def read_cells_def vcell_def capacity_def)

section \<open>Draining\<close>

text \<open>
  C28: \<open>drain\<close> of a range. A range whose start is past its end, or whose end is past the length, is
  refused by the assertion. Otherwise the deque is at once a valid deque of the elements in front
  of the range (so that forgetting the iterator is safe), and dropping the iterator drops the
  elements of the range in order and leaves those before and after it.
\<close>

theorem drain_refines:
  assumes "rep c d xs" "s = range_start_of lo" "e = range_end_of hi (length xs)"
    and "s < usize_bound" "e < usize_bound"
  shows "if s \<le> e \<and> e \<le> length xs
    then \<exists>dr d1 d2. deque_drain c lo hi d = Inr (dr, d1) \<and> rep c d1 (take s xs) \<and>
           drain_drop c dr d1 w = Inr (d2, drop_vals c (take (e - s) (drop s xs)) w) \<and>
           evolves c d1 d2 (take s xs @ drop e xs)
    else deque_drain c lo hi d = panic AssertFailed"
proof (cases "s \<le> e \<and> e \<le> length xs")
  case True
  obtain dr where dr: "deque_drain c lo hi d = Inr (dr, d\<lparr>elen := s\<rparr>)"
    "draining c (d\<lparr>elen := s\<rparr>) dr s (take s xs) (take (e - s) (drop s xs)) (drop e xs)"
    by (rule deque_drain_rep[OF assms(1-3)]) (use True in auto)
  obtain d2 where "drain_drop c dr (d\<lparr>elen := s\<rparr>) w = Inr (d2, drop_vals c (take (e - s) (drop s xs)) w)"
    "evolves c (d\<lparr>elen := s\<rparr>) d2 (take s xs @ drop e xs)"
    using drain_drop_rep[OF dr(2)] .
  then show ?thesis using True dr(1) draining_rep[OF dr(2)] by auto
next
  case False
  then show ?thesis using deque_drain_bad_range[OF assms] by auto
qed

theorem drain_refines_witness:
  "if 1 \<le> (3::nat) \<and> 3 \<le> length [1, 2, 3, 4 :: nat]
   then \<exists>dr d1 d2. deque_drain cfg1 (Included 1) (Excluded 3) quad_deque = Inr (dr, d1) \<and>
          rep cfg1 d1 (take 1 [1, 2, 3, 4]) \<and>
          drain_drop cfg1 dr d1 quad_world = Inr (d2, drop_vals cfg1 (take (3 - 1) (drop 1 [1, 2, 3, 4])) quad_world) \<and>
          evolves cfg1 d1 d2 (take 1 [1, 2, 3, 4] @ drop 3 [1, 2, 3, 4])
   else deque_drain cfg1 (Included 1) (Excluded 3) quad_deque = panic AssertFailed"
  by (rule drain_refines[OF quad_rep])
    (simp_all add: range_start_of_def range_end_of_def usize_bound_def)

text \<open>The drained middle of the four-element deque, the start of the examples below.\<close>

lemma quad_draining:
  obtains dr where "deque_drain cfg1 (Included 1) (Excluded 3) quad_deque = Inr (dr, quad_deque\<lparr>elen := 1\<rparr>)"
    "draining cfg1 (quad_deque\<lparr>elen := 1\<rparr>) dr 1 [1] [2, 3] [4]" "tail_start dr = 3"
proof -
  have b: "1 = range_start_of (Included 1)" "3 = range_end_of (Excluded 3) (length [1, 2, 3, 4 :: nat])"
    by (simp_all add: range_start_of_def range_end_of_def)
  obtain dr where dr: "deque_drain cfg1 (Included 1) (Excluded 3) quad_deque = Inr (dr, quad_deque\<lparr>elen := 1\<rparr>)"
    "draining cfg1 (quad_deque\<lparr>elen := 1\<rparr>) dr 1 (take 1 [1, 2, 3, 4]) (take (3 - 1) (drop 1 [1, 2, 3, 4]))
       (drop 3 [1, 2, 3, 4])" "tail_start dr = 3"
    by (rule deque_drain_rep[OF quad_rep b]) auto
  then show ?thesis using that by simp
qed

text \<open>
  C29: \<open>splice\<close> of a range with elements behind it, when the deque has the capacity and the lower
  bound of the hint is exact for what does not fit in the gap. The \<open>Splice\<close> announces the length of
  the range; when it is dropped the elements of the range are dropped in order, all the new items
  stand in their place, the tail behind them, in the same region.
\<close>

theorem splice_refines:
  assumes "rep c d xs" "s = range_start_of lo" "e = range_end_of hi (length xs)" "s \<le> e" "e < length xs"
    and "list_all (val_ok c) items" "rest = drop (e - s) items" "fst (hint rest) = length rest"
    and "length xs + length rest \<le> capacity d"
  shows "\<exists>sp d1 d'. deque_splice c lo hi hint items d = Inr (sp, d1) \<and> splice_size_hint sp = (e - s, Some (e - s)) \<and>
    splice_drop c (sp_hint sp) (replace_with sp) (sp_drain sp) d1 w = Inr (d', drop_vals c (take (e - s) (drop s xs)) w) \<and>
    evolves c d d' (take s xs @ items @ drop e xs)"
  by (rule deque_splice_rep[where hint = hint and w = w, OF assms]) blast

theorem splice_refines_witness:
  "\<exists>sp d1 d'. deque_splice cfg1 (Included 1) (Excluded 3) (\<lambda>zs. (length zs, Some (length zs))) [7, 8, 9] quad_deque
       = Inr (sp, d1) \<and> splice_size_hint sp = (2, Some 2) \<and>
     splice_drop cfg1 (sp_hint sp) (replace_with sp) (sp_drain sp) d1 quad_world
       = Inr (d', drop_vals cfg1 [2, 3] quad_world) \<and>
     evolves cfg1 quad_deque d' [1, 7, 8, 9, 4]"
proof -
  have "\<exists>sp d1 d'. deque_splice cfg1 (Included 1) (Excluded 3) (\<lambda>zs. (length zs, Some (length zs))) [7, 8, 9] quad_deque
       = Inr (sp, d1) \<and> splice_size_hint sp = (3 - 1, Some (3 - 1)) \<and>
     splice_drop cfg1 (sp_hint sp) (replace_with sp) (sp_drain sp) d1 quad_world
       = Inr (d', drop_vals cfg1 (take (3 - 1) (drop 1 [1, 2, 3, 4])) quad_world) \<and>
     evolves cfg1 quad_deque d' (take 1 [1, 2, 3, 4] @ [7, 8, 9] @ drop 3 [1, 2, 3, 4])"
    by (rule splice_refines[where rest = "[9]", OF quad_rep])
      (simp_all add: range_start_of_def range_end_of_def quad_deque_def capacity_def)
  then show ?thesis by simp
qed

text \<open>
  C38: A splice of a range with elements behind it that has to grow: when the \<open>Splice\<close> is dropped
  the elements of the range are dropped and the new items stand in their place, but the elements
  behind the range have stayed in the old buffer, which is given back. They still count in the
  length; their places hold nothing, and reading any of them is undefined behaviour. The call panics
  instead only when the platform refuses the memory.
\<close>

theorem splice_growth_loses_tail:
  assumes "deque_env c os_ok owned" "holds c os_ok owned d w xs" "s = range_start_of lo" "e = range_end_of hi (length xs)"
    and "s \<le> e" "e < length xs" "list_all (val_ok c) items" "0 < esize c"
    and "rest = drop (e - s) items" "fst (hint rest) = length rest"
    and "capacity d < length xs + length rest" "fits c (length xs + length rest)"
  shows "\<exists>sp. deque_splice c lo hi hint items d = Inr (sp, d\<lparr>elen := s\<rparr>) \<and>
    ((\<exists>a t. splice_drop c (sp_hint sp) (replace_with sp) (sp_drain sp) (d\<lparr>elen := s\<rparr>) w = panic ExpectFailed \<and>
        allocate_mirrored (plat c) (alloc_bytes c (2 * (length xs + length rest) * esize c)) (os w) = Inr (Inl a, t)) \<or>
     (\<exists>d' t. splice_drop c (sp_hint sp) (replace_with sp) (sp_drain sp) (d\<lparr>elen := s\<rparr>) w
          = Inr (d', (drop_vals c (take (e - s) (drop s xs)) w)\<lparr>os := t\<rparr>) \<and>
        elen d' = length (take s xs @ items @ drop e xs) \<and>
        (\<forall>i < length (take s xs @ items). slice_index c d' i = Inr ((take s xs @ items) ! i)) \<and>
        (\<forall>i < length (drop e xs). slice_index c d' (length (take s xs @ items) + i) = undef UninitRead)))"
proof (rule deque_env.deque_splice_loses[where hint = hint, OF assms], goal_cases)
  case (1 sp)
  have reads: "slice_index c d' i = Inr (zs ! i)"
    if "rep c (d'\<lparr>elen := length zs\<rparr>) zs" "i < length zs" "length zs \<le> elen d'" for d' zs i
    using rep_read[OF that(1,2)] that(2,3) by (simp add: slice_index_def)
  show ?case
    using 1 by (intro exI[of _ sp] conjI) (auto 0 4 intro!: reads slice_index_uninit assms(8))
qed

text \<open>\<open>1..3\<close> replaced by seven items: nine elements, in a deque with room for eight.\<close>

lemma quad_room_for_nine:
  "\<exists>p t. allocate_mirrored (plat cfg1) (alloc_bytes cfg1 (2 * 9 * esize cfg1)) (os quad_world) = Inr (Inr p, t)"
proof -
  have "alloc_bytes cfg1 (2 * 9 * esize cfg1) = 24" by (simp add: alloc_bytes_def alloc_units_def even_up_def)
  then show ?thesis by (simp add: quad_world_def run_simps sim_simps)
qed

theorem splice_growth_loses_tail_witness:
  "\<exists>sp d' t. deque_splice cfg1 (Included 1) (Excluded 3) (\<lambda>zs. (length zs, Some (length zs)))
        [11, 12, 13, 14, 15, 16, 17] quad_deque = Inr (sp, quad_deque\<lparr>elen := 1\<rparr>) \<and>
     splice_drop cfg1 (sp_hint sp) (replace_with sp) (sp_drain sp) (quad_deque\<lparr>elen := 1\<rparr>) quad_world
       = Inr (d', (drop_vals cfg1 [2, 3] quad_world)\<lparr>os := t\<rparr>) \<and>
     elen d' = 9 \<and> slice_index cfg1 d' 7 = Inr 17 \<and> slice_index cfg1 d' 8 = undef UninitRead"
proof -
  let ?xs = "[1, 2, 3, 4 :: nat]" and ?items = "[11, 12, 13, 14, 15, 16, 17 :: nat]" and ?rest = "[13, 14, 15, 16, 17 :: nat]"
  let ?hint = "\<lambda>zs :: nat list. (length zs, Some (length zs))"
  have b: "1 = range_start_of (Included 1)" "3 = range_end_of (Excluded 3) (length ?xs)" "(1 :: nat) \<le> 3" "3 < length ?xs"
    "?rest = drop (3 - 1) ?items" "fst (?hint ?rest) = length ?rest" "capacity quad_deque < length ?xs + length ?rest"
    by (simp_all add: range_start_of_def range_end_of_def)
  have n: "length ?xs + length ?rest = 9" "take (3 - 1) (drop 1 ?xs) = [2, 3]" "length (take 1 ?xs @ ?items) = 8"
    "length (take 1 ?xs @ ?items @ drop 3 ?xs) = 9" "(take 1 ?xs @ ?items) ! 7 = 17" "length (drop 3 ?xs) = 1" by simp_all
  have v: "list_all (val_ok cfg1) ?items" "0 < esize cfg1" "fits cfg1 (length ?xs + length ?rest)"
    by (simp_all add: fits_def usize_bound_def)
  obtain sp where sp: "deque_splice cfg1 (Included 1) (Excluded 3) ?hint ?items quad_deque = Inr (sp, quad_deque\<lparr>elen := 1\<rparr>)"
    "(\<exists>a t. splice_drop cfg1 (sp_hint sp) (replace_with sp) (sp_drain sp) (quad_deque\<lparr>elen := 1\<rparr>) quad_world = panic ExpectFailed \<and>
        allocate_mirrored (plat cfg1) (alloc_bytes cfg1 (2 * 9 * esize cfg1)) (os quad_world) = Inr (Inl a, t)) \<or>
     (\<exists>d' t. splice_drop cfg1 (sp_hint sp) (replace_with sp) (sp_drain sp) (quad_deque\<lparr>elen := 1\<rparr>) quad_world
          = Inr (d', (drop_vals cfg1 [2, 3] quad_world)\<lparr>os := t\<rparr>) \<and> elen d' = 9 \<and>
        (\<forall>i < 8. slice_index cfg1 d' i = Inr ((take 1 ?xs @ ?items) ! i)) \<and>
        (\<forall>i < 1. slice_index cfg1 d' (8 + i) = undef UninitRead))"
    using splice_growth_loses_tail[where hint = ?hint, OF env1 quad_holds b(1-4) v(1,2) b(5) b(6) b(7) v(3)] unfolding n by blast
  from sp(2) show ?thesis
  proof (elim disjE exE conjE)
    fix a t assume "allocate_mirrored (plat cfg1) (alloc_bytes cfg1 (2 * 9 * esize cfg1)) (os quad_world) = Inr (Inl a, t)"
    then show ?thesis using quad_room_for_nine by simp
  next
    fix d' t
    assume d': "splice_drop cfg1 (sp_hint sp) (replace_with sp) (sp_drain sp) (quad_deque\<lparr>elen := 1\<rparr>) quad_world
          = Inr (d', (drop_vals cfg1 [2, 3] quad_world)\<lparr>os := t\<rparr>)" "elen d' = 9"
      and reads: "\<forall>i < 8. slice_index cfg1 d' i = Inr ((take 1 ?xs @ ?items) ! i)"
        "\<forall>i < 1. slice_index cfg1 d' (8 + i) = undef UninitRead"
    have "slice_index cfg1 d' 7 = Inr 17" using reads(1)[rule_format, of 7] unfolding n by simp
    moreover have "slice_index cfg1 d' 8 = undef UninitRead" using reads(2)[rule_format, of 0] by simp
    ultimately show ?thesis using sp(1) d' by blast
  qed
qed

text \<open>
  C30: \<open>drain_filter\<close> with a predicate, dropped before it was advanced: it drops the elements that
  satisfy the predicate, in order, and the deque is left with the others, in order.
\<close>

theorem drain_filter_refines:
  assumes "rep c d xs"
  shows "\<exists>df d1 d2. deque_drain_filter c d = Inr (df, d1) \<and> rep c d1 [] \<and>
    drain_filter_drop c (\<lambda>s x. (Some (P x), x, s)) df s d1 w = Inr (Returned, s, d2, drop_vals c (filter P xs) w) \<and>
    evolves c d1 d2 (filter (\<lambda>x. \<not> P x) xs)"
proof -
  obtain df where df: "deque_drain_filter c d = Inr (df, d\<lparr>elen := 0\<rparr>)" "filtering c (d\<lparr>elen := 0\<rparr>) df [] [] xs"
    by (rule deque_drain_filter_rep[OF assms]) blast
  obtain G where G: "filter_all (\<lambda>s x. (Some (P x), x, s)) s [] [] xs
      = (Returned, s, [] @ filter (\<lambda>x. \<not> P x) xs, G, [], filter P xs)"
    using filter_all_pure[where P = P and s = s and K = "[]" and G = "[]" and rest = xs] by blast
  have "rep c (d\<lparr>elen := 0\<rparr>) []" using filtering_keeps(1)[OF df(2)] by (simp add: evolves_def)
  then show ?thesis
    using df(1) by (rule_tac drain_filter_drop_rep[OF df(2) pred_ok_pure G, of w]) auto
qed

theorem drain_filter_refines_witness:
  "\<exists>df d1 d2. deque_drain_filter cfg1 quad_deque = Inr (df, d1) \<and> rep cfg1 d1 [] \<and>
     drain_filter_drop cfg1 (\<lambda>s x. (Some (even x), x, s)) df () d1 quad_world
       = Inr (Returned, (), d2, drop_vals cfg1 (filter even [1, 2, 3, 4]) quad_world) \<and>
     evolves cfg1 d1 d2 (filter (\<lambda>x. \<not> even x) [1, 2, 3, 4])"
  by (rule drain_filter_refines[OF quad_rep])

text \<open>
  C39: \<open>drain_filter\<close> when the predicate accepts the first element, which the caller receives, then
  panics at the second and rejects the rest. The index has moved past the second element before
  the call, so the iterator's destructor takes the \<^emph>\<open>first\<close> one for it: the deque ends with the
  element the caller already owns, and has lost the second.
\<close>

theorem drain_filter_panic_duplicates:
  assumes "rep c d (x # y # zs)" "pred_ok c f"
    and "f s x = (Some True, x, s1)" "f s1 y = (None, y, s2)" "\<And>z. z \<in> set zs \<Longrightarrow> f s2 z = (Some False, z, s2)"
  shows "\<exists>df d0 df1 df2 d1 d2 d3. deque_drain_filter c d = Inr (df, d0) \<and>
    drain_filter_next c f (old_len df - idx df) df s d0 = Inr (Returned, Some x, df1, s1, d1) \<and>
    drain_filter_next c f (old_len df1 - idx df1) df1 s1 d1 = Inr (Unwinding, None, df2, s2, d2) \<and>
    drain_filter_drop c f df2 s2 d2 w = Inr (Returned, s2, d3, w) \<and> evolves c d d3 (x # zs)"
  using assms by (rule drain_filter_panic[where w = w]) blast+

theorem drain_filter_panic_duplicates_witness:
  "\<exists>df d0 df1 df2 d1 d2 d3. deque_drain_filter cfg1 quad_deque = Inr (df, d0) \<and>
    drain_filter_next cfg1 (\<lambda>s x. (if x = 2 then None else Some (x = 1), x, s)) (old_len df - idx df) df () d0
      = Inr (Returned, Some 1, df1, (), d1) \<and>
    drain_filter_next cfg1 (\<lambda>s x. (if x = 2 then None else Some (x = 1), x, s)) (old_len df1 - idx df1) df1 () d1
      = Inr (Unwinding, None, df2, (), d2) \<and>
    drain_filter_drop cfg1 (\<lambda>s x. (if x = 2 then None else Some (x = 1), x, s)) df2 () d2 quad_world
      = Inr (Returned, (), d3, quad_world) \<and> evolves cfg1 quad_deque d3 (1 # [3, 4])"
  by (rule drain_filter_panic_duplicates[OF quad_rep]) (auto simp: pred_ok_def)

section \<open>The consuming iterator\<close>

text \<open>
  C31: \<open>into_iter\<close> takes the deque over; one \<open>next\<close> or \<open>next_back\<close> gives the first or the last
  element left and exactly the size hint counts what is left; dropping the iterator, at any
  moment, drops what it has not given and gives the region back, with the size it was mapped with.
\<close>

theorem into_iter_refines:
  assumes "deque_env c os_ok owned" "iterates c it d k ys"
    and "os_ok (os w)" "regions c (buf d) \<subseteq> owned (os w)"
  shows "ii_size_hint c it = (length ys, Some (length ys)) \<and>
    (\<exists>it'. ii_next c it = Inr (if ys = [] then None else Some (hd ys), it') \<and>
       iterates c it' d (if ys = [] then k else Suc k) (tl ys)) \<and>
    (\<exists>it'. ii_next_back c it = Inr (if ys = [] then None else Some (last ys), it') \<and> iterates c it' d k (butlast ys)) \<and>
    (\<exists>s. ii_drop c it w = Inr ((drop_vals c ys w)\<lparr>os := s\<rparr>) \<and> os_ok s \<and> owned s = owned (os w) - regions c (buf d))"
proof (intro conjI)
  show "ii_size_hint c it = (length ys, Some (length ys))" by (rule ii_size_hint_rep[OF assms(2)])
  show "\<exists>it'. ii_next c it = Inr (if ys = [] then None else Some (hd ys), it') \<and>
       iterates c it' d (if ys = [] then k else Suc k) (tl ys)"
    using ii_next_rep[OF assms(2)] assms(2) by (cases ys) auto
  show "\<exists>it'. ii_next_back c it = Inr (if ys = [] then None else Some (last ys), it') \<and> iterates c it' d k (butlast ys)"
    using ii_next_back_rep[OF assms(2)] assms(2) by (cases ys rule: rev_cases) auto
  show "\<exists>s. ii_drop c it w = Inr ((drop_vals c ys w)\<lparr>os := s\<rparr>) \<and> os_ok s \<and> owned s = owned (os w) - regions c (buf d)"
    by (rule deque_env.ii_drop_ok[OF assms]) blast
qed

theorem into_iter_refines_witness:
  "\<exists>it. deque_into_iter cfg1 quad_deque = Inr it \<and> ii_size_hint cfg1 it = (length [1, 2, 3, 4 :: nat], Some (length [1, 2, 3, 4 :: nat])) \<and>
    (\<exists>it'. ii_next cfg1 it = Inr (if [1, 2, 3, 4 :: nat] = [] then None else Some (hd [1, 2, 3, 4]), it') \<and>
       iterates cfg1 it' quad_deque (if [1, 2, 3, 4 :: nat] = [] then 0 else Suc 0) (tl [1, 2, 3, 4])) \<and>
    (\<exists>it'. ii_next_back cfg1 it = Inr (if [1, 2, 3, 4 :: nat] = [] then None else Some (last [1, 2, 3, 4]), it') \<and>
       iterates cfg1 it' quad_deque 0 (butlast [1, 2, 3, 4])) \<and>
    (\<exists>s. ii_drop cfg1 it quad_world = Inr ((drop_vals cfg1 [1, 2, 3, 4] quad_world)\<lparr>os := s\<rparr>) \<and> sim_tracked s \<and>
       sim_owned s = sim_owned (os quad_world) - regions cfg1 (buf quad_deque))"
proof -
  obtain it where it: "deque_into_iter cfg1 quad_deque = Inr it" "iterates cfg1 it quad_deque 0 [1, 2, 3, 4]"
    using deque_into_iter_rep[OF quad_rep] by metis
  have w: "sim_tracked (os quad_world)" "regions cfg1 (buf quad_deque) \<subseteq> sim_owned (os quad_world)"
    using quad_holds[of True] by (simp_all add: holds_def)
  show ?thesis using it(1) into_iter_refines[OF env1 it(2) w] by blast
qed

text \<open>
  C40: \<open>IntoIter::clone\<close> copies the elements byte for byte instead of cloning them: unless there was no
  memory for the copy, the two iterators own the same values, and dropping both drops every one of
  them twice.
\<close>

theorem into_iter_clone_double_drop:
  assumes "deque_env c os_ok owned" "iterates c it d k ys" "fits c (length ys)"
    and "os_ok (os w)" "regions c (buf d) \<subseteq> owned (os w)"
  shows "(\<exists>e. with_capacity c (length ys) w = panic (AllocationFailed e) \<and>
       ii_clone c it w = panic (AllocationFailed e)) \<or>
    (\<exists>it2 s d2 s2 s3. ii_clone c it w = Inr (it2, w\<lparr>os := s\<rparr>) \<and> iterates c it2 d2 0 ys \<and>
       ii_drop c it2 (w\<lparr>os := s\<rparr>) = Inr ((drop_vals c ys w)\<lparr>os := s2\<rparr>) \<and>
       ii_drop c it ((drop_vals c ys w)\<lparr>os := s2\<rparr>) = Inr ((drop_vals c (ys @ ys) w)\<lparr>os := s3\<rparr>))"
proof (rule deque_env.ii_clone_cases[OF assms(1,2,4,3)], goal_cases)
  case (1 p)
  then show ?case by blast
next
  case (2 it2 d2 s)
  have w1: "os_ok (os (w\<lparr>os := s\<rparr>))" "regions c (buf d2) \<subseteq> owned (os (w\<lparr>os := s\<rparr>))" using 2 by simp_all
  obtain s2 where s2: "ii_drop c it2 (w\<lparr>os := s\<rparr>) = Inr ((drop_vals c ys (w\<lparr>os := s\<rparr>))\<lparr>os := s2\<rparr>)" "os_ok s2"
    "owned s2 = owned s - regions c (buf d2)"
    using deque_env.ii_drop_ok[OF assms(1) 2(2) w1] by auto
  have eq: "(drop_vals c ys (w\<lparr>os := s\<rparr>))\<lparr>os := s2\<rparr> = (drop_vals c ys w)\<lparr>os := s2\<rparr>" by (simp add: drop_vals_def)
  have w2: "os_ok (os ((drop_vals c ys w)\<lparr>os := s2\<rparr>))"
    "regions c (buf d) \<subseteq> owned (os ((drop_vals c ys w)\<lparr>os := s2\<rparr>))" using s2 2(5) assms(5) by simp_all
  obtain s3 where "ii_drop c it ((drop_vals c ys w)\<lparr>os := s2\<rparr>)
      = Inr ((drop_vals c ys ((drop_vals c ys w)\<lparr>os := s2\<rparr>))\<lparr>os := s3\<rparr>)"
    using deque_env.ii_drop_ok[OF assms(1,2) w2] by auto
  moreover have "(drop_vals c ys ((drop_vals c ys w)\<lparr>os := s2\<rparr>))\<lparr>os := s3\<rparr> = (drop_vals c (ys @ ys) w)\<lparr>os := s3\<rparr>"
    by (simp add: drop_vals_def)
  ultimately show ?case using 2(1,2) s2(1) eq by auto
qed

theorem into_iter_clone_double_drop_witness:
  "\<exists>it it2 s s2 s3. deque_into_iter cfg1 quad_deque = Inr it \<and>
    ii_clone cfg1 it quad_world = Inr (it2, quad_world\<lparr>os := s\<rparr>) \<and>
    ii_drop cfg1 it2 (quad_world\<lparr>os := s\<rparr>) = Inr ((drop_vals cfg1 [1, 2, 3, 4] quad_world)\<lparr>os := s2\<rparr>) \<and>
    ii_drop cfg1 it ((drop_vals cfg1 [1, 2, 3, 4] quad_world)\<lparr>os := s2\<rparr>)
      = Inr ((drop_vals cfg1 [1, 2, 3, 4, 1, 2, 3, 4] quad_world)\<lparr>os := s3\<rparr>)"
proof -
  obtain it where it: "deque_into_iter cfg1 quad_deque = Inr it" "iterates cfg1 it quad_deque 0 [1, 2, 3, 4]"
    using deque_into_iter_rep[OF quad_rep] by metis
  have w: "fits cfg1 (length [1, 2, 3, 4 :: nat])" "sim_tracked (os quad_world)"
    "regions cfg1 (buf quad_deque) \<subseteq> sim_owned (os quad_world)"
    using quad_holds[of True] by (simp_all add: holds_def fits_def usize_bound_def)
  have l: "length [1, 2, 3, 4 :: nat] = 4" by simp
  have "with_capacity cfg1 (length [1, 2, 3, 4 :: nat]) quad_world \<noteq> panic f" for f
    unfolding l using quad_with_capacity by auto
  moreover have "[1, 2, 3, 4 :: nat] @ [1, 2, 3, 4] = [1, 2, 3, 4, 1, 2, 3, 4]" by simp
  ultimately show ?thesis using it(1) into_iter_clone_double_drop[OF env1 it(2) w] by metis
qed

section \<open>The four allocators\<close>

text \<open>
  C17: each of the four allocators, over any system that behaves as documented, is a platform in
  the sense every theorem about the deque starts from: a success is a fresh region at a multiple of
  the granularity that is not null, a failure changes nothing that was handed out, and what was handed
  out can be given back. The contract holds from every good state of the system in which nothing has
  been handed out yet. Where in the address space a region lies is no part of it, as no system
  promises that; what the head needs below a region (\<open>head_room\<close>) follows from the contract for every
  element that fits into a page.
\<close>

theorem allocators_refine_contract:
  assumes l: "linux_kernel ls lok lvm fds" and s: "sysv_kernel ss sok svm segs atts"
    and w: "win_kernel ws wok wvm handles views" and m: "mach_kernel ms mok mvm ports"
  shows "provides_platform (linux_platform ls) lok \<and> provides_platform (sysv_platform ss) sok \<and>
    provides_platform (win_platform dbg ws) wok \<and> provides_platform (mac_platform dbg ms) mok"
  using linux_kernel.linux_provides[OF l] sysv_kernel.sysv_provides[OF s]
    win_kernel.win_provides[OF w] mach_kernel.mac_provides[OF m] by blast

theorem allocators_refine_contract_witness:
  "provides_platform (linux_platform (sim_sys 4)) (sim_ok 4) \<and>
   provides_platform (sysv_platform (sv_sim_sys 4)) (sv_sim_ok 4) \<and>
   provides_platform (win_platform True (win_sim_sys 4)) (win_sim_ok 4) \<and>
   provides_platform (mac_platform True (mac_sim_sys 4)) (mac_sim_ok 4)"
  by (rule allocators_refine_contract[OF sim_linux_kernel sv_sim_kernel win_sim_kernel mac_sim_kernel]) simp_all

text \<open>
  C13: the Linux \<open>allocate_mirrored\<close> for a size the buffer asks for: no panic, no file descriptor
  left open on any of its paths, and either the address space exactly as it was or one fresh region
  whose second half shows the bytes of the first, with everything else untouched. Giving the region
  back restores the address space.
\<close>

theorem linux_allocate_mirrors:
  assumes k: "linux_kernel sys ok vm fds" "ok k" and n: "0 < n" "2 * page_size sys dvd n"
  shows "\<exists>r k'. linux_allocate_mirrored sys n k = Inr (r, k') \<and> ok k' \<and> fds k' = fds k \<and>
    (case r of
       Inl e \<Rightarrow> vm k' = vm k
     | Inr p \<Rightarrow> region_ok (page_size sys) p n \<and> unmapped (vm k) p n \<and> mirrored_at (vm k') p n \<and>
         same_outside (vm k) (vm k') p n \<and>
         (\<exists>k''. linux_deallocate_mirrored sys p n k' = Inr k'' \<and> ok k'' \<and> fds k'' = fds k \<and> vm k'' = vm k))"
proof (rule linux_kernel.allocate_mirrored_cases[OF k n])
  fix p k'
  assume a: "linux_allocate_mirrored sys n k = Inr (Inr p, k')" "ok k'" "fds k' = fds k"
    "region_ok (page_size sys) p n" "unmapped (vm k) p n" "mirrored_at (vm k') p n" "same_outside (vm k) (vm k') p n"
  obtain k'' where "linux_deallocate_mirrored sys p n k' = Inr k''" "ok k''" "fds k'' = fds k'"
    "vm k'' = unmap_range (vm k') p n" by (rule linux_kernel.deallocate_mirrored_ok[OF k(1) a(2,4)])
  then show ?thesis using a unmap_same_outside[OF a(7,5)] by auto
qed auto

theorem linux_allocate_mirrors_witness:
  "\<exists>r k'. linux_allocate_mirrored (sim_sys 4) 8 (sim_start 4 100) = Inr (r, k') \<and> sim_ok 4 k' \<and>
    sim_fds k' = sim_fds (sim_start 4 100) \<and>
    (case r of
       Inl e \<Rightarrow> sim_vm k' = sim_vm (sim_start 4 100)
     | Inr p \<Rightarrow> region_ok (page_size (sim_sys 4)) p 8 \<and> unmapped (sim_vm (sim_start 4 100)) p 8 \<and>
         mirrored_at (sim_vm k') p 8 \<and> same_outside (sim_vm (sim_start 4 100)) (sim_vm k') p 8 \<and>
         (\<exists>k''. linux_deallocate_mirrored (sim_sys 4) p 8 k' = Inr k'' \<and> sim_ok 4 k'' \<and>
            sim_fds k'' = sim_fds (sim_start 4 100) \<and> sim_vm k'' = sim_vm (sim_start 4 100)))"
  by (rule linux_allocate_mirrors[OF sim_linux_kernel])
    (simp_all add: sim_ok_def sim_start_def isize_bound_def sim_sys_def)

text \<open>
  C14: the System V \<open>allocate_mirrored\<close>: the loop over reserving, releasing and attaching twice ends
  within its ten rounds whatever other threads map in between, the shared-memory identifier is
  removed on every path, and the result is an unchanged address space or a fresh mirrored region
  that \<open>deallocate_mirrored\<close> takes back completely.
\<close>

theorem sysv_allocate_mirrors:
  assumes k: "sysv_kernel sys ok vm segs atts" "ok k" and n: "0 < n" "2 * sv_page_size sys dvd n"
  shows "\<exists>r k'. sysv_allocate_mirrored sys n k = Inr (r, k') \<and> ok k' \<and> segs k' = segs k \<and>
    (case r of
       Inl e \<Rightarrow> vm k' = vm k
     | Inr p \<Rightarrow> region_ok (sv_page_size sys) p n \<and> unmapped (vm k) p n \<and> mirrored_at (vm k') p n \<and>
         same_outside (vm k) (vm k') p n \<and>
         (\<exists>k''. sysv_deallocate_mirrored sys p n k' = Inr k'' \<and> ok k'' \<and> segs k'' = segs k \<and> vm k'' = vm k))"
proof -
  obtain r k' where a: "sysv_allocate_mirrored sys n k = Inr (r, k')"
    and ok: "sysv_kernel.attempt_ok sys ok vm segs atts n k (r, k')"
    using sysv_kernel.sysv_allocate_ok[OF k n] by auto
  note ok = ok[unfolded sysv_kernel.attempt_ok_def[OF k(1)] prod.case]
  show ?thesis
  proof (cases r)
    case (Inl e)
    then show ?thesis using a ok by auto
  next
    case (Inr p)
    have s: "ok k'" "region_ok (sv_page_size sys) p n" "attached_at (vm k') (atts k') p n"
      "same_outside (vm k) (vm k') p n" "unmapped (vm k) p n" "segs k' = segs k" using ok Inr by simp_all
    obtain k'' where "sysv_deallocate_mirrored sys p n k' = Inr k''" "ok k''" "segs k'' = segs k'"
      "vm k'' = unmap_range (vm k') p n" by (rule sysv_kernel.sysv_deallocate_ok[OF k(1) s(1-3)])
    then show ?thesis using a s Inr unmap_same_outside[OF s(4,5)] by (auto simp: attached_at_def)
  qed
qed

theorem sysv_allocate_mirrors_witness:
  "\<exists>r k'. sysv_allocate_mirrored (sv_sim_sys 4) 8 (sv_sim_start 4 100) = Inr (r, k') \<and> sv_sim_ok 4 k' \<and>
    svs_segs k' = svs_segs (sv_sim_start 4 100) \<and>
    (case r of
       Inl e \<Rightarrow> svs_vm k' = svs_vm (sv_sim_start 4 100)
     | Inr p \<Rightarrow> region_ok (sv_page_size (sv_sim_sys 4)) p 8 \<and> unmapped (svs_vm (sv_sim_start 4 100)) p 8 \<and>
         mirrored_at (svs_vm k') p 8 \<and> same_outside (svs_vm (sv_sim_start 4 100)) (svs_vm k') p 8 \<and>
         (\<exists>k''. sysv_deallocate_mirrored (sv_sim_sys 4) p 8 k' = Inr k'' \<and> sv_sim_ok 4 k'' \<and>
            svs_segs k'' = svs_segs (sv_sim_start 4 100) \<and> svs_vm k'' = svs_vm (sv_sim_start 4 100)))"
  by (rule sysv_allocate_mirrors[OF sv_sim_kernel])
    (simp_all add: sv_sim_ok_def sv_sim_start_def isize_bound_def sv_sim_sys_def)

text \<open>
  C15: the Windows \<open>allocate_mirrored\<close>, with the assertions of either build. It returns within its
  eleven rounds. A success is a fresh region made of two views of the same mapping, with the handle
  closed and everything else as it was, and \<open>deallocate_mirrored\<close> restores the address space. After a
  failure the address space, the views and the handles are what they were: every view has been
  unmapped and the handle closed. The one exception is a round in which \<open>reserve_virtual_memory\<close>
  fails: the \<open>?\<close> there returns past the cleanup, with the handle open and, when it was the release
  of the range that failed, with the range still reserved. No range to reserve is enough for it.
\<close>

theorem win_allocate_mirrors:
  assumes k: "win_kernel sys ok vm handles views" "ok k"
    and n: "0 < n" "2 * win_allocation_granularity sys dvd n" "n < usize_bound"
  shows "(\<exists>r k'. win_allocate_mirrored dbg sys n k = Inr (r, k') \<and> ok k' \<and>
     (case r of
        Inl e \<Rightarrow>
          vm k' = vm k \<and> views k' = views k \<and> handles k' = handles k \<or>
          (\<exists>h f k1. reserve_virtual_memory sys n k1 = Inr (Inl e, k') \<and> vm k1 = vm k \<and> views k1 = views k \<and>
             handles k h = None \<and> handles k1 = (handles k)(h \<mapsto> (f, n div 2)) \<and>
             handles k' = handles k1 \<and> views k' = views k \<and>
             (if e = Oom then vm k' = vm k else \<exists>p f'. unmapped (vm k) p n \<and> vm k' = map_range (vm k) p n f'))
      | Inr p \<Rightarrow> handles k' = handles k \<and> views k' = (views k)(p \<mapsto> n div 2, p + n div 2 \<mapsto> n div 2) \<and>
          region_ok (win_allocation_granularity sys) p n \<and> unmapped (vm k) p n \<and> mirrored_at (vm k') p n \<and>
          same_outside (vm k) (vm k') p n \<and>
          (\<exists>k''. win_deallocate_mirrored sys p n k' = Inr k'' \<and> ok k'' \<and> handles k'' = handles k \<and>
             vm k'' = vm k \<and> views k'' = (views k)(p := None, p + n div 2 := None)))) \<and>
   (\<forall>h k1 k2. CreateFileMappingW sys (drop_bit 32 (n div 2) mod 4294967296) (n div 2 mod 4294967296) k = (h, k1) \<longrightarrow>
      h \<noteq> 0 \<longrightarrow> VirtualAlloc sys n k1 = (0, k2) \<longrightarrow>
      win_allocate_mirrored dbg sys n k = Inr (Inl Oom, k2) \<and> handles k h = None \<and> handles k2 h \<noteq> None)"
  (is "?run \<and> ?leak")
proof (rule conjI)
  show ?run
  proof (rule win_kernel.win_allocate_ok[OF k n, of dbg], goal_cases)
    case (1 k')
    then show ?case by (intro exI[of _ "Inl Oom"] exI[of _ k']) simp
  next
    case (2 h f k1 res)
    obtain r k' where res: "res = (r, k')" by (cases res)
    note ok = 2(9)[unfolded res win_kernel.win_ok_def[OF k(1)] win_kernel.reserve_failed_def[OF k(1)] prod.case]
    have closed: "(handles k1)(h := None) = handles k" using 2(5,6) by auto
    show ?case
    proof (cases r)
      case (Inl e)
      then show ?thesis using ok closed 2(3-8) res by (intro exI[of _ r] exI[of _ k']) fastforce
    next
      case (Inr p)
      have s: "ok k'" "region_ok (win_allocation_granularity sys) p n" "attached_at (vm k') (views k') p n"
        "handles k' = handles k" "unmapped (vm k) p n" "same_outside (vm k) (vm k') p n"
        "views k' = (views k)(p \<mapsto> n div 2, p + n div 2 \<mapsto> n div 2)" "mirrored_at (vm k') p n"
        using ok Inr closed 2(3,4) win_kernel.win_ok_attached[OF k(1), of h n k1 p k'] 2(9) res by auto
      obtain k'' where "win_deallocate_mirrored sys p n k' = Inr k''" "ok k''" "handles k'' = handles k'"
        "vm k'' = unmap_range (vm k') p n" "views k'' = (views k')(p := None, p + n div 2 := None)"
        by (rule win_kernel.win_deallocate_ok[OF k(1) s(1-3)])
      then show ?thesis using 2(8) s Inr res unmap_same_outside[OF s(6,5)]
        by (intro exI[of _ r] exI[of _ k']) auto
    qed
  qed
qed (use win_kernel.win_reserve_leak[OF k n] in blast)

theorem win_allocate_mirrors_witness:
  "(\<exists>p k'. win_allocate_mirrored True (win_sim_sys 4) 8 (win_sim_start 4 100) = Inr (Inr p, k') \<and>
      mirrored_at (wis_vm k') p 8 \<and> wis_handles k' = wis_handles (win_sim_start 4 100)) \<and>
   (\<exists>k'. win_allocate_mirrored True (win_sim_sys 4) 8 (win_sim_start 4 6) = Inr (Inl Oom, k') \<and>
      wis_handles (win_sim_start 4 6) 1 = None \<and> wis_handles k' 1 \<noteq> None)"
proof -
  let ?k = "win_sim_start 4 6" and ?l = "win_sim_start 4 100"
  have ok: "win_sim_ok 4 ?k" "win_sim_ok 4 ?l" by (simp_all add: win_sim_ok_def win_sim_start_def isize_bound_def)
  have n: "0 < (8 :: nat)" "2 * win_allocation_granularity (win_sim_sys 4) dvd 8" "8 < usize_bound"
    by (simp_all add: win_sim_gran usize_bound_def)
  have "\<exists>p k'. win_allocate_mirrored True (win_sim_sys 4) 8 ?l = Inr (Inr p, k') \<and>
      mirrored_at (wis_vm k') p 8 \<and> wis_handles k' = wis_handles ?l"
    using conjunct1[OF win_allocate_mirrors[OF win_sim_kernel ok(2) n, of True]] win_sim_success by auto
  moreover have "CreateFileMappingW (win_sim_sys 4) (drop_bit 32 (8 div 2) mod 4294967296) (8 div 2 mod 4294967296) ?k
      = (1, snd (win_sim_create 0 4 ?k))"
    by (simp add: win_sim_sys_def win_sim_create_def win_sim_start_def)
  moreover have "VirtualAlloc (win_sim_sys 4) 8 (snd (win_sim_create 0 4 ?k)) = (0, snd (win_sim_create 0 4 ?k))"
    by (simp add: win_sim_sys_def win_sim_create_def win_sim_alloc_def win_sim_start_def)
  ultimately show ?thesis using conjunct2[OF win_allocate_mirrors[OF win_sim_kernel ok(1) n, of True]] by auto
qed

text \<open>
  C16: the macOS \<open>allocate_mirrored\<close>. Either the region is mirrored and fresh, everything else is
  untouched, \<open>deallocate_mirrored\<close> restores the address space, and one handle of a memory entry stays
  behind; or the first allocation failed and nothing has changed; or a later call failed and the
  address space is what it was, with at most that handle left behind. Only when the call that fails
  is the second allocation, the one that replaces the first half in place, is the error returned
  with the region still allocated: outside that half the address space has it mapped.
\<close>

theorem mac_allocate_mirrors:
  assumes k: "mach_kernel sys ok vm ports" "ok k" and n: "0 < n" "2 * vm_page_size sys dvd n"
  shows "(\<exists>p k'. mac_allocate_mirrored dbg sys n k = Inr (Inr p, k') \<and> ok k' \<and> ports k' = Suc (ports k) \<and>
       region_ok (vm_page_size sys) p n \<and> unmapped (vm k) p n \<and> mirrored_at (vm k') p n \<and>
       same_outside (vm k) (vm k') p n \<and>
       (\<exists>k''. mac_deallocate_mirrored sys p n k' = Inr k'' \<and> ok k'' \<and> ports k'' = Suc (ports k) \<and> vm k'' = vm k)) \<or>
    (\<exists>r p k'. mach_vm_allocate_anywhere sys n k = (r, p, k') \<and> r \<noteq> KERN_SUCCESS \<and>
       mac_allocate_mirrored dbg sys n k = Inr (Inl Oom, k') \<and> ok k' \<and> vm k' = vm k \<and> ports k' = ports k) \<or>
    (\<exists>k'. mac_allocate_mirrored dbg sys n k = Inr (Inl Other, k') \<and> ok k' \<and> vm k' = vm k \<and>
       (ports k' = ports k \<or> ports k' = Suc (ports k))) \<or>
    (\<exists>p f k1 r p' k'. mach_vm_allocate_anywhere sys n k = (KERN_SUCCESS, p, k1) \<and>
       mach_vm_allocate_fixed sys p (n div 2) k1 = (r, p', k') \<and> r \<noteq> KERN_SUCCESS \<and>
       mac_allocate_mirrored dbg sys n k = Inr (Inl Other, k') \<and> ok k' \<and> ports k' = ports k \<and>
       unmapped (vm k) p n \<and> same_outside (map_range (vm k) p n f) (vm k') p (n div 2))"
proof (rule mach_kernel.mac_allocate_cases[OF k n, of dbg], goal_cases)
  case (4 p k')
  obtain k'' where "mac_deallocate_mirrored sys p n k' = Inr k''" "ok k''" "ports k'' = ports k'"
    "vm k'' = unmap_range (vm k') p n" by (rule mach_kernel.mac_deallocate_ok[OF k(1) 4(2,4)])
  then show ?case using 4 unmap_same_outside[OF 4(7,5)] by auto
qed blast+

theorem mac_allocate_mirrors_witness:
  "(\<exists>k'. mac_allocate_mirrored True (mac_sim_sys 4) 8 (mac_sim_start 4 100 5 True) = Inr (Inr 4, k') \<and>
      mirrored_at (ms_vm k') 4 8 \<and> ms_ports k' = 1) \<and>
   (\<exists>k'. mac_allocate_mirrored True (mac_sim_sys 4) 8 (mac_sim_start 4 100 0 True) = Inr (Inl Other, k') \<and>
      ms_vm k' = ms_vm (mac_sim_start 4 100 0 True) \<and> ms_ports k' = 0) \<and>
   (\<exists>k' f. mac_allocate_mirrored True (mac_sim_sys 4) 8 (mac_sim_start 4 100 5 False) = Inr (Inl Other, k') \<and>
      same_outside (map_range (ms_vm (mac_sim_start 4 100 5 False)) 4 8 f) (ms_vm k') 4 4 \<and> ms_vm k' 8 \<noteq> None)"
proof -
  let ?a = "mac_sim_start 4 100 5 True" and ?b = "mac_sim_start 4 100 0 True" and ?c = "mac_sim_start 4 100 5 False"
  have ok: "mac_sim_ok 4 ?a" "mac_sim_ok 4 ?b" "mac_sim_ok 4 ?c" and n: "0 < (8::nat)" "2 * vm_page_size (mac_sim_sys 4) dvd 8"
    by (simp_all add: mac_sim_ok_def mac_sim_start_def isize_bound_def mac_sim_sys_def)
  note run = mac_sim_runs
  have a: "\<exists>k'. mac_allocate_mirrored True (mac_sim_sys 4) 8 ?a = Inr (Inr 4, k')" by (simp add: run)
  have b: "\<exists>k'. mac_allocate_mirrored True (mac_sim_sys 4) 8 ?b = Inr (Inl Other, k') \<and> ms_ports k' = 0"
    "fst (mach_vm_allocate_fixed (mac_sim_sys 4) 4 4 (snd (snd (mach_vm_allocate_anywhere (mac_sim_sys 4) 8 ?b)))) = KERN_SUCCESS"
    "fst (snd (mach_vm_allocate_anywhere (mac_sim_sys 4) 8 ?b)) = 4"
    by (simp_all add: run)
  have c: "\<exists>k'. mac_allocate_mirrored True (mac_sim_sys 4) 8 ?c = Inr (Inl Other, k') \<and> ms_vm k' 8 \<noteq> None"
    "ms_vm ?c 8 = None" "fst (snd (mach_vm_allocate_anywhere (mac_sim_sys 4) 8 ?c)) = 4"
    by (simp_all add: run map_range_def)
  show ?thesis
    using mac_allocate_mirrors[OF mac_sim_kernel ok(1) n, of True] mac_allocate_mirrors[OF mac_sim_kernel ok(2) n, of True]
      mac_allocate_mirrors[OF mac_sim_kernel ok(3) n, of True] a b c by (auto simp: mac_sim_start_def)
qed

section \<open>The size arithmetic at its boundary\<close>

text \<open>
  C34: \<open>resize_default\<close> of an empty deque to \<open>2 ^ 63 + 1\<close> elements, a call without \<open>unsafe\<close>. A debug
  build panics on the overflow of \<open>2 * new_capacity\<close>. In a release build the product wraps to 2,
  memory for two elements is allocated, the reservation counts as successful, and the loop that
  relies on it writes past the end of the mapping.
\<close>

theorem resize_default_release_overflow:
  assumes "cfg_ok c" "0 < esize c"
    and "allocate_mirrored (plat c) (alloc_bytes c (2 * esize c)) (os w) = Inr (Inr p, s)"
    and "p + alloc_bytes c (2 * esize c) < isize_bound"
  shows "resize_default c (Some v) (isize_bound + 1) (deque_new c) w =
    (if debug c then panic ArithmeticOverflow else undef OutOfBounds)"
  by (rule resize_default_overrun[OF assms])

theorem resize_default_release_overflow_witness:
  "resize_default (cfg1\<lparr>debug := False\<rparr>) (Some 0) 9223372036854775809 (deque_new (cfg1\<lparr>debug := False\<rparr>)) fresh_world
     = undef OutOfBounds"
proof -
  let ?c = "cfg1\<lparr>debug := False\<rparr>"
  have c: "cfg_ok ?c" "0 < esize ?c" using small_cfg_ok[of 1 True] by (simp_all add: cfg_ok_def)
  have b: "alloc_bytes ?c (2 * esize ?c) = 8" by (simp add: alloc_bytes_def alloc_units_def even_up_def)
  have "\<exists>s. allocate_mirrored (plat ?c) 8 (os fresh_world) = Inr (Inr 4, s)"
    by (simp add: fresh_world_def world_at_def run_simps sim_simps)
  then obtain s where s: "allocate_mirrored (plat ?c) (alloc_bytes ?c (2 * esize ?c)) (os fresh_world) = Inr (Inr 4, s)"
    unfolding b by blast
  have p: "4 + alloc_bytes ?c (2 * esize ?c) < isize_bound" unfolding b by (simp add: isize_bound_def)
  from resize_default_release_overflow[OF c s p, of 0] show ?thesis by (simp add: isize_bound_def)
qed

text \<open>
  What happens without \<open>head_room\<close>: eight-byte elements on pages of four bytes, with the region at
  address 4. The platform keeps its contract, but the step of the head in front of the buffer wraps
  below the address 0 and is taken for one past the end.
\<close>

abbreviation cfg8 :: "bool \<Rightarrow> (nat, sim \<times> (nat \<times> nat) set) cfg" where
  "cfg8 dbg \<equiv> (small_cfg True 8)\<lparr>debug := dbg\<rparr>"

lemma low_region_capacity:
  "\<exists>b w. with_capacity (cfg8 dbg) 1 fresh_world = Inr (\<lparr>eptr = 4, elen = 0, buf = b\<rparr>, w) \<and>
     bptr b = 4 \<and> blen b = 2 \<and> length (cells b) = 8"
proof -
  have "\<exists>b w. uninitialized (cfg8 dbg) 2 fresh_world = Inr (Inr b, w) \<and> bptr b = 4 \<and> blen b = 2 \<and> length (cells b) = 8"
    by (cases dbg) (simp_all add: uninitialized_def size_in_bytes_def no_required_allocation_units_def fresh_world_def
        world_at_def run_simps sim_simps)
  then show ?thesis by (auto simp: with_capacity_def run_simps)
qed

lemma low_region_push_front:
  assumes b: "bptr b = 4" "blen b = 2" "length (cells b) = 8"
  shows "try_push_front (cfg8 dbg) v \<lparr>eptr = 4, elen = 0, buf = b\<rparr> w =
    (if dbg then panic DebugAssertFailed else undef OutOfBounds)"
proof -
  let ?d = "\<lparr>eptr = 4, elen = 0, buf = b\<rparr>"
  have e: "esize (cfg8 dbg) = 8" "debug (cfg8 dbg) = dbg" by (simp_all add: small_cfg_def)
  have s: "size_in_bytes (cfg8 dbg) 2 = Inr 16"
    by (cases dbg) (simp_all add: size_in_bytes_def no_required_allocation_units_def run_simps sim_simps)
  have o: "ptr_offset (cfg8 dbg) 4 (- 1) = 18446744073709551612"
    by (simp add: ptr_offset_def of_isize_def usize_bound_def sim_simps)
  have f: "try_reserve_if_full (cfg8 dbg) ?d w = Inr (Inr (), ?d, w)"
    using b by (simp add: try_reserve_if_full_def is_full_def deque_len_def capacity_def debug_assert_def)
  have l: "deque_len (cfg8 dbg) ?d = Inr 0" by (simp add: deque_len_def debug_assert_def)
  have "move_head_unchecked (cfg8 dbg) ?d (- 1)
      = (if dbg then panic DebugAssertFailed else Inr (?d\<lparr>eptr := 18446744073709551604, elen := 1\<rparr>))"
    unfolding move_head_unchecked_def l e using b s o
    by (simp add: capacity_def run_simps isize_arith_def isize_fits_def to_isize_def of_isize_def in_bounds_def)
  then show ?thesis unfolding try_push_front_def f
    using b by (simp add: slice_get_mut_def ptr_write_def in_mapping_def e)
qed

lemma low_region_head_wraps:
  "\<exists>d w. with_capacity (cfg8 dbg) 1 fresh_world = Inr (d, w) \<and>
     try_push_front (cfg8 dbg) v d w = (if dbg then panic DebugAssertFailed else undef OutOfBounds)"
  using low_region_capacity[of dbg] low_region_push_front[where dbg = dbg and v = v] by blast

section \<open>Histories\<close>

text \<open>A history of one call: the front of the wrapped deque is popped.\<close>

lemma wrapped_history:
  obtains p where "history cfg1 (wrapped_deque, world1) [] [10] (wrapped_deque\<lparr>eptr := p, elen := 1\<rparr>, world1)"
proof -
  obtain p where "pop_front cfg1 wrapped_deque = Inr (Some 10, wrapped_deque\<lparr>eptr := p, elen := 1\<rparr>)"
    using pop_front_rep(2)[OF wrapped_rep[of True]] by auto
  then have "exec cfg1 PopFront wrapped_deque world1 = Inr ([10], wrapped_deque\<lparr>eptr := p, elen := 1\<rparr>, world1)"
    by simp
  from history.call[OF history.start _ this] show ?thesis using that by (simp add: call_ok_def)
qed

text \<open>
  C3: after any history of calls the deque still represents a list, owns the memory it should and
  nobody else's, and every value is accounted for: what was in the deque or has been moved in since
  is what has been given back, what is in the deque and what has been dropped. And whatever admissible
  call comes next, it returns to such a state or panics; it never ends in undefined behaviour.
\<close>

theorem history_invariant:
  assumes e: "deque_env c os_ok owned" and h: "holds c os_ok owned d w xs"
    and r: "history c (d, w) ins outs (d', w')"
  shows "(\<exists>ys D. holds c os_ok owned d' w' ys \<and> others c owned d' w' = others c owned d w \<and>
       dropped w' = dropped w @ (if needs_drop c then D else []) \<and>
       mset ins + mset xs = mset outs + mset ys + mset D) \<and>
    (\<forall>p. call_ok c d' p \<longrightarrow> (\<exists>e. exec c p d' w' = panic e) \<or>
       (\<exists>ret d'' w''. exec c p d' w' = Inr (ret, d'', w'') \<and>
          history c (d, w) (ins @ op_ins p) (outs @ ret) (d'', w'')))"
proof (intro conjI allI impI)
  note a = deque_env.history_accounts[OF e r, of xs, simplified, OF h]
  then show "\<exists>ys D. holds c os_ok owned d' w' ys \<and> others c owned d' w' = others c owned d w \<and>
       dropped w' = dropped w @ (if needs_drop c then D else []) \<and>
       mset ins + mset xs = mset outs + mset ys + mset D" by (simp add: accounts_def)
  fix p assume p: "call_ok c d' p"
  show "(\<exists>e. exec c p d' w' = panic e) \<or>
       (\<exists>ret d'' w''. exec c p d' w' = Inr (ret, d'', w'') \<and>
          history c (d, w) (ins @ op_ins p) (outs @ ret) (d'', w''))"
    using deque_env.accounts_call[OF e a p] history.call[OF r p] by blast
qed

theorem history_invariant_witness:
  "\<exists>p ys D. sim_holds (wrapped_deque\<lparr>eptr := p, elen := 1\<rparr>) world1 ys \<and>
    mset [10, 20] = mset [10] + mset ys + mset D"
proof -
  obtain p where p: "history cfg1 (wrapped_deque, world1) [] [10] (wrapped_deque\<lparr>eptr := p, elen := 1\<rparr>, world1)"
    by (rule wrapped_history)
  have "mset [] + mset [10, 20] = mset [10, 20 :: nat]" by simp
  then show ?thesis using history_invariant[OF env1 holds1 p, THEN conjunct1] by (metis empty_neutral(1) mset.simps(1))
qed

text \<open>
  C4: a whole lifetime. A deque that is created empty, used through any history and dropped gives
  back every value exactly once, to the caller or to its destructor, and every byte it allocated.
\<close>

theorem lifetime_accounts:
  assumes e: "deque_env c os_ok owned" and w: "os_ok (os w)" and nd: "needs_drop c"
    and r: "history c (deque_new c, w) ins outs (d', w')"
  shows "\<exists>w'' D. deque_drop c d' w' = Inr w'' \<and> os_ok (os w'') \<and> owned (os w'') = owned (os w) \<and>
    dropped w'' = dropped w @ D \<and> mset ins = mset outs + mset D"
proof -
  have h: "holds c os_ok owned (fst (deque_new c, w)) (snd (deque_new c, w)) []"
    using deque_env.new_holds[OF e w] by simp
  obtain ys D where a: "holds c os_ok owned d' w' ys" "others c owned d' w' = owned (os w)"
    "dropped w' = dropped w @ D" "mset ins = mset outs + mset ys + mset D"
    using deque_env.history_accounts[OF e r h] nd by (auto simp: accounts_def others_def)
  obtain s where s: "deque_drop c d' w' = Inr ((drop_vals c ys w')\<lparr>os := s\<rparr>)" "os_ok s" "owned s = others c owned d' w'"
    using deque_env.deque_drop_ok[OF e a(1)] .
  show ?thesis
    using s a nd by (intro exI[of _ "(drop_vals c ys w')\<lparr>os := s\<rparr>"] exI[of _ "D @ ys"]) (simp add: drop_vals_def)
qed

text \<open>Four slots are reserved, two values pushed and one popped.\<close>

lemma fresh_reserve: "\<exists>d w. reserve cfg1 (deque_new cfg1) 4 fresh_world = Inr (d, w)"
proof -
  have "\<exists>b w. uninitialized cfg1 8 fresh_world = Inr (Inr b, w) \<and> blen b = 8"
    by (simp add: uninitialized_def size_in_bytes_def no_required_allocation_units_def fresh_world_def world_at_def
        run_simps sim_simps)
  then show ?thesis
    by (auto simp: reserve_def try_reserve_def grow_policy_def deque_len_def deque_new_def buffer_new_def capacity_def
        empty_len_def checked_add_def saturating_mul_def reserve_capacity_def run_simps ptr_copy_nonoverlapping_def
        buffer_drop_def buf_is_empty_def)
qed

lemma fresh_push:
  assumes "history cfg1 st ins outs (d, w)" "sim_holds d w xs" "length xs < 4" "4 \<le> capacity d"
  obtains d' w' where "history cfg1 st (ins @ [v]) outs (d', w')" "sim_holds d' w' (xs @ [v])" "4 \<le> capacity d'"
proof (rule deque_env.try_push_back_cases[OF env1 assms(2), of v], goal_cases)
  case (4 d' s)
  have "exec cfg1 (PushBack v) d w = Inr ([], d', w\<lparr>os := s\<rparr>)" using 4 by (simp add: push_back_def)
  moreover have "call_ok cfg1 d (PushBack v)"
    using rep_len[OF holds_rep[OF assms(2)]] assms(3) by (simp add: call_ok_def isize_max_def isize_bound_def)
  ultimately have "history cfg1 st (ins @ op_ins (PushBack v)) (outs @ []) (d', w\<lparr>os := s\<rparr>)"
    by (rule history.call[OF assms(1), rotated])
  then show ?case using that 4 assms(4) by auto
qed (use assms in \<open>simp_all add: isize_max_def isize_bound_def\<close>)

lemma fresh_history:
  obtains d w where "history cfg1 (deque_new cfg1, fresh_world) [7, 8] [7] (d, w)" "sim_holds d w [8]" "4 \<le> capacity d"
proof -
  have h: "sim_holds (deque_new cfg1) fresh_world []" using fresh_state by (rule queue_state_holds)
  obtain d0 w0 where r: "reserve cfg1 (deque_new cfg1) 4 fresh_world = Inr (d0, w0)" using fresh_reserve by blast
  have d0: "sim_holds d0 w0 []" "4 \<le> capacity d0"
    by (rule deque_env.try_reserve_cases[OF env1 h, of 4];
        use r in \<open>simp add: reserve_def usize_bound_def fits_def capacity_new\<close>)+
  have "exec cfg1 (Reserve 4) (deque_new cfg1) fresh_world = Inr ([], d0, w0)" using r by simp
  moreover have "elen (deque_new cfg1) = 0" by (simp add: deque_new_def Let_def)
  then have "call_ok cfg1 (deque_new cfg1) (Reserve 4)"
    by (simp add: call_ok_def room_def usize_bound_def fits_def capacity_new)
  ultimately have "history cfg1 (deque_new cfg1, fresh_world) ([] @ op_ins (Reserve 4)) ([] @ []) (d0, w0)"
    by (rule history.call[OF history.start, rotated])
  then have h0: "history cfg1 (deque_new cfg1, fresh_world) [] [] (d0, w0)" by simp
  obtain d1 w1 where 1: "history cfg1 (deque_new cfg1, fresh_world) [7] [] (d1, w1)" "sim_holds d1 w1 [7]" "4 \<le> capacity d1"
    using fresh_push[OF h0 d0(1) _ d0(2), of 7] by auto
  obtain d2 w2 where 2: "history cfg1 (deque_new cfg1, fresh_world) [7, 8] [] (d2, w2)" "sim_holds d2 w2 [7, 8]" "4 \<le> capacity d2"
    using fresh_push[OF 1(1,2) _ 1(3), of 8] by auto
  obtain p where p: "pop_front cfg1 d2 = Inr (Some 7, d2\<lparr>eptr := p, elen := 1\<rparr>)" "rep cfg1 (d2\<lparr>eptr := p, elen := 1\<rparr>) [8]"
    using pop_front_rep(2)[OF holds_rep[OF 2(2)]] by auto
  have "history cfg1 (deque_new cfg1, fresh_world) ([7, 8] @ op_ins PopFront) ([] @ [7]) (d2\<lparr>eptr := p, elen := 1\<rparr>, w2)"
    by (rule history.call[OF 2(1)]) (use p(1) in \<open>simp_all add: call_ok_def\<close>)
  then show ?thesis using that[of "d2\<lparr>eptr := p, elen := 1\<rparr>" w2] p(2) 2(2,3) by (simp add: holds_def capacity_def)
qed

theorem lifetime_accounts_witness:
  "\<exists>d w' w''. history cfg1 (deque_new cfg1, fresh_world) [7, 8] [7] (d, w') \<and> sim_owned (os w') \<noteq> {} \<and>
     deque_drop cfg1 d w' = Inr w'' \<and> sim_owned (os w'') = {} \<and> dropped w'' = [8]"
proof -
  have w: "sim_tracked (os fresh_world)" "needs_drop cfg1"
    by (simp_all add: fresh_world_def world_at_def sim_start_ok isize_bound_def)
  obtain d w1 where d: "history cfg1 (deque_new cfg1, fresh_world) [7, 8] [7] (d, w1)" "sim_holds d w1 [8]" "4 \<le> capacity d"
    by (rule fresh_history)
  have "regions cfg1 (buf d) \<noteq> {}" "regions cfg1 (buf d) \<subseteq> sim_owned (os w1)"
    using d(2,3) by (auto simp: regions_def capacity_def holds_def)
  then have owns: "sim_owned (os w1) \<noteq> {}" by blast
  obtain w2 D where w2: "deque_drop cfg1 d w1 = Inr w2" "sim_owned (os w2) = sim_owned (os fresh_world)"
    "dropped w2 = dropped fresh_world @ D" "mset [7, 8] = mset [7] + mset D"
    using lifetime_accounts[OF env1 w d(1)] by blast
  have empty: "sim_owned (os fresh_world) = {}" "dropped fresh_world = []" by (simp_all add: fresh_world_def world_at_def)
  have "D = [8]" using w2(4) by simp
  then show ?thesis using d(1) owns empty w2 by (intro exI[of _ d] exI[of _ w1] exI[of _ w2]) simp
qed

section \<open>The deque as a slice\<close>

text \<open>
  C32: equality, ordering and hashing see the elements and nothing else: where the head stands, the
  seam and the capacity make no difference. The order is lexicographic: the first pair that does not
  compare as equal decides, incomparable pairs included, and where one list runs out the shorter one
  is less. The hash is that of the length and then of the elements in order. Given an element order
  that agrees with the element equality and a hash that respects it, deques compare as equal exactly
  when they are equal, that is when their elements are, in order, and equal deques hash alike.
\<close>

theorem comparisons_see_elements:
  assumes "rep c d xs" "rep c d' ys" "cmp_agrees eq cmp" "\<And>x y st. eq x y \<Longrightarrow> hash x st = hash y st"
  shows "\<exists>b r h h'. deque_eq c c eq d d' = Inr b \<and> deque_partial_cmp c cmp d d' = Inr r \<and>
    deque_hash c write_usize hash d st = Inr h \<and> deque_hash c write_usize hash d' st = Inr h' \<and>
    (b \<longleftrightarrow> list_all2 eq xs ys) \<and> (r = Some Equal \<longleftrightarrow> b) \<and> (b \<longrightarrow> h = h') \<and>
    (\<forall>i < min (length xs) (length ys). (\<forall>j < i. cmp (xs ! j) (ys ! j) = Some Equal) \<longrightarrow>
       cmp (xs ! i) (ys ! i) \<noteq> Some Equal \<longrightarrow> r = cmp (xs ! i) (ys ! i)) \<and>
    ((\<forall>j < min (length xs) (length ys). cmp (xs ! j) (ys ! j) = Some Equal) \<longrightarrow>
       r = Some (if length xs < length ys then Less else if length xs = length ys then Equal else Greater)) \<and>
    h = fold hash xs (write_usize (length xs) st)"
  using deque_traits_rep(1,2)[OF assms(1,2)] slice_cmp_Equal[OF assms(3)]
    deque_traits_rep(3)[OF assms(1,2), of write_usize hash st] deque_traits_rep(3)[OF assms(2,1), of write_usize hash st]
    slice_hash_eq[of eq xs ys hash write_usize st, OF _ assms(4)]
    slice_cmp_first_difference[of _ xs ys cmp] slice_cmp_common_part[of xs ys cmp]
  by (simp add: slice_eq_list_all2 slice_hash_def)

theorem comparisons_see_elements_witness:
  "deque_eq cfg1 cfg1 (=) wrapped_deque quad_deque = Inr False \<and>
   deque_partial_cmp cfg1 (\<lambda>x y. Some (if x < y then Less else if x = y then Equal else Greater)) wrapped_deque quad_deque
     = Inr (Some Greater) \<and>
   deque_hash cfg1 (\<lambda>n st. st + n) (\<lambda>x st. st * 31 + x) wrapped_deque 0 = Inr 2252"
proof -
  let ?cmp = "\<lambda>x y :: nat. Some (if x < y then Less else if x = y then Equal else Greater)"
  have agrees: "cmp_agrees (=) ?cmp" by (auto simp: cmp_agrees_def)
  have "\<not> list_all2 (=) [10, 20] [1, 2, 3, 4 :: nat]" by simp
  then show ?thesis
    using comparisons_see_elements[OF wrapped_rep[of True] quad_rep agrees, of "\<lambda>x st. st * 31 + x" "\<lambda>n st. st + n" 0]
    by (force dest: spec[of _ 0])
qed

text \<open>
  C33: writing through \<open>BufMut\<close>. \<open>bytes_mut\<close> panics because memory ran out, or returns a slice of free
  space that is not empty; after filling any part of it and advancing by as much, without another
  allocation, the deque holds the old elements followed by the new ones.
\<close>

theorem bytes_write_advance:
  assumes e: "deque_env c os_ok owned" and h: "holds c os_ok owned d w xs"
    and k: "length xs = capacity d \<longrightarrow> room c d (length xs) 64"
  shows "(\<exists>e. bytes_mut c d w = panic (CalledUnwrapOnErr e)) \<or>
    (\<exists>p n d' s. bytes_mut c d w = Inr ((p, n), d', w\<lparr>os := s\<rparr>) \<and> 0 < n \<and>
       (\<forall>vs. list_all (val_ok c) vs \<longrightarrow> length vs \<le> n \<longrightarrow>
          (\<exists>d1 d2. write_bytes c p vs d' = Inr d1 \<and>
             advance_mut c (length vs) d1 (w\<lparr>os := s\<rparr>) = Inr (d2, w\<lparr>os := s\<rparr>) \<and>
             holds c os_ok owned d2 (w\<lparr>os := s\<rparr>) (xs @ vs) \<and>
             others c owned d2 (w\<lparr>os := s\<rparr>) = others c owned d w)))"
proof (rule deque_env.bytes_mut_cases[OF e h k])
  fix n d' s
  assume s: "bytes_mut c d w = Inr ((ptr_offset c (eptr d') (int (length xs)), n), d', w\<lparr>os := s\<rparr>)"
    "holds c os_ok owned d' (w\<lparr>os := s\<rparr>) xs" "others c owned d' (w\<lparr>os := s\<rparr>) = others c owned d w"
    "0 < n" "length xs + n = capacity d'"
  have "\<exists>d1 d2. write_bytes c (ptr_offset c (eptr d') (int (length xs))) vs d' = Inr d1 \<and>
      advance_mut c (length vs) d1 (w\<lparr>os := s\<rparr>) = Inr (d2, w\<lparr>os := s\<rparr>) \<and>
      holds c os_ok owned d2 (w\<lparr>os := s\<rparr>) (xs @ vs) \<and> others c owned d2 (w\<lparr>os := s\<rparr>) = others c owned d w"
    if "list_all (val_ok c) vs" "length vs \<le> n" for vs
    by (rule write_advance[OF s(2) _ that(1)]) (use that(2) s(3,5) in auto)
  then show ?thesis using s(1,4) by blast
qed simp

theorem bytes_write_advance_witness:
  "(\<exists>e. bytes_mut cfg1 wrapped_deque world1 = panic (CalledUnwrapOnErr e)) \<or>
   (\<exists>p n d' s d1 d2. bytes_mut cfg1 wrapped_deque world1 = Inr ((p, n), d', world1\<lparr>os := s\<rparr>) \<and>
      write_bytes cfg1 p [30] d' = Inr d1 \<and>
      advance_mut cfg1 1 d1 (world1\<lparr>os := s\<rparr>) = Inr (d2, world1\<lparr>os := s\<rparr>) \<and>
      sim_holds d2 (world1\<lparr>os := s\<rparr>) [10, 20, 30])"
proof -
  have "length [10, 20 :: nat] = capacity wrapped_deque \<longrightarrow> room cfg1 wrapped_deque (length [10, 20 :: nat]) 64" by simp
  from bytes_write_advance[OF env1 holds1 this] show ?thesis
  proof (elim disjE exE conjE)
    fix p n d' s
    assume b: "bytes_mut cfg1 wrapped_deque world1 = Inr ((p, n), d', world1\<lparr>os := s\<rparr>)" "0 < n"
      and a: "\<forall>vs. list_all (val_ok cfg1) vs \<longrightarrow> length vs \<le> n \<longrightarrow>
        (\<exists>d1 d2. write_bytes cfg1 p vs d' = Inr d1 \<and>
           advance_mut cfg1 (length vs) d1 (world1\<lparr>os := s\<rparr>) = Inr (d2, world1\<lparr>os := s\<rparr>) \<and>
           sim_holds d2 (world1\<lparr>os := s\<rparr>) ([10, 20] @ vs) \<and>
           others cfg1 sim_owned d2 (world1\<lparr>os := s\<rparr>) = others cfg1 sim_owned wrapped_deque world1)"
    have "list_all (val_ok cfg1) [30]" "length [30 :: nat] \<le> n" using b(2) by simp_all
    then show ?thesis using b(1) a[rule_format, of "[30]"] by fastforce
  qed blast
qed

section \<open>Programs with several deques\<close>

text \<open>One-byte elements of any type on the simulated Linux, in a process that owns nothing.\<close>

definition sim_cfg :: "bool \<Rightarrow> ('a, sim \<times> (nat \<times> nat) set) cfg" where
  "sim_cfg drops =
     \<lparr>plat = linux_platform (sim_sys 4), debug = True, esize = 1, ealign = 1, needs_drop = drops, zval = undefined\<rparr>"

definition sim_world :: "('a, sim \<times> (nat \<times> nat) set) world" where
  "sim_world = \<lparr>os = (sim_start 4 100, {}), dropped = []\<rparr>"

lemma sim_cfg_simps [simp]: "needs_drop (sim_cfg b) = b" "esize (sim_cfg b) = 1" "val_ok (sim_cfg b) v"
  by (simp_all add: sim_cfg_def val_ok_def)

lemma sim_env: "deque_env (sim_cfg b) sim_tracked sim_owned"
proof -
  have "cfg_ok (sim_cfg b)"
    by (simp add: cfg_ok_def usize_bound_def sim_cfg_def linux_platform_def linux_allocation_granularity_def sim_sys_def)
  moreover have "mirrored_platform (plat (sim_cfg b)) sim_tracked sim_owned"
    using sim_kernel.tracked.mirrored_platform_axioms by (simp add: sim_cfg_def linux_platform_def)
  ultimately show ?thesis by (intro deque_env_page) (simp_all add: sim_cfg_def linux_platform_def linux_allocation_granularity_def sim_sys_def)
qed

lemma sim_world_simps [simp]: "sim_tracked (os sim_world)" "dropped sim_world = []" "sim_owned (os sim_world) = {}"
  by (simp_all add: sim_world_def sim_start_ok isize_bound_def)

lemma sim_fits: "n \<le> 200000 \<Longrightarrow> fits (sim_cfg b) n"
  by (simp add: fits_def usize_bound_def sim_cfg_def linux_platform_def linux_allocation_granularity_def sim_sys_def)

text \<open>
  C1: A program over any number of deques, made of the public calls, against its reading on lists.
  If the reference goes on, the run panics because memory ran out, or ends with every variable bound
  to a deque that holds its list; no two deques share memory, the process owns what it owned before
  and their regions and nothing else, and exactly the values the reference drops have been dropped.
  If the reference panics, the run panics the same way (or because memory ran out). Where the
  reference is undetermined nothing is claimed.
\<close>

theorem programs_refine:
  assumes "deque_env c os_ok owned" "os_ok (os w)" "\<And>v. val_ok c v" "fits c (2 * N)"
  shows "case play (needs_drop c) N ks (Map.empty, dropped w) of
      Continue (st, log) \<Rightarrow>
        (\<exists>q. run c ks (Map.empty, w) = panic q \<and> memory_panic q) \<or>
        (\<exists>m w'. run c ks (Map.empty, w) = Inr (m, w') \<and>
           (\<forall>x. rel_option (\<lambda>d (xs, g). holds c os_ok owned d w' xs \<and> g \<le> capacity d) (m x) (st x)) \<and>
           (\<forall>x y d e. m x = Some d \<longrightarrow> m y = Some e \<longrightarrow> x \<noteq> y \<longrightarrow> regions c (buf d) \<inter> regions c (buf e) = {}) \<and>
           owned (os w') = owned (os w) \<union> (\<Union>d \<in> ran m. regions c (buf d)) \<and>
           (needs_drop c \<longrightarrow> mset (dropped w') = mset log))
    | Abort p \<Rightarrow> \<exists>q. run c ks (Map.empty, w) = panic q \<and> (q = p \<or> memory_panic q)
    | Undetermined \<Rightarrow> True"
proof -
  have "arena c os_ok owned (owned (os w)) (Map.empty, dropped w) (Map.empty, w)" by (rule arena_start) (rule assms(2))
  from deque_env.run_refines[OF assms(1) this assms(3,4), of ks] show ?thesis
    by (rule progress_outcome_spelled)
qed

definition small_program :: "nat cmd list" where
  "small_program = [Make ''a'' (Sdeq [1, 2]), Let_Clone ''b'' ''a'', Do ''a'' (Pop_Front (Some 1)), Drop ''b'']"

theorem programs_refine_witness:
  "(\<exists>q. run (sim_cfg True) small_program (Map.empty, sim_world) = panic q \<and> memory_panic q) \<or>
   (\<exists>m w'. run (sim_cfg True) small_program (Map.empty, sim_world) = Inr (m, w') \<and>
      (\<forall>x. rel_option (\<lambda>d (xs, g). holds (sim_cfg True) sim_tracked sim_owned d w' xs \<and> g \<le> capacity d) (m x)
         ([''a'' \<mapsto> ([2], 0)] x)) \<and>
      (\<forall>x y d e. m x = Some d \<longrightarrow> m y = Some e \<longrightarrow> x \<noteq> y \<longrightarrow>
         regions (sim_cfg True) (buf d) \<inter> regions (sim_cfg True) (buf e) = {}) \<and>
      sim_owned (os w') = (\<Union>d \<in> ran m. regions (sim_cfg True) (buf d)) \<and>
      mset (dropped w') = mset [1, 1, 2])"
proof -
  have p: "play True 100 small_program (Map.empty, []) = Continue ([''a'' \<mapsto> ([2], 0)], [1, 1, 2])"
    by (auto simp: small_program_def given_def ref_expect_def first_def Option.is_none_def fun_eq_iff)
  have "fits (sim_cfg True) (2 * 100)" by (rule sim_fits) simp
  from programs_refine[OF sim_env sim_world_simps(1) sim_cfg_simps(3) this, of small_program,
      unfolded sim_world_simps sim_cfg_simps(1) p progress.case prod.case Un_empty_left simp_thms]
  show ?thesis .
qed

text \<open>
  C2: Type soundness. A program the typing rules accept (variables used as the compiler allows, sizes
  below \<open>N\<close>, none of the two calls that are unsound) never ends in undefined behaviour: it panics, or
  ends with well-formed deques, as many and as long as its type says, and with no other memory.
\<close>

theorem typed_programs_sound:
  assumes "deque_env c os_ok owned" "os_ok (os w)" "\<And>v. val_ok c v" "fits c (2 * N)"
    and "program_type (needs_drop c) N ks Map.empty = Some \<Gamma>"
  shows "(\<exists>p. run c ks (Map.empty, w) = panic p) \<or>
    (\<exists>m w'. run c ks (Map.empty, w) = Inr (m, w') \<and>
       (\<forall>x. rel_option (\<lambda>d n. wf_deque c d \<and> elen d \<le> n) (m x) (\<Gamma> x)) \<and>
       owned (os w') = owned (os w) \<union> (\<Union>d \<in> ran m. regions c (buf d)))"
  using deque_env.typed_program_runs[OF assms] by (simp add: deques_typed_def)

theorem typed_programs_sound_witness:
  "(\<exists>p. run (sim_cfg True) [Make ''a'' (Sdeq [1, 2 :: nat]), Make ''b'' New, Move_Items ''a'' ''b'' True, Do ''b'' (Insert_At 1 7)]
       (Map.empty, sim_world) = panic p) \<or>
   (\<exists>m w'. run (sim_cfg True) [Make ''a'' (Sdeq [1, 2 :: nat]), Make ''b'' New, Move_Items ''a'' ''b'' True, Do ''b'' (Insert_At 1 7)]
       (Map.empty, sim_world) = Inr (m, w') \<and>
      (\<forall>x. rel_option (\<lambda>d n. wf_deque (sim_cfg True) d \<and> elen d \<le> n) (m x) ([''b'' \<mapsto> 3] x)) \<and>
      sim_owned (os w') = (\<Union>d \<in> ran m. regions (sim_cfg True) (buf d)))"
proof -
  let ?ks = "[Make ''a'' (Sdeq [1, 2 :: nat]), Make ''b'' New, Move_Items ''a'' ''b'' True, Do ''b'' (Insert_At 1 7)]"
  have "fits (sim_cfg True) (2 * 100)" by (rule sim_fits) simp
  moreover have "program_type (needs_drop (sim_cfg True)) 100 ?ks Map.empty = Some [''b'' \<mapsto> 3]"
    by (simp add: using1_def using2_def Option.is_none_def fun_eq_iff)
  ultimately show ?thesis
    by (rule typed_programs_sound[OF sim_env sim_world_simps(1) sim_cfg_simps(3), unfolded sim_world_simps(3) Un_empty_left])
qed

text \<open>
  C5: The unit tests of the crate on integers, and the start of the sanitizer run, on any platform with
  the contract: each test passes, drops what it counts, and leaves no memory behind; those marked
  \<open>should_panic\<close> panic with the panic that is meant. The tests that hash do so for every hasher, those
  that rotate for every number of rounds. Memory may run out in any of them.
\<close>

theorem unit_tests_pass:
  assumes "deque_env c os_ok owned" "os_ok (os w)" "dropped w = []" "\<And>v. val_ok c v"
    and "fits c (2 * N)" "1000 \<le> N" "cap \<le> N"
  shows "list_all (clean_run c owned w)
      (plain_tests @ drain_tests @ (if needs_drop c then drop_tests else []) @
       [test_vecdeque_hash write_usize hash seed, test_vecdeque_hash_after_rotation write_usize hash seed rounds,
        test_vecdeque_eq_after_rotation rounds, test_vecdeque_as_slices cap, test_vecdeque_as_mut_slices cap,
        test_vecdeque_param_int]) \<and>
    list_all (panics_as c w IndexOutOfBounds) index_panic_tests \<and>
    list_all (panics_as c w AssertFailed) range_panic_tests"
proof -
  have f: "fits c (2 * 600)" by (rule fits_mono[OF assms(5)]) (use assms(6) in simp)
  note runs = deque_env.passes_runs[OF assms(1-5)] and runs' = deque_env.passes_runs[OF assms(1-4) f]
    and aborts = deque_env.aborts_runs[OF assms(1-4) f]
  have "list_all (clean_run c owned w) plain_tests" "list_all (clean_run c owned w) drain_tests"
    "needs_drop c \<Longrightarrow> list_all (clean_run c owned w) drop_tests"
    "list_all (panics_as c w IndexOutOfBounds) index_panic_tests"
    "list_all (panics_as c w AssertFailed) range_panic_tests"
    using plain_tests_pass[of "needs_drop c"] drain_tests_pass[of "needs_drop c"] drop_tests_pass
      panic_tests_abort[of "needs_drop c"] runs' aborts unfolding list_all_iff by auto
  then show ?thesis
    using hash_tests_pass[OF assms(6)] as_slices_passes[OF assms(6,7)] as_mut_slices_passes[OF assms(6,7)]
      param_tests_pass(1)[OF assms(6)] runs by auto
qed

theorem unit_tests_pass_witness:
  "list_all (clean_run (sim_cfg True) sim_owned sim_world)
     (plain_tests @ drain_tests @ drop_tests @
      [test_vecdeque_hash (+) (\<lambda>x h. h + nat x) 5, test_vecdeque_hash_after_rotation (+) (\<lambda>x h. h + nat x) 5 1024,
       test_vecdeque_eq_after_rotation 1024, test_vecdeque_as_slices 128, test_vecdeque_as_mut_slices 128,
       test_vecdeque_param_int]) \<and>
   list_all (panics_as (sim_cfg True) sim_world IndexOutOfBounds) index_panic_tests \<and>
   list_all (panics_as (sim_cfg True) sim_world AssertFailed) range_panic_tests"
proof -
  have "fits (sim_cfg True) (2 * 1000)" by (rule sim_fits) simp
  from unit_tests_pass[OF sim_env sim_world_simps(1,2) sim_cfg_simps(3) this, of 128 "(+)" "\<lambda>x h. h + nat x" 5 1024]
  show ?thesis unfolding sim_cfg_simps(1) if_True by simp
qed

text \<open>
  C6: The unit tests that run over sizes, for every size and every number of rounds: pushing and popping
  at either end, rotating in both directions, resizing down and up again.
\<close>

theorem sized_tests_pass:
  assumes "deque_env c os_ok owned" "os_ok (os w)" "dropped w = []" "\<And>v. val_ok c v" "fits c (2 * N)" "n < N"
  shows "list_all (clean_run c owned w)
    [test_push_pop_front n, test_push_pop_back n, test_all_head_tails rounds n, test_resize n]"
  using deque_env.passes_runs[OF assms(1-5)] assms(6)
    push_pop_front_passes[of n N] push_pop_back_passes[of n N] all_head_tails_passes[of n N] resize_passes[of n N]
  by simp

theorem sized_tests_pass_witness:
  "list_all (clean_run (sim_cfg False) sim_owned sim_world)
     [test_push_pop_front 128, test_push_pop_back 128, test_all_head_tails 768 128, test_resize 128]"
  by (rule sized_tests_pass[OF sim_env sim_world_simps(1,2) sim_cfg_simps(3), where N = 1000]) (simp_all add: sim_fits)

text \<open>
  C7: The unit tests whose element type is a parameter or irrelevant, for elements of any type, zero-sized
  ones included, and all sizes they are run with. With a destructor, the number of destructor calls is
  the one the tests assert.
\<close>

theorem generic_tests_pass:
  assumes "deque_env c os_ok owned" "os_ok (os w)" "dropped w = []" "\<And>v. val_ok c v" "fits c (2 * N)"
    and "18 * MAX_SAMPLES_PER_FRAME + 1 \<le> N" "n \<le> N" "2 * page + 3 \<le> N"
  shows "list_all (clean_run c owned w)
      [test_vec_extend_zst v, test_zero_sized_values v, test_vec_move_items_zero_sized v,
       test_vec_drain_items_zero_sized v, test_vec_drain_range_zst v, test_drain_filter_zst v,
       test_vec_drain_range str, test_vec_drain_inclusive_range str, vecdeque_parameterized v1 v2 v3 v4,
       test_vecdeque_partial_eq_array v1 v2, test_issue_45 v, test_issue_47 page v, test_issue_57 v,
       test_issue_57_2 v, test_zst v, test_vec_splice_items_zero_sized v] \<and>
    (needs_drop c \<longrightarrow> list_all (clean_run c owned w)
      [test_drop n v, test_clear n v, test_vecdeque_drop_zst v, test_vecdeque_drop_with_pop_zst v,
       test_vecdeque_drop_clear_zst v, test_drop_count v])"
proof -
  note runs = deque_env.passes_runs[OF assms(1-5)]
  have N: "1000 \<le> N" using assms(6) by (simp add: MAX_SAMPLES_PER_FRAME_def)
  show ?thesis
    by (simp add: runs zst_tests_pass[OF N] typed_tests_pass[OF N] issue_45_passes[OF assms(6)]
        issue_47_passes[OF assms(8)] issue_57_passes[OF N]
        issue_57_2_passes[OF N] drop_counts[OF assms(7)] zst_drop_tests_pass[OF N]
        drop_count_passes[OF N])
qed

theorem generic_tests_pass_witness:
  "list_all (clean_run (sim_cfg True) sim_owned sim_world)
     [test_vec_extend_zst (7 :: nat), test_zero_sized_values 7, test_vec_move_items_zero_sized 7,
      test_vec_drain_items_zero_sized 7, test_vec_drain_range_zst 7, test_drain_filter_zst 7,
      test_vec_drain_range id, test_vec_drain_inclusive_range id, vecdeque_parameterized 5 72 64 175,
      test_vecdeque_partial_eq_array 5 72, test_issue_45 7, test_issue_47 4 7, test_issue_57 7,
      test_issue_57_2 7, test_zst 7, test_vec_splice_items_zero_sized 7] \<and>
   list_all (clean_run (sim_cfg True) sim_owned sim_world)
     [test_drop 128 (7 :: nat), test_clear 128 7, test_vecdeque_drop_zst 7, test_vecdeque_drop_with_pop_zst 7,
      test_vecdeque_drop_clear_zst 7, test_drop_count 7]"
proof -
  have "fits (sim_cfg True) (2 * 50000)" by (rule sim_fits) simp
  from generic_tests_pass[OF sim_env sim_world_simps(1,2) sim_cfg_simps(3) this, of 128 4 7 id 5 72 64 175]
  show ?thesis unfolding sim_cfg_simps(1) by (simp add: MAX_SAMPLES_PER_FRAME_def)
qed

end
